(* ===== verification/Prelude.thy ===== *)
theory Prelude
  imports Main "HOL-Library.Word"
begin

text \<open>
  Shared vocabulary of the development: the byte strings every component works on, the
  machine words of the C++ sources, and generic facts about lists, options and words.

  A \<open>std::string\<close> and a \<open>Slice\<close> are both a list of bytes.  A pointer range \<open>[p, limit)\<close> is
  the list of the bytes in it, and a pointer into it is the remaining suffix.
\<close>

unbundle bit_operations_syntax

type_synonym byte = "8 word"
type_synonym bytes = "byte list"
type_synonym u32 = "32 word"
type_synonym u64 = "64 word"

named_theorems codec_simps "round-trip and length laws of the encoders"
named_theorems inv_intros "preservation of component invariants"

subsection \<open>Words\<close>

lemma word_eq_by_bits:
  fixes a b :: "'a::len word"
  assumes "\<And>n. n < LENGTH('a) \<Longrightarrow> bit a n = bit b n"
  shows "a = b"
  using assms by (rule bit_word_eqI)

lemma bit_unat [simp]: "bit (unat (w :: 'a::len word)) n = bit w n"
  by (simp add: bit_unsigned_iff)

lemma unat_less_imp_not_bit:
  fixes w :: "'a::len word"
  assumes "unat w < 2 ^ k" and "k \<le> n"
  shows "\<not> bit w n"
proof -
  have "unat w < 2 ^ n"
    using assms by (meson less_le_trans one_le_numeral power_increasing)
  then have "\<not> bit (unat w) n"
    by (simp add: bit_iff_odd)
  then show ?thesis by simp
qed

lemma unat_drop_bit_word:
  fixes w :: "'a::len word"
  shows "unat (drop_bit n w) = unat w div 2 ^ n"
  by (metis drop_bit_eq_div unat_drop_bit_eq)

lemma unat_drop_bit_less:
  fixes w :: "'a::len word"
  assumes "unat w < 2 ^ n" and "m \<le> n"
  shows "unat (drop_bit m w) < 2 ^ (n - m)"
proof -
  have "(2::nat) ^ n = 2 ^ (n - m) * 2 ^ m"
    using assms(2) by (simp flip: power_add)
  with assms(1) show ?thesis
    by (simp add: unat_drop_bit_word less_mult_imp_div_less)
qed

lemma ucast_byte_ucast:
  fixes w :: "'a::len word"
  assumes "8 \<le> LENGTH('a)"
  shows "(ucast (ucast w :: byte) :: 'a word) = take_bit 8 w"
  using assms by (intro bit_word_eqI) (auto simp: bit_simps)

lemma or_push_take_drop_bit:
  fixes w :: "'a::len word"
  shows "push_bit k (take_bit m (drop_bit k w)) OR push_bit (k + m) (drop_bit (k + m) w) = push_bit k (drop_bit k w)"
proof (rule bit_word_eqI)
  fix n assume "n < LENGTH('a)"
  then show "bit (push_bit k (take_bit m (drop_bit k w)) OR push_bit (k + m) (drop_bit (k + m) w)) n = bit (push_bit k (drop_bit k w)) n"
    by (cases "n < k + m") (auto simp: bit_simps)
qed

lemma or_take_drop_bit:
  fixes w :: "'a::len word"
  shows "take_bit m w OR push_bit m (drop_bit m w) = w"
  using or_push_take_drop_bit [of 0 m w] by simp

lemma bit_numeral_128: "bit (128 :: 'a::semiring_bit_operations) n \<longleftrightarrow> n = 7 \<and> possible_bit TYPE('a) 7"
  using bit_exp_iff [where 'a = 'a, of 7 n] by auto

lemma bit_numeral_127: "bit (127 :: 'a::semiring_bit_operations) n \<longleftrightarrow> n < 7 \<and> possible_bit TYPE('a) n"
  using bit_mask_iff [where 'a = 'a, of 7 n] by (simp add: mask_numeral ac_simps)

lemma take_bit_drop_bit_top:
  fixes w :: "'a::len word"
  shows "LENGTH('a) \<le> k + m \<Longrightarrow> take_bit m (drop_bit k w) = drop_bit k w"
  by (intro bit_word_eqI) (auto simp: bit_simps dest: bit_imp_le_length)

lemma unat_ucast_u32_u64 [simp]: "unat (ucast (v :: u32) :: u64) = unat v"
proof -
  have "unat v < 2 ^ 32" using unsigned_less [of v] by simp
  then show ?thesis
    by (simp add: unsigned_ucast_eq take_bit_nat_eq_self)
qed

lemma word_of_nat_unat_less:
  assumes "n < 2 ^ LENGTH('a)"
  shows "unat (word_of_nat n :: 'a::len word) = n"
  using assms by (simp add: unat_of_nat take_bit_nat_eq_self)

subsection \<open>Lists\<close>

lemma take_append_exact [simp]: "length xs = n \<Longrightarrow> take n (xs @ ys) = xs"
  by simp

lemma drop_append_exact [simp]: "length xs = n \<Longrightarrow> drop n (xs @ ys) = ys"
  by simp

end
