(* ===== verification/Coding.thy ===== *)
theory Coding
  imports Prelude
begin

text \<open>
  \<open>util/coding.h\<close> and \<open>util/coding.cc\<close>: little-endian fixed-width integers, varints and
  length-prefixed strings.  A \<open>Put\<close> routine appends to its destination; a \<open>Get\<close> routine
  takes the slice it reads and returns the value with the rest of the slice, or \<open>None\<close> where
  the source returns \<open>false\<close> or \<open>nullptr\<close>.
\<close>

subsection \<open>Fixed-width integers\<close>

definition EncodeFixed32 :: "u32 \<Rightarrow> bytes" where
  "EncodeFixed32 value =
     [ucast value, ucast (drop_bit 8 value), ucast (drop_bit 16 value), ucast (drop_bit 24 value)]"

definition EncodeFixed64 :: "u64 \<Rightarrow> bytes" where
  "EncodeFixed64 value =
     [ucast value, ucast (drop_bit 8 value), ucast (drop_bit 16 value), ucast (drop_bit 24 value),
      ucast (drop_bit 32 value), ucast (drop_bit 40 value), ucast (drop_bit 48 value),
      ucast (drop_bit 56 value)]"

definition DecodeFixed32 :: "bytes \<Rightarrow> u32" where
  "DecodeFixed32 buffer =
     ucast (buffer ! 0) OR push_bit 8 (ucast (buffer ! 1)) OR
     push_bit 16 (ucast (buffer ! 2)) OR push_bit 24 (ucast (buffer ! 3))"

definition DecodeFixed64 :: "bytes \<Rightarrow> u64" where
  "DecodeFixed64 buffer =
     ucast (buffer ! 0) OR push_bit 8 (ucast (buffer ! 1)) OR
     push_bit 16 (ucast (buffer ! 2)) OR push_bit 24 (ucast (buffer ! 3)) OR
     push_bit 32 (ucast (buffer ! 4)) OR push_bit 40 (ucast (buffer ! 5)) OR
     push_bit 48 (ucast (buffer ! 6)) OR push_bit 56 (ucast (buffer ! 7))"

definition PutFixed32 :: "bytes \<Rightarrow> u32 \<Rightarrow> bytes" where
  "PutFixed32 dst value = dst @ EncodeFixed32 value"

definition PutFixed64 :: "bytes \<Rightarrow> u64 \<Rightarrow> bytes" where
  "PutFixed64 dst value = dst @ EncodeFixed64 value"

subsection \<open>Varints\<close>

definition EncodeVarint32 :: "u32 \<Rightarrow> bytes" where
  "EncodeVarint32 v =
     (let B = 128 in
      if v < push_bit 7 1 then [ucast v]
      else if v < push_bit 14 1 then [ucast (v OR B), ucast (drop_bit 7 v)]
      else if v < push_bit 21 1 then
        [ucast (v OR B), ucast (drop_bit 7 v OR B), ucast (drop_bit 14 v)]
      else if v < push_bit 28 1 then
        [ucast (v OR B), ucast (drop_bit 7 v OR B), ucast (drop_bit 14 v OR B),
         ucast (drop_bit 21 v)]
      else
        [ucast (v OR B), ucast (drop_bit 7 v OR B), ucast (drop_bit 14 v OR B),
         ucast (drop_bit 21 v OR B), ucast (drop_bit 28 v)])"

lemma drop_bit_7_decreases: "128 \<le> (v :: u64) \<Longrightarrow> unat (drop_bit 7 v) < unat v"
  by (simp add: unat_drop_bit_word word_le_nat_alt)

function EncodeVarint64 :: "u64 \<Rightarrow> bytes" where
  "EncodeVarint64 v =
     (if v \<ge> 128 then ucast (v OR 128) # EncodeVarint64 (drop_bit 7 v) else [ucast v])"
  by pat_completeness auto
termination
  by (relation "measure unat") (auto simp: drop_bit_7_decreases)

declare EncodeVarint64.simps [simp del]

function VarintLength :: "u64 \<Rightarrow> nat" where
  "VarintLength v = (if v \<ge> 128 then Suc (VarintLength (drop_bit 7 v)) else 1)"
  by pat_completeness auto
termination
  by (relation "measure unat") (auto simp: drop_bit_7_decreases)

declare VarintLength.simps [simp del]

definition PutVarint32 :: "bytes \<Rightarrow> u32 \<Rightarrow> bytes" where
  "PutVarint32 dst v = dst @ EncodeVarint32 v"

definition PutVarint64 :: "bytes \<Rightarrow> u64 \<Rightarrow> bytes" where
  "PutVarint64 dst v = dst @ EncodeVarint64 v"

text \<open>The \<open>for\<close> loops of the two decoders: \<open>shift\<close> and \<open>result\<close> are the loop variables.\<close>

fun varint32_loop :: "nat \<Rightarrow> u32 \<Rightarrow> bytes \<Rightarrow> (u32 \<times> bytes) option" where
  "varint32_loop shift result [] = None"
| "varint32_loop shift result (b # p) =
     (if shift \<le> 28 then
        let byte = (ucast b :: u32) in
        if byte AND 128 \<noteq> 0
        then varint32_loop (shift + 7) (result OR push_bit shift (byte AND 127)) p
        else Some (result OR push_bit shift byte, p)
      else None)"

definition GetVarint32PtrFallback :: "bytes \<Rightarrow> (u32 \<times> bytes) option" where
  "GetVarint32PtrFallback p = varint32_loop 0 0 p"

definition GetVarint32Ptr :: "bytes \<Rightarrow> (u32 \<times> bytes) option" where
  "GetVarint32Ptr p =
     (case p of
        [] \<Rightarrow> GetVarint32PtrFallback p
      | b # q \<Rightarrow>
          let result = (ucast b :: u32) in
          if result AND 128 = 0 then Some (result, q) else GetVarint32PtrFallback p)"

definition GetVarint32 :: "bytes \<Rightarrow> (u32 \<times> bytes) option" where
  "GetVarint32 input = GetVarint32Ptr input"

fun varint64_loop :: "nat \<Rightarrow> u64 \<Rightarrow> bytes \<Rightarrow> (u64 \<times> bytes) option" where
  "varint64_loop shift result [] = None"
| "varint64_loop shift result (b # p) =
     (if shift \<le> 63 then
        let byte = (ucast b :: u64) in
        if byte AND 128 \<noteq> 0
        then varint64_loop (shift + 7) (result OR push_bit shift (byte AND 127)) p
        else Some (result OR push_bit shift byte, p)
      else None)"

definition GetVarint64Ptr :: "bytes \<Rightarrow> (u64 \<times> bytes) option" where
  "GetVarint64Ptr p = varint64_loop 0 0 p"

definition GetVarint64 :: "bytes \<Rightarrow> (u64 \<times> bytes) option" where
  "GetVarint64 input = GetVarint64Ptr input"

subsection \<open>Length-prefixed strings\<close>

definition PutLengthPrefixedSlice :: "bytes \<Rightarrow> bytes \<Rightarrow> bytes" where
  "PutLengthPrefixedSlice dst value = PutVarint32 dst (word_of_nat (length value)) @ value"

definition GetLengthPrefixedSlice :: "bytes \<Rightarrow> (bytes \<times> bytes) option" where
  "GetLengthPrefixedSlice input =
     (case GetVarint32 input of
        None \<Rightarrow> None
      | Some (len, rest) \<Rightarrow>
          if length rest \<ge> unat len then Some (take (unat len) rest, drop (unat len) rest)
          else None)"

subsection \<open>Fixed-width round trip\<close>

lemma length_EncodeFixed [simp, codec_simps]:
  "length (EncodeFixed32 v) = 4" "length (EncodeFixed64 w) = 8"
  by (simp_all add: EncodeFixed32_def EncodeFixed64_def)

lemmas or_push_take_drop_8 =
  or_push_take_drop_bit [where k = 8 and m = 8, simplified]
  or_push_take_drop_bit [where k = 16 and m = 8, simplified]
  or_push_take_drop_bit [where k = 24 and m = 8, simplified]
  or_push_take_drop_bit [where k = 32 and m = 8, simplified]
  or_push_take_drop_bit [where k = 40 and m = 8, simplified]
  or_push_take_drop_bit [where k = 48 and m = 8, simplified]
  or_take_drop_bit [where m = 8]

lemmas fixed_decode_simps =
  ucast_byte_ucast take_bit_drop_bit_top or_push_take_drop_8 or.assoc

lemma DecodeFixed32_Encode [simp, codec_simps]: "DecodeFixed32 (EncodeFixed32 v @ rest) = v"
  by (simp add: DecodeFixed32_def EncodeFixed32_def fixed_decode_simps)

lemma DecodeFixed64_Encode [simp, codec_simps]: "DecodeFixed64 (EncodeFixed64 v @ rest) = v"
  by (simp add: DecodeFixed64_def EncodeFixed64_def fixed_decode_simps)

lemma DecodeFixed32_Encode_Nil [simp, codec_simps]: "DecodeFixed32 (EncodeFixed32 v) = v"
  using DecodeFixed32_Encode [of v "[]"] by simp

lemma DecodeFixed64_Encode_Nil [simp, codec_simps]: "DecodeFixed64 (EncodeFixed64 v) = v"
  using DecodeFixed64_Encode [of v "[]"] by simp

subsection \<open>Varint round trip\<close>

lemma varint_flag:
  assumes "8 \<le> LENGTH('b)"
  shows "(ucast (ucast (v OR 128 :: u64) :: byte) :: 'b::len word) AND 128 \<noteq> 0"
proof -
  have "bit ((ucast (ucast (v OR 128 :: u64) :: byte) :: 'b::len word) AND 128) 7"
    using assms by (simp add: bit_simps bit_numeral_128)
  then show ?thesis by auto
qed

lemma varint_payload:
  assumes "8 \<le> LENGTH('b)"
  shows "(ucast (ucast (v OR 128 :: u64) :: byte) :: 'b::len word) AND 127 = take_bit 7 (ucast v)"
  using assms
  by (intro bit_word_eqI) (auto simp: bit_simps bit_numeral_127 bit_numeral_128)

lemma varint_last:
  assumes "\<not> 128 \<le> (v :: u64)" and "8 \<le> LENGTH('b)"
  shows "(ucast (ucast v :: byte) :: 'b::len word) = ucast v" and "(ucast v :: 'b word) AND 128 = 0"
proof -
  have "unat v < 2 ^ 7"
    using assms by (simp add: word_le_nat_alt not_le)
  then have nb: "bit v n \<Longrightarrow> n < 7" for n
    using unat_less_imp_not_bit [of v 7 n] by (meson not_le)
  show "(ucast (ucast v :: byte) :: 'b word) = ucast v"
    by (intro bit_word_eqI) (auto simp: bit_simps dest: nb)
  show "(ucast v :: 'b word) AND 128 = 0"
    by (intro bit_word_eqI) (auto simp: bit_simps bit_numeral_128 dest: nb)
qed

text \<open>The word-level step both decoding loops take: seven bits now, the rest later.\<close>

lemma varint_combine:
  fixes v :: "'a::len word"
  shows "push_bit shift (take_bit 7 v) OR push_bit (shift + 7) (drop_bit 7 v) = push_bit shift v"
  using or_take_drop_bit [of 7 v] by (metis push_bit_or push_bit_push_bit)

lemma varint64_loop_encode:
  assumes "shift \<le> 63" and "unat v < 2 ^ (64 - shift)"
  shows "varint64_loop shift result (EncodeVarint64 v @ rest) = Some (result OR push_bit shift v, rest)"
  using assms
proof (induction v arbitrary: shift result rule: EncodeVarint64.induct)
  case (1 v)
  show ?case
  proof (cases "128 \<le> v")
    case True
    then have "2 ^ 7 \<le> unat v" by (simp add: word_le_nat_alt)
    with "1.prems" have "(2::nat) ^ 7 < 2 ^ (64 - shift)" by linarith
    then have "7 < 64 - shift" by (rule power_less_imp_less_exp [rotated]) simp
    then have sh: "shift + 7 \<le> 63" by simp
    have "unat (drop_bit 7 v) < 2 ^ (64 - (shift + 7))"
      using unat_drop_bit_less [OF "1.prems"(2), of 7] sh by simp
    with True "1.IH" sh have IH: "varint64_loop (shift + 7) r (EncodeVarint64 (drop_bit 7 v) @ rest)
        = Some (r OR push_bit (shift + 7) (drop_bit 7 v), rest)" for r
      by blast
    show ?thesis
      using True "1.prems"(1) varint_payload [where 'b = 64, of v] varint_flag [where 'b = 64, of v]
      by (subst EncodeVarint64.simps) (simp add: Let_def IH or.assoc varint_combine)
  next
    case False
    then show ?thesis
      using varint_last [where 'b = 64, of v] "1.prems" by (subst EncodeVarint64.simps) simp
  qed
qed

lemma varint32_loop_encode:
  assumes "shift \<le> 28" and "7 dvd shift" and "unat v < 2 ^ (32 - shift)"
  shows "varint32_loop shift result (EncodeVarint64 v @ rest)
    = Some (result OR push_bit shift (ucast v), rest)"
  using assms
proof (induction v arbitrary: shift result rule: EncodeVarint64.induct)
  case (1 v)
  show ?case
  proof (cases "128 \<le> v")
    case True
    then have "2 ^ 7 \<le> unat v" by (simp add: word_le_nat_alt)
    with "1.prems" have "(2::nat) ^ 7 < 2 ^ (32 - shift)" by linarith
    then have "7 < 32 - shift" by (rule power_less_imp_less_exp [rotated]) simp
    with "1.prems"(2) have sh: "shift + 7 \<le> 28" by presburger
    have "unat (drop_bit 7 v) < 2 ^ (32 - (shift + 7))"
      using unat_drop_bit_less [OF "1.prems"(3), of 7] sh by simp
    with True "1.IH" "1.prems"(2) sh
    have IH: "varint32_loop (shift + 7) r (EncodeVarint64 (drop_bit 7 v) @ rest)
        = Some (r OR push_bit (shift + 7) (ucast (drop_bit 7 v)), rest)" for r
      by simp
    have "unat v < 2 ^ 32"
      using "1.prems"(3) power_increasing [of "32 - shift" 32 "2::nat"] by simp
    then have nb: "bit v n \<Longrightarrow> n < 32" for n
      using unat_less_imp_not_bit [of v 32 n] by (meson not_le)
    have "(ucast (drop_bit 7 v) :: u32) = drop_bit 7 (ucast v)"
      by (intro bit_word_eqI) (auto simp: bit_simps dest: nb)
    then show ?thesis
      using True "1.prems"(1) varint_payload [where 'b = 32, of v] varint_flag [where 'b = 32, of v]
      by (subst EncodeVarint64.simps) (simp add: Let_def IH or.assoc varint_combine)
  next
    case False
    then show ?thesis
      using varint_last [where 'b = 32, of v] "1.prems" by (subst EncodeVarint64.simps) simp
  qed
qed

lemma EncodeVarint64_length: "length (EncodeVarint64 v) = VarintLength v"
  by (induction v rule: EncodeVarint64.induct)
    (subst EncodeVarint64.simps, subst VarintLength.simps, simp)

lemma VarintLength_bound:
  assumes "unat v < 2 ^ (7 * n)" and "0 < n"
  shows "VarintLength v \<le> n"
  using assms
proof (induction v arbitrary: n rule: VarintLength.induct)
  case (1 v)
  show ?case
  proof (cases "128 \<le> v")
    case True
    have "n \<noteq> 1"
      using "1.prems" True by (auto simp: word_le_nat_alt)
    with "1.prems" have n: "0 < n - 1" "n = Suc (n - 1)" by auto
    have "unat (drop_bit 7 v) < 2 ^ (7 * (n - 1))"
      using unat_drop_bit_less [OF "1.prems"(1), of 7] n by (simp add: diff_mult_distrib2)
    then have "VarintLength (drop_bit 7 v) \<le> n - 1"
      using "1.IH" True n by blast
    with True n show ?thesis by (subst VarintLength.simps) simp
  next
    case False
    with "1.prems" show ?thesis by (subst VarintLength.simps) simp
  qed
qed

lemma EncodeVarint32_eq_64: "EncodeVarint32 v = EncodeVarint64 (ucast v)"
proof -
  have c: "(128 \<le> drop_bit k (ucast v :: u64)) = (128 \<le> drop_bit k v)" for k
    by (simp add: word_le_nat_alt unat_drop_bit_word)
  have b: "(ucast (drop_bit k (ucast v :: u64) OR 128) :: byte) = ucast (drop_bit k v OR 128)"
      "(ucast (drop_bit k (ucast v :: u64)) :: byte) = ucast (drop_bit k v)" for k
    by (intro bit_word_eqI; auto simp: bit_simps bit_numeral_128 dest: bit_imp_le_length)+
  have t: "(v < 128) = (\<not> 128 \<le> v)" "(v < 16384) = (\<not> 128 \<le> drop_bit 7 v)"
      "(v < 2097152) = (\<not> 128 \<le> drop_bit 14 v)" "(v < 268435456) = (\<not> 128 \<le> drop_bit 21 v)"
    by (simp_all add: word_le_nat_alt word_less_nat_alt unat_drop_bit_word not_le) arith+
  have "unat v < 2 ^ 32" using unsigned_less [of v] by simp
  then have top: "\<not> 128 \<le> drop_bit 28 v"
    by (simp add: word_le_nat_alt unat_drop_bit_word not_le)
  note E = EncodeVarint64.simps
  show ?thesis
    using c [of 0] b [of 0] t top
    by (simp add: EncodeVarint32_def Let_def E [of "ucast v"] E [of "drop_bit 7 (ucast v)"] 
       E [of "drop_bit 14 (ucast v)"] E [of "drop_bit 21 (ucast v)"] E [of "drop_bit 28 (ucast v)"] c b)
qed

text \<open>The one-byte fast path of \<open>GetVarint32Ptr\<close> agrees with the loop it short-circuits.\<close>

lemma GetVarint32Ptr_eq_loop: "GetVarint32Ptr p = varint32_loop 0 0 p"
  by (cases p) (auto simp: GetVarint32Ptr_def GetVarint32PtrFallback_def Let_def)

lemma GetVarint32_Encode [simp, codec_simps]: "GetVarint32 (EncodeVarint32 v @ rest) = Some (v, rest)"
proof -
  have "unat v < 2 ^ 32" using unsigned_less [of v] by simp
  moreover have "(ucast (ucast v :: u64) :: u32) = v"
    by (intro bit_word_eqI) (auto simp: bit_simps)
  ultimately show ?thesis
    using varint32_loop_encode [of 0 "ucast v" 0 rest]
    by (simp add: GetVarint32_def GetVarint32Ptr_eq_loop EncodeVarint32_eq_64)
qed

lemma GetVarint64_Encode [simp, codec_simps]: "GetVarint64 (EncodeVarint64 v @ rest) = Some (v, rest)"
proof -
  have "unat v < 2 ^ 64" using unsigned_less [of v] by simp
  then show ?thesis
    using varint64_loop_encode [of 0 v 0 rest] by (simp add: GetVarint64_def GetVarint64Ptr_def)
qed

lemma length_EncodeVarint64_bounds: "0 < length (EncodeVarint64 v)" "length (EncodeVarint64 v) \<le> 10"
proof -
  show "0 < length (EncodeVarint64 v)" by (subst EncodeVarint64.simps) simp
  have "unat v < 2 ^ 64" using unsigned_less [of v] by simp
  also have "(2::nat) ^ 64 \<le> 2 ^ (7 * 10)" by simp
  finally show "length (EncodeVarint64 v) \<le> 10"
    using VarintLength_bound [of v 10] by (simp add: EncodeVarint64_length)
qed

lemma length_EncodeVarint32_bounds: "0 < length (EncodeVarint32 v)" "length (EncodeVarint32 v) \<le> 5"
  by (simp_all add: EncodeVarint32_def Let_def)

subsection \<open>Decoders consume a prefix\<close>

lemma varint32_loop_consumes:
  "varint32_loop shift r p = Some (v, q) \<Longrightarrow> \<exists>pre. p = pre @ q \<and> pre \<noteq> [] \<and> shift + 7 * (length pre - 1) \<le> 28"
proof (induction shift r p rule: varint32_loop.induct)
  case (2 shift r b p)
  then show ?case
    by (fastforce simp: Let_def split: if_splits intro: exI [of _ "[b]"] exI [of _ "b # _"])
qed simp

lemma GetVarint32_consumes:
  assumes "GetVarint32 input = Some (v, rest)"
  shows "\<exists>pre. input = pre @ rest \<and> pre \<noteq> [] \<and> length pre \<le> 5"
  using varint32_loop_consumes [of 0 0 input v rest] assms
  by (force simp: GetVarint32_def GetVarint32Ptr_eq_loop)

lemma GetVarint32_length:
  "GetVarint32 input = Some (v, rest) \<Longrightarrow> length rest < length input"
  using GetVarint32_consumes by fastforce

subsection \<open>Length-prefixed strings\<close>

lemma GetLengthPrefixedSlice_Put [simp, codec_simps]:
  assumes "length value < 2 ^ 32"
  shows "GetLengthPrefixedSlice (PutLengthPrefixedSlice [] value @ rest) = Some (value, rest)"
  using assms
  by (simp add: GetLengthPrefixedSlice_def PutLengthPrefixedSlice_def PutVarint32_def word_of_nat_unat_less)

lemma PutLengthPrefixedSlice_append:
  "PutLengthPrefixedSlice dst value = dst @ PutLengthPrefixedSlice [] value"
  by (simp add: PutLengthPrefixedSlice_def PutVarint32_def)

lemma GetLengthPrefixedSlice_length:
  "GetLengthPrefixedSlice input = Some (v, rest) \<Longrightarrow> length rest < length input"
  by (auto simp: GetLengthPrefixedSlice_def dest!: GetVarint32_length split: option.splits if_splits)

subsection \<open>Properties\<close>

text \<open>C33: Every 32-bit and 64-bit value survives \<open>PutVarint\<close> followed by \<open>GetVarint\<close>, whatever bytes
  follow it, and the decoder hands back exactly those bytes.\<close>
theorem varint_roundtrip:
  "GetVarint32 (PutVarint32 [] v @ rest) = Some (v, rest) \<and>
   GetVarint64 (PutVarint64 [] w @ rest) = Some (w, rest)"
  by (simp add: PutVarint32_def PutVarint64_def)

text \<open>The unrolled \<open>EncodeVarint32\<close> writes the bytes the \<open>EncodeVarint64\<close> loop writes, and
  \<open>VarintLength\<close> predicts their number, at most five.\<close>
lemma varint32_unrolled:
  "EncodeVarint32 v = EncodeVarint64 (ucast v) \<and>
   length (EncodeVarint32 v) = VarintLength (ucast v) \<and> VarintLength (ucast v) \<le> 5"
  using length_EncodeVarint32_bounds [of v]
  by (simp add: EncodeVarint32_eq_64 EncodeVarint64_length)

text \<open>Fixed-width integers round trip through their four and eight bytes.\<close>
lemma fixed_roundtrip:
  "DecodeFixed32 (PutFixed32 [] v @ rest) = v \<and> DecodeFixed64 (PutFixed64 [] w @ rest) = w"
  by (simp add: PutFixed32_def PutFixed64_def)

text \<open>C34: A string of less than \<open>2 ^ 32\<close> bytes survives \<open>PutLengthPrefixedSlice\<close> appended to any
  destination, once the destination's own bytes are dropped.\<close>
theorem length_prefixed_roundtrip:
  assumes "length value < 2 ^ 32"
  shows "GetLengthPrefixedSlice (drop (length dst) (PutLengthPrefixedSlice dst value @ rest))
    = Some (value, rest)"
  using assms by (subst PutLengthPrefixedSlice_append) simp

theorem length_prefixed_roundtrip_witness:
  "GetLengthPrefixedSlice (drop (length [7 :: byte]) (PutLengthPrefixedSlice [7] [1, 2, 3] @ [9]))
    = Some ([1, 2, 3], [9])"
  by (rule length_prefixed_roundtrip) simp

end
