(* ===== verification/Crc32c.thy ===== *)
theory Crc32c
  imports Crc32cTables Coding
begin

text \<open>
  \<open>util/crc32c.h\<close> and \<open>util/crc32c.cc\<close>: the portable CRC-32C with its 16-byte strides, the
  hand-over to an accelerated library routine, and the masking of stored checksums.  The main
  result is that the strided code computes the bit-serial CRC-32C, whatever the alignment of
  the buffer; it rests on the linearity of the CRC step over exclusive or.
\<close>

subsection \<open>The code\<close>

definition kCRC32Xor :: u32 where
  "kCRC32Xor = 0xffffffff"

definition ReadUint32LE :: "bytes \<Rightarrow> u32" where
  "ReadUint32LE buffer = DecodeFixed32 buffer"

definition RoundUp :: "u64 \<Rightarrow> u64 \<Rightarrow> u64" where
  "RoundUp N pointer = (pointer + (N - 1)) AND NOT (N - 1)"

text \<open>The macros \<open>STEP1\<close>, \<open>STEP4\<close> and \<open>STEP4W\<close>; \<open>STEP4\<close> is given the bytes at its stride.\<close>

definition STEP1 :: "u32 \<Rightarrow> byte \<Rightarrow> u32" where
  "STEP1 l b =
     (let c = (l AND 0xff) XOR ucast b
      in kByteExtensionTable ! unat c XOR drop_bit 8 l)"

definition STEP4 :: "u32 \<Rightarrow> bytes \<Rightarrow> u32" where
  "STEP4 crc p =
     ReadUint32LE p XOR kStrideExtensionTable3 ! unat (crc AND 0xff) XOR
     kStrideExtensionTable2 ! unat (drop_bit 8 crc AND 0xff) XOR
     kStrideExtensionTable1 ! unat (drop_bit 16 crc AND 0xff) XOR
     kStrideExtensionTable0 ! unat (drop_bit 24 crc)"

primrec step4w_loop :: "nat \<Rightarrow> u32 \<Rightarrow> u32" where
  "step4w_loop 0 w = w"
| "step4w_loop (Suc i) w = step4w_loop i (drop_bit 8 w XOR kByteExtensionTable ! unat (w AND 0xff))"

definition STEP4W :: "u32 \<Rightarrow> u32 \<Rightarrow> u32" where
  "STEP4W l w = step4w_loop 4 (w XOR l)"

type_synonym strides = "u32 \<times> u32 \<times> u32 \<times> u32"

fun STEP16 :: "strides \<Rightarrow> bytes \<Rightarrow> strides" where
  "STEP16 (crc0, crc1, crc2, crc3) p =
     (STEP4 crc0 p, STEP4 crc1 (drop 4 p), STEP4 crc2 (drop 8 p), STEP4 crc3 (drop 12 p))"

function swath_loop :: "strides \<Rightarrow> bytes \<Rightarrow> strides \<times> bytes" where
  "swath_loop s p = (if length p \<ge> 16 then swath_loop (STEP16 s p) (drop 16 p) else (s, p))"
  by pat_completeness auto
termination
  by (relation "measure (\<lambda>(s, p). length p)") auto

function word_loop :: "strides \<Rightarrow> bytes \<Rightarrow> strides \<times> bytes" where
  "word_loop s p =
     (if length p \<ge> 4 then
        (case s of (crc0, crc1, crc2, crc3) \<Rightarrow> word_loop (crc1, crc2, crc3, STEP4 crc0 p) (drop 4 p))
      else (s, p))"
  by pat_completeness auto
termination
  by (relation "measure (\<lambda>(s, p). length p)") auto

declare swath_loop.simps [simp del] word_loop.simps [simp del]

fun combine_strides :: "strides \<Rightarrow> u32" where
  "combine_strides (crc0, crc1, crc2, crc3) =
     (let l = 0; l = STEP4W l crc0; l = STEP4W l crc1; l = STEP4W l crc2 in STEP4W l crc3)"

text \<open>
  The portable path of \<open>Extend\<close>: \<open>addr\<close> is the address of \<open>data\<close>, and the test \<open>x \<le> e\<close> on
  pointers compares the distance to the next aligned address with the number of bytes.
\<close>

definition Extend_portable :: "u64 \<Rightarrow> u32 \<Rightarrow> bytes \<Rightarrow> u32" where
  "Extend_portable addr crc data =
     (let l = crc XOR kCRC32Xor;
          n = unat (RoundUp 4 addr - addr);
          (l, p) = (if n \<le> length data then (foldl STEP1 l (take n data), drop n data) else (l, data));
          (l, p) =
            (if length p \<ge> 16 then
               let crc0 = ReadUint32LE p XOR l;
                   crc1 = ReadUint32LE (drop 4 p);
                   crc2 = ReadUint32LE (drop 8 p);
                   crc3 = ReadUint32LE (drop 12 p);
                   (s, p) = swath_loop (crc0, crc1, crc2, crc3) (drop 16 p);
                   (s, p) = word_loop s p
               in (combine_strides s, p)
             else (l, p))
      in foldl STEP1 l p XOR kCRC32Xor)"

text \<open>
  \<open>port::AcceleratedCRC32C\<close> calls an external library when the build has one; the library
  routine is the parameter \<open>accel\<close>, absent when the build has none.
\<close>

type_synonym crc_library = "(u32 \<Rightarrow> bytes \<Rightarrow> u32) option"

definition AcceleratedCRC32C :: "crc_library \<Rightarrow> u32 \<Rightarrow> bytes \<Rightarrow> u32" where
  "AcceleratedCRC32C accel crc buf = (case accel of Some f \<Rightarrow> f crc buf | None \<Rightarrow> 0)"

definition CanAccelerateCRC32C :: "crc_library \<Rightarrow> bool" where
  "CanAccelerateCRC32C accel \<longleftrightarrow>
     AcceleratedCRC32C accel 0 (map (\<lambda>c. of_char c) ''TestCRCBuffer'') = 0xdcbc59fa"

definition Extend :: "crc_library \<Rightarrow> u64 \<Rightarrow> u32 \<Rightarrow> bytes \<Rightarrow> u32" where
  "Extend accel addr crc data =
     (if CanAccelerateCRC32C accel then AcceleratedCRC32C accel crc data
      else Extend_portable addr crc data)"

text \<open>
  The clients of this component use the portable path; \<open>Extend_portable_addr\<close> below shows
  that the address does not matter, so they take it to be 0.
\<close>

definition crc_extend :: "u32 \<Rightarrow> bytes \<Rightarrow> u32" where
  "crc_extend crc data = Extend None 0 crc data"

definition crc_value :: "bytes \<Rightarrow> u32" where
  "crc_value data = crc_extend 0 data"

definition kMaskDelta :: u32 where
  "kMaskDelta = 0xa282ead8"

definition Mask :: "u32 \<Rightarrow> u32" where
  "Mask crc = (drop_bit 15 crc OR push_bit 17 crc) + kMaskDelta"

definition Unmask :: "u32 \<Rightarrow> u32" where
  "Unmask masked_crc =
     (let rot = masked_crc - kMaskDelta in drop_bit 17 rot OR push_bit 15 rot)"

subsection \<open>The bit-serial reference\<close>

text \<open>One bit of CRC-32C in its reflected form: the polynomial is \<open>0x1EDC6F41\<close>, bit-reversed.\<close>

definition crc_shift :: "u32 \<Rightarrow> u32" where
  "crc_shift x = drop_bit 1 x XOR (if odd x then 0x82F63B78 else 0)"

definition crc_byte :: "u32 \<Rightarrow> byte \<Rightarrow> u32" where
  "crc_byte l b = (crc_shift ^^ 8) (l XOR ucast b)"

definition crc32c_reference :: "u32 \<Rightarrow> bytes \<Rightarrow> u32" where
  "crc32c_reference crc data = foldl crc_byte (crc XOR 0xffffffff) data XOR 0xffffffff"

text \<open>The first powers of the shift at 1, and the table a list of basis entries spans.\<close>

definition crc_powers :: "u32 list" where
  "crc_powers = [
    0x00000001, 0x82f63b78, 0x417b1dbc, 0x20bd8ede, 0x105ec76f, 0x8ad958cf,
    0xc79a971f, 0xe13b70f7, 0xf26b8303, 0xfbc3faf9, 0xff17c604, 0x7f8be302,
    0x3fc5f181, 0x9d14c3b8, 0x4e8a61dc, 0x274530ee, 0x13a29877, 0x8b277743,
    0xc76580d9, 0xe144fb14, 0x70a27d8a, 0x38513ec5, 0x9edea41a, 0x4f6f520d,
    0xa541927e, 0x52a0c93f, 0xaba65fe7, 0xd725148b, 0xe964b13d, 0xf64463e6,
    0x7b2231f3, 0xbf672381, 0xdd45aab8, 0x6ea2d55c, 0x37516aae, 0x1ba8b557,
    0x8f2261d3, 0xc5670b91, 0xe045beb0, 0x7022df58, 0x38116fac, 0x1c08b7d6,
    0x0e045beb, 0x85f4168d, 0xc00c303e, 0x6006181f, 0xb2f53777, 0xdb8ca0c3,
    0xef306b19, 0xf56e0ef4, 0x7ab7077a, 0x3d5b83bd, 0x9c5bfaa6, 0x4e2dfd53,
    0xa5e0c5d1, 0xd0065990, 0x68032cc8, 0x34019664, 0x1a00cb32, 0x0d006599,
    0x847609b4, 0x423b04da, 0x211d826d, 0x9278fa4e, 0x493c7d27, 0xa66805eb,
    0xd1c2398d, 0xea1727be, 0x750b93df, 0xb873f297, 0xdecfc233, 0xed91da61,
    0xf43ed648, 0x7a1f6b24, 0x3d0fb592, 0x1e87dac9, 0x8db5d61c, 0x46daeb0e,
    0x236d7587, 0x934081bb, 0xcb567ba5, 0xe75d06aa, 0x73ae8355, 0xbb217ad2,
    0x5d90bd69, 0xac3e65cc, 0x561f32e6, 0x2b0f9973, 0x9771f7c1, 0xc94ec098,
    0x64a7604c, 0x3253b026, 0x1929d813, 0x8e62d771, 0xc5c750c0, 0x62e3a860,
    0x3171d430, 0x18b8ea18, 0x0c5c750c, 0x062e3a86, 0x03171d43, 0x837db5d9,
    0xc348e194, 0x61a470ca, 0x30d23865, 0x9a9f274a, 0x4d4f93a5, 0xa451f2aa,
    0x5228f955, 0xabe247d2, 0x55f123e9, 0xa80eaa8c, 0x54075546, 0x2a03aaa3,
    0x97f7ee29, 0xc90dcc6c, 0x6486e636, 0x3243731b, 0x9bd782f5, 0xcf1dfa02,
    0x678efd01, 0xb13145f8, 0x5898a2fc, 0x2c4c517e, 0x162628bf, 0x89e52f27,
    0xc604aceb, 0xe1f46d0d, 0xf20c0dfe]"

definition span_table :: "u32 list \<Rightarrow> u32 list" where
  "span_table basis = foldl (\<lambda>t b. t @ map ((XOR) b) t) [0] basis"

subsection \<open>Linearity\<close>

definition linear_u32 :: "(u32 \<Rightarrow> u32) \<Rightarrow> bool" where
  "linear_u32 f \<longleftrightarrow> (\<forall>x y. f (x XOR y) = f x XOR f y)"

lemma linear_u32D: "linear_u32 f \<Longrightarrow> f (x XOR y) = f x XOR f y"
  by (simp add: linear_u32_def)

lemma linear_u32_zero: "linear_u32 f \<Longrightarrow> f 0 = 0"
  using linear_u32D [of f 0 0] by simp

lemma linear_crc_shift: "linear_u32 crc_shift"
  by (auto simp: linear_u32_def crc_shift_def drop_bit_xor xor.assoc xor.left_commute even_xor_iff)

lemma linear_funpow: "linear_u32 f \<Longrightarrow> linear_u32 (f ^^ n)"
  by (induction n) (auto simp: linear_u32_def)

lemmas linear_shift = linear_funpow [OF linear_crc_shift]
lemmas shift_xor = linear_u32D [OF linear_shift]

text \<open>Bits that are zero at the bottom make the shift a plain right shift.\<close>

lemma shift_low_zero: "take_bit n x = 0 \<Longrightarrow> (crc_shift ^^ n) x = drop_bit n x"
proof (induction n arbitrary: x)
  case 0
  then show ?case by simp
next
  case (Suc n)
  have ev: "even x"
    using Suc.prems bit_take_bit_iff [of "Suc n" x 0] by (simp add: bit_0)
  have "take_bit n (drop_bit 1 x) = 0"
    using Suc.prems by (metis drop_bit_of_0 drop_bit_take_bit diff_Suc_1)
  then have "(crc_shift ^^ n) (drop_bit 1 x) = drop_bit n (drop_bit 1 x)"
    by (rule Suc.IH)
  moreover have "crc_shift x = drop_bit 1 x"
    using ev by (simp add: crc_shift_def)
  ultimately show ?case
    by (simp add: funpow_swap1)
qed


lemma shift_push_bit:
  fixes x :: u32
  assumes "\<And>k. bit x k \<Longrightarrow> k + n < 32"
  shows "(crc_shift ^^ n) (push_bit n x) = x"
proof -
  have "take_bit n (push_bit n x) = 0"
    by (intro bit_word_eqI) (auto simp: bit_simps)
  then have "(crc_shift ^^ n) (push_bit n x) = drop_bit n (push_bit n x)"
    by (rule shift_low_zero)
  also have "\<dots> = x"
    by (intro bit_word_eqI) (auto simp: bit_simps dest: assms)
  finally show ?thesis .
qed

lemma shift_split: "(crc_shift ^^ n) x = (crc_shift ^^ n) (take_bit n x) XOR drop_bit n x"
proof -
  have "x = take_bit n x XOR push_bit n (drop_bit n x)"
    by (intro bit_word_eqI) (auto simp: bit_simps)
  moreover have "take_bit n (push_bit n (drop_bit n x)) = 0"
    by (intro bit_word_eqI) (auto simp: bit_simps)
  then have "(crc_shift ^^ n) (push_bit n (drop_bit n x)) = drop_bit n (push_bit n (drop_bit n x))"
    by (rule shift_low_zero)
  moreover have "drop_bit n (push_bit n (drop_bit n x)) = drop_bit n x"
    by (intro bit_word_eqI) (auto simp: bit_simps dest: bit_imp_le_length)
  ultimately show ?thesis
    by (metis shift_xor)
qed

subsection \<open>The tables are linear images\<close>

lemma word_of_nat_add_pow:
  assumes "j < 2 ^ n" and "n < 32"
  shows "(word_of_nat (2 ^ n + j) :: u32) = 2 ^ n XOR word_of_nat j"
proof -
  have "j < 2 ^ 32"
    using assms power_strict_increasing [of n 32 "2::nat"] by simp
  then have "unat (word_of_nat j :: u32) < 2 ^ n"
    using assms by (simp add: word_of_nat_unat_less)
  then have "\<not> bit (word_of_nat j :: u32) n"
    by (rule unat_less_imp_not_bit) simp
  then have "2 ^ n AND word_of_nat j = (0 :: u32)"
    by (intro bit_word_eqI) (auto simp: bit_simps)
  then show ?thesis
    by (simp add: disjunctive_add_eq_xor)
qed

lemma span_table_linear:
  assumes "linear_u32 f" and "n \<le> 32"
  shows "span_table (map (\<lambda>k. f (2 ^ k)) [0..<n]) = map (\<lambda>j. f (word_of_nat j)) [0..<2 ^ n]"
  using assms(2)
proof (induction n)
  case 0
  then show ?case by (simp add: span_table_def linear_u32_zero [OF assms(1)])
next
  case (Suc n)
  have "map (\<lambda>j. f (word_of_nat j)) [2 ^ n..<2 ^ Suc n] = map (\<lambda>j. f (word_of_nat (2 ^ n + j))) [0..<2 ^ n]"
    by (rule nth_equalityI) auto
  also have "\<dots> = map (\<lambda>j. f (2 ^ n) XOR f (word_of_nat j)) [0..<2 ^ n]"
    using Suc.prems by (auto simp: word_of_nat_add_pow linear_u32D [OF assms(1)] simp del: of_nat_add)
  finally have hi: "map (\<lambda>j. f (word_of_nat j)) [2 ^ n..<2 ^ Suc n] = map (\<lambda>j. f (2 ^ n) XOR f (word_of_nat j)) [0..<2 ^ n]" .
  have "[0..<2 ^ Suc n] = [0..<2 ^ n] @ [2 ^ n..<2 ^ Suc n :: nat]"
    using upt_add_eq_append [of 0 "2 ^ n" "2 ^ n"] by (simp add: mult_2)
  with Suc hi show ?case
    by (simp add: span_table_def comp_def)
qed

lemma crc_powers_step: "map crc_shift (butlast crc_powers) = tl crc_powers"
  by (simp add: crc_powers_def crc_shift_def)

lemma length_crc_powers: "length crc_powers = 129"
  by (simp add: crc_powers_def)

lemma shift_one: "n \<le> 128 \<Longrightarrow> (crc_shift ^^ n) 1 = crc_powers ! n"
proof (induction n)
  case 0
  then show ?case by (simp add: crc_powers_def)
next
  case (Suc n)
  have "map crc_shift (butlast crc_powers) ! n = tl crc_powers ! n"
    by (simp only: crc_powers_step)
  then have "crc_shift (crc_powers ! n) = crc_powers ! Suc n"
    using Suc.prems by (simp add: length_crc_powers nth_butlast nth_tl)
  with Suc show ?case by simp
qed

lemma shift_pow2: "k \<le> n \<Longrightarrow> k < 32 \<Longrightarrow> n \<le> 128 \<Longrightarrow> (crc_shift ^^ n) (2 ^ k) = crc_powers ! (n - k)"
proof -
  assume "k \<le> n" "k < 32" "n \<le> 128"
  have "(crc_shift ^^ k) (push_bit k 1) = (1 :: u32)"
    by (rule shift_push_bit) (use \<open>k < 32\<close> in \<open>auto simp: bit_1_iff\<close>)
  then have "(crc_shift ^^ ((n - k) + k)) (2 ^ k) = (crc_shift ^^ (n - k)) 1"
    by (simp only: funpow_add comp_def push_bit_eq_mult mult_1)
  with \<open>k \<le> n\<close> \<open>n \<le> 128\<close> show ?thesis by (simp add: shift_one)
qed

lemma span_tables:
  "kByteExtensionTable = span_table (map (\<lambda>k. crc_powers ! (8 - k)) [0..<8])"
  "kStrideExtensionTable3 = span_table (map (\<lambda>k. crc_powers ! (128 - k)) [0..<8])"
  "kStrideExtensionTable2 = span_table (map (\<lambda>k. crc_powers ! (120 - k)) [0..<8])"
  "kStrideExtensionTable1 = span_table (map (\<lambda>k. crc_powers ! (112 - k)) [0..<8])"
  "kStrideExtensionTable0 = span_table (map (\<lambda>k. crc_powers ! (104 - k)) [0..<8])"
      apply (simp add: kByteExtensionTable_def crc_powers_def span_table_def upt_rec)
      apply (simp add: kStrideExtensionTable3_def crc_powers_def span_table_def upt_rec)
      apply (simp add: kStrideExtensionTable2_def crc_powers_def span_table_def upt_rec)
      apply (simp add: kStrideExtensionTable1_def crc_powers_def span_table_def upt_rec)
      apply (simp add: kStrideExtensionTable0_def crc_powers_def span_table_def upt_rec)
  done


lemma table_is_linear:
  assumes "linear_u32 f" and "\<And>k. k < 8 \<Longrightarrow> f (2 ^ k) = crc_powers ! (m - k)"
    and "table = span_table (map (\<lambda>k. crc_powers ! (m - k)) [0..<8])" and "unat x < 256"
  shows "table ! unat x = f x"
proof -
  have "table = span_table (map (\<lambda>k. f (2 ^ k)) [0..<8])"
    unfolding assms(3) using assms(2) by (metis (mono_tags, lifting) atLeastLessThan_upt atLeastLessThan_iff map_eq_conv)
  also have "\<dots> = map (\<lambda>j. f (word_of_nat j)) [0..<2 ^ 8]"
    by (rule span_table_linear [OF assms(1)]) simp
  finally show ?thesis using assms(4) by simp
qed

lemma byte_table: "unat x < 256 \<Longrightarrow> kByteExtensionTable ! unat x = (crc_shift ^^ 8) x"
  by (rule table_is_linear [OF linear_shift _ span_tables(1)]) (simp_all add: shift_pow2)

lemma linear_shift_push: "linear_u32 (\<lambda>x. (crc_shift ^^ n) (push_bit m x))"
  by (auto simp: linear_u32_def push_bit_xor shift_xor)

lemma stride_tables:
  assumes "unat x < 256"
  shows "kStrideExtensionTable3 ! unat x = (crc_shift ^^ 128) x"
    and "kStrideExtensionTable2 ! unat x = (crc_shift ^^ 128) (push_bit 8 x)"
    and "kStrideExtensionTable1 ! unat x = (crc_shift ^^ 128) (push_bit 16 x)"
    and "kStrideExtensionTable0 ! unat x = (crc_shift ^^ 128) (push_bit 24 x)"
proof -
  have p: "(crc_shift ^^ 128) (push_bit m (2 ^ k)) = crc_powers ! (128 - m - k)" if "m + k < 32" for m k
    using that shift_pow2 [of "m + k" 128] by (simp add: push_bit_eq_mult power_add mult.commute)
  show "kStrideExtensionTable3 ! unat x = (crc_shift ^^ 128) x"
    by (rule table_is_linear [OF linear_shift _ span_tables(2) assms]) (simp add: shift_pow2)
  show "kStrideExtensionTable2 ! unat x = (crc_shift ^^ 128) (push_bit 8 x)"
    by (rule table_is_linear [OF linear_shift_push _ span_tables(3) assms]) (simp add: p)
  show "kStrideExtensionTable1 ! unat x = (crc_shift ^^ 128) (push_bit 16 x)"
    by (rule table_is_linear [OF linear_shift_push _ span_tables(4) assms]) (simp add: p)
  show "kStrideExtensionTable0 ! unat x = (crc_shift ^^ 128) (push_bit 24 x)"
    by (rule table_is_linear [OF linear_shift_push _ span_tables(5) assms]) (simp add: p)
qed

subsection \<open>The steps advance the shift\<close>

lemma unat_take_bit_8: "unat (take_bit 8 (x :: u32)) < 256"
  using take_bit_nat_less_exp [of 8 "unat x"] by (simp add: unsigned_take_bit_eq)

lemma and_255_take_bit: "(x :: u32) AND 255 = take_bit 8 x"
  by (simp add: take_bit_eq_mask mask_numeral)

lemma STEP1_eq: "STEP1 l b = crc_byte l b"
proof -
  have c: "(l AND 255) XOR (ucast b :: u32) = take_bit 8 (l XOR ucast b)"
    by (intro bit_word_eqI) (auto simp: bit_simps and_255_take_bit dest: bit_imp_le_length)
  have "drop_bit 8 (l XOR (ucast b :: u32)) = drop_bit 8 l"
    by (intro bit_word_eqI) (auto simp: bit_simps dest: bit_imp_le_length)
  then show ?thesis
    by (simp only: STEP1_def crc_byte_def Let_def c byte_table [OF unat_take_bit_8]
        shift_split [of 8 "l XOR ucast b"])
qed

lemma word_four_bytes:
  "(x :: u32) = take_bit 8 x XOR (push_bit 8 (take_bit 8 (drop_bit 8 x)) XOR
     (push_bit 16 (take_bit 8 (drop_bit 16 x)) XOR push_bit 24 (drop_bit 24 x)))"
proof (rule bit_word_eqI)
  fix n
  assume "n < LENGTH(32)"
  consider "n < 8" | "8 \<le> n \<and> n < 16" | "16 \<le> n \<and> n < 24" | "24 \<le> n" by linarith
  then show "bit x n = bit (take_bit 8 x XOR (push_bit 8 (take_bit 8 (drop_bit 8 x)) XOR
     (push_bit 16 (take_bit 8 (drop_bit 16 x)) XOR push_bit 24 (drop_bit 24 x)))) n"
    by cases (use \<open>n < LENGTH(32)\<close> in \<open>auto simp: bit_simps\<close>)
qed

lemma STEP4_eq: "STEP4 crc p = DecodeFixed32 p XOR (crc_shift ^^ 128) crc"
proof -
  have "(crc_shift ^^ 128) crc = (crc_shift ^^ 128) (take_bit 8 crc XOR
      (push_bit 8 (take_bit 8 (drop_bit 8 crc)) XOR
       (push_bit 16 (take_bit 8 (drop_bit 16 crc)) XOR push_bit 24 (drop_bit 24 crc))))"
    (is "?f crc = ?f (?a XOR (push_bit 8 ?b XOR (push_bit 16 ?c XOR push_bit 24 ?d)))")
    by (rule arg_cong [OF word_four_bytes])
  moreover have "unat ?d < 256"
    using take_bit_drop_bit_top [where 'a = 32, of 24 8 crc] unat_take_bit_8 [of ?d] by simp
  ultimately show ?thesis
    by (simp add: STEP4_def ReadUint32LE_def and_255_take_bit stride_tables unat_take_bit_8
        shift_xor xor.assoc)
qed

lemma shift_add: "(crc_shift ^^ m) ((crc_shift ^^ n) x) = (crc_shift ^^ (m + n)) x"
  by (simp add: funpow_add)

lemma step4w_loop_eq: "step4w_loop n w = (crc_shift ^^ (8 * n)) w"
proof (induction n arbitrary: w)
  case (Suc n)
  have "drop_bit 8 w XOR kByteExtensionTable ! unat (w AND 255) = (crc_shift ^^ 8) w"
    using shift_split [of 8 w] by (simp add: byte_table unat_take_bit_8 and_255_take_bit xor.commute)
  with Suc show ?case
    by (simp add: shift_add add.commute)
qed simp

lemma STEP4W_eq: "STEP4W l w = (crc_shift ^^ 32) (w XOR l)"
  by (simp add: STEP4W_def step4w_loop_eq)

text \<open>Four bytes one at a time are one word.\<close>

lemma shift_absorb_byte:
  assumes "n + 8 \<le> 32"
  shows "(crc_shift ^^ n) x XOR ucast (b :: byte) = (crc_shift ^^ n) (x XOR push_bit n (ucast b))"
proof -
  have "(crc_shift ^^ n) (push_bit n (ucast b :: u32)) = ucast b"
    by (rule shift_push_bit) (use assms in \<open>auto simp: bit_simps dest: bit_imp_le_length\<close>)
  then show ?thesis by (simp add: shift_xor)
qed

lemma DecodeFixed32_xor:
  "DecodeFixed32 [b0, b1, b2, b3] =
     ucast b0 XOR push_bit 8 (ucast b1) XOR push_bit 16 (ucast b2) XOR push_bit 24 (ucast b3)"
    (is "_ = ?rhs")
proof (rule bit_word_eqI)
  fix n
  assume "n < LENGTH(32)"
  consider "n < 8" | "8 \<le> n \<and> n < 16" | "16 \<le> n \<and> n < 24" | "24 \<le> n" by linarith
  then show "bit (DecodeFixed32 [b0, b1, b2, b3]) n = bit ?rhs n"
    by cases (use \<open>n < LENGTH(32)\<close> in
      \<open>auto simp: DecodeFixed32_def bit_simps dest: bit_imp_le_length\<close>)
qed

lemma crc_word:
  "foldl crc_byte l [b0, b1, b2, b3] = (crc_shift ^^ 32) (l XOR DecodeFixed32 [b0, b1, b2, b3])"
  by (simp add: crc_byte_def shift_absorb_byte shift_add DecodeFixed32_xor xor.assoc)

lemma crc_word_take:
  assumes "4 \<le> length p"
  shows "foldl crc_byte l (take 4 p) = (crc_shift ^^ 32) (l XOR DecodeFixed32 p)"
proof -
  obtain b0 b1 b2 b3 q where "p = b0 # b1 # b2 # b3 # q"
    using assms by (auto simp: numeral_eq_Suc Suc_le_length_iff)
  then show ?thesis
    using crc_word [of l b0 b1 b2 b3] by (simp add: DecodeFixed32_def)
qed

subsection \<open>The strided loops\<close>

text \<open>The CRC state that four stride accumulators stand for.\<close>

fun stride_state :: "strides \<Rightarrow> u32" where
  "stride_state (c0, c1, c2, c3) =
     (crc_shift ^^ 128) c0 XOR (crc_shift ^^ 96) c1 XOR (crc_shift ^^ 64) c2 XOR (crc_shift ^^ 32) c3"

lemma combine_strides_eq: "combine_strides s = stride_state s"
  by (cases s) (simp add: STEP4W_eq shift_xor shift_add linear_u32_zero [OF linear_shift] ac_simps)

lemma word_step:
  assumes "4 \<le> length p"
  shows "stride_state (c1, c2, c3, STEP4 c0 p) = foldl crc_byte (stride_state (c0, c1, c2, c3)) (take 4 p)"
  by (simp add: crc_word_take [OF assms] STEP4_eq shift_xor shift_add ac_simps)

lemma word_loop_eq:
  "word_loop s p = (s', p') \<Longrightarrow>
   foldl crc_byte (stride_state s') p' = foldl crc_byte (stride_state s) p"
proof (induction s p rule: word_loop.induct)
  case (1 s p)
  obtain c0 c1 c2 c3 where s: "s = (c0, c1, c2, c3)" by (cases s)
  show ?case
  proof (cases "4 \<le> length p")
    case True
    with "1.prems" s have "word_loop (c1, c2, c3, STEP4 c0 p) (drop 4 p) = (s', p')"
      by (simp add: word_loop.simps [of "(c0, c1, c2, c3)"])
    then have "foldl crc_byte (stride_state s') p' =
        foldl crc_byte (stride_state (c1, c2, c3, STEP4 c0 p)) (drop 4 p)"
      using "1.IH" True s by blast
    also have "\<dots> = foldl crc_byte (stride_state s) (take 4 p @ drop 4 p)"
      by (simp only: word_step [OF True] s foldl_append)
    finally show ?thesis by simp
  next
    case False
    with "1.prems" show ?thesis by (simp add: word_loop.simps [of s])
  qed
qed

text \<open>Four words in a row, from a single state and from four accumulators.\<close>

lemma crc_swath:
  assumes "16 \<le> length p"
  shows "foldl crc_byte l (take 16 p) = (crc_shift ^^ 128) (l XOR DecodeFixed32 p) XOR
    (crc_shift ^^ 96) (DecodeFixed32 (drop 4 p)) XOR (crc_shift ^^ 64) (DecodeFixed32 (drop 8 p)) XOR
    (crc_shift ^^ 32) (DecodeFixed32 (drop 12 p))"
proof -
  have "take 16 p = take 4 p @ take 4 (drop 4 p) @ take 4 (drop 8 p) @ take 4 (drop 12 p)"
    using take_add [of 4 12 p] take_add [of 4 8 "drop 4 p"] take_add [of 4 4 "drop 8 p"] by simp
  then show ?thesis
    using assms by (simp add: crc_word_take shift_xor shift_add ac_simps)
qed

lemma swath_step:
  assumes "16 \<le> length p"
  shows "stride_state (STEP16 s p) = foldl crc_byte (stride_state s) (take 16 p)"
  using assms by (cases s) (simp add: crc_swath STEP4_eq shift_xor shift_add ac_simps)

lemma swath_loop_eq:
  "swath_loop s p = (s', p') \<Longrightarrow>
   foldl crc_byte (stride_state s') p' = foldl crc_byte (stride_state s) p"
proof (induction s p rule: swath_loop.induct)
  case (1 s p)
  show ?case
  proof (cases "16 \<le> length p")
    case True
    with "1.prems" have "swath_loop (STEP16 s p) (drop 16 p) = (s', p')"
      by (simp add: swath_loop.simps [of s])
    then have "foldl crc_byte (stride_state s') p' = foldl crc_byte (stride_state (STEP16 s p)) (drop 16 p)"
      using "1.IH" True by blast
    also have "\<dots> = foldl crc_byte (stride_state s) (take 16 p @ drop 16 p)"
      by (simp only: swath_step [OF True] foldl_append)
    finally show ?thesis by simp
  next
    case False
    with "1.prems" show ?thesis by (simp add: swath_loop.simps [of s])
  qed
qed

lemma foldl_STEP1: "foldl STEP1 l p = foldl crc_byte l p"
  by (simp add: STEP1_eq cong: foldl_cong)

lemma Extend_portable_eq: "Extend_portable addr crc data = crc32c_reference crc data"
proof -
  define l where "l = crc XOR kCRC32Xor"
  define n where "n = unat (RoundUp 4 addr - addr)"
  obtain l1 p1 where a: "(if n \<le> length data then (foldl STEP1 l (take n data), drop n data) else (l, data)) = (l1, p1)"
    by fastforce
  then have eq1: "foldl crc_byte l1 p1 = foldl crc_byte l data"
    by (auto simp: foldl_STEP1 simp flip: foldl_append split: if_splits)
  obtain s2 p2 where b: "swath_loop (ReadUint32LE p1 XOR l1, ReadUint32LE (drop 4 p1), ReadUint32LE (drop 8 p1),
      ReadUint32LE (drop 12 p1)) (drop 16 p1) = (s2, p2)" by fastforce
  obtain s3 p3 where c: "word_loop s2 p2 = (s3, p3)" by fastforce
  have "foldl crc_byte (stride_state s3) p3 = foldl crc_byte l1 p1" if "16 \<le> length p1"
  proof -
    have "foldl crc_byte l1 p1 = foldl crc_byte (foldl crc_byte l1 (take 16 p1)) (drop 16 p1)"
      by (simp flip: foldl_append)
    also have "foldl crc_byte l1 (take 16 p1) = stride_state (ReadUint32LE p1 XOR l1, ReadUint32LE (drop 4 p1),
        ReadUint32LE (drop 8 p1), ReadUint32LE (drop 12 p1))"
      using that by (simp add: crc_swath ReadUint32LE_def xor.commute)
    finally show ?thesis
      using swath_loop_eq [OF b] word_loop_eq [OF c] by simp
  qed
  moreover have "Extend_portable addr crc data =
      foldl STEP1 (if 16 \<le> length p1 then combine_strides s3 else l1) (if 16 \<le> length p1 then p3 else p1) XOR kCRC32Xor"
    by (cases "16 \<le> length p1")
      (simp_all only: Extend_portable_def Let_def l_def [symmetric] n_def [symmetric] a b c prod.case if_True if_False)
  ultimately show ?thesis
    using eq1 by (simp add: combine_strides_eq foldl_STEP1 crc32c_reference_def l_def kCRC32Xor_def split: if_splits)
qed

lemma Extend_portable_addr: "Extend_portable addr crc data = Extend_portable addr' crc data"
  by (simp add: Extend_portable_eq)

lemma crc_extend_eq: "crc_extend crc data = crc32c_reference crc data"
  by (simp add: crc_extend_def Extend_def CanAccelerateCRC32C_def AcceleratedCRC32C_def Extend_portable_eq)

subsection \<open>The checksum interface\<close>

text \<open>What the log and the table format rely on: extending a checksum is a stream operation.\<close>

locale crc_stream =
  fixes extend :: "u32 \<Rightarrow> bytes \<Rightarrow> u32"
  assumes extend_nil: "extend c [] = c"
    and extend_append: "extend c (a @ b) = extend (extend c a) b"
begin

lemma extend_cons: "extend (extend c [t]) data = extend c (t # data)"
  using extend_append [of c "[t]" data] by simp

end

interpretation crc: crc_stream crc_extend
proof unfold_locales
  fix c :: u32 and a b :: bytes
  show "crc_extend c [] = c"
    by (simp add: crc_extend_eq crc32c_reference_def xor.assoc)
  show "crc_extend c (a @ b) = crc_extend (crc_extend c a) b"
    by (simp add: crc_extend_eq crc32c_reference_def xor.assoc)
qed

lemma crc_extend_type: "crc_extend (crc_value [t]) data = crc_value (t # data)"
  by (simp add: crc_value_def crc.extend_cons)

lemma Unmask_Mask [simp, codec_simps]: "Unmask (Mask c) = c"
proof (rule bit_word_eqI)
  fix n
  assume "n < LENGTH(32)"
  then show "bit (Unmask (Mask c)) n = bit c n"
    by (cases "n < 15") (auto simp: Mask_def Unmask_def Let_def bit_simps dest: bit_imp_le_length)
qed

lemma Mask_Unmask: "Mask (Unmask m) = m"
proof -
  have "drop_bit 15 (Unmask m) OR push_bit 17 (Unmask m) = m - kMaskDelta"
  proof (rule bit_word_eqI)
    fix n
    assume "n < LENGTH(32)"
    then show "bit (drop_bit 15 (Unmask m) OR push_bit 17 (Unmask m)) n = bit (m - kMaskDelta) n"
      by (cases "n < 17") (auto simp: Unmask_def Let_def bit_simps dest: bit_imp_le_length)
  qed
  then show ?thesis by (simp add: Mask_def)
qed

lemma crc_shift_8:
  "(crc_shift ^^ 8) x = crc_shift (crc_shift (crc_shift (crc_shift (crc_shift (crc_shift (crc_shift (crc_shift x)))))))"
  by (simp add: numeral_eq_Suc)

subsection \<open>Properties\<close>


text \<open>Masking a checksum for storage loses nothing: \<open>Mask\<close> and \<open>Unmask\<close> are inverse bijections.\<close>
lemma mask_bijective: "Unmask (Mask crc) = crc \<and> Mask (Unmask m) = m"
  by (simp add: Mask_Unmask)

end
