(* ===== verification/Bloom.thy ===== *)
theory Bloom
  imports Coding
begin

text \<open>
  \<open>util/hash.cc\<close> and \<open>util/bloom.cc\<close>: the hash of byte strings and the built-in filter policy.
  The policy's contract, no false negatives, is the locale \<open>filter_policy\<close>; the filter blocks
  of tables are verified against the locale.
\<close>

subsection \<open>Hash\<close>

definition hash_m :: u32 where
  "hash_m = 0xc6a4a793"

function hash_loop :: "u32 \<Rightarrow> bytes \<Rightarrow> u32 \<times> bytes" where
  "hash_loop h data =
     (if length data \<ge> 4 then
        let w = DecodeFixed32 data;
            h = h + w;
            h = h * hash_m;
            h = h XOR drop_bit 16 h
        in hash_loop h (drop 4 data)
      else (h, data))"
  by pat_completeness auto
termination
  by (relation "measure (\<lambda>(h, data). length data)") auto

declare hash_loop.simps [simp del]

text \<open>The \<open>switch\<close> on the remaining bytes falls through from 3 to 2 to 1.\<close>

definition hash_tail :: "u32 \<Rightarrow> bytes \<Rightarrow> u32" where
  "hash_tail h data =
     (let h = (if length data = 3 then h + push_bit 16 (ucast (data ! 2)) else h);
          h = (if length data \<in> {2, 3} then h + push_bit 8 (ucast (data ! 1)) else h)
      in if length data \<in> {1, 2, 3} then
           let h = h + ucast (data ! 0);
               h = h * hash_m
           in h XOR drop_bit 24 h
         else h)"

definition Hash :: "bytes \<Rightarrow> u32 \<Rightarrow> u32" where
  "Hash data seed =
     (let h = ucast (ucast seed XOR (word_of_nat (length data) * ucast hash_m :: u64));
          (h, rest) = hash_loop h data
      in hash_tail h rest)"

subsection \<open>Bloom filters\<close>

definition BloomHash :: "bytes \<Rightarrow> u32" where
  "BloomHash key = Hash key 0xbc9f1d34"

text \<open>
  The constructor: \<open>bits_per_key * 0.69\<close> is rounded down and then clamped to 1..30.  The product
  is exact below the clamp, since 69 and 100 have no common factor.
\<close>

record BloomFilterPolicy =
  policy_bits_per_key :: nat
  policy_k :: nat

definition NewBloomFilterPolicy :: "nat \<Rightarrow> BloomFilterPolicy" where
  "NewBloomFilterPolicy bits_per_key =
     (let k = bits_per_key * 69 div 100;
          k = (if k < 1 then 1 else k);
          k = (if k > 30 then 30 else k)
      in \<lparr>policy_bits_per_key = bits_per_key, policy_k = k\<rparr>)"

definition bloom_delta :: "u32 \<Rightarrow> u32" where
  "bloom_delta h = drop_bit 17 h OR push_bit 15 h"

primrec bloom_set :: "nat \<Rightarrow> nat \<Rightarrow> u32 \<Rightarrow> u32 \<Rightarrow> bytes \<Rightarrow> bytes" where
  "bloom_set 0 bits h delta array = array"
| "bloom_set (Suc j) bits h delta array =
     (let bitpos = unat h mod bits;
          array = array[bitpos div 8 := array ! (bitpos div 8) OR push_bit (bitpos mod 8) 1]
      in bloom_set j bits (h + delta) delta array)"

definition bloom_add :: "nat \<Rightarrow> nat \<Rightarrow> bytes \<Rightarrow> bytes \<Rightarrow> bytes" where
  "bloom_add k bits array key =
     (let h = BloomHash key in bloom_set k bits h (bloom_delta h) array)"

definition CreateFilter :: "BloomFilterPolicy \<Rightarrow> bytes list \<Rightarrow> bytes \<Rightarrow> bytes" where
  "CreateFilter policy keys dst =
     (let bits = length keys * policy_bits_per_key policy;
          bits = (if bits < 64 then 64 else bits);
          bytes = (bits + 7) div 8;
          bits = bytes * 8;
          array = replicate bytes 0
      in dst @ foldl (bloom_add (policy_k policy) bits) array keys @ [word_of_nat (policy_k policy)])"

primrec bloom_probe :: "nat \<Rightarrow> nat \<Rightarrow> u32 \<Rightarrow> u32 \<Rightarrow> bytes \<Rightarrow> bool" where
  "bloom_probe 0 bits h delta array = True"
| "bloom_probe (Suc j) bits h delta array =
     (let bitpos = unat h mod bits
      in if array ! (bitpos div 8) AND push_bit (bitpos mod 8) 1 = 0 then False
         else bloom_probe j bits (h + delta) delta array)"

definition KeyMayMatch :: "bytes \<Rightarrow> bytes \<Rightarrow> bool" where
  "KeyMayMatch key bloom_filter =
     (let len = length bloom_filter
      in if len < 2 then False
         else let bits = (len - 1) * 8;
                  k = unat (bloom_filter ! (len - 1))
              in if k > 30 then True
                 else let h = BloomHash key in bloom_probe k bits h (bloom_delta h) bloom_filter)"

subsection \<open>Bits of an array\<close>

definition array_bit :: "bytes \<Rightarrow> nat \<Rightarrow> bool" where
  "array_bit array p = bit (array ! (p div 8)) (p mod 8)"

lemma probe_bit: "(x :: byte) AND 2 ^ m = 0 \<longleftrightarrow> \<not> bit x m" if "m < 8"
proof
  assume "x AND 2 ^ m = 0"
  then have "\<not> bit (x AND 2 ^ m) m" by simp
  with that show "\<not> bit x m" by (simp add: bit_simps)
next
  assume "\<not> bit x m"
  then show "x AND 2 ^ m = 0"
    by (intro bit_word_eqI) (auto simp: bit_simps)
qed

lemma bloom_probe_iff:
  "bloom_probe k bits h delta array \<longleftrightarrow> (\<forall>j<k. array_bit array (unat (h + of_nat j * delta) mod bits))"
proof (induction k arbitrary: h)
  case (Suc k)
  have "(\<forall>j<Suc k. array_bit array (unat (h + of_nat j * delta) mod bits)) \<longleftrightarrow>
      array_bit array (unat h mod bits) \<and>
      (\<forall>j<k. array_bit array (unat (h + delta + of_nat j * delta) mod bits))"
    by (simp add: All_less_Suc2 algebra_simps)
  then show ?case
    by (simp add: Suc.IH Let_def probe_bit array_bit_def)
qed simp

lemma array_bit_update:
  assumes "p div 8 < length array"
  shows "array_bit (array[p div 8 := array ! (p div 8) OR push_bit (p mod 8) 1]) q \<longleftrightarrow>
    array_bit array q \<or> q = p"
proof -
  have "q div 8 = p div 8 \<Longrightarrow> q mod 8 = p mod 8 \<Longrightarrow> q = p"
    by (metis mult_div_mod_eq)
  then show ?thesis
    using assms by (auto simp: array_bit_def nth_list_update bit_simps)
qed

lemma length_bloom_set [simp]: "length (bloom_set k bits h delta array) = length array"
  by (induction k arbitrary: h array) (auto simp: Let_def)

lemma bloom_set_bits:
  assumes "bits = 8 * length array" and "0 < bits"
  shows "array_bit (bloom_set k bits h delta array) q \<longleftrightarrow>
    array_bit array q \<or> (\<exists>j<k. q = unat (h + of_nat j * delta) mod bits)"
  using assms
proof (induction k arbitrary: h array)
  case (Suc k)
  define p where "p = unat h mod bits"
  define array' where "array' = array[p div 8 := array ! (p div 8) OR push_bit (p mod 8) 1]"
  have "p div 8 < length array"
    using Suc.prems by (simp add: p_def less_mult_imp_div_less mult.commute)
  then have upd: "array_bit array' q \<longleftrightarrow> array_bit array q \<or> q = p"
    unfolding array'_def by (rule array_bit_update)
  have "array_bit (bloom_set (Suc k) bits h delta array) q = array_bit (bloom_set k bits (h + delta) delta array') q"
    by (simp only: bloom_set.simps Let_def p_def array'_def)
  also have "\<dots> \<longleftrightarrow> array_bit array' q \<or> (\<exists>j<k. q = unat (h + delta + of_nat j * delta) mod bits)"
    using Suc.prems by (intro Suc.IH) (simp_all add: array'_def)
  also have "\<dots> \<longleftrightarrow> array_bit array q \<or> (\<exists>j<Suc k. q = unat (h + of_nat j * delta) mod bits)"
    by (auto simp: upd p_def Ex_less_Suc2 algebra_simps)
  finally show ?case .
qed simp

lemma length_bloom_add [simp]: "length (bloom_add k bits array key) = length array"
  by (simp add: bloom_add_def Let_def)

lemma length_foldl_bloom_add [simp]:
  "length (foldl (bloom_add k bits) array keys) = length array"
  by (induction keys arbitrary: array) auto

text \<open>The bit positions a key probes.\<close>

definition bloom_positions :: "nat \<Rightarrow> nat \<Rightarrow> bytes \<Rightarrow> nat set" where
  "bloom_positions k bits key =
     (let h = BloomHash key in {unat (h + of_nat j * bloom_delta h) mod bits |j. j < k})"

lemma bloom_add_bits:
  assumes "bits = 8 * length array" and "0 < bits"
  shows "array_bit (bloom_add k bits array key) q \<longleftrightarrow> array_bit array q \<or> q \<in> bloom_positions k bits key"
  using bloom_set_bits [OF assms] by (auto simp: bloom_add_def bloom_positions_def Let_def)

lemma foldl_bloom_add_bits:
  assumes "bits = 8 * length array" and "0 < bits"
  shows "array_bit (foldl (bloom_add k bits) array keys) q \<longleftrightarrow>
    array_bit array q \<or> (\<exists>key\<in>set keys. q \<in> bloom_positions k bits key)"
  using assms
proof (induction keys arbitrary: array)
  case (Cons key keys)
  from Cons.IH [of "bloom_add k bits array key"] Cons.prems show ?case
    by (auto simp: bloom_add_bits)
qed simp

lemma array_bit_append [simp]: "p < 8 * length a \<Longrightarrow> array_bit (a @ b) p = array_bit a p"
  by (simp add: array_bit_def nth_append less_mult_imp_div_less mult.commute)

lemma array_bit_replicate_0 [simp]: "p < 8 * n \<Longrightarrow> \<not> array_bit (replicate n 0) p"
  by (simp add: array_bit_def less_mult_imp_div_less mult.commute)

lemma policy_k_bounds: "policy_k (NewBloomFilterPolicy n) \<in> {1..30}"
  by (simp add: NewBloomFilterPolicy_def Let_def)

text \<open>What a filter built from a list of keys answers: exactly a subset test on bit positions.\<close>

lemma KeyMayMatch_CreateFilter:
  fixes keys :: "bytes list"
  assumes "policy_k policy \<le> 30"
  defines "bytes \<equiv> (max 64 (length keys * policy_bits_per_key policy) + 7) div 8"
  shows "KeyMayMatch key (CreateFilter policy keys []) \<longleftrightarrow>
    bloom_positions (policy_k policy) (bytes * 8) key \<subseteq>
      (\<Union>key'\<in>set keys. bloom_positions (policy_k policy) (bytes * 8) key')"
proof -
  define k where "k = policy_k policy"
  define array where "array = foldl (bloom_add k (bytes * 8)) (replicate bytes 0) keys"
  have k: "unat (word_of_nat k :: byte) = k"
    using assms(1) by (simp add: k_def word_of_nat_unat_less)
  have pos: "0 < bytes" by (simp add: bytes_def)
  have len: "length array = bytes" by (simp add: array_def)
  have cf: "CreateFilter policy keys [] = array @ [word_of_nat k]"
    by (simp add: CreateFilter_def Let_def array_def k_def bytes_def max_def)
  have bits: "array_bit (array @ [word_of_nat k]) p \<longleftrightarrow>
      (\<exists>key'\<in>set keys. p \<in> bloom_positions k (bytes * 8) key')" if "p < bytes * 8" for p
    using that pos by (simp add: len mult.commute) (simp add: array_def foldl_bloom_add_bits)
  have "KeyMayMatch key (array @ [word_of_nat k]) \<longleftrightarrow>
      (\<forall>p\<in>bloom_positions k (bytes * 8) key. array_bit (array @ [word_of_nat k]) p)"
    using pos assms(1) k len
    by (auto simp: KeyMayMatch_def Let_def bloom_probe_iff bloom_positions_def nth_append k_def [symmetric])
  also have "\<dots> \<longleftrightarrow> (\<forall>p\<in>bloom_positions k (bytes * 8) key.
      \<exists>key'\<in>set keys. p \<in> bloom_positions k (bytes * 8) key')"
    using pos by (intro ball_cong refl bits) (auto simp: bloom_positions_def Let_def)
  finally show ?thesis by (auto simp: cf k_def)
qed

subsection \<open>The filter-policy interface\<close>

locale filter_policy =
  fixes create :: "bytes list \<Rightarrow> bytes \<Rightarrow> bytes"
    and may_match :: "bytes \<Rightarrow> bytes \<Rightarrow> bool"
  assumes create_appends: "create keys dst = dst @ create keys []"
    and no_false_negative: "key \<in> set keys \<Longrightarrow> may_match key (create keys [])"

interpretation bloom: filter_policy "CreateFilter (NewBloomFilterPolicy n)" KeyMayMatch for n
proof unfold_locales
  fix keys dst
  show "CreateFilter (NewBloomFilterPolicy n) keys dst = dst @ CreateFilter (NewBloomFilterPolicy n) keys []"
    by (simp add: CreateFilter_def Let_def)
next
  fix key :: bytes and keys
  assume "key \<in> set keys"
  then show "KeyMayMatch key (CreateFilter (NewBloomFilterPolicy n) keys [])"
    using policy_k_bounds [of n] by (auto simp: KeyMayMatch_CreateFilter)
qed

subsection \<open>Properties\<close>

text \<open>C26: A Bloom filter has no false negatives: whatever the bits-per-key setting, every key the filter
  was created from matches, and the filter is appended to the destination untouched.\<close>
theorem bloom_no_false_negative:
  assumes "key \<in> set keys"
  shows "KeyMayMatch key (drop (length dst) (CreateFilter (NewBloomFilterPolicy n) keys dst))"
  using bloom.no_false_negative [OF assms] by (subst bloom.create_appends) simp

theorem bloom_no_false_negative_witness:
  "KeyMayMatch [1, 2] (drop (length [9 :: byte]) (CreateFilter (NewBloomFilterPolicy 10) [[3], [1, 2]] [9]))"
  by (rule bloom_no_false_negative) simp

text \<open>C27: A filter answers \<open>true\<close> exactly when every bit the key probes was set by some key, so a filter of
  no keys matches nothing.\<close>
theorem bloom_match_iff:
  "KeyMayMatch key (CreateFilter (NewBloomFilterPolicy n) keys []) \<longleftrightarrow>
    bloom_positions (policy_k (NewBloomFilterPolicy n)) ((max 64 (length keys * n) + 7) div 8 * 8) key \<subseteq>
      (\<Union>key'\<in>set keys.
        bloom_positions (policy_k (NewBloomFilterPolicy n)) ((max 64 (length keys * n) + 7) div 8 * 8) key')"
  using policy_k_bounds [of n]
  by (subst KeyMayMatch_CreateFilter) (simp_all add: NewBloomFilterPolicy_def Let_def)

end
