(* ===== verification/Logging.thy ===== *)
theory Logging
  imports Prelude
begin

text \<open>
  Decimal and escaped text, translated from \<open>util/logging.cc\<close>. A string literal of the source is
  \<^term>\<open>str\<close> of the Isabelle string; \<open>%llu\<close> and \<open>%06llu\<close> of \<open>snprintf\<close> are \<open>decimal\<close> and
  \<open>decimal_padded\<close> (the buffers of the source hold 20 digits and their prefix and suffix, so
  nothing is cut off).
\<close>

subsection \<open>Text\<close>

definition str :: "string \<Rightarrow> bytes" where
  "str s = map of_char s"

definition digit :: "nat \<Rightarrow> byte" where
  "digit d = word_of_nat (48 + d)"

fun decimal :: "nat \<Rightarrow> bytes" where
  "decimal n = (if n < 10 then [digit n] else decimal (n div 10) @ [digit (n mod 10)])"

declare decimal.simps [simp del]

definition decimal_padded :: "nat \<Rightarrow> nat \<Rightarrow> bytes" where
  "decimal_padded w n = replicate (w - length (decimal n)) (digit 0) @ decimal n"

definition hex_digit :: "nat \<Rightarrow> byte" where
  "hex_digit d = (if d < 10 then word_of_nat (48 + d) else word_of_nat (87 + d))"

subsection \<open>Printing\<close>

definition AppendNumberTo :: "bytes \<Rightarrow> u64 \<Rightarrow> bytes" where
  "AppendNumberTo s num = s @ decimal (unat num)"

text \<open>\<open>char\<close> is signed, so a byte from 128 on compares below the blank.\<close>

definition escape_char :: "byte \<Rightarrow> bytes" where
  "escape_char c =
     (if 32 \<le> sint c \<and> sint c \<le> 126 then [c]
      else [92, 120, hex_digit (unat c div 16), hex_digit (unat c mod 16)])"

fun AppendEscapedStringTo :: "bytes \<Rightarrow> bytes \<Rightarrow> bytes" where
  "AppendEscapedStringTo s [] = s"
| "AppendEscapedStringTo s (c # value) = AppendEscapedStringTo (s @ escape_char c) value"

definition NumberToString :: "u64 \<Rightarrow> bytes" where
  "NumberToString num = AppendNumberTo [] num"

definition EscapeString :: "bytes \<Rightarrow> bytes" where
  "EscapeString value = AppendEscapedStringTo [] value"

subsection \<open>Reading a decimal number\<close>

definition kMaxUint64 :: u64 where
  "kMaxUint64 = 0xffffffffffffffff"

definition kLastDigitOfMaxUint64 :: byte where
  "kLastDigitOfMaxUint64 = 48 + ucast (kMaxUint64 mod 10)"

text \<open>The loop: \<^term>\<open>None\<close> when the next digit would overflow, and otherwise the unread rest and the
  value.\<close>

fun consume_loop :: "bytes \<Rightarrow> u64 \<Rightarrow> (bytes \<times> u64) option" where
  "consume_loop [] val = Some ([], val)"
| "consume_loop (ch # rest) val =
     (if ch < 48 \<or> ch > 57 then Some (ch # rest, val)
      else if val > kMaxUint64 div 10 \<or> val = kMaxUint64 div 10 \<and> ch > kLastDigitOfMaxUint64 then None
      else consume_loop rest (val * 10 + (ucast ch - 48)))"

text \<open>The result and the two in-out arguments, \<open>in\<close> and \<open>val\<close>.\<close>

definition ConsumeDecimalNumber :: "bytes \<Rightarrow> u64 \<Rightarrow> bool \<times> bytes \<times> u64" where
  "ConsumeDecimalNumber inp val =
     (case consume_loop inp 0 of
        None \<Rightarrow> (False, inp, val)
      | Some (rest, v) \<Rightarrow> (length inp - length rest \<noteq> 0, rest, v))"

subsection \<open>Lemmas\<close>

text \<open>The number a list of digits denotes.\<close>

definition digits_value :: "nat \<Rightarrow> nat list \<Rightarrow> nat" where
  "digits_value v ds = foldl (\<lambda>v d. v * 10 + d) v ds"

lemma digits_value_simps [simp]:
  "digits_value v [] = v" "digits_value v (d # ds) = digits_value (v * 10 + d) ds"
  "digits_value v (ds @ [d]) = digits_value v ds * 10 + d"
  by (simp_all add: digits_value_def)

lemma digits_value_zeros [simp]: "digits_value 0 (replicate n 0 @ ds) = digits_value 0 ds"
  by (induction n) auto

lemma digits_value_mono: "v \<le> digits_value v ds"
proof (induction ds arbitrary: v)
  case (Cons d ds)
  from Cons [of "v * 10 + d"] show ?case by simp
qed simp

definition starts_with_digit :: "bytes \<Rightarrow> bool" where
  "starts_with_digit s = (case s of [] \<Rightarrow> False | c # _ \<Rightarrow> 48 \<le> c \<and> c \<le> 57)"

lemma unat_digit: "d < 10 \<Longrightarrow> unat (digit d) = 48 + d"
  by (simp add: digit_def unat_of_nat del: of_nat_add)

lemma consume_digit:
  assumes d: "d < 10" and v: "v < 2 ^ 64"
  shows "consume_loop (digit d # s) (word_of_nat v) =
    (if v * 10 + d < 2 ^ 64 then consume_loop s (word_of_nat (v * 10 + d)) else None)"
proof -
  have ge: "\<not> digit d < 48" "\<not> digit d > 57"
    using d by (simp_all add: word_less_nat_alt unat_digit)
  have uv: "unat (word_of_nat v :: u64) = v" using v by (simp add: unat_of_nat)
  have "unat (ucast (digit d) :: u64) = 48 + d"
    using d by (simp add: unsigned_ucast_eq unat_digit take_bit_nat_eq_self)
  then have "(ucast (digit d) :: u64) - 48 = word_of_nat d"
    using d by (simp add: word_unat_eq_iff unat_of_nat unat_sub_if')
  then have val: "word_of_nat v * 10 + ((ucast (digit d) :: u64) - 48) = word_of_nat (v * 10 + d)"
    by simp
  have "(word_of_nat v > kMaxUint64 div 10 \<or> word_of_nat v = kMaxUint64 div 10 \<and> digit d > kLastDigitOfMaxUint64)
      \<longleftrightarrow> \<not> v * 10 + d < 2 ^ 64"
    using d uv
    by (auto simp: kMaxUint64_def kLastDigitOfMaxUint64_def word_less_nat_alt word_unat_eq_iff unat_digit)
  with ge val show ?thesis by simp
qed

text \<open>The loop reads exactly the digits, and stops with a failure exactly on overflow.\<close>

lemma consume_digits:
  assumes "\<forall>d \<in> set ds. d < 10" and "v < 2 ^ 64" and "\<not> starts_with_digit rest"
  shows "consume_loop (map digit ds @ rest) (word_of_nat v) =
    (if digits_value v ds < 2 ^ 64 then Some (rest, word_of_nat (digits_value v ds)) else None)"
  using assms
proof (induction ds arbitrary: v)
  case Nil
  then show ?case by (cases rest) (auto simp: starts_with_digit_def)
next
  case (Cons d ds)
  show ?case
  proof (cases "v * 10 + d < 2 ^ 64")
    case True
    with Cons show ?thesis by (simp only: list.map append_Cons) (simp add: consume_digit del: consume_loop.simps of_nat_add of_nat_mult)
  next
    case False
    with digits_value_mono [of "v * 10 + d" ds] have "\<not> digits_value (v * 10 + d) ds < 2 ^ 64" by simp
    with False Cons.prems show ?thesis by (simp add: consume_digit del: consume_loop.simps)
  qed
qed

lemma decimal_digits: "\<exists>ds. decimal n = map digit ds \<and> (\<forall>d \<in> set ds. d < 10) \<and> ds \<noteq> [] \<and> digits_value 0 ds = n"
proof (induction n rule: less_induct)
  case (less n)
  show ?case
  proof (cases "n < 10")
    case True
    then show ?thesis by (intro exI [of _ "[n]"]) (simp add: decimal.simps)
  next
    case False
    then obtain ds where "decimal (n div 10) = map digit ds" "\<forall>d \<in> set ds. d < 10" "digits_value 0 ds = n div 10"
      using less [of "n div 10"] by auto
    with False show ?thesis
      by (intro exI [of _ "ds @ [n mod 10]"]) (auto simp: decimal.simps [of n])
  qed
qed

lemma decimal_padded_digits:
  "\<exists>ds. decimal_padded w n = map digit ds \<and> (\<forall>d \<in> set ds. d < 10) \<and> ds \<noteq> [] \<and> digits_value 0 ds = n"
proof -
  obtain ds where "decimal n = map digit ds" "\<forall>d \<in> set ds. d < 10" "ds \<noteq> []" "digits_value 0 ds = n"
    using decimal_digits by blast
  then show ?thesis
    by (intro exI [of _ "replicate (w - length ds) 0 @ ds"]) (auto simp: decimal_padded_def)
qed

lemma Consume_digits:
  assumes "\<forall>d \<in> set ds. d < 10" and "ds \<noteq> []" and "\<not> starts_with_digit rest"
  shows "ConsumeDecimalNumber (map digit ds @ rest) val =
    (if digits_value 0 ds < 2 ^ 64 then (True, rest, word_of_nat (digits_value 0 ds))
     else (False, map digit ds @ rest, val))"
  using consume_digits [OF assms(1) _ assms(3), of 0] assms(2)
  by (auto simp: ConsumeDecimalNumber_def)

lemma Consume_decimal_padded:
  assumes "\<not> starts_with_digit rest"
  shows "ConsumeDecimalNumber (decimal_padded w (unat n) @ rest) val = (True, rest, n)"
proof -
  obtain ds where "decimal_padded w (unat n) = map digit ds" "\<forall>d \<in> set ds. d < 10" "ds \<noteq> []"
    "digits_value 0 ds = unat n"
    using decimal_padded_digits by blast
  with assms show ?thesis using Consume_digits [of ds rest val] unsigned_less [of n] by simp
qed

lemma decimal_padded_0: "decimal_padded 0 n = decimal n"
  by (simp add: decimal_padded_def)

subsection \<open>Properties\<close>

text \<open>C38: A decimal number is read exactly: a run of digits, leading zeros included, followed by something that is
  not a digit gives its value and leaves the rest, when the value fits in 64 bits, and is refused with the
  input untouched when it does not.\<close>
theorem ConsumeDecimalNumber_exact:
  assumes "\<forall>d \<in> set ds. d < 10" and "ds \<noteq> []" and "\<not> starts_with_digit rest"
  shows "ConsumeDecimalNumber (map digit ds @ rest) val =
    (if digits_value 0 ds < 2 ^ 64 then (True, rest, word_of_nat (digits_value 0 ds))
     else (False, map digit ds @ rest, val))"
  using Consume_digits [OF assms] .

theorem ConsumeDecimalNumber_exact_witness:
  "ConsumeDecimalNumber (map digit [0, 4, 2] @ str ''.log'') 7 = (True, str ''.log'', 42)"
  using ConsumeDecimalNumber_exact [of "[0, 4, 2]" "str ''.log''" 7]
  by (simp add: starts_with_digit_def str_def)

end
