(* ===== verification/Status.thy ===== *)
theory Status
  imports Coding Logging
begin

text \<open>
  Result codes, translated from \<open>include/leveldb/status.h\<close> and \<open>util/status.cc\<close>. A status is its
  \<open>state_\<close>: \<^term>\<open>None\<close> for the null pointer of success, and otherwise the bytes of the array: four of
  message length in the machine's order (little-endian here), one of code, and the message.
\<close>

type_synonym Status = "bytes option"

datatype Code = kOk | kNotFound | kCorruption | kNotSupported | kInvalidArgument | kIOError

fun Code_value :: "Code \<Rightarrow> byte" where
  "Code_value kOk = 0"
| "Code_value kNotFound = 1"
| "Code_value kCorruption = 2"
| "Code_value kNotSupported = 3"
| "Code_value kInvalidArgument = 4"
| "Code_value kIOError = 5"

definition Status_new :: "Code \<Rightarrow> bytes \<Rightarrow> bytes \<Rightarrow> Status" where
  "Status_new code msg msg2 =
     (let len1 = word_of_nat (length msg) :: u32;
          len2 = word_of_nat (length msg2) :: u32;
          size = len1 + (if len2 \<noteq> 0 then 2 + len2 else 0)
      in Some (EncodeFixed32 size @ [Code_value code] @ take (unat len1) msg @
           (if len2 \<noteq> 0 then str '': '' @ take (unat len2) msg2 else [])))"

definition CopyState :: "bytes \<Rightarrow> bytes" where
  "CopyState state = (let size = DecodeFixed32 state in take (unat size + 5) state)"

definition Status_copy :: "Status \<Rightarrow> Status" where
  "Status_copy rhs = (case rhs of None \<Rightarrow> None | Some state \<Rightarrow> Some (CopyState state))"

definition OK :: Status where
  "OK = None"

definition NotFound :: "bytes \<Rightarrow> bytes \<Rightarrow> Status" where
  "NotFound msg msg2 = Status_new kNotFound msg msg2"

definition Corruption :: "bytes \<Rightarrow> bytes \<Rightarrow> Status" where
  "Corruption msg msg2 = Status_new kCorruption msg msg2"

definition NotSupported :: "bytes \<Rightarrow> bytes \<Rightarrow> Status" where
  "NotSupported msg msg2 = Status_new kNotSupported msg msg2"

definition InvalidArgument :: "bytes \<Rightarrow> bytes \<Rightarrow> Status" where
  "InvalidArgument msg msg2 = Status_new kInvalidArgument msg msg2"

definition IOError :: "bytes \<Rightarrow> bytes \<Rightarrow> Status" where
  "IOError msg msg2 = Status_new kIOError msg msg2"

definition ok :: "Status \<Rightarrow> bool" where
  "ok s \<longleftrightarrow> s = None"

text \<open>The enumeration value stored in the fifth byte, a signed \<open>char\<close>.\<close>

definition status_code :: "Status \<Rightarrow> int" where
  "status_code s = (case s of None \<Rightarrow> 0 | Some state \<Rightarrow> sint (state ! 4))"

definition IsNotFound :: "Status \<Rightarrow> bool" where
  "IsNotFound s \<longleftrightarrow> status_code s = sint (Code_value kNotFound)"

definition IsCorruption :: "Status \<Rightarrow> bool" where
  "IsCorruption s \<longleftrightarrow> status_code s = sint (Code_value kCorruption)"

definition IsIOError :: "Status \<Rightarrow> bool" where
  "IsIOError s \<longleftrightarrow> status_code s = sint (Code_value kIOError)"

definition IsNotSupportedError :: "Status \<Rightarrow> bool" where
  "IsNotSupportedError s \<longleftrightarrow> status_code s = sint (Code_value kNotSupported)"

definition IsInvalidArgument :: "Status \<Rightarrow> bool" where
  "IsInvalidArgument s \<longleftrightarrow> status_code s = sint (Code_value kInvalidArgument)"

definition status_type :: "int \<Rightarrow> bytes" where
  "status_type c =
     (if c = 0 then str ''OK''
      else if c = 1 then str ''NotFound: ''
      else if c = 2 then str ''Corruption: ''
      else if c = 3 then str ''Not implemented: ''
      else if c = 4 then str ''Invalid argument: ''
      else if c = 5 then str ''IO error: ''
      else str ''Unknown code('' @ (if c < 0 then str ''-'' else []) @ decimal (nat (abs c)) @ str ''): '')"

definition ToString :: "Status \<Rightarrow> bytes" where
  "ToString s =
     (case s of
        None \<Rightarrow> str ''OK''
      | Some state \<Rightarrow> status_type (status_code s) @ take (unat (DecodeFixed32 state)) (drop 5 state))"

subsection \<open>Lemmas\<close>

lemma ok_OK [simp]: "ok OK"
  by (simp add: ok_def OK_def)

lemma ok_Status_new [simp]: "\<not> ok (Status_new c m m2)"
  by (simp add: ok_def Status_new_def Let_def)

lemma ok_errors [simp]:
  "\<not> ok (NotFound m m2)" "\<not> ok (Corruption m m2)" "\<not> ok (NotSupported m m2)" "\<not> ok (InvalidArgument m m2)"
  "\<not> ok (IOError m m2)"
  by (simp_all add: NotFound_def Corruption_def NotSupported_def InvalidArgument_def IOError_def)

lemma status_code_OK [simp]: "status_code OK = 0"
  by (simp add: status_code_def OK_def)

lemma status_code_new [simp]: "status_code (Status_new c m m2) = sint (Code_value c)"
  by (simp add: status_code_def Status_new_def Let_def nth_append)

lemma status_code_errors [simp]:
  "status_code (NotFound m m2) = 1" "status_code (Corruption m m2) = 2" "status_code (NotSupported m m2) = 3"
  "status_code (InvalidArgument m m2) = 4" "status_code (IOError m m2) = 5"
  by (simp_all add: NotFound_def Corruption_def NotSupported_def InvalidArgument_def IOError_def)

lemma ok_iff_OK: "ok s \<longleftrightarrow> s = OK"
  by (simp add: ok_def OK_def)

text \<open>The two messages joined by a colon and a blank, when the second is not empty.\<close>

definition joined :: "bytes \<Rightarrow> bytes \<Rightarrow> bytes" where
  "joined msg msg2 = msg @ (if msg2 = [] then [] else str '': '' @ msg2)"

lemma Status_new_layout:
  assumes "length msg + length msg2 + 2 < 2 ^ 32"
  shows "Status_new c msg msg2 =
    Some (EncodeFixed32 (word_of_nat (length (joined msg msg2))) @ [Code_value c] @ joined msg msg2)"
proof -
  have z: "(word_of_nat (length msg2) :: u32) = 0 \<longleftrightarrow> msg2 = []"
    using assms by (simp add: word_unat_eq_iff unat_of_nat)
  have "unat (word_of_nat (length msg) :: u32) = length msg" "unat (word_of_nat (length msg2) :: u32) = length msg2"
    using assms by (simp_all add: unat_of_nat)
  with z show ?thesis
    by (simp add: Status_new_def Let_def joined_def str_def algebra_simps)
qed

subsection \<open>Properties\<close>

text \<open>An error status built from a code and two messages whose total length fits in 32 bits is not ok,
  answers to its own code only, prints as the code's prefix followed by the messages, and is copied byte for
  byte.\<close>
lemma status_correct:
  assumes "length msg + length msg2 + 2 < 2 ^ 32" and "s = Status_new c msg msg2"
  shows "\<not> ok s \<and> IsNotFound s = (c = kNotFound) \<and> IsCorruption s = (c = kCorruption) \<and>
    IsNotSupportedError s = (c = kNotSupported) \<and> IsInvalidArgument s = (c = kInvalidArgument) \<and>
    IsIOError s = (c = kIOError) \<and> ToString s = status_type (sint (Code_value c)) @ joined msg msg2 \<and>
    Status_copy s = s"
proof -
  have "length (joined msg msg2) < 2 ^ 32"
    using assms(1) by (simp add: joined_def str_def)
  then have l: "unat (word_of_nat (length (joined msg msg2)) :: u32) = length (joined msg msg2)"
    by (simp add: unat_of_nat)
  have "IsNotFound s = (c = kNotFound)" "IsCorruption s = (c = kCorruption)"
    "IsNotSupportedError s = (c = kNotSupported)" "IsInvalidArgument s = (c = kInvalidArgument)"
    "IsIOError s = (c = kIOError)"
    unfolding assms(2) IsNotFound_def IsCorruption_def IsNotSupportedError_def IsInvalidArgument_def IsIOError_def
      status_code_new by (cases c; simp)+
  moreover have "ToString s = status_type (sint (Code_value c)) @ joined msg msg2" "Status_copy s = s"
    using l unfolding assms(2) ToString_def Status_copy_def CopyState_def status_code_new
    by (simp_all add: Status_new_layout [OF assms(1)])
  ultimately show ?thesis using assms(2) by simp
qed

end
