(* ===== verification/FileIO.thy ===== *)
theory FileIO
  imports Status
begin

text \<open>
  The environment interface of \<open>include/leveldb/env.h\<close> and the utility routines of \<open>util/env.cc\<close>. The
  abstract classes are records of functions over a state \<^typ>\<open>'e\<close> of the environment; an object is the record
  of its methods, and \<open>delete\<close> is one of them. An argument that the source fills in is part of the result.
\<close>

subsection \<open>The file classes\<close>

record 'e WritableFile =
  file_Append :: "bytes \<Rightarrow> 'e \<Rightarrow> Status \<times> 'e"
  file_Close :: "'e \<Rightarrow> Status \<times> 'e"
  file_Flush :: "'e \<Rightarrow> Status \<times> 'e"
  file_Sync :: "'e \<Rightarrow> Status \<times> 'e"
  file_delete :: "'e \<Rightarrow> 'e"

record 'e SequentialFile =
  seq_Read :: "nat \<Rightarrow> 'e \<Rightarrow> Status \<times> bytes \<times> 'e"
  seq_Skip :: "nat \<Rightarrow> 'e \<Rightarrow> Status \<times> 'e"
  seq_delete :: "'e \<Rightarrow> 'e"

record 'e RandomAccessFile =
  rnd_Read :: "nat \<Rightarrow> nat \<Rightarrow> 'e \<Rightarrow> Status \<times> bytes"
  rnd_delete :: "'e \<Rightarrow> 'e"

text \<open>The methods of \<open>Env\<close> that create, name and remove files.\<close>

record 'e Env =
  env_NewSequentialFile :: "bytes \<Rightarrow> 'e \<Rightarrow> Status \<times> 'e SequentialFile option \<times> 'e"
  env_NewRandomAccessFile :: "bytes \<Rightarrow> 'e \<Rightarrow> Status \<times> 'e RandomAccessFile option \<times> 'e"
  env_NewWritableFile :: "bytes \<Rightarrow> 'e \<Rightarrow> Status \<times> 'e WritableFile option \<times> 'e"
  env_NewAppendableFile :: "bytes \<Rightarrow> 'e \<Rightarrow> Status \<times> 'e WritableFile option \<times> 'e"
  env_FileExists :: "bytes \<Rightarrow> 'e \<Rightarrow> bool"
  env_GetChildren :: "bytes \<Rightarrow> 'e \<Rightarrow> Status \<times> bytes list"
  env_RemoveFile :: "bytes \<Rightarrow> 'e \<Rightarrow> Status \<times> 'e"
  env_GetFileSize :: "bytes \<Rightarrow> 'e \<Rightarrow> Status \<times> nat"
  env_RenameFile :: "bytes \<Rightarrow> bytes \<Rightarrow> 'e \<Rightarrow> Status \<times> 'e"

text \<open>What \<open>Env\<close> itself does for an environment that cannot append.\<close>

definition default_NewAppendableFile :: "bytes \<Rightarrow> 'e \<Rightarrow> Status \<times> 'e WritableFile option \<times> 'e" where
  "default_NewAppendableFile fname e = (NotSupported (str ''NewAppendableFile'') fname, None, e)"

subsection \<open>Utility routines\<close>

text \<open>A successful \<open>NewWritableFile\<close> has stored an object; using the null pointer it stores on failure does not
  happen, so that branch returns the status as it is.\<close>

definition DoWriteStringToFile :: "'e Env \<Rightarrow> bytes \<Rightarrow> bytes \<Rightarrow> bool \<Rightarrow> 'e \<Rightarrow> Status \<times> 'e" where
  "DoWriteStringToFile env data fname should_sync e =
     (case env_NewWritableFile env fname e of
        (s, None, e1) \<Rightarrow> (s, e1)
      | (s, Some file, e1) \<Rightarrow>
          if \<not> ok s then (s, e1)
          else
            (let (s, e2) = file_Append file data e1;
                 (s, e3) = (if ok s \<and> should_sync then file_Sync file e2 else (s, e2));
                 (s, e4) = (if ok s then file_Close file e3 else (s, e3));
                 e5 = file_delete file e4
             in if \<not> ok s then (s, snd (env_RemoveFile env fname e5)) else (s, e5)))"

definition WriteStringToFile :: "'e Env \<Rightarrow> bytes \<Rightarrow> bytes \<Rightarrow> 'e \<Rightarrow> Status \<times> 'e" where
  "WriteStringToFile env data fname e = DoWriteStringToFile env data fname False e"

definition WriteStringToFileSync :: "'e Env \<Rightarrow> bytes \<Rightarrow> bytes \<Rightarrow> 'e \<Rightarrow> Status \<times> 'e" where
  "WriteStringToFileSync env data fname e = DoWriteStringToFile env data fname True e"

definition kBufferSize :: nat where
  "kBufferSize = 8192"

text \<open>The reading loop, which ends when a read fails or returns nothing; \<^term>\<open>None\<close> would be a file that never
  ends.\<close>

partial_function (option) read_all_loop :: "'e SequentialFile \<Rightarrow> bytes \<Rightarrow> 'e \<Rightarrow> (Status \<times> bytes \<times> 'e) option" where
  "read_all_loop file data e =
     (case seq_Read file kBufferSize e of
        (s, fragment, e1) \<Rightarrow>
          if \<not> ok s then Some (s, data, e1)
          else if fragment = [] then Some (s, data @ fragment, e1)
          else read_all_loop file (data @ fragment) e1)"

definition ReadFileToString :: "'e Env \<Rightarrow> bytes \<Rightarrow> 'e \<Rightarrow> (Status \<times> bytes \<times> 'e) option" where
  "ReadFileToString env fname e =
     (case env_NewSequentialFile env fname e of
        (s, None, e1) \<Rightarrow> Some (s, [], e1)
      | (s, Some file, e1) \<Rightarrow>
          if \<not> ok s then Some (s, [], e1)
          else map_option (\<lambda>(s, data, e2). (s, data, seq_delete file e2)) (read_all_loop file [] e1))"

subsection \<open>What a file promises\<close>

text \<open>A writable file appends what it is given, or, when it fails, some first part of it; the other methods
  leave the contents alone. The state may have to satisfy an invariant \<open>good\<close>.\<close>

locale writable_file =
  fixes wf :: "'e WritableFile" and contents :: "'e \<Rightarrow> bytes" and good :: "'e \<Rightarrow> bool"
  assumes append_ok: "\<lbrakk>good e; file_Append wf data e = (s, e'); ok s\<rbrakk> \<Longrightarrow> contents e' = contents e @ data"
    and append_fails: "\<lbrakk>good e; file_Append wf data e = (s, e'); \<not> ok s\<rbrakk> \<Longrightarrow>
      \<exists>n. contents e' = contents e @ take n data"
    and flush_contents: "\<lbrakk>good e; file_Flush wf e = (s, e')\<rbrakk> \<Longrightarrow> contents e' = contents e"
    and append_good: "\<lbrakk>good e; file_Append wf data e = (s, e')\<rbrakk> \<Longrightarrow> good e'"
    and flush_good: "\<lbrakk>good e; file_Flush wf e = (s, e')\<rbrakk> \<Longrightarrow> good e'"

text \<open>A file on which nothing fails.\<close>

locale reliable_writable = writable_file +
  assumes append_reliable: "\<lbrakk>good e; file_Append wf data e = (s, e')\<rbrakk> \<Longrightarrow> ok s"
    and flush_reliable: "\<lbrakk>good e; file_Flush wf e = (s, e')\<rbrakk> \<Longrightarrow> ok s"
begin

lemma append_contents:
  assumes "good e"
  shows "\<exists>e'. file_Append wf data e = (OK, e') \<and> good e' \<and> contents e' = contents e @ data"
  using append_reliable [OF assms] append_ok [OF assms] append_good [OF assms]
  by (cases "file_Append wf data e") (auto simp: ok_iff_OK)

lemma flush_same:
  assumes "good e"
  shows "\<exists>e'. file_Flush wf e = (OK, e') \<and> good e' \<and> contents e' = contents e"
  using flush_reliable [OF assms] flush_contents [OF assms] flush_good [OF assms]
  by (cases "file_Flush wf e") (auto simp: ok_iff_OK)

end

text \<open>A sequential file hands out what remains of it in order; only at its end does it return less than asked
  for. A read that fails may have lost bytes.\<close>

locale sequential_file =
  fixes sf :: "'e SequentialFile" and remaining :: "'e \<Rightarrow> bytes" and good :: "'e \<Rightarrow> bool"
  assumes read_good: "\<lbrakk>good e; seq_Read sf n e = (s, r, e')\<rbrakk> \<Longrightarrow> good e'"
    and read_ok: "\<lbrakk>good e; seq_Read sf n e = (s, r, e'); ok s\<rbrakk> \<Longrightarrow>
      r = take n (remaining e) \<and> remaining e' = drop n (remaining e)"
begin

lemma read_all:
  assumes "good e"
  shows "\<exists>s d e'. read_all_loop sf data e = Some (s, d, e') \<and> good e' \<and> (ok s \<longrightarrow> d = data @ remaining e)"
  using assms
proof (induction "length (remaining e)" arbitrary: data e rule: less_induct)
  case less
  obtain s r e1 where rd: "seq_Read sf kBufferSize e = (s, r, e1)" by (cases "seq_Read sf kBufferSize e") auto
  note r = read_ok [OF less.prems rd] read_good [OF less.prems rd]
  show ?case
  proof (cases "ok s \<and> remaining e \<noteq> []")
    case False
    with rd r show ?thesis by (auto simp add: read_all_loop.simps [of sf data e])
  next
    case True
    with r have "length (remaining e1) < length (remaining e)" by (simp add: kBufferSize_def)
    from less.hyps [OF this, of "data @ r"] r True rd show ?thesis
      by (auto simp add: read_all_loop.simps [of sf data e] kBufferSize_def)
  qed
qed

end

text \<open>A file whose reads never fail.\<close>

locale reliable_file = sequential_file +
  assumes read_reliable: "\<lbrakk>good e; seq_Read sf n e = (s, r, e')\<rbrakk> \<Longrightarrow> ok s"
begin

lemma read_take:
  assumes "good e"
  shows "\<exists>e'. seq_Read sf n e = (OK, take n (remaining e), e') \<and> good e' \<and> remaining e' = drop n (remaining e)"
  using read_ok [OF assms] read_good [OF assms] read_reliable [OF assms]
  by (cases "seq_Read sf n e") (auto simp: ok_iff_OK)

lemma read_all_reliable:
  assumes "good e"
  shows "\<exists>e'. read_all_loop sf data e = Some (OK, data @ remaining e, e') \<and> good e'"
  using assms
proof (induction "length (remaining e)" arbitrary: data e rule: less_induct)
  case less
  obtain e1 where rd: "seq_Read sf kBufferSize e = (OK, take kBufferSize (remaining e), e1)"
    and e1: "good e1" "remaining e1 = drop kBufferSize (remaining e)"
    using read_take [OF less.prems] by blast
  show ?case
  proof (cases "remaining e = []")
    case True
    with rd e1 show ?thesis by (simp add: read_all_loop.simps [of sf data e])
  next
    case False
    with e1 have "length (remaining e1) < length (remaining e)" by (simp add: kBufferSize_def)
    from less.hyps [OF this e1(1), of "data @ take kBufferSize (remaining e)"] rd e1 False show ?thesis
      by (simp add: read_all_loop.simps [of sf data e] kBufferSize_def)
  qed
qed

end

text \<open>A random-access file returns the bytes at an offset that it has.\<close>

locale random_access_file =
  fixes rf :: "'e RandomAccessFile" and contents :: "'e \<Rightarrow> bytes" and good :: "'e \<Rightarrow> bool"
  assumes rnd_read: "\<lbrakk>good e; off + n \<le> length (contents e)\<rbrakk> \<Longrightarrow> rnd_Read rf off n e = (OK, take n (drop off (contents e)))"

text \<open>An environment as a map from file names to contents: \<open>writes f fname e\<close> says that the object \<open>f\<close> is open
  for writing \<open>fname\<close> in the state \<open>e\<close>, and \<open>reads f fname e\<close> that it has all of \<open>fname\<close> before it.\<close>

locale env_files =
  fixes env :: "'e Env" and files :: "'e \<Rightarrow> bytes \<Rightarrow> bytes option" and good :: "'e \<Rightarrow> bool"
    and writes :: "'e WritableFile \<Rightarrow> bytes \<Rightarrow> 'e \<Rightarrow> bool"
  assumes new_writable: "\<lbrakk>good e; env_NewWritableFile env fname e = (s, w, e'); ok s\<rbrakk> \<Longrightarrow>
      \<exists>f. w = Some f \<and> good e' \<and> writes f fname e' \<and> files e' = (files e)(fname \<mapsto> [])"
    and new_writable_fails: "\<lbrakk>good e; env_NewWritableFile env fname e = (s, w, e'); \<not> ok s\<rbrakk> \<Longrightarrow> good e'"
    and append_file: "\<lbrakk>good e; writes f fname e; file_Append f data e = (s, e')\<rbrakk> \<Longrightarrow>
      good e' \<and> writes f fname e' \<and> (ok s \<longrightarrow> files e' = (files e)(fname \<mapsto> the (files e fname) @ data))"
    and sync_file: "\<lbrakk>good e; writes f fname e; file_Sync f e = (s, e')\<rbrakk> \<Longrightarrow>
      good e' \<and> writes f fname e' \<and> files e' = files e"
    and close_file: "\<lbrakk>good e; writes f fname e; file_Close f e = (s, e')\<rbrakk> \<Longrightarrow>
      good e' \<and> writes f fname e' \<and> files e' = files e"
    and delete_file: "\<lbrakk>good e; writes f fname e\<rbrakk> \<Longrightarrow> good (file_delete f e) \<and> files (file_delete f e) = files e"
    and remove_file: "\<lbrakk>good e; env_RemoveFile env fname e = (s, e')\<rbrakk> \<Longrightarrow>
      good e' \<and> (ok s \<longrightarrow> files e' = (files e)(fname := None))"
    and rename_file: "\<lbrakk>good e; env_RenameFile env src target e = (s, e')\<rbrakk> \<Longrightarrow>
      good e' \<and> (ok s \<and> src \<noteq> target \<longrightarrow> files e' = (files e)(src := None, target := files e src))"
    and new_sequential: "\<lbrakk>good e; env_NewSequentialFile env fname e = (s, r, e'); files e fname = Some data\<rbrakk> \<Longrightarrow>
      ok s \<and> (\<exists>f rem inv. r = Some f \<and> reliable_file f rem inv \<and> inv e' \<and> rem e' = data)"
begin

lemma write_string:
  assumes "good e" and "DoWriteStringToFile env data fname sync e = (s, e')"
  shows "good e' \<and> (ok s \<longrightarrow> files e' = (files e)(fname \<mapsto> data))"
proof -
  obtain s1 w e1 where new: "env_NewWritableFile env fname e = (s1, w, e1)" by (cases "env_NewWritableFile env fname e") auto
  show ?thesis
  proof (cases "ok s1")
    case False
    with assms new new_writable_fails [OF assms(1) new] show ?thesis
      by (auto simp: DoWriteStringToFile_def split: option.splits)
  next
    case True
    then obtain f where f: "w = Some f" "good e1" "writes f fname e1" "files e1 = (files e)(fname \<mapsto> [])"
      using new_writable [OF assms(1) new] by blast
    obtain s2 e2 where a: "file_Append f data e1 = (s2, e2)" by fastforce
    note a' = append_file [OF f(2,3) a]
    obtain s3 e3 where sy: "(if ok s2 \<and> sync then file_Sync f e2 else (s2, e2)) = (s3, e3)" by fastforce
    with a' sync_file [of e2 f fname s3 e3] have sy': "good e3 \<and> writes f fname e3 \<and> files e3 = files e2 \<and> (ok s3 \<longrightarrow> ok s2)"
      by (auto split: if_splits)
    obtain s4 e4 where c: "(if ok s3 then file_Close f e3 else (s3, e3)) = (s4, e4)" by fastforce
    with sy' close_file [of e3 f fname s4 e4] have c': "good e4 \<and> writes f fname e4 \<and> files e4 = files e3 \<and> (ok s4 \<longrightarrow> ok s3)"
      by (auto split: if_splits)
    obtain s5 e5 where r: "env_RemoveFile env fname (file_delete f e4) = (s5, e5)" by fastforce
    have "(s, e') = (if \<not> ok s4 then (s4, e5) else (s4, file_delete f e4))"
      using assms(2) new True f(1) a sy c r unfolding DoWriteStringToFile_def by (auto simp: Let_def)
    with c' sy' a' f(4) delete_file [of e4 f fname] remove_file [OF _ r] show ?thesis
      by (auto split: if_splits)
  qed
qed

lemma read_string:
  assumes "good e" and "files e fname = Some data"
  shows "\<exists>e'. ReadFileToString env fname e = Some (OK, data, e')"
proof -
  obtain s r e1 where new: "env_NewSequentialFile env fname e = (s, r, e1)" by (cases "env_NewSequentialFile env fname e") auto
  obtain f rem inv where f: "r = Some f" "reliable_file f rem inv" "inv e1" "rem e1 = data" and "ok s"
    using new_sequential [OF assms(1) new assms(2)] by blast
  moreover obtain e2 where "read_all_loop f [] e1 = Some (OK, data, e2)"
    using reliable_file.read_all_reliable [OF f(2,3), of "[]"] f(4) by auto
  ultimately show ?thesis using new by (simp add: ReadFileToString_def)
qed

end

end
