(* ===== verification/Comparator.thy ===== *)
theory Comparator
  imports Prelude "HOL-Library.List_Lexorder"
begin

text \<open>
  \<open>include/leveldb/slice.h\<close>, \<open>include/leveldb/comparator.h\<close> and \<open>util/comparator.cc\<close>: slice
  comparison, the comparator interface and the built-in bytewise comparator.

  The abstract class \<open>Comparator\<close> is a record of its virtual methods; what its header promises
  is the locale \<open>comparator\<close>, stated relative to the byte strings that are keys.
\<close>

subsection \<open>Slices\<close>

fun memcmp :: "bytes \<Rightarrow> bytes \<Rightarrow> nat \<Rightarrow> int" where
  "memcmp a b 0 = 0"
| "memcmp (x # a) (y # b) (Suc n) = (if x < y then - 1 else if x > y then 1 else memcmp a b n)"
| "memcmp a b (Suc n) = 0"

definition slice_compare :: "bytes \<Rightarrow> bytes \<Rightarrow> int" where
  "slice_compare a b =
     (let min_len = (if length a < length b then length a else length b);
          r = memcmp a b min_len
      in if r = 0 then
           if length a < length b then - 1 else if length a > length b then 1 else r
         else r)"

definition slice_starts_with :: "bytes \<Rightarrow> bytes \<Rightarrow> bool" where
  "slice_starts_with s x \<longleftrightarrow> length s \<ge> length x \<and> memcmp s x (length x) = 0"

definition slice_eq :: "bytes \<Rightarrow> bytes \<Rightarrow> bool" where
  "slice_eq x y \<longleftrightarrow> length x = length y \<and> memcmp x y (length x) = 0"

definition remove_prefix :: "nat \<Rightarrow> bytes \<Rightarrow> bytes" where
  "remove_prefix n s = drop n s"

subsection \<open>The interface\<close>

record Comparator =
  Compare :: "bytes \<Rightarrow> bytes \<Rightarrow> int"
  FindShortestSeparator :: "bytes \<Rightarrow> bytes \<Rightarrow> bytes"
  FindShortSuccessor :: "bytes \<Rightarrow> bytes"

subsection \<open>The bytewise comparator\<close>

text \<open>The \<open>while\<close> loop that measures the common prefix, with \<open>diff_index\<close> as its result.\<close>

fun common_prefix :: "bytes \<Rightarrow> bytes \<Rightarrow> nat" where
  "common_prefix (x # a) (y # b) = (if x = y then Suc (common_prefix a b) else 0)"
| "common_prefix a b = 0"

definition bytewise_separator :: "bytes \<Rightarrow> bytes \<Rightarrow> bytes" where
  "bytewise_separator start limit =
     (let min_length = min (length start) (length limit);
          diff_index = common_prefix start limit
      in if diff_index \<ge> min_length then start
         else let diff_byte = start ! diff_index
              in if diff_byte < 0xff \<and> unat diff_byte + 1 < unat (limit ! diff_index)
                 then take (diff_index + 1) (start[diff_index := diff_byte + 1])
                 else start)"

fun successor_loop :: "bytes \<Rightarrow> bytes option" where
  "successor_loop [] = None"
| "successor_loop (byte # key) =
     (if byte \<noteq> 0xff then Some [byte + 1] else map_option ((#) byte) (successor_loop key))"

definition bytewise_successor :: "bytes \<Rightarrow> bytes" where
  "bytewise_successor key = (case successor_loop key of Some s \<Rightarrow> s | None \<Rightarrow> key)"

definition BytewiseComparator :: Comparator where
  "BytewiseComparator =
     \<lparr>Compare = slice_compare, FindShortestSeparator = bytewise_separator,
      FindShortSuccessor = bytewise_successor\<rparr>"

subsection \<open>Slice comparison is the lexicographic order\<close>

lemma memcmp_range: "memcmp a b n \<in> {- 1, 0, 1}"
  by (induction a b n rule: memcmp.induct) auto

lemma slice_compare_Nil [simp]:
  "slice_compare [] [] = 0" "slice_compare [] (y # b) = - 1" "slice_compare (x # a) [] = 1"
  by (simp_all add: slice_compare_def Let_def)

lemma slice_compare_Cons [simp]:
  "slice_compare (x # a) (y # b) =
     (if x < y then - 1 else if x > y then 1 else slice_compare a b)"
  by (simp add: slice_compare_def Let_def)

lemma slice_compare_cases:
  "slice_compare a b = (if a < b then - 1 else if a = b then 0 else 1)"
proof (induction a arbitrary: b)
  case Nil
  then show ?case by (cases b) auto
next
  case (Cons x a)
  then show ?case by (cases b) auto
qed

lemma slice_compare_iff:
  "slice_compare a b < 0 \<longleftrightarrow> a < b" "slice_compare a b = 0 \<longleftrightarrow> a = b"
  "slice_compare a b > 0 \<longleftrightarrow> b < a" "slice_compare a b \<le> 0 \<longleftrightarrow> a \<le> b"
  by (auto simp: slice_compare_cases)

lemma memcmp_eq_0_iff: "n \<le> length a \<Longrightarrow> n \<le> length b \<Longrightarrow> memcmp a b n = 0 \<longleftrightarrow> take n a = take n b"
  by (induction a b n rule: memcmp.induct) auto

lemma slice_starts_with_iff: "slice_starts_with s x \<longleftrightarrow> (\<exists>t. s = x @ t)"
  by (auto simp: slice_starts_with_def memcmp_eq_0_iff) (metis append_take_drop_id)

lemma slice_eq_iff: "slice_eq x y \<longleftrightarrow> x = y"
  by (auto simp: slice_eq_def memcmp_eq_0_iff)

subsection \<open>Separators and successors\<close>

lemma bytewise_separator_Nil [simp]:
  "bytewise_separator [] b = []" "bytewise_separator a [] = a"
  by (simp_all add: bytewise_separator_def Let_def)

lemma bytewise_separator_Cons:
  "bytewise_separator (x # a) (y # b) =
     (if x = y then x # bytewise_separator a b
      else if x < 0xff \<and> unat x + 1 < unat y then [x + 1] else x # a)"
  by (auto simp: bytewise_separator_def Let_def min_def)

lemma byte_inc: "x < (0xff :: byte) \<Longrightarrow> unat (x + 1) = unat x + 1"
  by (simp add: unat_word_ariths word_less_nat_alt)

lemma bytewise_separator_spec:
  "a < b \<Longrightarrow> a \<le> bytewise_separator a b \<and> bytewise_separator a b < b"
  "\<not> a < b \<Longrightarrow> bytewise_separator a b = a"
  "length (bytewise_separator a b) \<le> length a"
  by (induction a arbitrary: b; case_tac b;
      auto simp: bytewise_separator_Cons word_less_nat_alt word_le_nat_alt byte_inc)+

lemma byte_less_ff: "x \<noteq> (0xff :: byte) \<Longrightarrow> x < 0xff"
proof -
  assume "x \<noteq> 0xff"
  then have "unat x \<noteq> 255" by (simp add: word_unat_eq_iff)
  moreover have "unat x < 2 ^ 8" using unsigned_less [of x] by simp
  ultimately show ?thesis by (simp add: word_less_nat_alt)
qed

lemma successor_loop_spec:
  "successor_loop key = Some s \<Longrightarrow> key < s \<and> length s \<le> length key"
proof (induction key arbitrary: s)
  case (Cons x key)
  have "x < x + 1" if "x \<noteq> 0xff"
    using byte_inc [OF byte_less_ff [OF that]] by (simp add: word_less_nat_alt)
  with Cons show ?case by (auto split: if_splits)
qed simp

lemma successor_loop_None: "successor_loop key = None \<longleftrightarrow> (\<forall>x\<in>set key. x = 0xff)"
  by (induction key) auto

subsection \<open>The contract\<close>

text \<open>
  What the header promises of a comparator, for the byte strings that are keys: a total
  (pre)order, separators in \<open>[start, limit)\<close>, and successors that are not smaller.
\<close>

locale comparator =
  fixes c :: Comparator and valid :: "bytes \<Rightarrow> bool"
  assumes cmp_refl: "valid a \<Longrightarrow> Compare c a a = 0"
    and cmp_sym: "valid a \<Longrightarrow> valid b \<Longrightarrow> sgn (Compare c b a) = - sgn (Compare c a b)"
    and cmp_trans: "valid a \<Longrightarrow> valid b \<Longrightarrow> valid d \<Longrightarrow> Compare c a b \<le> 0 \<Longrightarrow> Compare c b d \<le> 0 \<Longrightarrow> Compare c a d \<le> 0"
    and separator: "valid a \<Longrightarrow> valid b \<Longrightarrow> Compare c a b < 0 \<Longrightarrow>
      valid (FindShortestSeparator c a b) \<and> Compare c a (FindShortestSeparator c a b) \<le> 0 \<and>
      Compare c (FindShortestSeparator c a b) b < 0"
    and separator_same: "valid a \<Longrightarrow> valid b \<Longrightarrow> \<not> Compare c a b < 0 \<Longrightarrow> FindShortestSeparator c a b = a"
    and successor: "valid a \<Longrightarrow> valid (FindShortSuccessor c a) \<and> Compare c a (FindShortSuccessor c a) \<le> 0"
begin

lemma cmp_neg_iff: "valid a \<Longrightarrow> valid b \<Longrightarrow> Compare c a b < 0 \<longleftrightarrow> Compare c b a > 0"
  using cmp_sym [of a b] by (auto simp: sgn_if split: if_splits)

lemma cmp_zero_iff: "valid a \<Longrightarrow> valid b \<Longrightarrow> Compare c a b = 0 \<longleftrightarrow> Compare c b a = 0"
  using cmp_sym [of a b] by (auto simp: sgn_if split: if_splits)

lemma cmp_le_iff: "valid a \<Longrightarrow> valid b \<Longrightarrow> Compare c a b \<le> 0 \<longleftrightarrow> \<not> Compare c b a < 0"
  using cmp_neg_iff [of b a] by auto

lemma cmp_less_trans:
  assumes "valid a" "valid b" "valid d" and "Compare c a b < 0" and "Compare c b d \<le> 0"
  shows "Compare c a d < 0"
proof (rule ccontr)
  assume "\<not> Compare c a d < 0"
  with assms have "Compare c d a \<le> 0" by (simp add: cmp_le_iff)
  with assms have "Compare c b a \<le> 0" using cmp_trans [of b d a] by blast
  with assms show False by (simp add: cmp_le_iff)
qed

lemma cmp_le_less_trans:
  assumes "valid a" "valid b" "valid d" and "Compare c a b \<le> 0" and "Compare c b d < 0"
  shows "Compare c a d < 0"
proof (rule ccontr)
  assume "\<not> Compare c a d < 0"
  with assms have "Compare c d a \<le> 0" by (simp add: cmp_le_iff)
  with assms have "Compare c d b \<le> 0" using cmp_trans [of d a b] by blast
  with assms show False by (simp add: cmp_le_iff)
qed

end

interpretation bytewise: comparator BytewiseComparator "\<lambda>_. True"
proof unfold_locales
  fix a b d :: bytes
  show "Compare BytewiseComparator a a = 0"
    by (simp add: BytewiseComparator_def slice_compare_iff)
  show "sgn (Compare BytewiseComparator b a) = - sgn (Compare BytewiseComparator a b)"
    by (auto simp: BytewiseComparator_def slice_compare_cases)
  show "Compare BytewiseComparator a b \<le> 0 \<Longrightarrow> Compare BytewiseComparator b d \<le> 0 \<Longrightarrow>
      Compare BytewiseComparator a d \<le> 0"
    by (simp add: BytewiseComparator_def slice_compare_iff)
  show "Compare BytewiseComparator a b < 0 \<Longrightarrow> True \<and>
      Compare BytewiseComparator a (FindShortestSeparator BytewiseComparator a b) \<le> 0 \<and>
      Compare BytewiseComparator (FindShortestSeparator BytewiseComparator a b) b < 0"
    by (simp add: BytewiseComparator_def slice_compare_iff bytewise_separator_spec)
  show "\<not> Compare BytewiseComparator a b < 0 \<Longrightarrow> FindShortestSeparator BytewiseComparator a b = a"
    by (simp add: BytewiseComparator_def slice_compare_iff bytewise_separator_spec)
  show "True \<and> Compare BytewiseComparator a (FindShortSuccessor BytewiseComparator a) \<le> 0"
    by (auto simp: BytewiseComparator_def slice_compare_iff bytewise_successor_def
        dest: successor_loop_spec split: option.split)
qed

subsection \<open>Properties\<close>

text \<open>\<open>Slice::compare\<close> is the lexicographic order of unsigned bytes, a proper prefix first.\<close>
lemma slice_compare_lexicographic:
  "(slice_compare a b < 0 \<longleftrightarrow> a < b) \<and> (slice_compare a b = 0 \<longleftrightarrow> a = b) \<and> (slice_compare a b > 0 \<longleftrightarrow> b < a)"
  by (simp add: slice_compare_iff)

text \<open>C32: The bytewise comparator shortens index keys safely: for \<open>start < limit\<close> the separator lies in
  \<open>[start, limit)\<close> and is no longer than \<open>start\<close>; otherwise it leaves \<open>start\<close> alone; and the short
  successor of a key is not below the key, nor longer, and equals it only for runs of \<open>0xff\<close>.\<close>
theorem bytewise_shortening:
  "(if start < limit
    then start \<le> bytewise_separator start limit \<and> bytewise_separator start limit < limit
    else bytewise_separator start limit = start) \<and>
   length (bytewise_separator start limit) \<le> length start \<and>
   key \<le> bytewise_successor key \<and> length (bytewise_successor key) \<le> length key \<and>
   (bytewise_successor key = key \<longleftrightarrow> set key \<subseteq> {0xff})"
proof -
  have "key \<le> bytewise_successor key \<and> length (bytewise_successor key) \<le> length key \<and>
      (bytewise_successor key = key \<longleftrightarrow> set key \<subseteq> {0xff})"
    using successor_loop_None [of key]
    by (auto simp: bytewise_successor_def dest: successor_loop_spec split: option.split)
  then show ?thesis
    by (simp add: bytewise_separator_spec)
qed

end
