(* ===== verification/MemEnv.thy ===== *)
theory MemEnv
  imports FileIO Comparator
begin

text \<open>
  The in-memory environment of \<open>helpers/memenv/memenv.cc\<close>. \<open>FileState\<close> objects live in a heap, since a
  file name, the file objects and the environment share them by pointer and count their references; the pointer
  \<^term>\<open>None\<close> is null. Using a null pointer or a deleted object sets \<open>mem_fault\<close>, and that this never happens is
  part of what is proved. The map from names to pointers is the sorted \<open>std::map\<close> as an association list. The
  mutexes make each method atomic, so a method is one step here.
\<close>

subsection \<open>File contents\<close>

definition mem_kBlockSize :: nat where
  "mem_kBlockSize = 8 * 1024"

record FileState =
  fs_refs :: int
  fs_blocks :: "bytes list"
  fs_size :: nat

definition FileState_new :: FileState where
  "FileState_new = \<lparr>fs_refs = 0, fs_blocks = [], fs_size = 0\<rparr>"

definition FileState_Size :: "FileState \<Rightarrow> nat" where
  "FileState_Size fs = fs_size fs"

definition FileState_Truncate :: "FileState \<Rightarrow> FileState" where
  "FileState_Truncate fs = fs\<lparr>fs_blocks := [], fs_size := 0\<rparr>"

text \<open>The copying loop; \<open>block_offset\<close> is below the block size at every call, and only the first call has it
  different from zero.\<close>

function fs_read_loop :: "bytes list \<Rightarrow> nat \<Rightarrow> nat \<Rightarrow> nat \<Rightarrow> bytes" where
  "fs_read_loop blocks block block_offset bytes_to_copy =
     (if bytes_to_copy = 0 \<or> mem_kBlockSize \<le> block_offset then []
      else let avail = min (mem_kBlockSize - block_offset) bytes_to_copy
           in take avail (drop block_offset (blocks ! block)) @
              fs_read_loop blocks (block + 1) 0 (bytes_to_copy - avail))"
  by auto
termination
  by (relation "measure (\<lambda>(_, _, _, n). n)") (auto simp: mem_kBlockSize_def)

declare fs_read_loop.simps [simp del]

definition FileState_Read :: "nat \<Rightarrow> nat \<Rightarrow> FileState \<Rightarrow> Status \<times> bytes" where
  "FileState_Read offset n fs =
     (if offset > fs_size fs then (IOError (str ''Offset greater than file size.'') [], [])
      else let available = fs_size fs - offset;
               n = (if n > available then available else n)
           in if n = 0 then (OK, [])
              else (OK, fs_read_loop (fs_blocks fs) (offset div mem_kBlockSize) (offset mod mem_kBlockSize) n))"

text \<open>One turn of the loop of \<open>Append\<close>, which copies into the last block or a new one; the bytes of a new block
  are zero here and never read before they are written.\<close>

definition fs_append_step :: "FileState \<Rightarrow> bytes \<Rightarrow> FileState \<times> nat" where
  "fs_append_step fs src =
     (let offset = fs_size fs mod mem_kBlockSize;
          blocks = (if offset \<noteq> 0 then fs_blocks fs else fs_blocks fs @ [replicate mem_kBlockSize 0]);
          avail = (if offset \<noteq> 0 then mem_kBlockSize - offset else mem_kBlockSize);
          avail = (if avail > length src then length src else avail);
          b = last blocks
      in (fs\<lparr>fs_blocks := butlast blocks @ [take offset b @ take avail src @ drop (offset + avail) b],
             fs_size := fs_size fs + avail\<rparr>, avail))"

lemma fs_append_step_avail: "src \<noteq> [] \<Longrightarrow> 0 < snd (fs_append_step fs src)"
  by (auto simp: fs_append_step_def Let_def mem_kBlockSize_def)

function fs_append_loop :: "FileState \<Rightarrow> bytes \<Rightarrow> FileState" where
  "fs_append_loop fs src =
     (if src = [] then fs
      else let (fs', avail) = fs_append_step fs src in fs_append_loop fs' (drop avail src))"
  by auto
termination
proof (relation "measure (\<lambda>(_, src). length src)", goal_cases)
  case (2 fs src x fs' avail)
  then have "avail = snd (fs_append_step fs src)" by (metis snd_conv)
  with 2 fs_append_step_avail [of src fs] show ?case by (cases src) auto
qed simp

declare fs_append_loop.simps [simp del]

definition FileState_Append :: "bytes \<Rightarrow> FileState \<Rightarrow> Status \<times> FileState" where
  "FileState_Append data fs = (OK, fs_append_loop fs data)"

subsection \<open>The environment's state\<close>

text \<open>\<open>mem_open\<close> lists the \<open>FileState\<close> pointers that live file objects hold; \<open>mem_pos\<close> gives each sequential
  file object its \<open>pos_\<close>.\<close>

record MemEnv =
  mem_heap :: "nat \<Rightarrow> FileState option"
  mem_next :: nat
  mem_map :: "(bytes \<times> nat option) list"
  mem_open :: "nat list"
  mem_pos :: "nat \<Rightarrow> nat"
  mem_next_seq :: nat
  mem_fault :: bool

definition NewMemEnv :: MemEnv where
  "NewMemEnv = \<lparr>mem_heap = (\<lambda>_. None), mem_next = 0, mem_map = [], mem_open = [], mem_pos = (\<lambda>_. 0),
     mem_next_seq = 0, mem_fault = False\<rparr>"

fun map_set :: "bytes \<Rightarrow> 'v \<Rightarrow> (bytes \<times> 'v) list \<Rightarrow> (bytes \<times> 'v) list" where
  "map_set k v [] = [(k, v)]"
| "map_set k v ((k', v') # m) =
     (if k < k' then (k, v) # (k', v') # m else if k = k' then (k, v) # m else (k', v') # map_set k v m)"

definition map_erase :: "bytes \<Rightarrow> (bytes \<times> 'v) list \<Rightarrow> (bytes \<times> 'v) list" where
  "map_erase k m = filter (\<lambda>(k', _). k' \<noteq> k) m"

text \<open>Changing an object through a pointer; the result \<^term>\<open>None\<close> of \<open>f\<close> deletes it.\<close>

definition mem_update :: "(FileState \<Rightarrow> FileState option) \<Rightarrow> nat option \<Rightarrow> MemEnv \<Rightarrow> MemEnv" where
  "mem_update f p e =
     (case p of
        None \<Rightarrow> e\<lparr>mem_fault := True\<rparr>
      | Some a \<Rightarrow> (case mem_heap e a of
          None \<Rightarrow> e\<lparr>mem_fault := True\<rparr>
        | Some fs \<Rightarrow> e\<lparr>mem_heap := (mem_heap e)(a := f fs)\<rparr>))"

definition FileState_Ref :: "nat option \<Rightarrow> MemEnv \<Rightarrow> MemEnv" where
  "FileState_Ref p e = mem_update (\<lambda>fs. Some (fs\<lparr>fs_refs := fs_refs fs + 1\<rparr>)) p e"

definition FileState_Unref :: "nat option \<Rightarrow> MemEnv \<Rightarrow> MemEnv" where
  "FileState_Unref p e =
     mem_update (\<lambda>fs. let refs = fs_refs fs - 1 in if refs \<le> 0 then None else Some (fs\<lparr>fs_refs := refs\<rparr>)) p e"

definition mem_alloc :: "MemEnv \<Rightarrow> nat \<times> MemEnv" where
  "mem_alloc e = (mem_next e, e\<lparr>mem_heap := (mem_heap e)(mem_next e \<mapsto> FileState_new), mem_next := mem_next e + 1\<rparr>)"

subsection \<open>File objects\<close>

text \<open>Construction and destruction of a file object over \<open>p\<close> take and drop one reference.\<close>

definition mem_hold :: "nat option \<Rightarrow> MemEnv \<Rightarrow> MemEnv" where
  "mem_hold p e = (FileState_Ref p e)\<lparr>mem_open := (case p of None \<Rightarrow> mem_open e | Some a \<Rightarrow> a # mem_open e)\<rparr>"

definition mem_drop :: "nat option \<Rightarrow> MemEnv \<Rightarrow> MemEnv" where
  "mem_drop p e = (FileState_Unref p e)\<lparr>mem_open := (case p of None \<Rightarrow> mem_open e | Some a \<Rightarrow> remove1 a (mem_open e))\<rparr>"

definition mem_deref :: "nat option \<Rightarrow> MemEnv \<Rightarrow> FileState option" where
  "mem_deref p e = (case p of None \<Rightarrow> None | Some a \<Rightarrow> mem_heap e a)"

definition mem_file_Append :: "nat option \<Rightarrow> bytes \<Rightarrow> MemEnv \<Rightarrow> Status \<times> MemEnv" where
  "mem_file_Append p data e =
     (case mem_deref p e of
        None \<Rightarrow> (OK, e\<lparr>mem_fault := True\<rparr>)
      | Some fs \<Rightarrow> (let (s, fs') = FileState_Append data fs in (s, mem_update (\<lambda>_. Some fs') p e)))"

definition WritableFileImpl :: "nat option \<Rightarrow> MemEnv WritableFile" where
  "WritableFileImpl p =
     \<lparr>file_Append = mem_file_Append p, file_Close = (\<lambda>e. (OK, e)), file_Flush = (\<lambda>e. (OK, e)),
      file_Sync = (\<lambda>e. (OK, e)), file_delete = mem_drop p\<rparr>"

definition mem_rnd_Read :: "nat option \<Rightarrow> nat \<Rightarrow> nat \<Rightarrow> MemEnv \<Rightarrow> Status \<times> bytes" where
  "mem_rnd_Read p offset n e =
     (case mem_deref p e of None \<Rightarrow> (OK, []) | Some fs \<Rightarrow> FileState_Read offset n fs)"

definition RandomAccessFileImpl :: "nat option \<Rightarrow> MemEnv RandomAccessFile" where
  "RandomAccessFileImpl p = \<lparr>rnd_Read = mem_rnd_Read p, rnd_delete = mem_drop p\<rparr>"

definition mem_seq_Read :: "nat option \<Rightarrow> nat \<Rightarrow> nat \<Rightarrow> MemEnv \<Rightarrow> Status \<times> bytes \<times> MemEnv" where
  "mem_seq_Read p i n e =
     (case mem_deref p e of
        None \<Rightarrow> (OK, [], e\<lparr>mem_fault := True\<rparr>)
      | Some fs \<Rightarrow>
          (let (s, result) = FileState_Read (mem_pos e i) n fs
           in (s, result, if ok s then e\<lparr>mem_pos := (mem_pos e)(i := mem_pos e i + length result)\<rparr> else e)))"

definition mem_seq_Skip :: "nat option \<Rightarrow> nat \<Rightarrow> nat \<Rightarrow> MemEnv \<Rightarrow> Status \<times> MemEnv" where
  "mem_seq_Skip p i n e =
     (case mem_deref p e of
        None \<Rightarrow> (OK, e\<lparr>mem_fault := True\<rparr>)
      | Some fs \<Rightarrow>
          if mem_pos e i > FileState_Size fs then (IOError (str ''pos_ > file_->Size()'') [], e)
          else let available = FileState_Size fs - mem_pos e i;
                   n = (if n > available then available else n)
               in (OK, e\<lparr>mem_pos := (mem_pos e)(i := mem_pos e i + n)\<rparr>))"

definition SequentialFileImpl :: "nat option \<Rightarrow> nat \<Rightarrow> MemEnv SequentialFile" where
  "SequentialFileImpl p i = \<lparr>seq_Read = mem_seq_Read p i, seq_Skip = mem_seq_Skip p i, seq_delete = mem_drop p\<rparr>"

subsection \<open>The environment's methods\<close>

definition file_not_found :: "bytes \<Rightarrow> Status" where
  "file_not_found fname = IOError fname (str ''File not found'')"

definition mem_NewSequentialFile :: "bytes \<Rightarrow> MemEnv \<Rightarrow> Status \<times> MemEnv SequentialFile option \<times> MemEnv" where
  "mem_NewSequentialFile fname e =
     (case map_of (mem_map e) fname of
        None \<Rightarrow> (file_not_found fname, None, e)
      | Some p \<Rightarrow>
          (let i = mem_next_seq e;
               e1 = mem_hold p (e\<lparr>mem_pos := (mem_pos e)(i := 0), mem_next_seq := i + 1\<rparr>)
           in (OK, Some (SequentialFileImpl p i), e1)))"

definition mem_NewRandomAccessFile :: "bytes \<Rightarrow> MemEnv \<Rightarrow> Status \<times> MemEnv RandomAccessFile option \<times> MemEnv" where
  "mem_NewRandomAccessFile fname e =
     (case map_of (mem_map e) fname of
        None \<Rightarrow> (file_not_found fname, None, e)
      | Some p \<Rightarrow> (OK, Some (RandomAccessFileImpl p), mem_hold p e))"

definition mem_NewWritableFile :: "bytes \<Rightarrow> MemEnv \<Rightarrow> Status \<times> MemEnv WritableFile option \<times> MemEnv" where
  "mem_NewWritableFile fname e =
     (case map_of (mem_map e) fname of
        None \<Rightarrow>
          (let (a, e1) = mem_alloc e;
               e2 = FileState_Ref (Some a) e1;
               e3 = e2\<lparr>mem_map := map_set fname (Some a) (mem_map e2)\<rparr>
           in (OK, Some (WritableFileImpl (Some a)), mem_hold (Some a) e3))
      | Some p \<Rightarrow>
          (let e1 = mem_update (\<lambda>fs. Some (FileState_Truncate fs)) p e
           in (OK, Some (WritableFileImpl p), mem_hold p e1)))"

text \<open>Indexing the map with a new name inserts a null pointer under it; the object that is then created is not
  stored there.\<close>

definition mem_NewAppendableFile :: "bytes \<Rightarrow> MemEnv \<Rightarrow> Status \<times> MemEnv WritableFile option \<times> MemEnv" where
  "mem_NewAppendableFile fname e =
     (let e1 = (case map_of (mem_map e) fname of
                  None \<Rightarrow> e\<lparr>mem_map := map_set fname None (mem_map e)\<rparr> | Some _ \<Rightarrow> e)
      in case map_of (mem_map e1) fname of
           Some (Some a) \<Rightarrow> (OK, Some (WritableFileImpl (Some a)), mem_hold (Some a) e1)
         | _ \<Rightarrow>
             (let (a, e2) = mem_alloc e1;
                  e3 = FileState_Ref (Some a) e2
              in (OK, Some (WritableFileImpl (Some a)), mem_hold (Some a) e3)))"

definition mem_FileExists :: "bytes \<Rightarrow> MemEnv \<Rightarrow> bool" where
  "mem_FileExists fname e \<longleftrightarrow> map_of (mem_map e) fname \<noteq> None"

definition mem_GetChildren :: "bytes \<Rightarrow> MemEnv \<Rightarrow> Status \<times> bytes list" where
  "mem_GetChildren dir e =
     (OK, [drop (length dir + 1) filename. (filename, _) \<leftarrow> mem_map e,
             length filename \<ge> length dir + 1 \<and> filename ! length dir = 47 \<and> slice_starts_with filename dir])"

definition RemoveFileInternal :: "bytes \<Rightarrow> MemEnv \<Rightarrow> MemEnv" where
  "RemoveFileInternal fname e =
     (case map_of (mem_map e) fname of
        None \<Rightarrow> e
      | Some p \<Rightarrow> (let e1 = FileState_Unref p e in e1\<lparr>mem_map := map_erase fname (mem_map e1)\<rparr>))"

definition mem_RemoveFile :: "bytes \<Rightarrow> MemEnv \<Rightarrow> Status \<times> MemEnv" where
  "mem_RemoveFile fname e =
     (case map_of (mem_map e) fname of
        None \<Rightarrow> (file_not_found fname, e)
      | Some _ \<Rightarrow> (OK, RemoveFileInternal fname e))"

definition mem_GetFileSize :: "bytes \<Rightarrow> MemEnv \<Rightarrow> Status \<times> nat" where
  "mem_GetFileSize fname e =
     (case map_of (mem_map e) fname of
        None \<Rightarrow> (file_not_found fname, 0)
      | Some p \<Rightarrow> (OK, case mem_deref p e of None \<Rightarrow> 0 | Some fs \<Rightarrow> FileState_Size fs))"

text \<open>Reading the map at \<open>src\<close> again inserts a null pointer when \<open>src\<close> is the \<open>target\<close> just removed.\<close>

definition mem_RenameFile :: "bytes \<Rightarrow> bytes \<Rightarrow> MemEnv \<Rightarrow> Status \<times> MemEnv" where
  "mem_RenameFile src target e =
     (case map_of (mem_map e) src of
        None \<Rightarrow> (file_not_found src, e)
      | Some _ \<Rightarrow>
          (let e1 = RemoveFileInternal target e;
               p = (case map_of (mem_map e1) src of None \<Rightarrow> None | Some p \<Rightarrow> p);
               m = map_set target p (mem_map e1)
           in (OK, e1\<lparr>mem_map := map_erase src m\<rparr>)))"

definition InMemoryEnv :: "MemEnv Env" where
  "InMemoryEnv =
     \<lparr>env_NewSequentialFile = mem_NewSequentialFile, env_NewRandomAccessFile = mem_NewRandomAccessFile,
      env_NewWritableFile = mem_NewWritableFile, env_NewAppendableFile = mem_NewAppendableFile,
      env_FileExists = mem_FileExists, env_GetChildren = mem_GetChildren, env_RemoveFile = mem_RemoveFile,
      env_GetFileSize = mem_GetFileSize, env_RenameFile = mem_RenameFile\<rparr>"


subsection \<open>Reading and appending\<close>

definition fs_inv :: "FileState \<Rightarrow> bool" where
  "fs_inv fs \<longleftrightarrow> (\<forall>b \<in> set (fs_blocks fs). length b = mem_kBlockSize) \<and>
     fs_size fs \<le> mem_kBlockSize * length (fs_blocks fs) \<and>
     mem_kBlockSize * length (fs_blocks fs) < fs_size fs + mem_kBlockSize"

definition fs_contents :: "FileState \<Rightarrow> bytes" where
  "fs_contents fs = take (fs_size fs) (concat (fs_blocks fs))"

lemma length_concat_blocks: "\<forall>b \<in> set bs. length b = n \<Longrightarrow> length (concat bs) = n * length bs"
  by (induction bs) auto

lemma length_fs_blocks: "fs_inv fs \<Longrightarrow> length (concat (fs_blocks fs)) = mem_kBlockSize * length (fs_blocks fs)"
  by (rule length_concat_blocks) (simp add: fs_inv_def)

lemma length_fs_contents: "fs_inv fs \<Longrightarrow> length (fs_contents fs) = fs_size fs"
  using length_fs_blocks [of fs] by (simp add: fs_inv_def fs_contents_def)

lemma fs_append_blocks:
  assumes bs: "\<forall>b \<in> set bs. length b = mem_kBlockSize" and b: "length b = mem_kBlockSize"
    and off: "off < mem_kBlockSize" and n: "0 < n" "off + n \<le> mem_kBlockSize" "n \<le> length src"
    and fs': "fs' = \<lparr>fs_refs = r, fs_blocks = bs @ [take off b @ take n src @ drop (off + n) b],
      fs_size = mem_kBlockSize * length bs + off + n\<rparr>"
  shows "fs_inv fs' \<and> fs_contents fs' = concat bs @ take off b @ take n src"
  using assms by (auto simp: fs_inv_def fs_contents_def length_concat_blocks [OF bs] min_def)

lemma mod_between:
  assumes "(n::nat) * l < s" and "s \<le> n * l + n" and "s mod n \<noteq> 0"
  shows "s = n * l + s mod n"
proof -
  obtain r where r: "s = n * l + r" using assms(1) less_imp_add_positive by blast
  with assms have "r \<noteq> n" "r \<le> n" by auto
  with r show ?thesis by simp
qed

lemma fs_append_step:
  assumes inv: "fs_inv fs" and src: "src \<noteq> []" and step: "fs_append_step fs src = (fs', n)"
  shows "fs_inv fs' \<and> fs_contents fs' = fs_contents fs @ take n src \<and> fs_refs fs' = fs_refs fs"
proof -
  let ?off = "fs_size fs mod mem_kBlockSize"
  obtain bs b where new: "(if ?off \<noteq> 0 then fs_blocks fs else fs_blocks fs @ [replicate mem_kBlockSize 0]) = bs @ [b]"
    and old: "concat bs @ take ?off b = fs_contents fs" and sz: "fs_size fs = mem_kBlockSize * length bs + ?off"
    and all: "\<forall>b \<in> set bs. length b = mem_kBlockSize" "length b = mem_kBlockSize"
  proof (cases "?off = 0")
    case True
    then obtain k where k: "fs_size fs = mem_kBlockSize * k" by auto
    with inv have "length (fs_blocks fs) = k"
      by (auto simp: fs_inv_def mem_kBlockSize_def)
    with True k inv that [of "fs_blocks fs" "replicate mem_kBlockSize 0"] length_fs_blocks [OF inv] show ?thesis
      by (simp add: fs_inv_def fs_contents_def)
  next
    case False
    with inv have "fs_blocks fs \<noteq> []" by (auto simp: fs_inv_def)
    then obtain bs b where bl: "fs_blocks fs = bs @ [b]" by (metis append_butlast_last_id)
    with inv have "mem_kBlockSize * length bs < fs_size fs" "fs_size fs \<le> mem_kBlockSize * length bs + mem_kBlockSize"
      by (auto simp: fs_inv_def)
    with False have sz: "fs_size fs = mem_kBlockSize * length bs + ?off"
      by (intro mod_between)
    have L: "length (concat bs) = mem_kBlockSize * length bs"
      using inv bl by (intro length_concat_blocks) (simp add: fs_inv_def)
    have "take (fs_size fs) (concat bs @ b) = take (length (concat bs) + ?off) (concat bs @ b)"
      unfolding L by (rule arg_cong [OF sz])
    then have "concat bs @ take ?off b = fs_contents fs" using bl by (simp add: fs_contents_def)
    from that [OF _ this sz] False bl inv show ?thesis by (simp add: fs_inv_def)
  qed
  let ?n = "if mem_kBlockSize - ?off > length src then length src else mem_kBlockSize - ?off"
  have off: "?off < mem_kBlockSize" by (simp add: mem_kBlockSize_def)
  have "fs' = \<lparr>fs_refs = fs_refs fs, fs_blocks = bs @ [take ?off b @ take ?n src @ drop (?off + ?n) b],
      fs_size = mem_kBlockSize * length bs + ?off + ?n\<rparr>" "n = ?n"
    using step sz unfolding fs_append_step_def Let_def new by (auto split: if_splits)
  with fs_append_blocks [OF all off, of ?n src fs' "fs_refs fs"] old src off
  show ?thesis by (auto split: if_splits simp flip: append_assoc)
qed

lemma fs_append_loop:
  assumes "fs_inv fs"
  shows "fs_inv (fs_append_loop fs src) \<and> fs_contents (fs_append_loop fs src) = fs_contents fs @ src \<and>
    fs_refs (fs_append_loop fs src) = fs_refs fs"
  using assms
proof (induction fs src rule: fs_append_loop.induct)
  case (1 fs src)
  show ?case
  proof (cases "src = []")
    case False
    obtain fs' n where st: "fs_append_step fs src = (fs', n)" by fastforce
    with 1 False fs_append_step [OF "1.prems" False st] show ?thesis
      by (simp add: fs_append_loop.simps [of fs src])
  qed (use 1 in \<open>simp add: fs_append_loop.simps\<close>)
qed

lemma drop_concat_blocks:
  assumes "\<forall>b \<in> set bs. length b = n" and "k < length bs"
  shows "drop (n * k) (concat bs) = bs ! k @ drop (n * Suc k) (concat bs)"
  using assms
proof (induction bs arbitrary: k)
  case (Cons b bs)
  then show ?case by (cases k) (auto simp: drop_append)
qed simp

lemma fs_read_loop:
  assumes "\<forall>b \<in> set bs. length b = mem_kBlockSize" and "off < mem_kBlockSize"
    and "mem_kBlockSize * k + off + n \<le> length (concat bs)"
  shows "fs_read_loop bs k off n = take n (drop (mem_kBlockSize * k + off) (concat bs))"
  using assms
proof (induction bs k off n rule: fs_read_loop.induct)
  case (1 bs k off n)
  show ?case
  proof (cases "n = 0")
    case False
    let ?a = "min (mem_kBlockSize - off) n"
    have k: "k < length bs"
    proof (rule ccontr)
      assume "\<not> k < length bs"
      then have "mem_kBlockSize * length bs \<le> mem_kBlockSize * k" by simp
      with False 1(4) length_concat_blocks [OF 1(2)] show False by linarith
    qed
    have "drop (mem_kBlockSize * k + off) (concat bs) = drop off (drop (mem_kBlockSize * k) (concat bs))"
      by (simp add: add.commute)
    also have "\<dots> = drop off (bs ! k) @ drop (mem_kBlockSize * Suc k) (concat bs)"
      unfolding drop_concat_blocks [OF 1(2) k] using nth_mem [OF k] 1(2,3) by simp
    finally have d: "drop (mem_kBlockSize * k + off) (concat bs) =
        drop off (bs ! k) @ drop (mem_kBlockSize * Suc k) (concat bs)" .
    have "mem_kBlockSize * (k + 1) + 0 + (n - ?a) \<le> length (concat bs)"
      using 1(3,4) mult_le_mono2 [OF Suc_leI [OF k], of mem_kBlockSize]
      unfolding length_concat_blocks [OF 1(2)] by (auto simp: min_def)
    with 1 False have "fs_read_loop bs (k + 1) 0 (n - ?a) = take (n - ?a) (drop (mem_kBlockSize * Suc k) (concat bs))"
      by (simp add: mem_kBlockSize_def)
    with False 1(2,3) nth_mem [OF k] show ?thesis
      unfolding d by (auto simp: fs_read_loop.simps [of bs k off n] Let_def min_def)
  qed (simp add: fs_read_loop.simps)
qed

lemma FileState_Read:
  assumes "fs_inv fs" and "offset \<le> fs_size fs"
  shows "FileState_Read offset n fs = (OK, take n (drop offset (fs_contents fs)))"
proof -
  let ?n = "if n > fs_size fs - offset then fs_size fs - offset else n"
  have b: "\<forall>b \<in> set (fs_blocks fs). length b = mem_kBlockSize" using assms(1) by (simp add: fs_inv_def)
  have eq: "mem_kBlockSize * (offset div mem_kBlockSize) + offset mod mem_kBlockSize = offset" by simp
  have "offset + ?n \<le> length (concat (fs_blocks fs))"
    using assms unfolding length_concat_blocks [OF b] by (auto simp: fs_inv_def)
  then have "fs_read_loop (fs_blocks fs) (offset div mem_kBlockSize) (offset mod mem_kBlockSize) ?n =
      take ?n (drop offset (concat (fs_blocks fs)))"
    using fs_read_loop [OF b, of "offset mod mem_kBlockSize" "offset div mem_kBlockSize" ?n]
    unfolding eq by (simp add: mem_kBlockSize_def)
  with assms(2) show ?thesis
    by (auto simp: FileState_Read_def Let_def fs_contents_def drop_take min_def)
qed

subsection \<open>Reference counts\<close>

text \<open>\<open>owned\<close> are the pointers of the name map and \<open>opn\<close> those of the file objects: an object is alive exactly
  when one of them points to it, and its count is their number.\<close>

definition refs_ok :: "(nat \<Rightarrow> FileState option) \<Rightarrow> nat \<Rightarrow> nat option set \<Rightarrow> nat list \<Rightarrow> bool" where
  "refs_ok h nxt owned opn \<longleftrightarrow> (\<forall>a. case h a of
       None \<Rightarrow> Some a \<notin> owned \<and> a \<notin> set opn
     | Some fs \<Rightarrow> a < nxt \<and> fs_inv fs \<and> 0 < fs_refs fs \<and>
         fs_refs fs = int (count_list opn a) + (if Some a \<in> owned then 1 else 0))"

definition mem_inv :: "MemEnv \<Rightarrow> bool" where
  "mem_inv e \<longleftrightarrow> \<not> mem_fault e \<and> distinct (map fst (mem_map e)) \<and> distinct (map snd (mem_map e)) \<and>
     None \<notin> snd ` set (mem_map e) \<and> refs_ok (mem_heap e) (mem_next e) (snd ` set (mem_map e)) (mem_open e)"

lemma refs_okD:
  assumes "refs_ok h n ow opn"
  shows "h a = None \<Longrightarrow> Some a \<notin> ow \<and> a \<notin> set opn"
    and "h a = Some fs \<Longrightarrow> a < n \<and> fs_inv fs \<and> 0 < fs_refs fs \<and>
      fs_refs fs = int (count_list opn a) + (if Some a \<in> ow then 1 else 0)"
  using assms [unfolded refs_ok_def, rule_format, of a] by auto

lemma count_list_remove1: "count_list (remove1 x xs) y = count_list xs y - (if x = y then 1 else 0)"
  by (induction xs) (auto simp: count_list_0_iff [symmetric] split: if_splits)

lemma distinct_count_list: "distinct xs \<Longrightarrow> count_list xs x = (if x \<in> set xs then 1 else 0)"
  by (induction xs) auto

lemma refs_ok_hold:
  assumes "refs_ok h n ow opn" and "h a = Some fs"
  shows "refs_ok (h(a \<mapsto> fs\<lparr>fs_refs := fs_refs fs + 1\<rparr>)) n ow (a # opn)"
  unfolding refs_ok_def
proof
  fix b
  show "case (h(a \<mapsto> fs\<lparr>fs_refs := fs_refs fs + 1\<rparr>)) b of None \<Rightarrow> Some b \<notin> ow \<and> b \<notin> set (a # opn)
     | Some fs \<Rightarrow> b < n \<and> fs_inv fs \<and> 0 < fs_refs fs \<and>
         fs_refs fs = int (count_list (a # opn) b) + (if Some b \<in> ow then 1 else 0)"
    using refs_okD [OF assms(1), of b] assms(2)
    by (cases "b = a") (auto simp: fs_inv_def split: option.split)
qed

lemma refs_ok_drop:
  assumes ok: "refs_ok h n ow opn" and a: "h a = Some fs" "a \<in> set opn"
  shows "refs_ok (h(a := if fs_refs fs - 1 \<le> 0 then None else Some (fs\<lparr>fs_refs := fs_refs fs - 1\<rparr>))) n ow (remove1 a opn)"
  unfolding refs_ok_def
proof
  fix b
  have "1 \<le> count_list opn a" using a(2) by (metis One_nat_def Suc_leI count_list_0_iff gr0I)
  moreover have "b \<in> set (remove1 a opn) \<longleftrightarrow> 0 < count_list (remove1 a opn) b"
    using count_list_0_iff [of "remove1 a opn" b] by auto
  moreover have "b \<in> set opn \<longleftrightarrow> 0 < count_list opn b"
    using count_list_0_iff [of opn b] by auto
  ultimately show "case (h(a := if fs_refs fs - 1 \<le> 0 then None else Some (fs\<lparr>fs_refs := fs_refs fs - 1\<rparr>))) b of
       None \<Rightarrow> Some b \<notin> ow \<and> b \<notin> set (remove1 a opn)
     | Some fs \<Rightarrow> b < n \<and> fs_inv fs \<and> 0 < fs_refs fs \<and>
         fs_refs fs = int (count_list (remove1 a opn) b) + (if Some b \<in> ow then 1 else 0)"
    using refs_okD [OF ok, of b] a
    by (cases "b = a") (auto simp: fs_inv_def count_list_remove1 split: option.split if_splits)
qed

lemma refs_ok_unown:
  assumes ok: "refs_ok h n ow opn" and a: "h a = Some fs" "Some a \<in> ow"
  shows "refs_ok (h(a := if fs_refs fs - 1 \<le> 0 then None else Some (fs\<lparr>fs_refs := fs_refs fs - 1\<rparr>))) n (ow - {Some a}) opn"
  unfolding refs_ok_def
proof
  fix b
  have "b \<in> set opn \<longleftrightarrow> 0 < count_list opn b"
    using count_list_0_iff [of opn b] by auto
  then show "case (h(a := if fs_refs fs - 1 \<le> 0 then None else Some (fs\<lparr>fs_refs := fs_refs fs - 1\<rparr>))) b of
       None \<Rightarrow> Some b \<notin> ow - {Some a} \<and> b \<notin> set opn
     | Some fs \<Rightarrow> b < n \<and> fs_inv fs \<and> 0 < fs_refs fs \<and>
         fs_refs fs = int (count_list opn b) + (if Some b \<in> ow - {Some a} then 1 else 0)"
    using refs_okD [OF ok, of b] a
    by (cases "b = a") (auto simp: fs_inv_def split: option.split if_splits)
qed

lemma refs_ok_contents:
  assumes "refs_ok h n ow opn" and "h a = Some fs" and "fs_inv fs'" and "fs_refs fs' = fs_refs fs"
  shows "refs_ok (h(a \<mapsto> fs')) n ow opn"
  unfolding refs_ok_def
proof
  fix b
  show "case (h(a \<mapsto> fs')) b of None \<Rightarrow> Some b \<notin> ow \<and> b \<notin> set opn
     | Some fs \<Rightarrow> b < n \<and> fs_inv fs \<and> 0 < fs_refs fs \<and>
         fs_refs fs = int (count_list opn b) + (if Some b \<in> ow then 1 else 0)"
    using refs_okD [OF assms(1), of b] assms by (cases "b = a") (auto split: option.split)
qed

lemma fs_inv_empty: "fs_inv \<lparr>fs_refs = r, fs_blocks = [], fs_size = 0\<rparr>"
  by (simp add: fs_inv_def mem_kBlockSize_def)

lemma refs_ok_alloc:
  assumes "refs_ok h n ow opn"
  shows "refs_ok (h(n \<mapsto> \<lparr>fs_refs = 1, fs_blocks = [], fs_size = 0\<rparr>)) (n + 1) (insert (Some n) ow) opn"
  unfolding refs_ok_def
proof
  fix b
  have "h n = None" using refs_okD(2) [OF assms, of n] by (cases "h n") auto
  then show "case (h(n \<mapsto> \<lparr>fs_refs = 1, fs_blocks = [], fs_size = 0\<rparr>)) b of
       None \<Rightarrow> Some b \<notin> insert (Some n) ow \<and> b \<notin> set opn
     | Some fs \<Rightarrow> b < n + 1 \<and> fs_inv fs \<and> 0 < fs_refs fs \<and>
         fs_refs fs = int (count_list opn b) + (if Some b \<in> insert (Some n) ow then 1 else 0)"
    using refs_okD [OF assms, of b]
    by (cases "b = n") (auto simp: fs_inv_empty split: option.split)
qed

subsection \<open>The name map\<close>

lemma map_of_map_set [simp]: "map_of (map_set k v m) = (map_of m)(k \<mapsto> v)"
  by (induction k v m rule: map_set.induct) auto

lemma set_map_set: "k \<notin> fst ` set m \<Longrightarrow> set (map_set k v m) = insert (k, v) (set m)"
  by (induction k v m rule: map_set.induct) auto

lemma distinct_map_set:
  assumes "k \<notin> fst ` set m" and "distinct (map fst m)"
  shows "distinct (map fst (map_set k v m))"
  using assms by (induction k v m rule: map_set.induct) (auto simp: set_map_set)

lemma distinct_snd_map_set:
  assumes "k \<notin> fst ` set m" and "v \<notin> snd ` set m" and "distinct (map snd m)"
  shows "distinct (map snd (map_set k v m))"
  using assms by (induction k v m rule: map_set.induct) (auto simp: set_map_set)

lemma map_of_map_erase [simp]: "map_of (map_erase k m) = (map_of m)(k := None)"
  unfolding map_erase_def by (induction m) auto

lemma distinct_map_erase:
  "distinct (map fst m) \<Longrightarrow> distinct (map fst (map_erase k m))" "distinct (map snd m) \<Longrightarrow> distinct (map snd (map_erase k m))"
  unfolding map_erase_def by (induction m) auto

lemma snd_map_erase:
  assumes "distinct (map snd m)" and "distinct (map fst m)" and "map_of m k = Some p"
  shows "snd ` set (map_erase k m) = snd ` set m - {p}"
proof -
  have p: "(k, p) \<in> set m" using assms(3) by (rule map_of_SomeD)
  have "k' \<noteq> k \<longleftrightarrow> v \<noteq> p" if "(k', v) \<in> set m" for k' v
    using that p inj_onD [of snd "set m" "(k', v)" "(k, p)"] inj_onD [of fst "set m" "(k', v)" "(k, p)"] assms(1,2)
    by (auto simp: distinct_map)
  then show ?thesis by (force simp: map_erase_def)
qed

lemma fst_map_erase [simp]: "fst ` set (map_erase k m) = fst ` set m - {k}"
  by (force simp: map_erase_def)

lemma set_map_erase: "set (map_erase k m) = {x \<in> set m. fst x \<noteq> k}"
  by (auto simp: map_erase_def)

lemma map_erase_map_set: "k \<notin> fst ` set m \<Longrightarrow> map_erase k (map_set k v m) = m"
  unfolding map_erase_def by (induction k v m rule: map_set.induct) (auto simp: filter_id_conv image_iff)

lemma distinct_snd_iff: "distinct (map fst m) \<Longrightarrow> distinct (map snd m) \<longleftrightarrow> inj_on snd (set m)"
  by (simp add: distinct_map)

subsection \<open>Every method keeps the invariant\<close>

lemma mem_invD:
  assumes "mem_inv e" and "map_of (mem_map e) fname = Some p"
  shows "\<exists>a fs. p = Some a \<and> mem_heap e a = Some fs \<and> fs_inv fs \<and> p \<in> snd ` set (mem_map e)"
proof -
  have "p \<in> snd ` set (mem_map e)" using map_of_SomeD [OF assms(2)] by force
  with assms(1) obtain a where "p = Some a" by (cases p) (auto simp: mem_inv_def)
  with \<open>p \<in> _\<close> assms(1) refs_okD [of "mem_heap e" "mem_next e" "snd ` set (mem_map e)" "mem_open e" a] show ?thesis
    by (cases "mem_heap e a") (auto simp: mem_inv_def)
qed

lemma mem_inv_open:
  assumes "mem_inv e" and "a \<in> set (mem_open e)"
  shows "\<exists>fs. mem_heap e a = Some fs \<and> fs_inv fs"
  using assms refs_okD [of "mem_heap e" "mem_next e" "snd ` set (mem_map e)" "mem_open e" a]
  by (cases "mem_heap e a") (auto simp: mem_inv_def)

lemma mem_inv_hold: "mem_inv e \<Longrightarrow> mem_heap e a = Some fs \<Longrightarrow> mem_inv (mem_hold (Some a) e)"
  using refs_ok_hold [of "mem_heap e" "mem_next e" "snd ` set (mem_map e)" "mem_open e" a fs]
  by (simp add: mem_inv_def mem_hold_def FileState_Ref_def mem_update_def)

lemma mem_inv_drop: "mem_inv e \<Longrightarrow> a \<in> set (mem_open e) \<Longrightarrow> mem_inv (mem_drop (Some a) e)"
  using mem_inv_open [of e a] refs_ok_drop [of "mem_heap e" "mem_next e" "snd ` set (mem_map e)" "mem_open e" a]
  by (auto simp: mem_inv_def mem_drop_def FileState_Unref_def mem_update_def Let_def)

lemma mem_inv_contents:
  "mem_inv e \<Longrightarrow> mem_heap e a = Some fs \<Longrightarrow> fs_inv fs' \<Longrightarrow> fs_refs fs' = fs_refs fs \<Longrightarrow>
    mem_inv (e\<lparr>mem_heap := (mem_heap e)(a \<mapsto> fs')\<rparr>)"
  using refs_ok_contents [of "mem_heap e" "mem_next e" "snd ` set (mem_map e)" "mem_open e" a fs fs']
  by (simp add: mem_inv_def)

lemma mem_inv_Remove: "mem_inv e \<Longrightarrow> mem_inv (RemoveFileInternal fname e)"
proof (cases "map_of (mem_map e) fname")
  case (Some p)
  assume inv: "mem_inv e"
  from mem_invD [OF this Some] obtain a fs where a: "p = Some a" "mem_heap e a = Some fs" "Some a \<in> snd ` set (mem_map e)"
    by blast
  have "snd ` set (map_erase fname (mem_map e)) = snd ` set (mem_map e) - {Some a}"
    using inv Some a by (intro snd_map_erase) (auto simp: mem_inv_def)
  with inv a Some refs_ok_unown [of "mem_heap e" "mem_next e" "snd ` set (mem_map e)" "mem_open e" a fs] show ?thesis
    by (simp add: RemoveFileInternal_def mem_inv_def FileState_Unref_def mem_update_def Let_def distinct_map_erase)
qed (simp add: RemoveFileInternal_def)

lemma mem_inv_NewWritable:
  assumes inv: "mem_inv e" and new: "mem_NewWritableFile fname e = (s, w, e')"
  shows "ok s \<and> mem_inv e' \<and> (\<exists>a fs. w = Some (WritableFileImpl (Some a)) \<and> map_of (mem_map e') fname = Some (Some a) \<and>
    a \<in> set (mem_open e') \<and> mem_map e' = (if map_of (mem_map e) fname = None then map_set fname (Some a) (mem_map e) else mem_map e) \<and>
    mem_heap e' = (mem_heap e)(a \<mapsto> fs) \<and> fs_contents fs = [] \<and>
    (map_of (mem_map e) fname = None \<longrightarrow> Some a \<notin> snd ` set (mem_map e)))"
proof (cases "map_of (mem_map e) fname")
  case None
  let ?n = "mem_next e" and ?m = "map_set fname (Some (mem_next e)) (mem_map e)"
  let ?fs = "\<lparr>fs_refs = 1, fs_blocks = [], fs_size = 0\<rparr>"
  let ?e = "e\<lparr>mem_heap := (mem_heap e)(?n \<mapsto> ?fs), mem_next := ?n + 1, mem_map := ?m\<rparr>"
  have "mem_heap e ?n = None"
    using inv refs_okD(2) [of "mem_heap e" "mem_next e" "snd ` set (mem_map e)" "mem_open e" ?n]
    by (cases "mem_heap e ?n") (auto simp: mem_inv_def)
  with inv have fresh: "Some ?n \<notin> snd ` set (mem_map e)"
    using refs_okD(1) [of "mem_heap e" "mem_next e" "snd ` set (mem_map e)" "mem_open e" ?n] by (auto simp: mem_inv_def)
  have key: "fname \<notin> fst ` set (mem_map e)" using None by (simp add: map_of_eq_None_iff)
  have "mem_inv ?e"
    using inv refs_ok_alloc [of "mem_heap e" "mem_next e" "snd ` set (mem_map e)" "mem_open e"]
      distinct_map_set [OF key] distinct_snd_map_set [OF key fresh]
    by (simp add: mem_inv_def set_map_set [OF key])
  then have "mem_inv (mem_hold (Some ?n) ?e)" by (rule mem_inv_hold [where fs = ?fs]) simp
  moreover have "(s, w, e') = (OK, Some (WritableFileImpl (Some ?n)), mem_hold (Some ?n) ?e)"
    using new None
    by (auto simp: mem_NewWritableFile_def mem_alloc_def FileState_Ref_def mem_update_def FileState_new_def
        intro: arg_cong [of _ _ "mem_hold (Some (mem_next e))"])
  ultimately show ?thesis using None fresh
    by (auto simp: mem_hold_def FileState_Ref_def mem_update_def fs_contents_def intro!: exI)
next
  case (Some p)
  from mem_invD [OF inv Some] obtain a fs where a: "p = Some a" "mem_heap e a = Some fs" by blast
  let ?e = "e\<lparr>mem_heap := (mem_heap e)(a \<mapsto> FileState_Truncate fs)\<rparr>"
  have "mem_inv ?e" using inv a(2)
    by (rule mem_inv_contents) (simp_all add: FileState_Truncate_def fs_inv_def mem_kBlockSize_def)
  then have "mem_inv (mem_hold (Some a) ?e)" by (rule mem_inv_hold [where fs = "FileState_Truncate fs"]) simp
  moreover have "(s, w, e') = (OK, Some (WritableFileImpl (Some a)), mem_hold (Some a) ?e)"
    using new Some a by (simp add: mem_NewWritableFile_def mem_update_def)
  ultimately show ?thesis using Some a
    by (auto simp: mem_hold_def FileState_Ref_def mem_update_def fs_contents_def FileState_Truncate_def intro!: exI)
qed

lemma mem_inv_Append:
  assumes "mem_inv e" and "mem_heap e a = Some fs"
  shows "\<exists>fs'. mem_file_Append (Some a) data e = (OK, e\<lparr>mem_heap := (mem_heap e)(a \<mapsto> fs')\<rparr>) \<and>
    fs_contents fs' = fs_contents fs @ data \<and> mem_inv (e\<lparr>mem_heap := (mem_heap e)(a \<mapsto> fs')\<rparr>)"
proof -
  have "fs_inv fs"
    using assms refs_okD(2) [of "mem_heap e" "mem_next e" "snd ` set (mem_map e)" "mem_open e" a fs] by (auto simp: mem_inv_def)
  from fs_append_loop [OF this, of data] mem_inv_contents [OF assms, of "fs_append_loop fs data"] assms(2) show ?thesis
    by (auto simp: mem_file_Append_def mem_deref_def FileState_Append_def mem_update_def)
qed

lemma mem_inv_pos [simp]: "mem_inv (e\<lparr>mem_pos := f\<rparr>) = mem_inv e" "mem_inv (e\<lparr>mem_next_seq := k\<rparr>) = mem_inv e"
  by (simp_all add: mem_inv_def)

lemma mem_inv_NewSequential:
  assumes "mem_inv e" and "mem_NewSequentialFile fname e = (s, r, e')"
  shows "mem_inv e'"
proof (cases "map_of (mem_map e) fname")
  case (Some p)
  let ?e = "e\<lparr>mem_pos := (mem_pos e)(mem_next_seq e := 0), mem_next_seq := mem_next_seq e + 1\<rparr>"
  from mem_invD [OF assms(1) Some] obtain a fs where a: "p = Some a" "mem_heap e a = Some fs" by blast
  with assms Some mem_inv_hold [of ?e a fs] show ?thesis
    by (auto simp: mem_NewSequentialFile_def Let_def)
qed (use assms in \<open>simp add: mem_NewSequentialFile_def\<close>)

lemma mem_inv_NewRandomAccess:
  assumes "mem_inv e" and "mem_NewRandomAccessFile fname e = (s, r, e')"
  shows "mem_inv e'"
proof (cases "map_of (mem_map e) fname")
  case (Some p)
  from mem_invD [OF assms(1) Some] obtain a fs where "p = Some a" "mem_heap e a = Some fs" by blast
  with assms Some mem_inv_hold [of e a fs] show ?thesis
    by (auto simp: mem_NewRandomAccessFile_def)
qed (use assms in \<open>simp add: mem_NewRandomAccessFile_def\<close>)

lemma mem_inv_Rename:
  assumes inv: "mem_inv e" and ren: "mem_RenameFile src target e = (s, e')"
  shows "mem_inv e'"
proof (cases "map_of (mem_map e) src")
  case (Some p)
  let ?e = "RemoveFileInternal target e"
  have e1: "mem_inv ?e" "map_of (mem_map ?e) = (map_of (mem_map e))(target := None)"
    using mem_inv_Remove [OF inv] by (auto simp: RemoveFileInternal_def FileState_Unref_def mem_update_def Let_def
        split: option.splits)
  show ?thesis
  proof (cases "src = target")
    case True
    have "target \<notin> fst ` set (mem_map ?e)" using e1(2) by (simp flip: map_of_eq_None_iff)
    then have "map_erase target (map_set target None (mem_map ?e)) = mem_map ?e"
      by (rule map_erase_map_set)
    with ren Some True e1 show ?thesis by (auto simp: mem_RenameFile_def Let_def)
  next
    case False
    let ?m = "mem_map ?e"
    have src: "map_of ?m src = Some p" using Some False e1(2) by simp
    with ren Some have e': "e' = ?e\<lparr>mem_map := map_erase src (map_set target p ?m)\<rparr>"
      by (auto simp: mem_RenameFile_def Let_def)
    have d: "distinct (map fst ?m)" "distinct (map snd ?m)" using e1(1) by (auto simp: mem_inv_def)
    have t: "target \<notin> fst ` set ?m" using e1(2) by (simp flip: map_of_eq_None_iff)
    let ?M = "map_erase src (map_set target p ?m)"
    have sp: "(src, p) \<in> set ?m" using map_of_SomeD [OF src] .
    have set: "set ?M = insert (target, p) {x \<in> set ?m. fst x \<noteq> src}"
      using False by (auto simp: set_map_erase set_map_set [OF t])
    have df: "distinct (map fst ?M)" using distinct_map_set [OF t d(1)] by (rule distinct_map_erase)
    have "snd ` set ?M = snd ` set ?m"
      unfolding set using sp snd_map_erase [OF d(2,1) src] by (force simp: set_map_erase)
    moreover have "inj_on snd (set ?M)"
      using snd_map_erase [OF d(2,1) src] d(2) unfolding set
      by (auto simp: distinct_map set_map_erase intro: inj_on_subset)
    ultimately show ?thesis
      using e1(1) df unfolding e' mem_inv_def by (simp add: distinct_snd_iff [OF df])
  qed
qed (use assms in \<open>simp add: mem_RenameFile_def\<close>)

subsection \<open>The environment as a map of files\<close>

definition mem_files :: "MemEnv \<Rightarrow> bytes \<Rightarrow> bytes option" where
  "mem_files e fname =
     (case map_of (mem_map e) fname of Some (Some a) \<Rightarrow> map_option fs_contents (mem_heap e a) | _ \<Rightarrow> None)"

definition mem_contents :: "nat \<Rightarrow> MemEnv \<Rightarrow> bytes" where
  "mem_contents a e = (case mem_heap e a of None \<Rightarrow> [] | Some fs \<Rightarrow> fs_contents fs)"

definition mem_remaining :: "nat \<Rightarrow> nat \<Rightarrow> MemEnv \<Rightarrow> bytes" where
  "mem_remaining a i e = drop (mem_pos e i) (mem_contents a e)"

definition mem_readable :: "nat \<Rightarrow> nat \<Rightarrow> MemEnv \<Rightarrow> bool" where
  "mem_readable a i e \<longleftrightarrow> (\<exists>fs. mem_heap e a = Some fs \<and> fs_inv fs \<and> mem_pos e i \<le> fs_size fs)"

definition mem_writes :: "MemEnv WritableFile \<Rightarrow> bytes \<Rightarrow> MemEnv \<Rightarrow> bool" where
  "mem_writes f fname e \<longleftrightarrow>
     (\<exists>a. f = WritableFileImpl (Some a) \<and> map_of (mem_map e) fname = Some (Some a) \<and> a \<in> set (mem_open e))"

lemma fs_contents_refs [simp]: "fs_contents (fs\<lparr>fs_refs := r\<rparr>) = fs_contents fs"
  by (simp add: fs_contents_def)

lemma mem_pointer_unique:
  assumes "mem_inv e" and "map_of (mem_map e) f = Some p" and "map_of (mem_map e) g = Some p"
  shows "f = g"
  using assms inj_onD [of snd "set (mem_map e)" "(f, p)" "(g, p)"]
  by (auto simp: mem_inv_def distinct_map dest!: map_of_SomeD)

lemma mem_files_contents:
  assumes "mem_inv e" and "map_of (mem_map e) fname = Some (Some a)"
  shows "mem_files (e\<lparr>mem_heap := (mem_heap e)(a \<mapsto> fs)\<rparr>) = (mem_files e)(fname \<mapsto> fs_contents fs)"
proof
  fix g
  show "mem_files (e\<lparr>mem_heap := (mem_heap e)(a \<mapsto> fs)\<rparr>) g = ((mem_files e)(fname \<mapsto> fs_contents fs)) g"
    using assms mem_pointer_unique [OF assms, of g]
    by (cases "g = fname") (auto simp: mem_files_def split: option.splits)
qed

lemma mem_files_drop:
  assumes inv: "mem_inv e" and a: "a \<in> set (mem_open e)"
  shows "mem_files (mem_drop (Some a) e) = mem_files e"
proof
  fix g
  obtain fs where fs: "mem_heap e a = Some fs" using mem_inv_open [OF assms] by blast
  have r: "refs_ok (mem_heap e) (mem_next e) (snd ` set (mem_map e)) (mem_open e)" using inv by (simp add: mem_inv_def)
  have "1 \<le> count_list (mem_open e) a" using a by (metis One_nat_def Suc_leI count_list_0_iff gr0I)
  then have "map_of (mem_map e) g \<noteq> Some (Some a)" if "fs_refs fs \<le> 1"
    using that refs_okD(2) [OF r fs] by (force dest!: map_of_SomeD split: if_splits)
  with fs show "mem_files (mem_drop (Some a) e) g = mem_files e g"
    by (auto simp: mem_files_def mem_drop_def FileState_Unref_def mem_update_def Let_def split: option.splits)
qed

lemma mem_files_Remove:
  assumes inv: "mem_inv e"
  shows "mem_files (RemoveFileInternal fname e) = (mem_files e)(fname := None)"
proof
  fix g
  show "mem_files (RemoveFileInternal fname e) g = ((mem_files e)(fname := None)) g"
  proof (cases "map_of (mem_map e) fname")
    case None
    then show ?thesis by (simp add: RemoveFileInternal_def mem_files_def)
  next
    case (Some p)
    from mem_invD [OF inv this] obtain a fs where "p = Some a" "mem_heap e a = Some fs" by blast
    with Some mem_pointer_unique [OF inv Some, of g] show ?thesis
      by (cases "g = fname")
        (auto simp: RemoveFileInternal_def mem_files_def FileState_Unref_def mem_update_def Let_def split: option.splits)
  qed
qed

lemma mem_files_Rename:
  assumes inv: "mem_inv e" and ren: "mem_RenameFile src target e = (s, e')" and "ok s" and "src \<noteq> target"
  shows "mem_files e' = (mem_files e)(src := None, target := mem_files e src)"
proof
  fix g
  let ?e = "RemoveFileInternal target e"
  have m: "map_of (mem_map ?e) = (map_of (mem_map e))(target := None)"
    by (auto simp: RemoveFileInternal_def FileState_Unref_def mem_update_def Let_def split: option.splits)
  obtain p where p: "map_of (mem_map e) src = Some p"
    using ren assms(3) by (auto simp: mem_RenameFile_def file_not_found_def split: option.splits)
  with ren m assms(4) have "e' = ?e\<lparr>mem_map := map_erase src (map_set target p (mem_map ?e))\<rparr>"
    by (auto simp: mem_RenameFile_def Let_def)
  then have "mem_files e' = (mem_files ?e)(src := None, target := mem_files ?e src)"
    using m p assms(4) by (auto simp: mem_files_def fun_eq_iff split: option.splits)
  then show "mem_files e' g = ((mem_files e)(src := None, target := mem_files e src)) g"
    using mem_files_Remove [OF inv, of target] assms(4) by simp
qed

interpretation mem_writable: reliable_writable "WritableFileImpl (Some a)" "mem_contents a"
    "\<lambda>e. mem_inv e \<and> mem_heap e a \<noteq> None" for a
proof unfold_locales
  fix e data s e'
  assume g: "mem_inv e \<and> mem_heap e a \<noteq> None"
  {
    assume "file_Append (WritableFileImpl (Some a)) data e = (s, e')"
    with g obtain fs fs' where "mem_heap e a = Some fs" "s = OK" "e' = e\<lparr>mem_heap := (mem_heap e)(a \<mapsto> fs')\<rparr>"
      "fs_contents fs' = fs_contents fs @ data" "mem_inv e'"
      using mem_inv_Append [of e a _ data] by (auto simp: WritableFileImpl_def)
    then have "ok s \<and> mem_contents a e' = mem_contents a e @ data \<and> mem_inv e' \<and> mem_heap e' a \<noteq> None"
      by (simp add: mem_contents_def)
  }
  note app = this
  show "mem_contents a e' = mem_contents a e @ data"
    if "file_Append (WritableFileImpl (Some a)) data e = (s, e')" "ok s" using app that by blast
  show "\<exists>n. mem_contents a e' = mem_contents a e @ take n data"
    if "file_Append (WritableFileImpl (Some a)) data e = (s, e')" "\<not> ok s" using app that by blast
  show "mem_inv e' \<and> mem_heap e' a \<noteq> None"
    if "file_Append (WritableFileImpl (Some a)) data e = (s, e')" using app that by blast
  show "ok s" if "file_Append (WritableFileImpl (Some a)) data e = (s, e')" using app that by blast
  show "ok s" if "file_Flush (WritableFileImpl (Some a)) e = (s, e')" using that by (auto simp: WritableFileImpl_def)
  show "mem_contents a e' = mem_contents a e" if "file_Flush (WritableFileImpl (Some a)) e = (s, e')"
    using that by (simp add: WritableFileImpl_def)
  show "mem_inv e' \<and> mem_heap e' a \<noteq> None" if "file_Flush (WritableFileImpl (Some a)) e = (s, e')"
    using that g by (simp add: WritableFileImpl_def)
qed

lemma mem_seq_Read:
  assumes "mem_readable a i e"
  shows "mem_seq_Read (Some a) i n e = (OK, take n (mem_remaining a i e),
    e\<lparr>mem_pos := (mem_pos e)(i := mem_pos e i + length (take n (mem_remaining a i e)))\<rparr>)"
proof -
  obtain fs where "mem_heap e a = Some fs" "fs_inv fs" "mem_pos e i \<le> fs_size fs"
    using assms by (auto simp: mem_readable_def)
  then show ?thesis
    by (simp add: mem_seq_Read_def mem_deref_def FileState_Read mem_remaining_def mem_contents_def)
qed

interpretation mem_sequential: reliable_file "SequentialFileImpl (Some a) i" "mem_remaining a i" "mem_readable a i" for a i
proof unfold_locales
  fix e n s r e'
  assume g: "mem_readable a i e" and "seq_Read (SequentialFileImpl (Some a) i) n e = (s, r, e')"
  then have rd: "s = OK" "r = take n (mem_remaining a i e)"
    "e' = e\<lparr>mem_pos := (mem_pos e)(i := mem_pos e i + length (take n (mem_remaining a i e)))\<rparr>"
    using mem_seq_Read [OF g, of n] by (auto simp: SequentialFileImpl_def)
  then show "ok s" by simp
  have "length (mem_remaining a i e) \<le> length (mem_contents a e) - mem_pos e i" by (simp add: mem_remaining_def)
  then show "mem_readable a i e'"
    using g rd by (auto simp: mem_readable_def mem_contents_def length_fs_contents)
  show "r = take n (mem_remaining a i e) \<and> mem_remaining a i e' = drop n (mem_remaining a i e)"
    using rd by (auto simp: mem_remaining_def mem_contents_def add.commute min_def)
qed

lemma mem_files_NewWritable:
  assumes inv: "mem_inv e" and new: "mem_NewWritableFile fname e = (s, w, e')"
  shows "mem_files e' = (mem_files e)(fname \<mapsto> [])"
proof
  fix g
  obtain a fs where a: "map_of (mem_map e') fname = Some (Some a)" "mem_heap e' = (mem_heap e)(a \<mapsto> fs)"
    "mem_map e' = (if map_of (mem_map e) fname = None then map_set fname (Some a) (mem_map e) else mem_map e)"
    "fs_contents fs = []" "map_of (mem_map e) fname = None \<longrightarrow> Some a \<notin> snd ` set (mem_map e)"
    using mem_inv_NewWritable [OF assms] by (elim conjE exE) (rule that; assumption)
  show "mem_files e' g = ((mem_files e)(fname \<mapsto> [])) g"
  proof (cases "g = fname")
    case False
    have "map_of (mem_map e) g \<noteq> Some (Some a)"
    proof
      assume g: "map_of (mem_map e) g = Some (Some a)"
      then have "Some a \<in> snd ` set (mem_map e)" by (force dest: map_of_SomeD)
      with a have "map_of (mem_map e) fname = Some (Some a)" by (cases "map_of (mem_map e) fname") auto
      with g False mem_pointer_unique [OF inv] show False by blast
    qed
    with a False show ?thesis by (auto simp: mem_files_def split: option.splits)
  qed (use a in \<open>simp add: mem_files_def\<close>)
qed

interpretation mem_random: random_access_file "RandomAccessFileImpl (Some a)" "mem_contents a"
  "\<lambda>e. \<exists>fs. mem_heap e a = Some fs \<and> fs_inv fs" for a
proof unfold_locales
  fix e off n
  assume "\<exists>fs. mem_heap e a = Some fs \<and> fs_inv fs" and n: "off + n \<le> length (mem_contents a e)"
  then obtain fs where fs: "mem_heap e a = Some fs" "fs_inv fs" by blast
  then have "off \<le> fs_size fs" using n length_fs_contents [OF fs(2)] by (simp add: mem_contents_def)
  then show "rnd_Read (RandomAccessFileImpl (Some a)) off n e = (OK, take n (drop off (mem_contents a e)))"
    using fs by (simp add: RandomAccessFileImpl_def mem_rnd_Read_def mem_deref_def FileState_Read mem_contents_def)
qed

interpretation mem_env: env_files InMemoryEnv mem_files mem_inv mem_writes
proof unfold_locales
  fix e fname s w e'
  assume inv: "mem_inv e"
  show "\<exists>f. w = Some f \<and> mem_inv e' \<and> mem_writes f fname e' \<and> mem_files e' = (mem_files e)(fname \<mapsto> [])"
    if "env_NewWritableFile InMemoryEnv fname e = (s, w, e')"
    using that mem_inv_NewWritable [OF inv] mem_files_NewWritable [OF inv]
    by (fastforce simp: InMemoryEnv_def mem_writes_def)
  show "mem_inv e'" if "env_NewWritableFile InMemoryEnv fname e = (s, w, e')"
    using that mem_inv_NewWritable [OF inv] by (simp add: InMemoryEnv_def)
next
  fix e f fname data s e'
  assume inv: "mem_inv e" and w: "mem_writes f fname e"
  then obtain a where a: "f = WritableFileImpl (Some a)" "map_of (mem_map e) fname = Some (Some a)" "a \<in> set (mem_open e)"
    by (auto simp: mem_writes_def)
  obtain fs where fs: "mem_heap e a = Some fs" using mem_inv_open [OF inv a(3)] by blast
  show "mem_inv e' \<and> mem_writes f fname e' \<and> (ok s \<longrightarrow> mem_files e' = (mem_files e)(fname \<mapsto> the (mem_files e fname) @ data))"
    if "file_Append f data e = (s, e')"
    using that mem_inv_Append [OF inv fs, of data] a fs mem_files_contents [OF inv a(2)]
    by (auto simp: WritableFileImpl_def mem_writes_def mem_files_def [of _ fname])
  show "mem_inv (file_delete f e) \<and> mem_files (file_delete f e) = mem_files e"
    using mem_inv_drop [OF inv a(3)] mem_files_drop [OF inv a(3)] a(1) by (simp add: WritableFileImpl_def)
  show "mem_inv e' \<and> mem_writes f fname e' \<and> mem_files e' = mem_files e" if "file_Sync f e = (s, e')"
    using that inv w a(1) by (auto simp: WritableFileImpl_def)
  show "mem_inv e' \<and> mem_writes f fname e' \<and> mem_files e' = mem_files e" if "file_Close f e = (s, e')"
    using that inv w a(1) by (auto simp: WritableFileImpl_def)
next
  fix e fname s e'
  assume inv: "mem_inv e" and "env_RemoveFile InMemoryEnv fname e = (s, e')"
  then show "mem_inv e' \<and> (ok s \<longrightarrow> mem_files e' = (mem_files e)(fname := None))"
    using mem_inv_Remove [OF inv, of fname] mem_files_Remove [OF inv, of fname]
    by (auto simp: InMemoryEnv_def mem_RemoveFile_def file_not_found_def split: option.splits)
next
  fix e src target s e'
  assume inv: "mem_inv e" and "env_RenameFile InMemoryEnv src target e = (s, e')"
  then show "mem_inv e' \<and> (ok s \<and> src \<noteq> target \<longrightarrow> mem_files e' = (mem_files e)(src := None, target := mem_files e src))"
    using mem_inv_Rename [OF inv] mem_files_Rename [OF inv] by (simp add: InMemoryEnv_def)
next
  fix e fname s r e' data
  assume inv: "mem_inv e" and new: "env_NewSequentialFile InMemoryEnv fname e = (s, r, e')"
    and data: "mem_files e fname = Some data"
  from data obtain a fs where a: "map_of (mem_map e) fname = Some (Some a)" "mem_heap e a = Some fs" "fs_contents fs = data"
    by (auto simp: mem_files_def split: option.splits)
  with mem_invD [OF inv a(1)] have "fs_inv fs" by auto
  with new a have "ok s" "r = Some (SequentialFileImpl (Some a) (mem_next_seq e))"
    "mem_readable a (mem_next_seq e) e' \<and> mem_remaining a (mem_next_seq e) e' = data"
    by (auto simp: InMemoryEnv_def mem_NewSequentialFile_def Let_def mem_hold_def FileState_Ref_def mem_update_def
        mem_readable_def mem_remaining_def mem_contents_def fs_inv_def)
  with mem_sequential.reliable_file_axioms show "ok s \<and> (\<exists>f rem inv. r = Some f \<and> reliable_file f rem inv \<and> inv e' \<and> rem e' = data)"
    by blast
qed

subsection \<open>Runs of the environment\<close>

text \<open>One call of a method. File objects are used only while they are alive, so their \<open>FileState\<close> pointer is
  listed in \<open>mem_open\<close>.\<close>

inductive mem_step :: "MemEnv \<Rightarrow> MemEnv \<Rightarrow> bool" where
  step_NewSequential: "mem_NewSequentialFile fname e = (s, sf, e') \<Longrightarrow> mem_step e e'"
| step_NewRandomAccess: "mem_NewRandomAccessFile fname e = (s, rf, e') \<Longrightarrow> mem_step e e'"
| step_NewWritable: "mem_NewWritableFile fname e = (s, w, e') \<Longrightarrow> mem_step e e'"
| step_NewAppendable: "mem_FileExists fname e \<Longrightarrow> mem_NewAppendableFile fname e = (s, w, e') \<Longrightarrow> mem_step e e'"
| step_Append: "a \<in> set (mem_open e) \<Longrightarrow> mem_file_Append (Some a) data e = (s, e') \<Longrightarrow> mem_step e e'"
| step_Read: "a \<in> set (mem_open e) \<Longrightarrow> mem_seq_Read (Some a) i n e = (s, r, e') \<Longrightarrow> mem_step e e'"
| step_Skip: "a \<in> set (mem_open e) \<Longrightarrow> mem_seq_Skip (Some a) i n e = (s, e') \<Longrightarrow> mem_step e e'"
| step_delete: "a \<in> set (mem_open e) \<Longrightarrow> mem_step e (mem_drop (Some a) e)"
| step_Remove: "mem_RemoveFile fname e = (s, e') \<Longrightarrow> mem_step e e'"
| step_Rename: "mem_RenameFile src target e = (s, e') \<Longrightarrow> mem_step e e'"

lemma mem_step_inv: "mem_step e e' \<Longrightarrow> mem_inv e \<Longrightarrow> mem_inv e'"
proof (induction rule: mem_step.induct)
  case (step_NewAppendable fname e s w e')
  then obtain p where p: "map_of (mem_map e) fname = Some p" by (auto simp: mem_FileExists_def)
  from mem_invD [OF step_NewAppendable(3) p] p step_NewAppendable mem_inv_hold [of e] show ?case
    by (auto simp: mem_NewAppendableFile_def)
next
  case (step_Append a e data s e')
  then show ?case using mem_inv_open [of e a] mem_inv_Append [of e a _ data] by fastforce
next
  case (step_Read a e i n s r e')
  then show ?case using mem_inv_open [of e a]
    by (auto simp: mem_seq_Read_def mem_deref_def split: prod.splits if_splits)
next
  case (step_Skip a e i n s e')
  then show ?case using mem_inv_open [of e a]
    by (auto simp: mem_seq_Skip_def mem_deref_def Let_def split: if_splits)
next
  case (step_Remove fname e s e')
  then show ?case using mem_inv_Remove [of e fname] by (auto simp: mem_RemoveFile_def split: option.splits)
qed (auto intro: mem_inv_NewSequential mem_inv_NewRandomAccess mem_inv_Rename mem_inv_drop dest: mem_inv_NewWritable)

lemma mem_inv_new: "mem_inv NewMemEnv"
  by (simp add: mem_inv_def NewMemEnv_def refs_ok_def)

lemma mem_reachable_inv: "mem_step\<^sup>*\<^sup>* NewMemEnv e \<Longrightarrow> mem_inv e"
  by (induction rule: rtranclp_induct) (auto intro: mem_inv_new mem_step_inv)

subsection \<open>Properties\<close>



text \<open>Opening a file that does not exist for appending leaves a null pointer under its name: the file exists
  from then on, what is written to it is never found there, and opening it for reading uses the null pointer.\<close>
lemma memenv_appendable_lost:
  assumes "mem_inv e" and "\<not> mem_FileExists fname e" and "mem_NewAppendableFile fname e = (s, w, e1)"
  shows "ok s \<and> \<not> mem_fault e1 \<and> mem_FileExists fname e1 \<and> mem_files e1 fname = None \<and>
    (\<forall>f data. w = Some f \<longrightarrow> mem_files (snd (file_Append f data e1)) fname = None) \<and>
    mem_fault (snd (snd (mem_NewSequentialFile fname e1)))"
proof -
  have m: "map_of (mem_map e) fname = None" and f: "\<not> mem_fault e"
    using assms(1,2) by (cases "map_of (mem_map e) fname"; simp add: mem_FileExists_def mem_inv_def)+
  then have e1: "s = OK" "w = Some (WritableFileImpl (Some (mem_next e)))" "\<not> mem_fault e1"
    "map_of (mem_map e1) fname = Some None" "mem_heap e1 (mem_next e) \<noteq> None"
    using assms(3) by (auto simp: mem_NewAppendableFile_def mem_alloc_def mem_hold_def FileState_Ref_def mem_update_def)
  then show ?thesis
    by (auto simp: mem_FileExists_def mem_files_def WritableFileImpl_def mem_file_Append_def mem_deref_def
        FileState_Append_def mem_update_def mem_NewSequentialFile_def mem_hold_def FileState_Ref_def Let_def)
qed

text \<open>C21: A string written to a file of the in-memory environment is read back, and no other file changes.\<close>
theorem memenv_write_read:
  assumes "mem_inv e" and "WriteStringToFile InMemoryEnv data fname e = (s, e')" and "ok s"
  shows "mem_inv e' \<and> mem_files e' = (mem_files e)(fname \<mapsto> data) \<and>
    (\<exists>e''. ReadFileToString InMemoryEnv fname e' = Some (OK, data, e''))"
  using mem_env.write_string [OF assms(1), of data fname False s e'] assms(2,3) mem_env.read_string [of e' fname data]
  by (simp add: WriteStringToFile_def)

theorem memenv_write_read_witness:
  "\<exists>e''. ReadFileToString InMemoryEnv [1] (snd (WriteStringToFile InMemoryEnv [7, 8] [1] NewMemEnv)) = Some (OK, [7, 8], e'')"
proof -
  have "ok (fst (WriteStringToFile InMemoryEnv [7, 8] [1] NewMemEnv))"
    by (simp add: WriteStringToFile_def DoWriteStringToFile_def InMemoryEnv_def mem_NewWritableFile_def NewMemEnv_def
        mem_alloc_def FileState_Ref_def mem_update_def mem_hold_def WritableFileImpl_def mem_file_Append_def mem_deref_def
        FileState_Append_def)
  with memenv_write_read [OF mem_inv_new, of "[7, 8]" "[1]"] show ?thesis
    by (metis prod.collapse)
qed

end
