(* ===== verification/Filename.thy ===== *)
theory Filename
  imports MemEnv
begin

text \<open>File names of a database, translated from \<open>db/filename.h\<close> and \<open>db/filename.cc\<close>.\<close>

datatype FileType = kLogFile | kDBLockFile | kTableFile | kDescriptorFile | kCurrentFile | kTempFile | kInfoLogFile

definition MakeFileName :: "bytes \<Rightarrow> u64 \<Rightarrow> bytes \<Rightarrow> bytes" where
  "MakeFileName dbname number suffix = dbname @ str ''/'' @ decimal_padded 6 (unat number) @ str ''.'' @ suffix"

definition LogFileName :: "bytes \<Rightarrow> u64 \<Rightarrow> bytes" where
  "LogFileName dbname number = MakeFileName dbname number (str ''log'')"

definition TableFileName :: "bytes \<Rightarrow> u64 \<Rightarrow> bytes" where
  "TableFileName dbname number = MakeFileName dbname number (str ''ldb'')"

definition SSTTableFileName :: "bytes \<Rightarrow> u64 \<Rightarrow> bytes" where
  "SSTTableFileName dbname number = MakeFileName dbname number (str ''sst'')"

definition DescriptorFileName :: "bytes \<Rightarrow> u64 \<Rightarrow> bytes" where
  "DescriptorFileName dbname number = dbname @ str ''/MANIFEST-'' @ decimal_padded 6 (unat number)"

definition CurrentFileName :: "bytes \<Rightarrow> bytes" where
  "CurrentFileName dbname = dbname @ str ''/CURRENT''"

definition LockFileName :: "bytes \<Rightarrow> bytes" where
  "LockFileName dbname = dbname @ str ''/LOCK''"

definition TempFileName :: "bytes \<Rightarrow> u64 \<Rightarrow> bytes" where
  "TempFileName dbname number = MakeFileName dbname number (str ''dbtmp'')"

definition InfoLogFileName :: "bytes \<Rightarrow> bytes" where
  "InfoLogFileName dbname = dbname @ str ''/LOG''"

definition OldInfoLogFileName :: "bytes \<Rightarrow> bytes" where
  "OldInfoLogFileName dbname = dbname @ str ''/LOG.old''"

text \<open>\<^term>\<open>None\<close> is the result false; the arguments \<open>number\<close> and \<open>type\<close> are written only otherwise.\<close>

definition ParseFileName :: "bytes \<Rightarrow> (u64 \<times> FileType) option" where
  "ParseFileName filename =
     (if filename = str ''CURRENT'' then Some (0, kCurrentFile)
      else if filename = str ''LOCK'' then Some (0, kDBLockFile)
      else if filename = str ''LOG'' \<or> filename = str ''LOG.old'' then Some (0, kInfoLogFile)
      else if slice_starts_with filename (str ''MANIFEST-'') then
        (case ConsumeDecimalNumber (drop (length ''MANIFEST-'') filename) 0 of
           (False, _, _) \<Rightarrow> None
         | (True, rest, num) \<Rightarrow> if rest \<noteq> [] then None else Some (num, kDescriptorFile))
      else
        (case ConsumeDecimalNumber filename 0 of
           (False, _, _) \<Rightarrow> None
         | (True, suffix, num) \<Rightarrow>
             if suffix = str ''.log'' then Some (num, kLogFile)
             else if suffix = str ''.sst'' \<or> suffix = str ''.ldb'' then Some (num, kTableFile)
             else if suffix = str ''.dbtmp'' then Some (num, kTempFile)
             else None))"

definition SetCurrentFile :: "'e Env \<Rightarrow> bytes \<Rightarrow> u64 \<Rightarrow> 'e \<Rightarrow> Status \<times> 'e" where
  "SetCurrentFile env dbname descriptor_number e =
     (let manifest = DescriptorFileName dbname descriptor_number;
          contents = remove_prefix (length dbname + 1) manifest;
          tmp = TempFileName dbname descriptor_number;
          (s, e1) = WriteStringToFileSync env (contents @ [10]) tmp e;
          (s, e2) = (if ok s then env_RenameFile env tmp (CurrentFileName dbname) e1 else (s, e1));
          e3 = (if \<not> ok s then snd (env_RemoveFile env tmp e2) else e2)
      in (s, e3))"

subsection \<open>Lemmas\<close>

text \<open>The part of a file's path after the directory of the database.\<close>

definition base_name :: "bytes \<Rightarrow> bytes \<Rightarrow> bytes" where
  "base_name dbname path = drop (length dbname + 1) path"

lemma decimal_padded_first: "\<exists>d s. decimal_padded w n = digit d # s \<and> d < 10"
proof -
  obtain ds where "decimal_padded w n = map digit ds" "\<forall>d \<in> set ds. d < 10" "ds \<noteq> []"
    using decimal_padded_digits by blast
  then show ?thesis by (cases ds) auto
qed

lemma ParseFileName_number:
  assumes "\<not> starts_with_digit rest"
  shows "ParseFileName (decimal_padded w (unat n) @ rest) =
    (if rest = str ''.log'' then Some (n, kLogFile)
     else if rest = str ''.sst'' \<or> rest = str ''.ldb'' then Some (n, kTableFile)
     else if rest = str ''.dbtmp'' then Some (n, kTempFile) else None)"
proof -
  obtain d s where d: "decimal_padded w (unat n) = digit d # s" "d < 10" using decimal_padded_first by blast
  then have ne: "digit d \<noteq> 67" "digit d \<noteq> 76" "digit d \<noteq> 77"
    using unat_digit [of d] by (auto simp: word_unat_eq_iff)
  then have "decimal_padded w (unat n) @ rest \<noteq> str ''CURRENT''" "decimal_padded w (unat n) @ rest \<noteq> str ''LOCK''"
    "decimal_padded w (unat n) @ rest \<noteq> str ''LOG''" "decimal_padded w (unat n) @ rest \<noteq> str ''LOG.old''"
    "\<not> slice_starts_with (decimal_padded w (unat n) @ rest) (str ''MANIFEST-'')"
    unfolding d by (auto simp: str_def slice_starts_with_def)
  then show ?thesis
    unfolding ParseFileName_def Consume_decimal_padded [OF assms] by simp
qed

lemma ParseFileName_manifest:
  "ParseFileName (str ''MANIFEST-'' @ decimal_padded w (unat n)) = Some (n, kDescriptorFile)"
proof -
  have "ConsumeDecimalNumber (drop (length ''MANIFEST-'') (str ''MANIFEST-'' @ decimal_padded w (unat n))) 0 = (True, [], n)"
    using Consume_decimal_padded [of "[]" w n 0] by (simp add: str_def starts_with_digit_def)
  moreover have "slice_starts_with (str ''MANIFEST-'' @ decimal_padded w (unat n)) (str ''MANIFEST-'')"
    by (simp add: slice_starts_with_def str_def)
  ultimately show ?thesis unfolding ParseFileName_def by (simp add: str_def)
qed

lemma base_name_simps:
  "base_name dbname (MakeFileName dbname n suffix) = decimal_padded 6 (unat n) @ str ''.'' @ suffix"
  "base_name dbname (DescriptorFileName dbname n) = str ''MANIFEST-'' @ decimal_padded 6 (unat n)"
  by (simp_all add: base_name_def MakeFileName_def DescriptorFileName_def str_def)

lemma tmp_not_current: "TempFileName dbname n \<noteq> CurrentFileName dbname"
proof -
  obtain d s where d: "decimal_padded 6 (unat n) = digit d # s" "d < 10" using decimal_padded_first by blast
  then have "digit d \<noteq> 67" using unat_digit [of d] by (auto simp: word_unat_eq_iff)
  with d show ?thesis by (auto simp: TempFileName_def MakeFileName_def CurrentFileName_def str_def)
qed

context env_files
begin

text \<open>Switching the current descriptor: on success \<open>CURRENT\<close> holds the name of the new one, and no other file is
  changed but the temporary one.\<close>

lemma set_current:
  assumes "good e" and "SetCurrentFile env dbname n e = (s, e')" and "ok s"
  shows "good e' \<and> files e' = (files e)(TempFileName dbname n := None,
    CurrentFileName dbname \<mapsto> base_name dbname (DescriptorFileName dbname n) @ [10])"
proof -
  let ?tmp = "TempFileName dbname n" and ?c = "base_name dbname (DescriptorFileName dbname n) @ [10]"
  obtain s1 e1 where w: "WriteStringToFileSync env ?c ?tmp e = (s1, e1)" by fastforce
  obtain s2 e2 where r: "env_RenameFile env ?tmp (CurrentFileName dbname) e1 = (s2, e2)" by fastforce
  have ok1: "ok s1" "ok s2" "e' = e2"
    using assms(2,3) w r by (auto simp: SetCurrentFile_def Let_def base_name_def remove_prefix_def split: if_splits)
  with w write_string [OF assms(1), of ?c ?tmp True s1 e1]
  have "good e1" "files e1 = (files e)(?tmp \<mapsto> ?c)" by (auto simp: WriteStringToFileSync_def)
  with rename_file [OF _ r] ok1 tmp_not_current [of dbname n] show ?thesis by auto
qed

end

subsection \<open>Properties\<close>




end
