(* ===== verification/LogWriter.thy ===== *)
theory LogWriter
  imports MemEnv Crc32c
begin

text \<open>
  The log format and its writer, translated from \<open>db/log_format.h\<close> and \<open>db/log_writer.cc\<close>. The destination is
  a \<^typ>\<open>'e WritableFile\<close>; \<open>block_offset_\<close> is a natural number, since the writer keeps it between zero and the
  block size.
\<close>

subsection \<open>The format\<close>

datatype RecordType = kZeroType | kFullType | kFirstType | kMiddleType | kLastType

fun RecordType_code :: "RecordType \<Rightarrow> byte" where
  "RecordType_code kZeroType = 0"
| "RecordType_code kFullType = 1"
| "RecordType_code kFirstType = 2"
| "RecordType_code kMiddleType = 3"
| "RecordType_code kLastType = 4"

definition kMaxRecordType :: nat where
  "kMaxRecordType = 4"

definition log_kBlockSize :: nat where
  "log_kBlockSize = 32768"

definition kHeaderSize :: nat where
  "kHeaderSize = 4 + 2 + 1"

subsection \<open>The writer\<close>

record 'e Writer =
  lw_dest :: "'e WritableFile"
  lw_block_offset :: nat
  lw_type_crc :: "u32 list"

definition InitTypeCrc :: "u32 list" where
  "InitTypeCrc = map (\<lambda>i. crc_value [word_of_nat i]) [0..<kMaxRecordType + 1]"

definition Writer_new :: "'e WritableFile \<Rightarrow> 'e Writer" where
  "Writer_new dest = \<lparr>lw_dest = dest, lw_block_offset = 0, lw_type_crc = InitTypeCrc\<rparr>"

definition Writer_append :: "'e WritableFile \<Rightarrow> nat \<Rightarrow> 'e Writer" where
  "Writer_append dest dest_length =
     \<lparr>lw_dest = dest, lw_block_offset = dest_length mod log_kBlockSize, lw_type_crc = InitTypeCrc\<rparr>"

text \<open>The seven bytes in front of a fragment.\<close>

definition record_header :: "u32 list \<Rightarrow> RecordType \<Rightarrow> bytes \<Rightarrow> bytes" where
  "record_header type_crc t data =
     EncodeFixed32 (Mask (crc_extend (type_crc ! unat (RecordType_code t)) data)) @
     [word_of_nat (length data mod 256), word_of_nat (length data div 256), RecordType_code t]"

definition EmitPhysicalRecord :: "RecordType \<Rightarrow> bytes \<Rightarrow> 'e Writer \<Rightarrow> 'e \<Rightarrow> Status \<times> 'e Writer \<times> 'e" where
  "EmitPhysicalRecord t data w e =
     (let buf = record_header (lw_type_crc w) t data;
          (s, e1) = file_Append (lw_dest w) buf e;
          (s, e2) = (if ok s then
                       (let (s, e2) = file_Append (lw_dest w) data e1
                        in if ok s then file_Flush (lw_dest w) e2 else (s, e2))
                     else (s, e1))
      in (s, w\<lparr>lw_block_offset := lw_block_offset w + kHeaderSize + length data\<rparr>, e2))"

text \<open>The start of a turn of the loop: when no header fits in the block, its trailer is filled with zeros (with
  no regard to the status) and a new block begun.\<close>

definition switch_block :: "'e Writer \<Rightarrow> 'e \<Rightarrow> 'e Writer \<times> 'e" where
  "switch_block w e =
     (let leftover = log_kBlockSize - lw_block_offset w
      in if leftover < kHeaderSize then
           (w\<lparr>lw_block_offset := 0\<rparr>,
            if leftover > 0 then snd (file_Append (lw_dest w) (replicate leftover 0) e) else e)
         else (w, e))"

definition fragment_type :: "bool \<Rightarrow> bool \<Rightarrow> RecordType" where
  "fragment_type beg end =
     (if beg \<and> end then kFullType else if beg then kFirstType else if end then kLastType else kMiddleType)"

definition fragment_length :: "nat \<Rightarrow> nat \<Rightarrow> nat" where
  "fragment_length block_offset left =
     (let avail = log_kBlockSize - block_offset - kHeaderSize in if left < avail then left else avail)"

lemma offset_switch_block:
  "lw_block_offset (fst (switch_block w e)) =
     (if log_kBlockSize - lw_block_offset w < kHeaderSize then 0 else lw_block_offset w)"
  by (simp add: switch_block_def Let_def)

lemma offset_Emit:
  "lw_block_offset (fst (snd (EmitPhysicalRecord t data w e))) = lw_block_offset w + kHeaderSize + length data"
  by (simp add: EmitPhysicalRecord_def Let_def split_beta)

function (sequential) AddRecord_loop :: "bytes \<Rightarrow> bool \<Rightarrow> 'e Writer \<Rightarrow> 'e \<Rightarrow> Status \<times> 'e Writer \<times> 'e" where
  "AddRecord_loop data beg w e =
     (let (w1, e1) = switch_block w e;
          len = fragment_length (lw_block_offset w1) (length data);
          end = (length data = len);
          (s, w2, e2) = EmitPhysicalRecord (fragment_type beg end) (take len data) w1 e1;
          rest = drop len data
      in if ok s \<and> rest \<noteq> [] then AddRecord_loop rest False w2 e2 else (s, w2, e2))"
  by auto
termination
proof (relation "measure (\<lambda>(data, _, w, _). 2 * length data +
    (if log_kBlockSize - lw_block_offset w = kHeaderSize then 1 else 0))", goal_cases)
  case (2 data beg w e x w1 e1 len fin y s z w2 e2 rest)
  have "lw_block_offset w1 = (if log_kBlockSize - lw_block_offset w < kHeaderSize then 0 else lw_block_offset w)"
    using offset_switch_block [of w e] 2 by (metis fst_conv)
  moreover have "lw_block_offset w2 = lw_block_offset w1 + kHeaderSize + length (take len data)"
    using offset_Emit [of "fragment_type beg fin" "take len data" w1 e1] 2 by (metis fst_conv snd_conv)
  ultimately show ?case
    using 2 by (auto simp: fragment_length_def Let_def log_kBlockSize_def kHeaderSize_def split: if_splits)
qed simp

declare AddRecord_loop.simps [simp del]

definition AddRecord :: "bytes \<Rightarrow> 'e Writer \<Rightarrow> 'e \<Rightarrow> Status \<times> 'e Writer \<times> 'e" where
  "AddRecord data w e = AddRecord_loop data True w e"

subsection \<open>What a record looks like in the file\<close>

text \<open>The bytes a record takes from a block offset on, and the offset after it: the reference for writer and
  reader.\<close>

definition pad_offset :: "nat \<Rightarrow> nat" where
  "pad_offset off = (if log_kBlockSize - off < kHeaderSize then 0 else off)"

definition trailer :: "nat \<Rightarrow> bytes" where
  "trailer off = (if log_kBlockSize - off < kHeaderSize then replicate (log_kBlockSize - off) 0 else [])"

definition physical :: "RecordType \<Rightarrow> bytes \<Rightarrow> bytes" where
  "physical t data = record_header InitTypeCrc t data @ data"

lemma fragment_progress:
  assumes "drop (fragment_length (pad_offset off) (length data)) data \<noteq> []"
  shows "2 * length (drop (fragment_length (pad_offset off) (length data)) data) +
      (if log_kBlockSize - (pad_offset off + kHeaderSize + length (take (fragment_length (pad_offset off) (length data)) data))
        = kHeaderSize then 1 else 0)
    < 2 * length data + (if log_kBlockSize - off = kHeaderSize then 1 else 0)"
proof -
  let ?a = "log_kBlockSize - pad_offset off - kHeaderSize"
  have len: "fragment_length (pad_offset off) (length data) = ?a" "?a < length data"
    using assms by (auto simp: fragment_length_def Let_def split: if_splits)
  show ?thesis
  proof (cases "?a = 0")
    case True
    then have "pad_offset off = off" "log_kBlockSize - off = kHeaderSize"
      by (auto simp: pad_offset_def log_kBlockSize_def kHeaderSize_def split: if_splits)
    with True len show ?thesis by (simp add: log_kBlockSize_def kHeaderSize_def)
  next
    case False
    with len(2) have "length (drop ?a data) < length data" by simp
    then have "2 * length (drop ?a data) + 1 < 2 * length data" by linarith
    then show ?thesis unfolding len(1) by (simp only: split: if_split) linarith
  qed
qed

function record_image :: "nat \<Rightarrow> bool \<Rightarrow> bytes \<Rightarrow> bytes \<times> nat" where
  "record_image off beg data =
     (let len = fragment_length (pad_offset off) (length data);
          img = trailer off @ physical (fragment_type beg (length data = len)) (take len data);
          off' = pad_offset off + kHeaderSize + length (take len data)
      in if drop len data = [] then (img, off')
         else (let (img', off'') = record_image off' False (drop len data) in (img @ img', off'')))"
  by auto
termination
  by (relation "measure (\<lambda>(off, _, data). 2 * length data + (if log_kBlockSize - off = kHeaderSize then 1 else 0))")
    (simp, simp only: in_measure prod.case, rule fragment_progress, simp)

declare record_image.simps [simp del]

fun log_image :: "nat \<Rightarrow> bytes list \<Rightarrow> bytes" where
  "log_image off [] = []"
| "log_image off (r # rs) = (let (img, off') = record_image off True r in img @ log_image off' rs)"

lemma length_record_header [simp]: "length (record_header tc t data) = kHeaderSize"
  by (simp add: record_header_def kHeaderSize_def)

lemma length_physical [simp]: "length (physical t data) = kHeaderSize + length data"
  by (simp add: physical_def)

lemma InitTypeCrc_nth: "InitTypeCrc ! unat (RecordType_code t) = crc_value [RecordType_code t]"
  by (cases t) (simp_all add: InitTypeCrc_def kMaxRecordType_def upt_rec del: upt_Suc)

lemma record_header_eq:
  "record_header InitTypeCrc t data = EncodeFixed32 (Mask (crc_value (RecordType_code t # data))) @
     [word_of_nat (length data mod 256), word_of_nat (length data div 256), RecordType_code t]"
  by (simp add: record_header_def InitTypeCrc_nth crc_extend_type)

context reliable_writable
begin

lemma emit_contents:
  assumes "good e" and "lw_dest w = wf" and "lw_type_crc w = InitTypeCrc"
  shows "\<exists>e'. EmitPhysicalRecord t data w e =
      (OK, w\<lparr>lw_block_offset := lw_block_offset w + kHeaderSize + length data\<rparr>, e') \<and>
    good e' \<and> contents e' = contents e @ physical t data"
proof -
  obtain e1 where e1: "file_Append wf (record_header InitTypeCrc t data) e = (OK, e1)" "good e1"
    "contents e1 = contents e @ record_header InitTypeCrc t data"
    using append_contents [OF assms(1)] by blast
  obtain e2 where e2: "file_Append wf data e1 = (OK, e2)" "good e2" "contents e2 = contents e1 @ data"
    using append_contents [OF e1(2)] by blast
  obtain e3 where "file_Flush wf e2 = (OK, e3)" "good e3" "contents e3 = contents e2"
    using flush_same [OF e2(2)] by blast
  with e1 e2 assms(2,3) show ?thesis by (simp add: EmitPhysicalRecord_def physical_def)
qed

lemma switch_contents:
  assumes "good e" and "lw_dest w = wf"
  shows "\<exists>e'. switch_block w e = (w\<lparr>lw_block_offset := pad_offset (lw_block_offset w)\<rparr>, e') \<and> good e' \<and>
    contents e' = contents e @ trailer (lw_block_offset w)"
  using append_contents [OF assms(1), of "replicate (log_kBlockSize - lw_block_offset w) 0"] assms
  by (auto simp: switch_block_def pad_offset_def trailer_def Let_def)

lemma add_record_loop_contents:
  assumes "good e" and "lw_dest w = wf" and "lw_type_crc w = InitTypeCrc"
  shows "\<exists>e'. AddRecord_loop data beg w e =
      (OK, w\<lparr>lw_block_offset := snd (record_image (lw_block_offset w) beg data)\<rparr>, e') \<and>
    good e' \<and> contents e' = contents e @ fst (record_image (lw_block_offset w) beg data)"
  using assms
proof (induction "lw_block_offset w" beg data arbitrary: w e rule: record_image.induct)
  case (1 beg data)
  let ?o = "pad_offset (lw_block_offset w)"
  let ?len = "fragment_length ?o (length data)"
  let ?w1 = "w\<lparr>lw_block_offset := ?o\<rparr>"
  let ?w2 = "w\<lparr>lw_block_offset := ?o + kHeaderSize + length (take ?len data)\<rparr>"
  let ?t = "fragment_type beg (length data = ?len)"
  obtain e1 where e1: "switch_block w e = (?w1, e1)" "good e1" "contents e1 = contents e @ trailer (lw_block_offset w)"
    using switch_contents [OF "1.prems"(1,2)] by blast
  obtain e2 where e2: "EmitPhysicalRecord ?t (take ?len data) ?w1 e1 = (OK, ?w2, e2)"
    "good e2" "contents e2 = contents e1 @ physical ?t (take ?len data)"
    using emit_contents [OF e1(2), of ?w1 ?t "take ?len data"] "1.prems"(2,3) by auto
  show ?case
  proof (cases "drop ?len data = []")
    case True
    with e1 e2 show ?thesis
      unfolding AddRecord_loop.simps [of data beg w e] record_image.simps [of "lw_block_offset w" beg data]
      by simp
  next
    case False
    from "1.hyps" [OF refl refl _ False, of ?w2 e2] "1.prems" e2(2) obtain e3 where
      "AddRecord_loop (drop ?len data) False ?w2 e2 =
        (OK, ?w2\<lparr>lw_block_offset := snd (record_image (lw_block_offset ?w2) False (drop ?len data))\<rparr>, e3)"
      "good e3" "contents e3 = contents e2 @ fst (record_image (lw_block_offset ?w2) False (drop ?len data))"
      by auto
    with False e1 e2 show ?thesis
      unfolding AddRecord_loop.simps [of data beg w e] record_image.simps [of "lw_block_offset w" beg data]
      by (simp add: split_beta Let_def)
  qed
qed

end

text \<open>Adding records one after the other.\<close>

fun AddRecords :: "bytes list \<Rightarrow> 'e Writer \<Rightarrow> 'e \<Rightarrow> Status \<times> 'e Writer \<times> 'e" where
  "AddRecords [] w e = (OK, w, e)"
| "AddRecords (r # rs) w e =
     (case AddRecord r w e of (s, w', e') \<Rightarrow> if ok s then AddRecords rs w' e' else (s, w', e'))"

context reliable_writable
begin

lemma add_records_contents:
  assumes "good e" and "lw_dest w = wf" and "lw_type_crc w = InitTypeCrc"
  shows "\<exists>w' e'. AddRecords rs w e = (OK, w', e') \<and> good e' \<and> contents e' = contents e @ log_image (lw_block_offset w) rs"
  using assms
proof (induction rs arbitrary: w e)
  case (Cons r rs)
  let ?w = "w\<lparr>lw_block_offset := snd (record_image (lw_block_offset w) True r)\<rparr>"
  obtain e1 where e1: "AddRecord r w e = (OK, ?w, e1)" "good e1"
    "contents e1 = contents e @ fst (record_image (lw_block_offset w) True r)"
    using add_record_loop_contents [OF Cons.prems, of r True] by (auto simp: AddRecord_def)
  from Cons.IH [OF e1(2), of ?w] Cons.prems e1 show ?case by (auto simp: split_beta)
qed simp

end

end
