(* ===== verification/LogReader.thy ===== *)
theory LogReader
  imports LogWriter
begin

text \<open>
  The log reader, translated from \<open>db/log_reader.h\<close> and \<open>db/log_reader.cc\<close>. The reporter is the list of the
  calls of its method \<open>Corruption\<close>, and \<open>lr_reporter\<close> says whether there is one. File offsets are 64-bit words,
  whose differences wrap around as in the source.
\<close>

subsection \<open>The reader\<close>

record 'e Reader =
  lr_file :: "'e SequentialFile"
  lr_reporter :: bool
  lr_reports :: "(u64 \<times> Status) list"
  lr_checksum :: bool
  lr_buffer :: bytes
  lr_eof :: bool
  lr_last_record_offset :: u64
  lr_end_of_buffer_offset :: u64
  lr_initial_offset :: u64
  lr_resyncing :: bool

definition Reader_new :: "'e SequentialFile \<Rightarrow> bool \<Rightarrow> bool \<Rightarrow> u64 \<Rightarrow> 'e Reader" where
  "Reader_new file reporter checksum initial_offset =
     \<lparr>lr_file = file, lr_reporter = reporter, lr_reports = [], lr_checksum = checksum, lr_buffer = [], lr_eof = False,
      lr_last_record_offset = 0, lr_end_of_buffer_offset = 0, lr_initial_offset = initial_offset,
      lr_resyncing = (initial_offset > 0)\<rparr>"

definition kEof :: u32 where
  "kEof = word_of_nat kMaxRecordType + 1"

definition kBadRecord :: u32 where
  "kBadRecord = word_of_nat kMaxRecordType + 2"

definition ReportDrop :: "u64 \<Rightarrow> Status \<Rightarrow> 'e Reader \<Rightarrow> 'e Reader" where
  "ReportDrop bytes reason r =
     (if lr_reporter r \<and>
         lr_end_of_buffer_offset r - word_of_nat (length (lr_buffer r)) - bytes \<ge> lr_initial_offset r
      then r\<lparr>lr_reports := lr_reports r @ [(bytes, reason)]\<rparr>
      else r)"

definition ReportCorruption :: "u64 \<Rightarrow> bytes \<Rightarrow> 'e Reader \<Rightarrow> 'e Reader" where
  "ReportCorruption bytes reason r = ReportDrop bytes (Corruption reason []) r"

definition SkipToInitialBlock :: "'e Reader \<Rightarrow> 'e \<Rightarrow> bool \<times> 'e Reader \<times> 'e" where
  "SkipToInitialBlock r e =
     (let offset_in_block = lr_initial_offset r mod word_of_nat log_kBlockSize;
          start = lr_initial_offset r - offset_in_block;
          start = (if unat offset_in_block > log_kBlockSize - 6 then start + word_of_nat log_kBlockSize else start);
          r1 = r\<lparr>lr_end_of_buffer_offset := start\<rparr>
      in if start > 0 then
           (let (skip_status, e1) = seq_Skip (lr_file r) (unat start) e
            in if \<not> ok skip_status then (False, ReportDrop start skip_status r1, e1) else (True, r1, e1))
         else (True, r1, e))"

subsection \<open>Physical records\<close>

text \<open>The body of the loop once a header is in the buffer. The result is the record type, or one of the two special
  values, the argument \<open>result\<close> and the reader. A type byte from 128 on is a negative \<open>char\<close> and becomes a large
  unsigned number.\<close>

definition parse_physical :: "bytes \<Rightarrow> 'e Reader \<Rightarrow> u32 \<times> bytes \<times> 'e Reader" where
  "parse_physical result r =
     (let header = lr_buffer r;
          a = ucast (header ! 4) :: u32;
          b = ucast (header ! 5) :: u32;
          type = signed (header ! 6) :: u32;
          len = unat (a OR push_bit 8 b)
      in if kHeaderSize + len > length (lr_buffer r) then
           (let drop_size = length (lr_buffer r);
                r1 = r\<lparr>lr_buffer := []\<rparr>
            in if \<not> lr_eof r then
                 (kBadRecord, result, ReportCorruption (word_of_nat drop_size) (str ''bad record length'') r1)
               else (kEof, result, r1))
         else if type = 0 \<and> len = 0 then (kBadRecord, result, r\<lparr>lr_buffer := []\<rparr>)
         else if lr_checksum r \<and>
             crc_value (take (1 + len) (drop 6 header)) \<noteq> Unmask (DecodeFixed32 header) then
           (kBadRecord, result,
            ReportCorruption (word_of_nat (length (lr_buffer r))) (str ''checksum mismatch'') (r\<lparr>lr_buffer := []\<rparr>))
         else
           (let r1 = r\<lparr>lr_buffer := drop (kHeaderSize + len) (lr_buffer r)\<rparr>
            in if lr_end_of_buffer_offset r1 - word_of_nat (length (lr_buffer r1)) - word_of_nat kHeaderSize - word_of_nat len
                  < lr_initial_offset r1
               then (kBadRecord, [], r1)
               else (type, take len (drop kHeaderSize header), r1)))"

text \<open>The loop, which turns at most twice: a block that is read either holds a header or was the last one.\<close>

function ReadPhysicalRecord :: "bytes \<Rightarrow> 'e Reader \<Rightarrow> 'e \<Rightarrow> u32 \<times> bytes \<times> 'e Reader \<times> 'e" where
  "ReadPhysicalRecord result r e =
     (if length (lr_buffer r) < kHeaderSize then
        (if \<not> lr_eof r then
           (let (status, data, e1) = seq_Read (lr_file r) log_kBlockSize e;
                r1 = r\<lparr>lr_buffer := data, lr_end_of_buffer_offset := lr_end_of_buffer_offset r + word_of_nat (length data)\<rparr>
            in if \<not> ok status then
                 (kEof, result,
                  (ReportDrop (word_of_nat log_kBlockSize) status (r1\<lparr>lr_buffer := []\<rparr>))\<lparr>lr_eof := True\<rparr>, e1)
               else ReadPhysicalRecord result (if length data < log_kBlockSize then r1\<lparr>lr_eof := True\<rparr> else r1) e1)
         else (kEof, result, r\<lparr>lr_buffer := []\<rparr>, e))
      else (case parse_physical result r of (type, result', r') \<Rightarrow> (type, result', r', e)))"
  by auto
termination
  by (relation "measure (\<lambda>(_, r, _). (if lr_eof r then 0 else 1) + (if length (lr_buffer r) < kHeaderSize then 1 else 0))")
    (auto simp: log_kBlockSize_def kHeaderSize_def)

declare ReadPhysicalRecord.simps [simp del]

subsection \<open>Logical records\<close>

text \<open>What the body of the loop of \<open>ReadRecord\<close> does with a physical record: it returns, with the record or without
  one, or continues with new values of \<open>in_fragmented_record\<close>, \<open>scratch\<close> and \<open>prospective_record_offset\<close>.\<close>

datatype 'e record_step = Return "bytes option" "'e Reader" | Continue bool bytes u64 "'e Reader"

definition record_switch :: "u32 \<Rightarrow> bytes \<Rightarrow> u64 \<Rightarrow> bool \<Rightarrow> bytes \<Rightarrow> u64 \<Rightarrow> 'e Reader \<Rightarrow> 'e record_step" where
  "record_switch record_type fragment physical_offset in_frag scratch prospective r =
     (let size = (\<lambda>s :: bytes. word_of_nat (length s) :: u64)
      in if record_type = 1 then
           (let r1 = (if in_frag \<and> scratch \<noteq> [] then ReportCorruption (size scratch) (str ''partial record without end(1)'') r
                      else r)
            in Return (Some fragment) (r1\<lparr>lr_last_record_offset := physical_offset\<rparr>))
         else if record_type = 2 then
           (let r1 = (if in_frag \<and> scratch \<noteq> [] then ReportCorruption (size scratch) (str ''partial record without end(2)'') r
                      else r)
            in Continue True fragment physical_offset r1)
         else if record_type = 3 then
           (if \<not> in_frag then
              Continue in_frag scratch prospective
                (ReportCorruption (size fragment) (str ''missing start of fragmented record(1)'') r)
            else Continue in_frag (scratch @ fragment) prospective r)
         else if record_type = 4 then
           (if \<not> in_frag then
              Continue in_frag scratch prospective
                (ReportCorruption (size fragment) (str ''missing start of fragmented record(2)'') r)
            else Return (Some (scratch @ fragment)) (r\<lparr>lr_last_record_offset := prospective\<rparr>))
         else if record_type = kEof then Return None r
         else if record_type = kBadRecord then
           (if in_frag then
              Continue False [] prospective (ReportCorruption (size scratch) (str ''error in middle of record'') r)
            else Continue in_frag scratch prospective r)
         else
           Continue False [] prospective
             (ReportCorruption (word_of_nat (length fragment + (if in_frag then length scratch else 0)))
               (str ''unknown record type '' @ decimal (unat record_type)) r))"

definition record_body :: "u32 \<Rightarrow> bytes \<Rightarrow> bool \<Rightarrow> bytes \<Rightarrow> u64 \<Rightarrow> 'e Reader \<Rightarrow> 'e record_step" where
  "record_body record_type fragment in_frag scratch prospective r =
     (let physical_offset = lr_end_of_buffer_offset r - word_of_nat (length (lr_buffer r)) - word_of_nat kHeaderSize -
            word_of_nat (length fragment)
      in if lr_resyncing r then
           (if record_type = 3 then Continue in_frag scratch prospective r
            else if record_type = 4 then Continue in_frag scratch prospective (r\<lparr>lr_resyncing := False\<rparr>)
            else record_switch record_type fragment physical_offset in_frag scratch prospective (r\<lparr>lr_resyncing := False\<rparr>))
         else record_switch record_type fragment physical_offset in_frag scratch prospective r)"

partial_function (option) ReadRecord_loop ::
    "bool \<Rightarrow> bytes \<Rightarrow> u64 \<Rightarrow> bytes \<Rightarrow> 'e Reader \<Rightarrow> 'e \<Rightarrow> (bytes option \<times> 'e Reader \<times> 'e) option" where
  "ReadRecord_loop in_frag scratch prospective fragment r e =
     (case ReadPhysicalRecord fragment r e of
        (record_type, fragment', r1, e1) \<Rightarrow>
          (case record_body record_type fragment' in_frag scratch prospective r1 of
             Return record r2 \<Rightarrow> Some (record, r2, e1)
           | Continue in_frag' scratch' prospective' r2 \<Rightarrow>
               ReadRecord_loop in_frag' scratch' prospective' fragment' r2 e1))"

text \<open>The result is the record, or \<^term>\<open>None\<close> for false; the outer option is none when the loop never ends.\<close>

definition ReadRecord :: "'e Reader \<Rightarrow> 'e \<Rightarrow> (bytes option \<times> 'e Reader \<times> 'e) option" where
  "ReadRecord r e =
     (if lr_last_record_offset r < lr_initial_offset r then
        (case SkipToInitialBlock r e of
           (success, r1, e1) \<Rightarrow> if \<not> success then Some (None, r1, e1) else ReadRecord_loop False [] 0 [] r1 e1)
      else ReadRecord_loop False [] 0 [] r e)"

definition LastRecordOffset :: "'e Reader \<Rightarrow> u64" where
  "LastRecordOffset r = lr_last_record_offset r"

text \<open>Reading records until there are no more.\<close>

partial_function (option) ReadRecords :: "'e Reader \<Rightarrow> 'e \<Rightarrow> (bytes list \<times> 'e Reader \<times> 'e) option" where
  "ReadRecords r e =
     Option.bind (ReadRecord r e) (\<lambda>(record, r1, e1).
       case record of
         None \<Rightarrow> Some ([], r1, e1)
       | Some data \<Rightarrow> Option.bind (ReadRecords r1 e1) (\<lambda>(rs, r2, e2). Some (data # rs, r2, e2)))"

subsection \<open>Reading what the writer wrote\<close>

text \<open>The records that lie whole in the first \<open>n\<close> bytes of a log.\<close>

fun complete_records :: "nat \<Rightarrow> nat \<Rightarrow> bytes list \<Rightarrow> bytes list" where
  "complete_records n off [] = []"
| "complete_records n off (r # rs) =
     (case record_image off True r of (img, off') \<Rightarrow>
        if length img \<le> n then r # complete_records (n - length img) off' rs else [])"

lemma complete_records_all: "length (log_image off rs) \<le> n \<Longrightarrow> complete_records n off rs = rs"
  by (induction rs arbitrary: n off) (auto simp: split_beta Let_def)

lemma complete_records_maximal:
  "\<exists>k. complete_records n off rs = take k rs \<and> k \<le> length rs \<and> length (log_image off (take k rs)) \<le> n \<and>
     (k < length rs \<longrightarrow> n < length (log_image off (take (Suc k) rs)))"
proof (induction rs arbitrary: n off)
  case (Cons r rs)
  obtain img off' where img: "record_image off True r = (img, off')" by fastforce
  show ?case
  proof (cases "length img \<le> n")
    case True
    from Cons [of "n - length img" off'] obtain k where
      "complete_records (n - length img) off' rs = take k rs" "k \<le> length rs" "length (log_image off' (take k rs)) \<le> n - length img"
      "k < length rs \<longrightarrow> n - length img < length (log_image off' (take (Suc k) rs))" by blast
    with True img show ?thesis by (intro exI [of _ "Suc k"]) auto
  next
    case False
    with img show ?thesis by (intro exI [of _ 0]) auto
  qed
qed simp

text \<open>The reader stands at offset \<open>off\<close> of a block, with the bytes \<open>S\<close> of the log before it: its buffer holds the
  rest of the block, or all that is left of the file.\<close>

definition at_pos :: "bytes \<Rightarrow> 'e Reader \<Rightarrow> nat \<Rightarrow> bytes \<Rightarrow> bool" where
  "at_pos rest r off S \<longleftrightarrow> lr_buffer r @ rest = S \<and> off \<le> log_kBlockSize \<and>
     (if lr_eof r then rest = [] \<and> length (lr_buffer r) \<le> log_kBlockSize - off
      else length (lr_buffer r) = log_kBlockSize - off) \<and>
     lr_initial_offset r = 0 \<and> \<not> lr_resyncing r"

lemma header_length:
  assumes "n < 65536"
  shows "unat ((ucast (word_of_nat (n mod 256) :: byte) :: u32) OR push_bit 8 (ucast (word_of_nat (n div 256) :: byte))) = n"
proof -
  have "unat (ucast (word_of_nat (n mod 256) :: byte) :: u32) = take_bit 8 n"
    by (simp add: unsigned_ucast_eq unat_of_nat take_bit_nat_eq_self take_bit_eq_mod)
  moreover have "unat (ucast (word_of_nat (n div 256) :: byte) :: u32) = drop_bit 8 n"
    using assms by (simp add: unsigned_ucast_eq unat_of_nat take_bit_nat_eq_self drop_bit_eq_div)
  moreover have "push_bit 8 (drop_bit 8 n) < 2 ^ 32"
    using assms by (simp add: push_bit_eq_mult drop_bit_eq_div)
  ultimately have "unat (ucast (word_of_nat (n mod 256) :: byte) :: u32) = take_bit 8 n"
    "unat (push_bit 8 (ucast (word_of_nat (n div 256) :: byte)) :: u32) = push_bit 8 (drop_bit 8 n)"
    using unsigned_push_bit_eq [of 8 "ucast (word_of_nat (n div 256) :: byte) :: u32", where 'a = nat]
    by (simp_all add: take_bit_nat_eq_self)
  moreover have "bit (take_bit 8 n OR push_bit 8 (drop_bit 8 n)) m = bit n m" for m
    by (cases "m < 8") (simp_all add: bit_simps)
  then have "take_bit 8 n OR push_bit 8 (drop_bit 8 n) = n"
    by (intro bit_eqI) simp
  ultimately show ?thesis by (simp add: unsigned_or_eq)
qed

lemma signed_RecordType [simp]:
  "(signed (RecordType_code t) :: u32) = ucast (RecordType_code t)"
  by (cases t) simp_all
text \<open>A complete physical record in the buffer is returned.\<close>

lemma parse_complete:
  assumes buf: "lr_buffer r = physical t p @ X" and t: "t \<noteq> kZeroType" and p: "length p \<le> log_kBlockSize"
    and init: "lr_initial_offset r = 0"
  shows "parse_physical res r = (ucast (RecordType_code t), p, r\<lparr>lr_buffer := X\<rparr>)"
proof -
  let ?crc = "EncodeFixed32 (Mask (crc_value (RecordType_code t # p)))"
  have lay: "lr_buffer r = ?crc @ [word_of_nat (length p mod 256), word_of_nat (length p div 256), RecordType_code t] @ p @ X"
    unfolding buf physical_def record_header_eq by simp
  have n: "lr_buffer r ! 4 = word_of_nat (length p mod 256)" "lr_buffer r ! 5 = word_of_nat (length p div 256)"
    "lr_buffer r ! 6 = RecordType_code t"
    unfolding lay by (simp_all add: nth_append)
  have len: "unat ((ucast (lr_buffer r ! 4) :: u32) OR push_bit 8 (ucast (lr_buffer r ! 5))) = length p"
    unfolding n using p by (intro header_length) (simp add: log_kBlockSize_def)
  have "DecodeFixed32 (lr_buffer r) = Mask (crc_value (RecordType_code t # p))"
    unfolding lay by simp
  moreover have "take (1 + length p) (drop 6 (lr_buffer r)) = RecordType_code t # p"
    unfolding lay by simp
  moreover have "take (length p) (drop kHeaderSize (lr_buffer r)) = p"
    unfolding lay by (simp add: kHeaderSize_def)
  moreover have "drop (kHeaderSize + length p) (lr_buffer r) = X"
    unfolding buf length_physical [symmetric, of p t] by simp
  moreover have "kHeaderSize + length p \<le> length (lr_buffer r)" unfolding buf by simp
  moreover have "(ucast (RecordType_code t) :: u32) \<noteq> 0" using t by (cases t) simp_all
  ultimately show ?thesis
    unfolding parse_physical_def Let_def len n(3) using init by simp
qed

text \<open>An incomplete one at the end of the file is taken for the end of the log.\<close>

lemma parse_truncated:
  assumes buf: "lr_buffer r = take n (physical t p)" and n: "kHeaderSize \<le> n" "n < kHeaderSize + length p"
    and p: "length p \<le> log_kBlockSize" and eof: "lr_eof r"
  shows "parse_physical res r = (kEof, res, r\<lparr>lr_buffer := []\<rparr>)"
proof -
  have "lr_buffer r = record_header InitTypeCrc t p @ take (n - kHeaderSize) p"
    using n(1) unfolding buf physical_def by simp
  then have lay: "lr_buffer r = EncodeFixed32 (Mask (crc_value (RecordType_code t # p))) @
      [word_of_nat (length p mod 256), word_of_nat (length p div 256), RecordType_code t] @ take (n - kHeaderSize) p"
    unfolding record_header_eq by simp
  have nth: "lr_buffer r ! 4 = word_of_nat (length p mod 256)" "lr_buffer r ! 5 = word_of_nat (length p div 256)"
    unfolding lay by (simp_all add: nth_append)
  have len: "unat ((ucast (lr_buffer r ! 4) :: u32) OR push_bit 8 (ucast (lr_buffer r ! 5))) = length p"
    unfolding nth using p by (intro header_length) (simp add: log_kBlockSize_def)
  have "length (lr_buffer r) < kHeaderSize + length p" using n unfolding buf by simp
  then show ?thesis unfolding parse_physical_def Let_def len using eof by simp
qed

lemma ReadPhysicalRecord_ready:
  "kHeaderSize \<le> length (lr_buffer r) \<Longrightarrow>
    ReadPhysicalRecord res r e = (case parse_physical res r of (t, res', r') \<Rightarrow> (t, res', r', e))"
  by (simp add: ReadPhysicalRecord.simps [of res r e])

lemma ReadPhysicalRecord_eof:
  "length (lr_buffer r) < kHeaderSize \<Longrightarrow> lr_eof r \<Longrightarrow> ReadPhysicalRecord res r e = (kEof, res, r\<lparr>lr_buffer := []\<rparr>, e)"
  by (simp add: ReadPhysicalRecord.simps [of res r e])

lemma loop_step:
  "ReadPhysicalRecord frag r e = (t, frag', r1, e1) \<Longrightarrow> \<not> lr_resyncing r1 \<Longrightarrow>
    ReadRecord_loop in_frag scratch po frag r e =
      (case record_switch t frag' (lr_end_of_buffer_offset r1 - word_of_nat (length (lr_buffer r1)) - word_of_nat kHeaderSize -
          word_of_nat (length frag')) in_frag scratch po r1 of
         Return rec r2 \<Rightarrow> Some (rec, r2, e1)
       | Continue in_frag' scratch' po' r2 \<Rightarrow> ReadRecord_loop in_frag' scratch' po' frag' r2 e1)"
  by (simp add: ReadRecord_loop.simps [of in_frag scratch po frag r e] record_body_def)

lemma fragment_fits:
  "off \<le> log_kBlockSize \<Longrightarrow>
    pad_offset off + kHeaderSize + length (take (fragment_length (pad_offset off) (length data)) data) \<le> log_kBlockSize"
  by (auto simp: pad_offset_def fragment_length_def Let_def log_kBlockSize_def kHeaderSize_def)

lemma fragment_type_not_zero: "fragment_type beg fin \<noteq> kZeroType"
  by (simp add: fragment_type_def)

lemma fragment_type_simps [simp]:
  "fragment_type True True = kFullType" "fragment_type True False = kFirstType"
  "fragment_type False True = kLastType" "fragment_type False False = kMiddleType"
  by (simp_all add: fragment_type_def)

context reliable_file
begin

text \<open>Filling the buffer: the trailer of a block is dropped and the next block read.\<close>

lemma fetch:
  assumes good: "good e" and fl: "lr_file r = sf" and pos: "at_pos (remaining e) r off (trailer off @ T)"
    and T: "kHeaderSize \<le> length T"
  shows "\<exists>r' e'. ReadPhysicalRecord res r e = (case parse_physical res r' of (t, res', r'') \<Rightarrow> (t, res', r'', e')) \<and>
    good e' \<and> at_pos (remaining e') r' (pad_offset off) T \<and> kHeaderSize \<le> length (lr_buffer r') \<and>
    lr_reports r' = lr_reports r \<and> lr_file r' = sf"
proof (cases "log_kBlockSize - off < kHeaderSize")
  case False
  with pos T have "kHeaderSize \<le> length (lr_buffer r)"
    by (auto simp: at_pos_def trailer_def split: if_splits)
  with False good fl pos show ?thesis
    by (intro exI [of _ r] exI [of _ e]) (simp add: ReadPhysicalRecord.simps [of res r e] trailer_def pad_offset_def)
next
  case True
  have eof: "\<not> lr_eof r" using pos True T by (auto simp: at_pos_def trailer_def)
  with pos True have buf: "length (lr_buffer r) < kHeaderSize" and rem: "remaining e = T"
    by (auto simp: at_pos_def trailer_def append_eq_append_conv)
  obtain e' where rd: "seq_Read sf log_kBlockSize e = (OK, take log_kBlockSize T, e')"
    and e': "good e'" "remaining e' = drop log_kBlockSize T"
    using read_take [OF good] rem by metis
  let ?r1 = "r\<lparr>lr_buffer := take log_kBlockSize T,
      lr_end_of_buffer_offset := lr_end_of_buffer_offset r + word_of_nat (length (take log_kBlockSize T))\<rparr>"
  let ?r = "if length (take log_kBlockSize T) < log_kBlockSize then ?r1\<lparr>lr_eof := True\<rparr> else ?r1"
  have big: "kHeaderSize \<le> length (lr_buffer ?r)" using T by (simp add: log_kBlockSize_def kHeaderSize_def)
  have "ReadPhysicalRecord res r e = ReadPhysicalRecord res ?r e'"
    using buf eof fl rd by (simp add: ReadPhysicalRecord.simps [of res r e] Let_def)
  also have "\<dots> = (case parse_physical res ?r of (t, res', r'') \<Rightarrow> (t, res', r'', e'))"
    using big by (rule ReadPhysicalRecord_ready)
  finally have "ReadPhysicalRecord res r e = (case parse_physical res ?r of (t, res', r'') \<Rightarrow> (t, res', r'', e'))" .
  moreover have "at_pos (remaining e') ?r (pad_offset off) T"
    using pos True eof e' unfolding at_pos_def pad_offset_def by auto
  moreover have "lr_reports ?r = lr_reports r" "lr_file ?r = sf" using fl by simp_all
  ultimately show ?thesis using e'(1) big by blast
qed

lemma read_complete:
  assumes good: "good e" and fl: "lr_file r = sf"
    and pos: "at_pos (remaining e) r off (trailer off @ physical t p @ S)"
    and t: "t \<noteq> kZeroType" and p: "pad_offset off + kHeaderSize + length p \<le> log_kBlockSize"
  shows "\<exists>r' e'. ReadPhysicalRecord res r e = (ucast (RecordType_code t), p, r', e') \<and> good e' \<and>
    at_pos (remaining e') r' (pad_offset off + kHeaderSize + length p) S \<and> lr_reports r' = lr_reports r \<and> lr_file r' = sf"
proof -
  obtain r1 e1 where r1: "ReadPhysicalRecord res r e = (case parse_physical res r1 of (t, res', r'') \<Rightarrow> (t, res', r'', e1))"
    "good e1" "at_pos (remaining e1) r1 (pad_offset off) (physical t p @ S)" "lr_reports r1 = lr_reports r" "lr_file r1 = sf"
    using fetch [OF good fl pos, of res] by auto
  have "kHeaderSize + length p \<le> length (lr_buffer r1)"
    using r1(3) p by (auto simp: at_pos_def split: if_splits)
  then obtain Y X where "lr_buffer r1 = Y @ X" "length Y = length (physical t p)"
    using append_take_drop_id [of "kHeaderSize + length p" "lr_buffer r1"] by (metis length_take length_physical min.absorb2)
  moreover have "lr_buffer r1 @ remaining e1 = physical t p @ S" using r1(3) by (simp add: at_pos_def)
  ultimately have X: "lr_buffer r1 = physical t p @ X" "X @ remaining e1 = S"
    by (metis append.assoc append_eq_append_conv)+
  have "parse_physical res r1 = (ucast (RecordType_code t), p, r1\<lparr>lr_buffer := X\<rparr>)"
    using parse_complete [OF X(1) t] p r1(3) by (simp add: at_pos_def)
  moreover have "at_pos (remaining e1) (r1\<lparr>lr_buffer := X\<rparr>) (pad_offset off + kHeaderSize + length p) S"
    using r1(3) X p by (auto simp: at_pos_def split: if_splits)
  ultimately show ?thesis using r1 by auto
qed

lemma read_truncated:
  assumes good: "good e" and fl: "lr_file r = sf"
    and pos: "at_pos (remaining e) r off (take n (trailer off @ physical t p))"
    and n: "n < length (trailer off @ physical t p)" and p: "pad_offset off + kHeaderSize + length p \<le> log_kBlockSize"
  shows "\<exists>r' e'. ReadPhysicalRecord res r e = (kEof, res, r', e') \<and> lr_reports r' = lr_reports r \<and> good e' \<and>
    \<not> lr_resyncing r'"
proof -
  have pos': "\<not> lr_resyncing r" using pos by (simp add: at_pos_def)
  show ?thesis
  proof (cases "n < length (trailer off) + kHeaderSize")
    case False
    then have "take n (trailer off @ physical t p) = trailer off @ take (n - length (trailer off)) (physical t p)" by simp
    then have pos2: "at_pos (remaining e) r off (trailer off @ take (n - length (trailer off)) (physical t p))"
      using pos by simp
    have "kHeaderSize \<le> length (take (n - length (trailer off)) (physical t p))" using False n by simp
    from fetch [OF good fl pos2 this, of res] obtain r1 e1 where r1: "ReadPhysicalRecord res r e = (case parse_physical res r1 of (t, res', r'') \<Rightarrow> (t, res', r'', e1))"
      "good e1" "at_pos (remaining e1) r1 (pad_offset off) (take (n - length (trailer off)) (physical t p))"
      "lr_reports r1 = lr_reports r"
      by blast
    have sum: "lr_buffer r1 @ remaining e1 = take (n - length (trailer off)) (physical t p)"
      using r1(3) by (simp add: at_pos_def)
    have "length (lr_buffer r1) \<le> n - length (trailer off)" using arg_cong [OF sum, of length] by simp
    then have "lr_eof r1" using r1(3) n p False by (auto simp: at_pos_def split: if_splits)
    moreover from this sum r1(3) have "lr_buffer r1 = take (n - length (trailer off)) (physical t p)"
      by (simp add: at_pos_def)
    ultimately have "parse_physical res r1 = (kEof, res, r1\<lparr>lr_buffer := []\<rparr>)"
      using False n p by (intro parse_truncated [of r1 "n - length (trailer off)" t p]) auto
    with r1 show ?thesis by (auto simp: at_pos_def)
  next
    case True
    let ?S = "take n (trailer off @ physical t p)"
    show ?thesis
    proof (cases "lr_eof r")
      case eof: True
      then have "lr_buffer r = ?S" "length ?S \<le> log_kBlockSize - off" using pos by (auto simp: at_pos_def)
      with True have "length (lr_buffer r) < kHeaderSize" using n by (auto simp: trailer_def split: if_splits)
      with eof ReadPhysicalRecord_eof [of r res e] good pos' show ?thesis by auto
    next
      case False
      have "length (lr_buffer r) \<le> length ?S" using pos by (auto simp: at_pos_def dest: arg_cong [of _ _ length])
      with False pos True have sw: "log_kBlockSize - off < kHeaderSize"
        using p n by (auto simp: at_pos_def trailer_def pad_offset_def split: if_splits)
      with False pos have buf: "length (lr_buffer r) = length (trailer off)" by (simp add: at_pos_def trailer_def)
      have "lr_buffer r @ remaining e = ?S" using pos by (simp add: at_pos_def)
      then have "length (lr_buffer r @ remaining e) < length (trailer off) + kHeaderSize" using True n by simp
      then have short: "length (remaining e) < kHeaderSize" using buf by simp
      obtain e' where rd: "seq_Read sf log_kBlockSize e = (OK, remaining e, e')" "good e'"
        using read_take [OF good, of log_kBlockSize] short by (auto simp: log_kBlockSize_def kHeaderSize_def)
      let ?r = "r\<lparr>lr_buffer := remaining e,
        lr_end_of_buffer_offset := lr_end_of_buffer_offset r + word_of_nat (length (remaining e)), lr_eof := True\<rparr>"
      have "ReadPhysicalRecord res r e = ReadPhysicalRecord res ?r e'"
        using buf sw False fl rd short
        by (simp add: ReadPhysicalRecord.simps [of res r e] Let_def trailer_def log_kBlockSize_def kHeaderSize_def)
      with ReadPhysicalRecord_eof [of ?r res e'] short rd(2) pos' show ?thesis by auto
    qed
  qed
qed

lemma loop_record:
  assumes "good e" and "lr_file r = sf" and "at_pos (remaining e) r off (fst (record_image off beg data) @ S)"
  shows "\<exists>r' e'. ReadRecord_loop (\<not> beg) scratch po frag r e =
      Some (Some ((if beg then [] else scratch) @ data), r', e') \<and> good e' \<and> lr_file r' = sf \<and>
    at_pos (remaining e') r' (snd (record_image off beg data)) S \<and> lr_reports r' = lr_reports r"
  using assms
proof (induction off beg data arbitrary: scratch po frag r e rule: record_image.induct)
  case (1 off beg data)
  let ?len = "fragment_length (pad_offset off) (length data)"
  let ?off = "pad_offset off + kHeaderSize + length (take ?len data)"
  let ?t = "fragment_type beg (length data = ?len)"
  let ?S = "(if drop ?len data = [] then [] else fst (record_image ?off False (drop ?len data))) @ S"
  have fin: "length data = ?len \<longleftrightarrow> drop ?len data = []"
    by (auto simp: fragment_length_def Let_def)
  have off: "off \<le> log_kBlockSize" using "1.prems"(3) by (simp add: at_pos_def)
  have "at_pos (remaining e) r off (trailer off @ physical ?t (take ?len data) @ ?S)"
    using "1.prems"(3) by (simp add: record_image.simps [of off beg data] Let_def split_beta split: if_splits)
  from read_complete [OF "1.prems"(1,2) this fragment_type_not_zero fragment_fits [OF off], of frag]
  obtain r1 e1 where r1: "ReadPhysicalRecord frag r e = (ucast (RecordType_code ?t), take ?len data, r1, e1)"
    "good e1" "at_pos (remaining e1) r1 ?off ?S" "lr_reports r1 = lr_reports r" "lr_file r1 = sf"
    by blast
  then have rs: "\<not> lr_resyncing r1" by (simp add: at_pos_def)
  have at_last: "at_pos rest (r1\<lparr>lr_last_record_offset := x\<rparr>) o' S' = at_pos rest r1 o' S'" for rest x o' S'
    by (simp add: at_pos_def)
  show ?case
  proof (cases "drop ?len data = []")
    case True
    with fin have "length data = ?len" by simp
    moreover have "snd (record_image off beg data) = ?off"
      using True by (simp add: record_image.simps [of off beg data] Let_def)
    ultimately show ?thesis
      unfolding loop_step [OF r1(1) rs] using r1(2-5) True
      by (cases beg) (simp_all add: record_switch_def Let_def at_last)
  next
    case False
    with fin have nf: "length data \<noteq> ?len" by simp
    have S: "?S = fst (record_image ?off False (drop ?len data)) @ S" using False by simp
    let ?sc = "(if beg then [] else scratch) @ take ?len data"
    let ?po = "if beg then lr_end_of_buffer_offset r1 - word_of_nat (length (lr_buffer r1)) - word_of_nat kHeaderSize -
      word_of_nat (length (take ?len data)) else po"
    have "ReadRecord_loop (\<not> beg) scratch po frag r e = ReadRecord_loop True ?sc ?po (take ?len data) r1 e1"
      unfolding loop_step [OF r1(1) rs] using nf by (cases beg) (simp_all add: record_switch_def Let_def)
    moreover have "snd (record_image off beg data) = snd (record_image ?off False (drop ?len data))"
      using False by (simp add: record_image.simps [of off beg data] Let_def split_beta)
    moreover have "?sc @ drop ?len data = (if beg then [] else scratch) @ data" by simp
    ultimately show ?thesis
      using "1.IH" [OF refl refl refl False r1(2,5), of ?sc ?po "take ?len data"] r1(3,4) unfolding S
      by (metis (no_types, lifting))
  qed
qed

lemma loop_truncated:
  assumes "good e" and "lr_file r = sf" and "at_pos (remaining e) r off (take n (fst (record_image off beg data)))"
    and "n < length (fst (record_image off beg data))"
  shows "\<exists>r' e'. ReadRecord_loop (\<not> beg) scratch po frag r e = Some (None, r', e') \<and> lr_reports r' = lr_reports r"
  using assms
proof (induction off beg data arbitrary: n scratch po frag r e rule: record_image.induct)
  case (1 off beg data)
  let ?len = "fragment_length (pad_offset off) (length data)"
  let ?off = "pad_offset off + kHeaderSize + length (take ?len data)"
  let ?t = "fragment_type beg (length data = ?len)"
  let ?img = "trailer off @ physical ?t (take ?len data)"
  let ?rest = "if drop ?len data = [] then [] else fst (record_image ?off False (drop ?len data))"
  have fin: "length data = ?len \<longleftrightarrow> drop ?len data = []"
    by (auto simp: fragment_length_def Let_def)
  have off: "off \<le> log_kBlockSize" using "1.prems"(3) by (simp add: at_pos_def)
  have img: "fst (record_image off beg data) = ?img @ ?rest"
    by (simp add: record_image.simps [of off beg data] Let_def split_beta)
  show ?case
  proof (cases "n < length ?img")
    case True
    with "1.prems"(3) have "at_pos (remaining e) r off (take n ?img)" unfolding img by simp
    from read_truncated [OF "1.prems"(1,2) this True fragment_fits [OF off], of frag]
    show ?thesis
      by (auto simp: loop_step record_switch_def Let_def kEof_def kMaxRecordType_def)
  next
    case False
    then have dr: "drop ?len data \<noteq> []" using "1.prems"(4) unfolding img by auto
    with fin have nf: "length data \<noteq> ?len" by simp
    let ?n = "n - length ?img" and ?img2 = "fst (record_image ?off False (drop ?len data))"
    have "at_pos (remaining e) r off (trailer off @ physical ?t (take ?len data) @ take ?n ?img2)"
      using "1.prems"(3) False dr unfolding img by simp
    from read_complete [OF "1.prems"(1,2) this fragment_type_not_zero fragment_fits [OF off], of frag]
    obtain r1 e1 where r1: "ReadPhysicalRecord frag r e = (ucast (RecordType_code ?t), take ?len data, r1, e1)"
      "good e1" "at_pos (remaining e1) r1 ?off (take ?n ?img2)" "lr_reports r1 = lr_reports r" "lr_file r1 = sf"
      by blast
    then have rs: "\<not> lr_resyncing r1" by (simp add: at_pos_def)
    have "\<exists>sc po'. ReadRecord_loop (\<not> beg) scratch po frag r e = ReadRecord_loop True sc po' (take ?len data) r1 e1"
      unfolding loop_step [OF r1(1) rs] using nf by (cases beg) (auto simp: record_switch_def Let_def)
    moreover have "?n < length ?img2" using "1.prems"(4) False dr unfolding img by simp
    ultimately show ?thesis
      using "1.IH" [OF refl refl refl dr r1(2,5,3)] r1(4) by (metis (full_types))
  qed
qed

lemma read_records:
  assumes "good e" and "lr_file r = sf" and "at_pos (remaining e) r off (take n (log_image off rs))"
  shows "\<exists>r' e'. ReadRecords r e = Some (complete_records n off rs, r', e') \<and> lr_reports r' = lr_reports r"
  using assms
proof (induction rs arbitrary: n off r e)
  case Nil
  have "0 < length (fst (record_image off True []))"
    by (simp add: record_image.simps [of off True "[]"] kHeaderSize_def)
  with loop_truncated [OF Nil(1,2), of off 0 True "[]" "[]" 0 "[]"] Nil(3)
  obtain r' e' where "ReadRecord_loop False [] 0 [] r e = Some (None, r', e')" "lr_reports r' = lr_reports r" by auto
  with Nil(3) show ?case by (simp add: ReadRecords.simps [of r e] ReadRecord_def at_pos_def)
next
  case (Cons data rs)
  let ?img = "fst (record_image off True data)" and ?off = "snd (record_image off True data)"
  have init: "\<not> lr_last_record_offset r < lr_initial_offset r" using Cons.prems(3) by (simp add: at_pos_def)
  show ?case
  proof (cases "length ?img \<le> n")
    case True
    with Cons.prems(3) have "at_pos (remaining e) r off (?img @ take (n - length ?img) (log_image ?off rs))"
      by (simp add: split_beta Let_def)
    from loop_record [OF Cons.prems(1,2) this, of "[]" 0 "[]"] obtain r1 e1 where
      "ReadRecord_loop False [] 0 [] r e = Some (Some data, r1, e1)" and r1: "good e1" "lr_file r1 = sf"
      "at_pos (remaining e1) r1 ?off (take (n - length ?img) (log_image ?off rs))" "lr_reports r1 = lr_reports r"
      by auto
    with Cons.IH [OF r1(1-3)] init True show ?thesis
      by (auto simp: ReadRecords.simps [of r e] ReadRecord_def split_beta)
  next
    case False
    with Cons.prems(3) have "at_pos (remaining e) r off (take n ?img)" by (simp add: split_beta Let_def)
    from loop_truncated [OF Cons.prems(1,2) this, of "[]" 0 "[]"] False obtain r1 e1 where
      "ReadRecord_loop False [] 0 [] r e = Some (None, r1, e1)" "lr_reports r1 = lr_reports r" by auto
    with init False show ?thesis
      by (auto simp: ReadRecords.simps [of r e] ReadRecord_def split_beta)
  qed
qed

lemma read_log:
  assumes "good e" and "remaining e = take n (log_image 0 rs)"
  shows "\<exists>r' e'. ReadRecords (Reader_new sf reporter checksum 0) e = Some (complete_records n 0 rs, r', e') \<and> lr_reports r' = []"
proof -
  have "log_image log_kBlockSize rs = log_image 0 rs \<and> complete_records n log_kBlockSize rs = complete_records n 0 rs"
  proof (cases rs)
    case (Cons r rs')
    have "pad_offset log_kBlockSize = pad_offset 0" "trailer log_kBlockSize = trailer 0"
      by (simp_all add: pad_offset_def trailer_def kHeaderSize_def log_kBlockSize_def)
    then have "record_image log_kBlockSize True r = record_image 0 True r"
      unfolding record_image.simps [of log_kBlockSize True r] record_image.simps [of 0 True r] by simp
    with Cons show ?thesis by simp
  qed simp
  moreover have "at_pos (remaining e) (Reader_new sf reporter checksum 0) log_kBlockSize (take n (log_image 0 rs))"
    using assms(2) by (simp add: at_pos_def Reader_new_def)
  ultimately show ?thesis
    using read_records [OF assms(1), of "Reader_new sf reporter checksum 0" log_kBlockSize n rs] by (auto simp: Reader_new_def)
qed

end

subsection \<open>Termination on any file\<close>

lemma ReportDrop_simps [simp]:
  "lr_buffer (ReportDrop b s r) = lr_buffer r" "lr_file (ReportDrop b s r) = lr_file r" "lr_eof (ReportDrop b s r) = lr_eof r"
  "lr_buffer (ReportCorruption b m r) = lr_buffer r" "lr_file (ReportCorruption b m r) = lr_file r"
  by (simp_all add: ReportDrop_def ReportCorruption_def)

lemma parse_progress:
  assumes "parse_physical res r = (t, res', r')" and "kHeaderSize \<le> length (lr_buffer r)"
  shows "length (lr_buffer r') < length (lr_buffer r) \<and> lr_file r' = lr_file r"
  using assms by (auto simp: parse_physical_def Let_def kHeaderSize_def split: if_splits)

lemma record_body_eof: "\<exists>r'. record_body kEof frag in_frag scratch po r = Return None r'"
  by (auto simp: record_body_def record_switch_def Let_def kEof_def kMaxRecordType_def)

lemma record_body_buffer:
  "record_body t frag in_frag scratch po r = Continue a b c r' \<Longrightarrow> lr_buffer r' = lr_buffer r \<and> lr_file r' = lr_file r"
  by (auto simp: record_body_def record_switch_def Let_def split: if_splits)

context sequential_file
begin

lemma physical_progress_ready:
  assumes "good e" and "lr_file r = sf" and "ReadPhysicalRecord res r e = (t, res', r', e')"
    and "kHeaderSize \<le> length (lr_buffer r) \<or> lr_eof r"
  shows "good e' \<and> lr_file r' = sf \<and>
    (t \<noteq> kEof \<longrightarrow> length (lr_buffer r') + length (remaining e') < length (lr_buffer r) + length (remaining e))"
proof (cases "length (lr_buffer r) < kHeaderSize")
  case True
  with assms ReadPhysicalRecord_eof [of r res e] show ?thesis by auto
next
  case False
  then have len: "kHeaderSize \<le> length (lr_buffer r)" by simp
  then have "parse_physical res r = (t, res', r')" "e' = e"
    using assms(3) unfolding ReadPhysicalRecord_ready [OF len] by (auto split: prod.splits)
  with parse_progress [OF _ len] assms(1,2) show ?thesis by auto
qed

lemma physical_progress:
  assumes "good e" and "lr_file r = sf" and "ReadPhysicalRecord res r e = (t, res', r', e')"
  shows "good e' \<and> lr_file r' = sf \<and>
    (t \<noteq> kEof \<longrightarrow> length (lr_buffer r') + length (remaining e') < length (lr_buffer r) + length (remaining e))"
proof (cases "kHeaderSize \<le> length (lr_buffer r) \<or> lr_eof r")
  case True
  with assms show ?thesis by (rule physical_progress_ready)
next
  case False
  obtain s data e1 where rd: "seq_Read sf log_kBlockSize e = (s, data, e1)"
    by (cases "seq_Read sf log_kBlockSize e") auto
  note e1 = read_good [OF assms(1) rd] read_ok [OF assms(1) rd]
  define r1 where "r1 = r\<lparr>lr_buffer := data, lr_end_of_buffer_offset := lr_end_of_buffer_offset r + word_of_nat (length data)\<rparr>"
  define r2 where "r2 = (if length data < log_kBlockSize then r1\<lparr>lr_eof := True\<rparr> else r1)"
  have unf: "ReadPhysicalRecord res r e = (if \<not> ok s then (kEof, res,
      (ReportDrop (word_of_nat log_kBlockSize) s (r1\<lparr>lr_buffer := []\<rparr>))\<lparr>lr_eof := True\<rparr>, e1)
    else ReadPhysicalRecord res r2 e1)"
    using False rd assms(2) by (simp add: ReadPhysicalRecord.simps [of res r e] r1_def r2_def Let_def)
  show ?thesis
  proof (cases "ok s")
    case True
    have r2: "lr_file r2 = sf" "kHeaderSize \<le> length (lr_buffer r2) \<or> lr_eof r2" "lr_buffer r2 = data"
      using assms(2) by (auto simp: r2_def r1_def kHeaderSize_def log_kBlockSize_def)
    from physical_progress_ready [OF e1(1) r2(1) _ r2(2)] assms(3) unf True r2(3) e1(2) show ?thesis by fastforce
  next
    case False
    with assms unf e1(1) show ?thesis by (auto simp: r1_def)
  qed
qed

lemma loop_returns:
  assumes "good e" and "lr_file r = sf"
  shows "\<exists>x. ReadRecord_loop in_frag scratch po frag r e = Some x"
  using assms
proof (induction "length (lr_buffer r) + length (remaining e)" arbitrary: in_frag scratch po frag r e rule: less_induct)
  case less
  obtain t frag' r1 e1 where ph: "ReadPhysicalRecord frag r e = (t, frag', r1, e1)"
    by (cases "ReadPhysicalRecord frag r e") auto
  note pr = physical_progress [OF less.prems ph]
  show ?case
  proof (cases "record_body t frag' in_frag scratch po r1")
    case (Return rec r2)
    with ph show ?thesis by (simp add: ReadRecord_loop.simps [of in_frag scratch po frag r e])
  next
    case (Continue a b c r2)
    with record_body_eof [of frag' in_frag scratch po r1] have "t \<noteq> kEof" by auto
    with pr record_body_buffer [OF Continue] less.hyps [of r2 e1 a b c frag'] Continue ph show ?thesis
      by (simp add: ReadRecord_loop.simps [of in_frag scratch po frag r e])
  qed
qed

end

lemma mem_file_with: "\<exists>e. mem_readable 0 0 e \<and> mem_pos e 0 = 0 \<and> mem_remaining 0 0 e = data"
proof -
  let ?fs = "fs_append_loop FileState_new data"
  have "fs_inv FileState_new" "fs_contents FileState_new = []"
    by (simp_all add: FileState_new_def fs_inv_empty fs_contents_def)
  with fs_append_loop [of FileState_new data] show ?thesis
    by (intro exI [of _ "NewMemEnv\<lparr>mem_heap := [0 \<mapsto> ?fs]\<rparr>"])
      (simp add: mem_readable_def mem_remaining_def mem_contents_def NewMemEnv_def)
qed

subsection \<open>Properties\<close>

text \<open>C9: Records written to a new log in the in-memory environment are all written, and any reader of the file
  then returns exactly these records in order, whether or not it checks the checksums, and reports no
  corruption.\<close>
theorem log_roundtrip:
  assumes "mem_inv e" and "mem_heap e a \<noteq> None" and "mem_contents a e = []"
    and "AddRecords rs (Writer_new (WritableFileImpl (Some a))) e = (s, w, e1)"
    and "mem_readable a i e2" and "mem_pos e2 i = 0" and "mem_contents a e2 = mem_contents a e1"
  shows "ok s \<and> (\<exists>r' e'. ReadRecords (Reader_new (SequentialFileImpl (Some a) i) reporter checksum 0) e2 = Some (rs, r', e') \<and>
    lr_reports r' = [])"
proof -
  have "ok s \<and> mem_contents a e1 = log_image 0 rs"
    using mem_writable.add_records_contents [of e a "Writer_new (WritableFileImpl (Some a))" rs] assms(1-4)
    by (auto simp: Writer_new_def)
  with assms(6,7) mem_sequential.read_log [OF assms(5), of "length (log_image 0 rs)" rs reporter checksum] show ?thesis
    by (simp add: mem_remaining_def complete_records_all)
qed

theorem log_roundtrip_witness:
  "\<exists>e e2 r' e'. ok (fst (AddRecords [[5, 6], []] (Writer_new (WritableFileImpl (Some 0))) e)) \<and>
    ReadRecords (Reader_new (SequentialFileImpl (Some 0) 0) True True 0) e2 = Some ([[5, 6], []], r', e') \<and> lr_reports r' = []"
proof -
  let ?e = "snd (snd (mem_NewWritableFile [1] NewMemEnv))" and ?w = "Writer_new (WritableFileImpl (Some 0))"
  have e: "mem_inv ?e"
    using mem_inv_NewWritable [OF mem_inv_new, of "[1]"] by (metis prod.collapse)
  have h: "mem_heap ?e 0 \<noteq> None" "mem_contents 0 ?e = []"
    by (simp_all add: mem_NewWritableFile_def NewMemEnv_def mem_alloc_def FileState_Ref_def mem_update_def mem_hold_def
        FileState_new_def mem_contents_def fs_contents_def)
  obtain s w e1 where a: "AddRecords [[5, 6], []] ?w ?e = (s, w, e1)" by (cases "AddRecords [[5, 6], []] ?w ?e")
  obtain e2 where e2: "mem_readable 0 0 e2" "mem_pos e2 0 = 0" "mem_contents 0 e2 = mem_contents 0 e1"
    using mem_file_with [of "mem_contents 0 e1"] by (auto simp: mem_remaining_def)
  from log_roundtrip [OF e h a e2(1,2,3), of True True] a show ?thesis by (metis fst_conv)
qed

text \<open>C10: A log of which only the first \<open>n\<close> bytes reached the file, as after a crash at any point, is read back to
  the longest sequence of its records that lies whole within these bytes, and no corruption is reported.\<close>
theorem log_crash_recovery:
  assumes "mem_readable a i e" and "mem_remaining a i e = take n (log_image 0 rs)"
  shows "\<exists>k r' e'. ReadRecords (Reader_new (SequentialFileImpl (Some a) i) reporter checksum 0) e = Some (take k rs, r', e') \<and>
    lr_reports r' = [] \<and> length (log_image 0 (take k rs)) \<le> n \<and>
    (k < length rs \<longrightarrow> n < length (log_image 0 (take (Suc k) rs)))"
  using mem_sequential.read_log [OF assms, of reporter checksum] complete_records_maximal [of n 0 rs] by force

theorem log_crash_recovery_witness:
  "\<exists>e k r' e'. mem_remaining 0 0 e = take 9 (log_image 0 [[5, 6, 7]]) \<and>
    ReadRecords (Reader_new (SequentialFileImpl (Some 0) 0) True True 0) e = Some (take k [[5, 6, 7]], r', e') \<and> lr_reports r' = []"
proof -
  obtain e where "mem_readable 0 0 e" "mem_remaining 0 0 e = take 9 (log_image 0 [[5, 6, 7]])"
    using mem_file_with by blast
  with log_crash_recovery [OF this, of True True] show ?thesis by blast
qed

text \<open>C24: \<open>ReadRecord\<close> returns on every file of the in-memory environment, whatever the file contains and whatever the
  state of the reader.\<close>
theorem ReadRecord_returns:
  assumes "mem_readable a i e" and "lr_file r = SequentialFileImpl (Some a) i"
  shows "\<exists>x. ReadRecord r e = Some x"
proof -
  have skip: "mem_readable a i e' \<and> lr_file r' = SequentialFileImpl (Some a) i" if "SkipToInitialBlock r e = (True, r', e')" for r' e'
    using that assms
    by (auto simp: SkipToInitialBlock_def Let_def SequentialFileImpl_def mem_seq_Skip_def mem_deref_def mem_readable_def
        FileState_Size_def split: if_splits option.splits prod.splits)
  obtain b r1 e1 where sk: "SkipToInitialBlock r e = (b, r1, e1)" by (cases "SkipToInitialBlock r e")
  have "\<exists>x. ReadRecord_loop False [] 0 [] r1 e1 = Some x" if b
    using skip [of r1 e1] sk that by (intro mem_sequential.loop_returns [of a i]) simp_all
  then show ?thesis
    using mem_sequential.loop_returns [OF assms, of False "[]" 0 "[]"] sk by (simp add: ReadRecord_def)
qed

theorem ReadRecord_returns_witness:
  "\<exists>e x. mem_remaining 0 0 e = [1, 2, 3] \<and> ReadRecord (Reader_new (SequentialFileImpl (Some 0) 0) True True 77) e = Some x"
proof -
  obtain e where "mem_readable 0 0 e" "mem_remaining 0 0 e = [1, 2, 3]"
    using mem_file_with by blast
  with ReadRecord_returns [OF this(1), of "Reader_new (SequentialFileImpl (Some 0) 0) True True 77"] show ?thesis
    by (auto simp: Reader_new_def)
qed

text \<open>C25: With checksums on, a physical record that is handed on has the checksum stored in front of it: the type
  returned is that of its header and the bytes returned are those after the header.\<close>
theorem physical_record_checked:
  assumes "parse_physical res r = (t, p, r')" and "lr_checksum r" and "t \<noteq> kEof" and "t \<noteq> kBadRecord"
  shows "crc_value (take (1 + length p) (drop 6 (lr_buffer r))) = Unmask (DecodeFixed32 (lr_buffer r)) \<and>
    t = signed (lr_buffer r ! 6) \<and> p = take (length p) (drop kHeaderSize (lr_buffer r)) \<and>
    lr_buffer r' = drop (kHeaderSize + length p) (lr_buffer r)"
  using assms by (auto simp: parse_physical_def Let_def split: if_splits)

theorem physical_record_checked_witness:
  "crc_value (take 2 (drop 6 (physical kFullType [9]))) = Unmask (DecodeFixed32 (physical kFullType [9]))"
proof -
  let ?r = "(Reader_new (SequentialFileImpl (Some 0) 0) True True 0)\<lparr>lr_buffer := physical kFullType [9]\<rparr>"
  have "parse_physical [] ?r = (ucast (RecordType_code kFullType), [9], ?r\<lparr>lr_buffer := []\<rparr>)"
    by (rule parse_complete) (simp_all add: Reader_new_def log_kBlockSize_def)
  moreover have "lr_checksum ?r" "(ucast (RecordType_code kFullType) :: u32) \<noteq> kEof"
    "(ucast (RecordType_code kFullType) :: u32) \<noteq> kBadRecord"
    by (simp_all add: Reader_new_def kEof_def kBadRecord_def kMaxRecordType_def)
  ultimately show ?thesis
    using physical_record_checked [of "[]" ?r "ucast (RecordType_code kFullType)" "[9]" "?r\<lparr>lr_buffer := []\<rparr>"]
    by (simp add: numeral_2_eq_2)
qed

end
