(* ===== verification/PmGroup.thy ===== *)
theory PmGroup
  imports Logging
begin

text \<open>
  The persistent-memory partitions of \<open>src/src/groupManager.cc\<close>, \<open>src/include/groupManager.h\<close> and the pool
  devices of \<open>src/src/deviceManager.cc\<close>. A partition is a \<open>libpmemobj\<close> pool that holds a root object
  (\<open>listroot\<close>) and a singly linked list of large nodes.

  The library is a parameter: whether it can grow the root object, and which address it allocates
  (\<^term>\<open>None\<close> when it is out of space). An object identifier is its offset in the pool, and zero is
  \<open>OID_NULL\<close>, since every object of a partition is in the pool of that partition.

  A store reaches the cache first. What of it is durable is tracked for the two kinds of cache line the list
  code writes, the line of the root object and the last line of a node, which holds its \<open>next\<close>: a line is
  written back by a flush followed by a drain, and may be written back earlier at any time. Allocation and
  freeing are atomic and durable in themselves.
\<close>

subsection \<open>Constants and data\<close>

definition CACHE_LINE_SIZE :: u64 where
  "CACHE_LINE_SIZE = 64"

definition LIST_NODE_SIZE_256M :: u64 where
  "LIST_NODE_SIZE_256M = 256 * push_bit 20 1"

definition DEFAULT_FSDAX_DIR :: bytes where
  "DEFAULT_FSDAX_DIR = str ''/pmem0/emerald/''"

definition DEFAULT_POOL_LAYOUT_NAME :: bytes where
  "DEFAULT_POOL_LAYOUT_NAME = str ''emerald''"

definition DEFAULT_PARTITION_NAME :: bytes where
  "DEFAULT_PARTITION_NAME = str ''group_''"

definition DEFAULT_PARTITION_NUMS :: nat where
  "DEFAULT_PARTITION_NUMS = 4"

record listroot =
  rt_writeFront :: nat
  rt_node_count :: int
  rt_gid :: int
  rt_head :: nat
  rt_tail :: nat

definition sizeof_listroot :: nat where
  "sizeof_listroot = 16 + 4 + 4 + 16 + 16"

definition sizeof_listnode :: nat where
  "sizeof_listnode = unat LIST_NODE_SIZE_256M"

text \<open>The contents of a pool, by offset where they belong to a node. A pool whose root has size zero has no root
  object yet.\<close>

record Pool =
  pl_root_size :: nat
  pl_root :: listroot
  pl_next :: "nat \<Rightarrow> nat"
  pl_live :: "nat set"

definition zero_root :: listroot where
  "zero_root = \<lparr>rt_writeFront = 0, rt_node_count = 0, rt_gid = 0, rt_head = 0, rt_tail = 0\<rparr>"

definition empty_pool :: Pool where
  "empty_pool = \<lparr>pl_root_size = 0, pl_root = zero_root, pl_next = (\<lambda>_. 0), pl_live = {}\<rparr>"

subsection \<open>Persistent memory\<close>

datatype pm_line = RootLine | NextLine nat

record PM =
  pm_cache :: Pool
  pm_durable :: Pool
  pm_flushed :: "pm_line set"

definition write_back :: "pm_line \<Rightarrow> PM \<Rightarrow> PM" where
  "write_back l pm =
     (case l of
        RootLine \<Rightarrow> pm\<lparr>pm_durable := (pm_durable pm)\<lparr>pl_root := pl_root (pm_cache pm)\<rparr>\<rparr>
      | NextLine a \<Rightarrow> pm\<lparr>pm_durable := (pm_durable pm)\<lparr>pl_next := (pl_next (pm_durable pm))(a := pl_next (pm_cache pm) a)\<rparr>\<rparr>)"

datatype pm_instr =
    StoreNext nat nat
  | StoreRoot "listroot \<Rightarrow> listroot"
  | Flush pm_line
  | Drain
  | Free nat

fun pm_exec :: "pm_instr \<Rightarrow> PM \<Rightarrow> PM" where
  "pm_exec (StoreNext a v) pm = pm\<lparr>pm_cache := (pm_cache pm)\<lparr>pl_next := (pl_next (pm_cache pm))(a := v)\<rparr>\<rparr>"
| "pm_exec (StoreRoot f) pm = pm\<lparr>pm_cache := (pm_cache pm)\<lparr>pl_root := f (pl_root (pm_cache pm))\<rparr>\<rparr>"
| "pm_exec (Flush l) pm = pm\<lparr>pm_flushed := insert l (pm_flushed pm)\<rparr>"
| "pm_exec Drain pm =
     pm\<lparr>pm_flushed := {}, pm_durable := (pm_durable pm)
       \<lparr>pl_root := (if RootLine \<in> pm_flushed pm then pl_root (pm_cache pm) else pl_root (pm_durable pm)),
        pl_next := (\<lambda>a. if NextLine a \<in> pm_flushed pm then pl_next (pm_cache pm) a else pl_next (pm_durable pm) a)\<rparr>\<rparr>"
| "pm_exec (Free a) pm =
     pm\<lparr>pm_cache := (pm_cache pm)\<lparr>pl_live := pl_live (pm_cache pm) - {a}\<rparr>,
        pm_durable := (pm_durable pm)\<lparr>pl_live := pl_live (pm_durable pm) - {a}\<rparr>\<rparr>"

fun pm_run :: "pm_instr list \<Rightarrow> PM \<Rightarrow> PM" where
  "pm_run [] pm = pm"
| "pm_run (i # is) pm = pm_run is (pm_exec i pm)"

text \<open>A run with write-backs at any time: \<open>pm_steps is pm is' pm'\<close> has executed a first part of \<open>is\<close> and has
  \<open>is'\<close> left. The durable part of \<open>pm'\<close> is what a crash at this point leaves.\<close>

inductive pm_steps :: "pm_instr list \<Rightarrow> PM \<Rightarrow> pm_instr list \<Rightarrow> PM \<Rightarrow> bool" where
  steps_refl: "pm_steps is pm is pm"
| steps_exec: "pm_steps is pm (i # is') pm' \<Longrightarrow> pm_steps is pm is' (pm_exec i pm')"
| steps_evict: "pm_steps is pm is' pm' \<Longrightarrow> pm_steps is pm is' (write_back l pm')"

subsection \<open>The library\<close>

record pmemobj_lib =
  lib_can_grow :: "nat \<Rightarrow> Pool \<Rightarrow> bool"
  lib_alloc :: "Pool \<Rightarrow> nat option"

text \<open>The root object is created, filled with zeros, or grown on demand; \<^term>\<open>None\<close> is \<open>OID_NULL\<close>.\<close>

definition pmemobj_root :: "pmemobj_lib \<Rightarrow> nat \<Rightarrow> PM \<Rightarrow> PM option" where
  "pmemobj_root lib sz pm =
     (if sz \<le> pl_root_size (pm_cache pm) then Some pm
      else if lib_can_grow lib sz (pm_cache pm) then
        Some (pm\<lparr>pm_cache := (pm_cache pm)\<lparr>pl_root_size := sz\<rparr>, pm_durable := (pm_durable pm)\<lparr>pl_root_size := sz\<rparr>\<rparr>)
      else None)"

text \<open>Allocation runs the constructor \<open>listnode_construct\<close>, which sets \<open>next\<close> to \<open>OID_NULL\<close> and persists its line.\<close>

definition listnode_construct :: "nat \<Rightarrow> Pool \<Rightarrow> Pool" where
  "listnode_construct a p = p\<lparr>pl_next := (pl_next p)(a := 0)\<rparr>"

definition pmemobj_alloc :: "pmemobj_lib \<Rightarrow> PM \<Rightarrow> (nat \<times> PM) option" where
  "pmemobj_alloc lib pm =
     (case lib_alloc lib (pm_cache pm) of
        None \<Rightarrow> None
      | Some a \<Rightarrow>
          Some (a, pm\<lparr>pm_cache := listnode_construct a ((pm_cache pm)\<lparr>pl_live := insert a (pl_live (pm_cache pm))\<rparr>),
                      pm_durable := listnode_construct a ((pm_durable pm)\<lparr>pl_live := insert a (pl_live (pm_durable pm))\<rparr>)\<rparr>))"

subsection \<open>A partition\<close>

text \<open>The fields in DRAM start with whatever the memory held; the writer's tail pointer is an offset.\<close>

record Group =
  g_gid_dram :: int
  g_node_count_dram :: int
  g_tail_dram :: nat
  g_offset_dram :: u64

text \<open>The exception that \<open>alloc_node\<close> throws.\<close>

datatype group_error = AllocFailed

definition get_pm_root :: "pmemobj_lib \<Rightarrow> PM \<Rightarrow> (listroot \<times> PM) option" where
  "get_pm_root lib pm = map_option (\<lambda>pm1. (pl_root (pm_cache pm1), pm1)) (pmemobj_root lib sizeof_listroot pm)"

definition check_list_exist :: "pmemobj_lib \<Rightarrow> PM \<Rightarrow> bool \<times> PM" where
  "check_list_exist lib pm =
     (case pmemobj_root lib sizeof_listroot pm of
        None \<Rightarrow> (False, pm)
      | Some pm1 \<Rightarrow>
          (let meta = pl_root (pm_cache pm1)
           in (\<not> (rt_node_count meta = 0 \<or> rt_head meta = 0 \<or> 0 = rt_tail meta), pm1)))"

definition alloc_node :: "pmemobj_lib \<Rightarrow> Group \<Rightarrow> PM \<Rightarrow> group_error + nat \<times> Group \<times> PM" where
  "alloc_node lib g pm =
     (case pmemobj_alloc lib pm of
        None \<Rightarrow> Inl AllocFailed
      | Some (a, pm1) \<Rightarrow> Inr (a, g\<lparr>g_node_count_dram := g_node_count_dram g + 1\<rparr>, pm1))"

definition free_node :: "nat \<Rightarrow> Group \<Rightarrow> PM \<Rightarrow> Group \<times> PM" where
  "free_node node g pm = (g\<lparr>g_node_count_dram := g_node_count_dram g - 1\<rparr>, pm_exec (Free node) pm)"

text \<open>The instructions of the two list operations, from the offsets they read.\<close>

definition add_node_code :: "nat \<Rightarrow> nat \<Rightarrow> pm_instr list" where
  "add_node_code last_node node_oid =
     [StoreNext last_node node_oid,
      StoreRoot (\<lambda>meta. meta\<lparr>rt_tail := node_oid\<rparr>),
      StoreRoot (\<lambda>meta. meta\<lparr>rt_node_count := rt_node_count meta + 1\<rparr>),
      Flush (NextLine last_node),
      Flush RootLine,
      Drain]"

definition add_node_to_tail :: "pmemobj_lib \<Rightarrow> nat \<Rightarrow> PM \<Rightarrow> PM" where
  "add_node_to_tail lib node_oid pm =
     (case pmemobj_root lib sizeof_listroot pm of
        None \<Rightarrow> pm
      | Some pm1 \<Rightarrow> pm_run (add_node_code (rt_tail (pl_root (pm_cache pm1))) node_oid) pm1)"

definition delete_node_code :: "nat \<Rightarrow> nat \<Rightarrow> nat \<Rightarrow> pm_instr list" where
  "delete_node_code prev node node_next =
     [StoreRoot (\<lambda>meta. meta\<lparr>rt_node_count := rt_node_count meta - 1\<rparr>),
      StoreNext prev node_next,
      Free node,
      StoreRoot (\<lambda>meta. if node = rt_tail meta then meta\<lparr>rt_tail := prev\<rparr> else meta),
      Flush (NextLine prev),
      Flush RootLine,
      Drain]"

definition delete_node_from_list :: "pmemobj_lib \<Rightarrow> nat \<Rightarrow> nat \<Rightarrow> Group \<Rightarrow> PM \<Rightarrow> Group \<times> PM" where
  "delete_node_from_list lib prev node g pm =
     (case pmemobj_root lib sizeof_listroot pm of
        None \<Rightarrow> (g, pm)
      | Some pm1 \<Rightarrow>
          (g\<lparr>g_node_count_dram := g_node_count_dram g - 1\<rparr>,
           pm_run (delete_node_code prev node (pl_next (pm_cache pm1) node)) pm1))"

text \<open>The constructor, from the uninitialised fields \<open>g0\<close>. The root is asked for with the size of a node.\<close>

definition Group_new :: "pmemobj_lib \<Rightarrow> Group \<Rightarrow> int \<Rightarrow> PM \<Rightarrow> (group_error \<times> PM) + Group \<times> PM" where
  "Group_new lib g0 gid pm =
     (let g1 = g0\<lparr>g_gid_dram := gid\<rparr>;
          (exists, pm1) = check_list_exist lib pm
      in if exists then Inr (g1, pm1)
         else
           (case pmemobj_root lib sizeof_listnode pm1 of
              None \<Rightarrow> Inr (g1, pm1)
            | Some pm2 \<Rightarrow>
                (let pm3 = pm_run [StoreRoot (\<lambda>meta. meta\<lparr>rt_gid := gid\<rparr>),
                                   StoreRoot (\<lambda>meta. meta\<lparr>rt_node_count := 1\<rparr>)] pm2
                 in case alloc_node lib g1 pm3 of
                      Inl err \<Rightarrow> Inl (err, pm3)
                    | Inr (new_node, g2, pm4) \<Rightarrow>
                        (let pm5 = pm_run [StoreRoot (\<lambda>meta. meta\<lparr>rt_head := new_node\<rparr>),
                                           StoreRoot (\<lambda>meta. meta\<lparr>rt_tail := new_node\<rparr>),
                                           Flush RootLine, Drain] pm4
                         in Inr (g2\<lparr>g_gid_dram := gid, g_node_count_dram := 0, g_tail_dram := new_node,
                                    g_offset_dram := 0\<rparr>, pm5)))))"

subsection \<open>Writing into a node\<close>

definition canFit :: "u64 \<Rightarrow> u64 \<Rightarrow> bool" where
  "canFit off sz \<longleftrightarrow> off + sz \<le> LIST_NODE_SIZE_256M - CACHE_LINE_SIZE"

definition write_bytes :: "nat \<Rightarrow> bytes \<Rightarrow> (nat \<Rightarrow> byte) \<Rightarrow> nat \<Rightarrow> byte" where
  "write_bytes off bs node = (\<lambda>i. if off \<le> i \<and> i < off + length bs then bs ! (i - off) else node i)"

text \<open>\<open>tsize\<close> is the size of the element type, \<open>buf\<close> the bytes the source pointer points to and \<open>node\<close> the bytes of
  the node. An element wider than a byte is assigned as one element.\<close>

definition appendWrite :: "nat \<Rightarrow> (nat \<Rightarrow> byte) \<Rightarrow> u64 \<Rightarrow> bytes \<Rightarrow> u64 \<Rightarrow> bool \<times> (nat \<Rightarrow> byte) \<times> u64" where
  "appendWrite tsize node off buf sz =
     (if \<not> canFit off sz then (False, node, off)
      else if tsize > 1 then (True, write_bytes (unat off) (take tsize buf) node, off + sz)
      else (True, write_bytes (unat off) (take (unat sz) buf) node, off + sz))"

subsection \<open>Pool devices and the partitions\<close>

text \<open>Opening and creating pool files, over the state \<^typ>\<open>'s\<close> of the file system, return the pool or null.\<close>

record ('s, 'p) pool_files =
  pmemobj_open :: "bytes \<Rightarrow> bytes \<Rightarrow> 's \<Rightarrow> 'p option"
  pmemobj_create :: "bytes \<Rightarrow> bytes \<Rightarrow> nat \<Rightarrow> 's \<Rightarrow> 'p option \<times> 's"

record 'p FsDaxDevice =
  fd_pop :: "'p option"
  fd_pool_path :: bytes
  fd_pool_layout_name :: bytes
  fd_size :: nat

definition FsDaxDevice_open :: "('s, 'p) pool_files \<Rightarrow> bytes \<Rightarrow> bytes \<Rightarrow> 'p FsDaxDevice \<Rightarrow> 's \<Rightarrow> bool \<times> 'p FsDaxDevice" where
  "FsDaxDevice_open lib path layout dev s =
     (let filepath = (if path = [] then fd_pool_path dev else path);
          name = (if layout = [] then fd_pool_layout_name dev else layout);
          pop = pmemobj_open lib filepath name s
      in (pop \<noteq> None, dev\<lparr>fd_pop := pop\<rparr>))"

definition FsDaxDevice_create ::
    "('s, 'p) pool_files \<Rightarrow> bytes \<Rightarrow> bytes \<Rightarrow> 'p FsDaxDevice \<Rightarrow> 's \<Rightarrow> bool \<times> 'p FsDaxDevice \<times> 's" where
  "FsDaxDevice_create lib path layout dev s =
     (let filepath = (if path = [] then fd_pool_path dev else path);
          name = (if layout = [] then fd_pool_layout_name dev else layout);
          (pop, s') = pmemobj_create lib filepath name (fd_size dev) s
      in (pop \<noteq> None, dev\<lparr>fd_pop := pop\<rparr>, s'))"

definition FsDaxDevice_new :: "('s, 'p) pool_files \<Rightarrow> bytes \<Rightarrow> bytes \<Rightarrow> nat \<Rightarrow> 's \<Rightarrow> 'p FsDaxDevice \<times> 's" where
  "FsDaxDevice_new lib path layout sz s =
     (let dev = \<lparr>fd_pop = None, fd_pool_path = path, fd_pool_layout_name = layout, fd_size = sz\<rparr>;
          (opened, dev1) = FsDaxDevice_open lib path layout dev s
      in if opened then (dev1, s)
         else (case FsDaxDevice_create lib path layout dev1 s of (_, dev2, s') \<Rightarrow> (dev2, s')))"

definition partition_size :: nat where
  "partition_size = 50 * 2 ^ 30"

definition partition_path :: "nat \<Rightarrow> bytes" where
  "partition_path i = DEFAULT_FSDAX_DIR @ DEFAULT_PARTITION_NAME @ decimal i"

text \<open>The loop of the constructor of \<open>GroupManager\<close>, with the construction of the \<open>Group\<close> over its device as an
  argument.\<close>

primrec make_partitions ::
    "('s, 'p) pool_files \<Rightarrow> ('p FsDaxDevice \<Rightarrow> nat \<Rightarrow> 's \<Rightarrow> 'g \<times> 's) \<Rightarrow> nat \<Rightarrow> 's \<Rightarrow> (bytes \<times> 'g) list \<times> 's" where
  "make_partitions lib new_group 0 s = ([], s)"
| "make_partitions lib new_group (Suc i) s =
     (let (parts, s1) = make_partitions lib new_group i s;
          filepath = partition_path i;
          (dev, s2) = FsDaxDevice_new lib filepath DEFAULT_POOL_LAYOUT_NAME partition_size s1;
          (g, s3) = new_group dev i s2
      in (parts @ [(filepath, g)], s3))"

definition GroupManager_new ::
    "('s, 'p) pool_files \<Rightarrow> ('p FsDaxDevice \<Rightarrow> nat \<Rightarrow> 's \<Rightarrow> 'g \<times> 's) \<Rightarrow> 's \<Rightarrow> (bytes \<times> 'g) list \<times> 's" where
  "GroupManager_new lib new_group s = make_partitions lib new_group DEFAULT_PARTITION_NUMS s"

subsection \<open>The list in a pool\<close>

text \<open>The nodes met on the way from \<open>x\<close> to \<open>y\<close>.\<close>

fun seg :: "(nat \<Rightarrow> nat) \<Rightarrow> nat \<Rightarrow> nat list \<Rightarrow> nat \<Rightarrow> bool" where
  "seg n x [] y \<longleftrightarrow> x = y"
| "seg n x (a # as) y \<longleftrightarrow> x = a \<and> a \<noteq> 0 \<and> seg n (n a) as y"

definition group_ok :: "Pool \<Rightarrow> nat list \<Rightarrow> bool" where
  "group_ok p xs \<longleftrightarrow> seg (pl_next p) (rt_head (pl_root p)) xs 0 \<and> xs \<noteq> [] \<and> distinct xs \<and> set xs \<subseteq> pl_live p \<and>
     rt_tail (pl_root p) = last xs \<and> rt_node_count (pl_root p) = int (length xs) \<and> sizeof_listroot \<le> pl_root_size p"

definition pm_quiet :: "PM \<Rightarrow> bool" where
  "pm_quiet pm \<longleftrightarrow> pm_durable pm = pm_cache pm \<and> pm_flushed pm = {}"

text \<open>What is documented of the library: an allocated object is not null and was not in use.\<close>

definition lib_ok :: "pmemobj_lib \<Rightarrow> bool" where
  "lib_ok lib \<longleftrightarrow> (\<forall>p a. lib_alloc lib p = Some a \<longrightarrow> a \<noteq> 0 \<and> a \<notin> pl_live p)"

lemma seg_append [simp]: "seg n x (as @ bs) z \<longleftrightarrow> (\<exists>y. seg n x as y \<and> seg n y bs z)"
  by (induction as arbitrary: x) auto

lemma seg_upd [simp]: "a \<notin> set as \<Longrightarrow> seg (n(a := v)) x as y = seg n x as y"
  by (induction as arbitrary: x) auto

lemma seg_nonzero: "seg n x as y \<Longrightarrow> 0 \<notin> set as"
  by (induction as arbitrary: x) auto

lemma pmemobj_root_same: "sizeof_listroot \<le> pl_root_size (pm_cache pm) \<Longrightarrow> pmemobj_root lib sizeof_listroot pm = Some pm"
  by (simp add: pmemobj_root_def)

lemma pmemobj_root_grown:
  assumes "\<And>sz p. lib_can_grow lib sz p" and "pm_quiet pm"
  shows "\<exists>pm'. pmemobj_root lib sz pm = Some pm' \<and> pm_quiet pm' \<and> pl_root (pm_cache pm') = pl_root (pm_cache pm) \<and>
    sz \<le> pl_root_size (pm_cache pm')"
  using assms by (cases "sz \<le> pl_root_size (pm_cache pm)") (auto simp: pmemobj_root_def pm_quiet_def)

lemma group_ok_exists: "group_ok (pm_cache pm) xs \<Longrightarrow> check_list_exist lib pm = (True, pm)"
  using seg_nonzero [of "pl_next (pm_cache pm)" _ xs 0]
  by (cases xs) (auto simp: group_ok_def check_list_exist_def pmemobj_root_same Let_def dest: last_in_set,
      metis gr0I last_in_set)

lemma fresh_pool_no_list:
  "pl_root (pm_cache pm) = zero_root \<Longrightarrow> fst (check_list_exist lib pm) = False"
  by (auto simp: check_list_exist_def pmemobj_root_def zero_root_def split: option.splits)

subsection \<open>Adding and deleting\<close>

lemma add_node_run:
  assumes quiet: "pm_quiet pm" and ok: "group_ok (pm_cache pm) xs"
    and node: "node \<notin> set xs" "node \<noteq> 0" "node \<in> pl_live (pm_cache pm)" "pl_next (pm_cache pm) node = 0"
  shows "pm_quiet (add_node_to_tail lib node pm) \<and> group_ok (pm_cache (add_node_to_tail lib node pm)) (xs @ [node]) \<and>
    pl_live (pm_cache (add_node_to_tail lib node pm)) = pl_live (pm_cache pm)"
proof -
  obtain as l where xs: "xs = as @ [l]" using ok by (metis group_ok_def append_butlast_last_id)
  then have l: "l \<notin> set as" "node \<noteq> l" "node \<notin> set as" using ok node by (auto simp: group_ok_def)
  have run: "add_node_to_tail lib node pm = pm_run (add_node_code l node) pm"
    using ok xs by (simp add: add_node_to_tail_def group_ok_def pmemobj_root_same)
  have "pm_quiet (pm_run (add_node_code l node) pm)"
    using quiet by (auto simp: pm_quiet_def add_node_code_def fun_upd_def cong: if_cong)
  moreover have "group_ok (pm_cache (pm_run (add_node_code l node) pm)) (xs @ [node])"
    using ok l node xs by (auto simp: group_ok_def add_node_code_def)
  ultimately show ?thesis by (simp add: run add_node_code_def)
qed

lemma delete_node_run:
  assumes quiet: "pm_quiet pm" and ok: "group_ok (pm_cache pm) (as @ prev # node # bs)"
    and del: "delete_node_from_list lib prev node g pm = (g', pm')"
  shows "pm_quiet pm' \<and> group_ok (pm_cache pm') (as @ prev # bs) \<and> pl_live (pm_cache pm') = pl_live (pm_cache pm) - {node} \<and>
    g_node_count_dram g' = g_node_count_dram g - 1"
proof -
  let ?next = "pl_next (pm_cache pm) node"
  have run: "pm' = pm_run (delete_node_code prev node ?next) pm" "g_node_count_dram g' = g_node_count_dram g - 1"
    using ok del by (auto simp: delete_node_from_list_def group_ok_def pmemobj_root_same)
  have "pm_quiet (pm_run (delete_node_code prev node ?next) pm)"
    using quiet by (auto simp: pm_quiet_def delete_node_code_def fun_upd_def cong: if_cong)
  moreover have "group_ok (pm_cache (pm_run (delete_node_code prev node ?next) pm)) (as @ prev # bs)"
    using ok by (auto simp: group_ok_def delete_node_code_def)
  ultimately show ?thesis using run by (simp add: delete_node_code_def)
qed

lemma alloc_node_run:
  assumes "lib_ok lib" and "pm_quiet pm" and "alloc_node lib g pm = Inr (a, g', pm')"
  shows "pm_quiet pm' \<and> a \<noteq> 0 \<and> a \<notin> pl_live (pm_cache pm) \<and> pl_next (pm_cache pm') a = 0 \<and>
    pm_cache pm' = listnode_construct a ((pm_cache pm)\<lparr>pl_live := insert a (pl_live (pm_cache pm))\<rparr>) \<and>
    g_node_count_dram g' = g_node_count_dram g + 1"
  using assms
  by (auto simp: alloc_node_def pmemobj_alloc_def lib_ok_def pm_quiet_def listnode_construct_def split: option.splits)

lemma group_ok_alloc:
  assumes "group_ok p xs" and "a \<notin> pl_live p"
  shows "group_ok (listnode_construct a (p\<lparr>pl_live := insert a (pl_live p)\<rparr>)) xs"
proof -
  have "a \<notin> set xs" using assms by (auto simp: group_ok_def)
  then show ?thesis using assms by (auto simp: group_ok_def listnode_construct_def)
qed

lemma Group_new_run:
  assumes lib: "lib_ok lib" and quiet: "pm_quiet pm" and root: "pl_root (pm_cache pm) = zero_root"
    and grow: "\<And>sz p. lib_can_grow lib sz p" and new: "Group_new lib g0 gid pm = Inr (g, pm')"
  shows "\<exists>a. pm_quiet pm' \<and> group_ok (pm_cache pm') [a] \<and> g_node_count_dram g = 0 \<and> g_tail_dram g = a \<and>
    rt_gid (pl_root (pm_cache pm')) = gid \<and> sizeof_listnode \<le> pl_root_size (pm_cache pm')"
proof -
  obtain pm1 where c: "check_list_exist lib pm = (False, pm1)" using fresh_pool_no_list [OF root] by (metis prod.collapse)
  have pm1: "pm_quiet pm1" "pl_root (pm_cache pm1) = zero_root" "pl_live (pm_cache pm1) = pl_live (pm_cache pm)"
    using c quiet root grow by (auto simp: check_list_exist_def pmemobj_root_def pm_quiet_def Let_def split: if_splits option.splits)
  obtain pm2 where r: "pmemobj_root lib sizeof_listnode pm1 = Some pm2" and pm2: "pm_quiet pm2" "pl_root (pm_cache pm2) = zero_root"
    "sizeof_listnode \<le> pl_root_size (pm_cache pm2)"
    using pmemobj_root_grown [OF grow pm1(1)] pm1(2) by auto
  let ?pm3 = "pm_run [StoreRoot (\<lambda>meta. meta\<lparr>rt_gid := gid\<rparr>), StoreRoot (\<lambda>meta. meta\<lparr>rt_node_count := 1\<rparr>)] pm2"
  obtain a g2 pm4 where al: "alloc_node lib (g0\<lparr>g_gid_dram := gid\<rparr>) ?pm3 = Inr (a, g2, pm4)"
    using new c r by (auto simp: Group_new_def Let_def split: sum.splits)
  then have pm4: "a \<noteq> 0" "pm4 = ?pm3\<lparr>pm_cache := listnode_construct a ((pm_cache ?pm3)\<lparr>pl_live := insert a (pl_live (pm_cache ?pm3))\<rparr>),
      pm_durable := listnode_construct a ((pm_durable ?pm3)\<lparr>pl_live := insert a (pl_live (pm_durable ?pm3))\<rparr>)\<rparr>"
    using lib by (auto simp: alloc_node_def pmemobj_alloc_def lib_ok_def split: option.splits)
  let ?code = "[StoreRoot (\<lambda>meta. meta\<lparr>rt_head := a\<rparr>), StoreRoot (\<lambda>meta. meta\<lparr>rt_tail := a\<rparr>), Flush RootLine, Drain]"
  have "pm' = pm_run ?code pm4" "g_node_count_dram g = 0" "g_tail_dram g = a"
    using new c r al by (auto simp: Group_new_def Let_def)
  moreover have "pm_quiet (pm_run ?code pm4)"
    using pm2(1) by (auto simp: pm4(2) pm_quiet_def listnode_construct_def fun_upd_def)
  moreover have "group_ok (pm_cache (pm_run ?code pm4)) [a]"
    using pm2 pm4(1)
    by (auto simp: pm4(2) group_ok_def listnode_construct_def sizeof_listroot_def sizeof_listnode_def
        LIST_NODE_SIZE_256M_def zero_root_def)
  ultimately show ?thesis using pm2(3) by (auto simp: pm4(2) listnode_construct_def)
qed

text \<open>The partitions that can be reached from a new pool, with the list of their nodes.\<close>

inductive group_reach :: "pmemobj_lib \<Rightarrow> Group \<Rightarrow> PM \<Rightarrow> nat list \<Rightarrow> bool" for lib where
  reach_new: "\<lbrakk>pm_quiet pm; pl_root (pm_cache pm) = zero_root; Group_new lib g0 gid pm = Inr (g, pm');
     rt_head (pl_root (pm_cache pm')) = a\<rbrakk> \<Longrightarrow> group_reach lib g pm' [a]"
| reach_add: "\<lbrakk>group_reach lib g pm xs; alloc_node lib g pm = Inr (a, g', pm1)\<rbrakk> \<Longrightarrow>
     group_reach lib g' (add_node_to_tail lib a pm1) (xs @ [a])"
| reach_delete: "\<lbrakk>group_reach lib g pm (as @ prev # node # bs); delete_node_from_list lib prev node g pm = (g', pm')\<rbrakk> \<Longrightarrow>
     group_reach lib g' pm' (as @ prev # bs)"

lemma group_reach_ok:
  assumes "lib_ok lib" and "\<And>sz p. lib_can_grow lib sz p" and "group_reach lib g pm xs"
  shows "pm_quiet pm \<and> group_ok (pm_cache pm) xs \<and> g_node_count_dram g = int (length xs) - 1"
  using assms(3)
proof (induction rule: group_reach.induct)
  case (reach_new pm g0 gid g pm' a)
  from Group_new_run [OF assms(1) reach_new(1,2) assms(2) reach_new(3)] reach_new(4) show ?case
    by (auto simp: group_ok_def)
next
  case (reach_add g pm xs a g' pm1)
  note al = alloc_node_run [OF assms(1) _ reach_add(2)]
  have "group_ok (pm_cache pm1) xs" "a \<notin> set xs" "a \<in> pl_live (pm_cache pm1)"
    using al reach_add.IH group_ok_alloc [of "pm_cache pm" xs a] by (auto simp: group_ok_def listnode_construct_def)
  with add_node_run [of pm1 xs a lib] al reach_add.IH show ?case by auto
next
  case (reach_delete g pm as prev node bs g' pm')
  with delete_node_run [of pm as prev node bs lib g g' pm'] show ?case by auto
qed

subsection \<open>Crashes\<close>

text \<open>While a node is linked, the two copies of every \<open>next\<close> pointer are the old ones but for that of the last node.\<close>

definition adding :: "Pool \<Rightarrow> nat \<Rightarrow> nat \<Rightarrow> Pool \<Rightarrow> bool" where
  "adding p0 l node p \<longleftrightarrow> rt_head (pl_root p) = rt_head (pl_root p0) \<and> pl_live p = pl_live p0 \<and>
     (\<forall>b. b \<noteq> l \<longrightarrow> pl_next p b = pl_next p0 b) \<and> (pl_next p l = pl_next p0 l \<or> pl_next p l = node)"

lemma adding_exec:
  assumes "i \<in> set (add_node_code l node)" and "adding p0 l node (pm_cache pm)" and "adding p0 l node (pm_durable pm)"
  shows "adding p0 l node (pm_cache (pm_exec i pm)) \<and> adding p0 l node (pm_durable (pm_exec i pm))"
  using assms by (auto simp: add_node_code_def adding_def split: if_splits)

lemma adding_write_back:
  assumes "adding p0 l node (pm_cache pm)" and "adding p0 l node (pm_durable pm)"
  shows "adding p0 l node (pm_cache (write_back k pm)) \<and> adding p0 l node (pm_durable (write_back k pm))"
  using assms by (cases k) (auto simp: write_back_def adding_def)

lemma adding_steps:
  assumes "pm_steps (add_node_code l node) pm is' pm'" and "pm_quiet pm"
  shows "set is' \<subseteq> set (add_node_code l node) \<and> adding (pm_cache pm) l node (pm_cache pm') \<and>
    adding (pm_cache pm) l node (pm_durable pm')"
  using assms
proof (induction "add_node_code l node" pm is' pm' rule: pm_steps.induct)
  case (steps_refl pm)
  then show ?case by (simp add: adding_def pm_quiet_def)
next
  case (steps_exec pm i is' pm')
  then show ?case using adding_exec [of i l node "pm_cache pm" pm'] by auto
next
  case (steps_evict pm is' pm' k)
  then show ?case using adding_write_back [of "pm_cache pm" l node pm' k] by auto
qed

lemma adding_seg:
  assumes ok: "group_ok p0 xs" and node: "node \<notin> set xs" "node \<noteq> 0" "pl_next p0 node = 0" and p: "adding p0 (last xs) node p"
  shows "seg (pl_next p) (rt_head (pl_root p)) xs 0 \<or> seg (pl_next p) (rt_head (pl_root p)) (xs @ [node]) 0"
proof -
  obtain as l where xs: "xs = as @ [l]" "l \<notin> set as" "node \<noteq> l" using ok node(1) by (cases xs rule: rev_cases) (auto simp: group_ok_def)
  then have "pl_next p = (pl_next p0)(l := pl_next p l)" using p by (auto simp: adding_def fun_eq_iff)
  then obtain v where v: "pl_next p = (pl_next p0)(l := v)" "v = pl_next p0 l \<or> v = node" using p xs by (auto simp: adding_def)
  then show ?thesis using ok node xs p by (auto simp: group_ok_def adding_def)
qed

text \<open>The tail can be durable before the pointer to it, and a node can be freed before the list has durably left it.\<close>

lemma add_node_crash_tail:
  assumes "pm_quiet pm" and "group_ok (pm_cache pm) xs" and "node \<notin> set xs"
  shows "\<exists>is' pm'. pm_steps (add_node_code (last xs) node) pm is' pm' \<and> rt_tail (pl_root (pm_durable pm')) = node \<and>
    seg (pl_next (pm_durable pm')) (rt_head (pl_root (pm_durable pm'))) xs 0"
proof -
  let ?l = "last xs"
  let ?pm1 = "pm_exec (StoreNext ?l node) pm"
  let ?pm2 = "pm_exec (StoreRoot (\<lambda>meta. meta\<lparr>rt_tail := node\<rparr>)) ?pm1"
  have "pm_steps (add_node_code ?l node) pm (drop 2 (add_node_code ?l node)) (write_back RootLine ?pm2)"
    unfolding add_node_code_def by (simp del: pm_exec.simps) (intro steps_evict steps_exec steps_refl)
  moreover have "rt_tail (pl_root (pm_durable (write_back RootLine ?pm2))) = node" by (simp add: write_back_def)
  moreover have "seg (pl_next (pm_durable (write_back RootLine ?pm2))) (rt_head (pl_root (pm_durable (write_back RootLine ?pm2)))) xs 0"
    using assms by (simp add: write_back_def pm_quiet_def group_ok_def)
  ultimately show ?thesis by blast
qed

lemma delete_node_crash_dangling:
  assumes "pm_quiet pm" and "group_ok (pm_cache pm) (as @ prev # node # bs)"
  shows "\<exists>is' pm'. pm_steps (delete_node_code prev node (pl_next (pm_cache pm) node)) pm is' pm' \<and>
    seg (pl_next (pm_durable pm')) (rt_head (pl_root (pm_durable pm'))) (as @ prev # node # bs) 0 \<and>
    node \<notin> pl_live (pm_durable pm')"
proof -
  let ?code = "delete_node_code prev node (pl_next (pm_cache pm) node)"
  have "pm_steps ?code pm (drop 3 ?code) (pm_run (take 3 ?code) pm)"
    unfolding delete_node_code_def by (simp del: pm_exec.simps) (intro steps_exec steps_refl)
  moreover have "seg (pl_next (pm_durable (pm_run (take 3 ?code) pm))) (rt_head (pl_root (pm_durable (pm_run (take 3 ?code) pm))))
      (as @ prev # node # bs) 0"
    using assms by (simp add: delete_node_code_def pm_quiet_def group_ok_def)
  moreover have "node \<notin> pl_live (pm_durable (pm_run (take 3 ?code) pm))" by (simp add: delete_node_code_def)
  ultimately show ?thesis by blast
qed

text \<open>A restart leaves the list alone and every field in DRAM but the group number as the memory happened to be.\<close>

lemma Group_reopen:
  assumes "group_ok (pm_cache pm) xs"
  shows "Group_new lib g0 gid pm = Inr (g0\<lparr>g_gid_dram := gid\<rparr>, pm)"
  using group_ok_exists [OF assms, of lib] by (simp add: Group_new_def)

subsection \<open>Appending to a node\<close>

lemma node_capacity: "unat (LIST_NODE_SIZE_256M - CACHE_LINE_SIZE) = 268435392"
  by (simp add: LIST_NODE_SIZE_256M_def CACHE_LINE_SIZE_def)

lemma canFit_exact:
  assumes "unat off + unat sz < 2 ^ 64"
  shows "canFit off sz \<longleftrightarrow> unat off + unat sz \<le> 268435392"
  using assms node_capacity unat_add_lem [of off sz] by (simp add: canFit_def word_le_nat_alt)

text \<open>Without the bound the sum wraps and a huge write is let through.\<close>

lemma canFit_wraps: "canFit 64 (- 64)"
  by (simp add: canFit_def LIST_NODE_SIZE_256M_def CACHE_LINE_SIZE_def)

text \<open>Appends one after the other, until one does not fit.\<close>

fun append_all :: "(nat \<Rightarrow> byte) \<Rightarrow> u64 \<Rightarrow> bytes list \<Rightarrow> bool \<times> (nat \<Rightarrow> byte) \<times> u64" where
  "append_all node off [] = (True, node, off)"
| "append_all node off (b # bs) =
     (case appendWrite 1 node off b (of_nat (length b)) of
        (True, node', off') \<Rightarrow> append_all node' off' bs
      | (False, node', off') \<Rightarrow> (False, node', off'))"

lemma appendWrite_bytes:
  assumes "unat off + length b \<le> 268435392"
  shows "appendWrite 1 node off b (of_nat (length b)) = (True, write_bytes (unat off) b node, off + of_nat (length b))"
    and "unat (off + of_nat (length b)) = unat off + length b"
proof -
  have n: "unat (of_nat (length b) :: u64) = length b" using assms by (simp add: unat_of_nat take_bit_nat_eq_self)
  with assms show "appendWrite 1 node off b (of_nat (length b)) = (True, write_bytes (unat off) b node, off + of_nat (length b))"
    by (simp add: appendWrite_def canFit_exact)
  show "unat (off + of_nat (length b)) = unat off + length b"
    using assms n unat_add_lem [of off "of_nat (length b)"] by simp
qed

lemma write_bytes_append: "write_bytes (off + length b) c (write_bytes off b node) = write_bytes off (b @ c) node"
  by (auto simp: write_bytes_def fun_eq_iff nth_append)

lemma write_bytes_Nil [simp]: "write_bytes off [] node = node"
  by (auto simp: write_bytes_def fun_eq_iff)

lemma append_all_run:
  assumes "unat off + length (concat bs) \<le> 268435392"
  shows "append_all node off bs = (True, write_bytes (unat off) (concat bs) node, off + of_nat (length (concat bs)))"
  using assms
proof (induction bs arbitrary: node off)
  case (Cons b bs)
  then have "unat off + length b \<le> 268435392" by simp
  note step = appendWrite_bytes [OF this]
  show ?case using Cons.IH [of "off + of_nat (length b)"] Cons.prems step write_bytes_append [of "unat off" b "concat bs" node]
    by (simp add: algebra_simps)
qed simp

subsection \<open>The properties of the partitions\<close>


definition first_free :: pmemobj_lib where
  "first_free = \<lparr>lib_can_grow = (\<lambda>_ _. True), lib_alloc = (\<lambda>p. if 64 \<in> pl_live p then if 128 \<in> pl_live p then None else Some 128 else Some 64)\<rparr>"

definition new_pm :: PM where
  "new_pm = \<lparr>pm_cache = empty_pool, pm_durable = empty_pool, pm_flushed = {}\<rparr>"

definition raw_group :: Group where
  "raw_group = \<lparr>g_gid_dram = 0, g_node_count_dram = 77, g_tail_dram = 5, g_offset_dram = 9\<rparr>"

lemma first_free_ok: "lib_ok first_free" "lib_can_grow first_free sz p"
  by (auto simp: lib_ok_def first_free_def split: if_splits)

lemma new_pm_quiet: "pm_quiet new_pm" "pl_root (pm_cache new_pm) = zero_root"
  by (simp_all add: pm_quiet_def new_pm_def empty_pool_def)

text \<open>The pool with one node that the witnesses use, and the same with a second node allocated.\<close>

definition pm_one :: PM where
  "pm_one = snd (projr (Group_new first_free raw_group 3 new_pm))"

lemma new_pm_group: "Group_new first_free raw_group 3 new_pm = Inr (\<lparr>g_gid_dram = 3, g_node_count_dram = 0, g_tail_dram = 64, g_offset_dram = 0\<rparr>, pm_one)"
  by (simp add: pm_one_def Group_new_def check_list_exist_def new_pm_def empty_pool_def pmemobj_root_def first_free_def zero_root_def
      sizeof_listroot_def sizeof_listnode_def LIST_NODE_SIZE_256M_def alloc_node_def pmemobj_alloc_def raw_group_def Let_def)

lemma pm_one_reach: "group_reach first_free \<lparr>g_gid_dram = 3, g_node_count_dram = 0, g_tail_dram = 64, g_offset_dram = 0\<rparr> pm_one [64]"
proof (rule reach_new [OF new_pm_quiet new_pm_group])
  show "rt_head (pl_root (pm_cache pm_one)) = 64"
    by (simp add: pm_one_def Group_new_def check_list_exist_def new_pm_def empty_pool_def pmemobj_root_def first_free_def zero_root_def
      sizeof_listroot_def sizeof_listnode_def LIST_NODE_SIZE_256M_def alloc_node_def pmemobj_alloc_def raw_group_def Let_def listnode_construct_def)
qed


lemma pm_one_ok: "pm_quiet pm_one" "group_ok (pm_cache pm_one) [64]"
  using group_reach_ok [OF first_free_ok pm_one_reach] by auto

definition pm_alloc :: PM where
  "pm_alloc = snd (snd (projr (alloc_node first_free raw_group pm_one)))"

lemma pm_one_alloc: "\<exists>g. alloc_node first_free raw_group pm_one = Inr (128, g, pm_alloc)"
  by (auto simp: pm_alloc_def alloc_node_def pmemobj_alloc_def first_free_def pm_one_def Group_new_def check_list_exist_def new_pm_def empty_pool_def
      pmemobj_root_def zero_root_def sizeof_listroot_def sizeof_listnode_def LIST_NODE_SIZE_256M_def raw_group_def Let_def
      listnode_construct_def)

lemma pm_alloc_ok: "pm_quiet pm_alloc" "group_ok (pm_cache pm_alloc) [64]" "128 \<in> pl_live (pm_cache pm_alloc)"
  "pl_next (pm_cache pm_alloc) 128 = 0"
  using pm_one_alloc alloc_node_run [OF first_free_ok(1) pm_one_ok(1)] group_ok_alloc [OF pm_one_ok(2), of 128]
  by (auto simp: listnode_construct_def)



text \<open>A restarted partition. When the pool has a list, the constructor of \<open>Group\<close> leaves the pool as it is and sets
  the group number only: the tail pointer, the write offset and the node count in DRAM keep the values the memory held
  before, whatever they were.\<close>

lemma Group_reopen_uninitialised:
  assumes "lib_ok lib" and "\<And>sz p. lib_can_grow lib sz p" and "group_reach lib g pm xs"
  shows "Group_new lib g0 gid pm = Inr (g0\<lparr>g_gid_dram := gid\<rparr>, pm)"
  using Group_reopen group_reach_ok [OF assms] by blast



text \<open>An element type wider than a byte is assigned once, whatever size is asked for, yet the offset moves by the size.\<close>

lemma appendWrite_wide:
  assumes "canFit off sz" and "1 < tsize" and "tsize \<le> i" and "unat off + i < 2 ^ 64"
  shows "\<exists>node'. appendWrite tsize node off buf sz = (True, node', off + sz) \<and> node' (unat off + i) = node (unat off + i)"
  using assms by (auto simp: appendWrite_def write_bytes_def)

lemma make_partitions_shape:
  "map fst (fst (make_partitions lib ng n s)) = map partition_path [0..<n]"
  by (induction n arbitrary: s) (auto simp: Let_def split: prod.splits, metis fst_conv)

end
