(* ===== verification/RandomGen.thy ===== *)
theory RandomGen
  imports Prelude
begin

text \<open>The random number generator of \<open>util/random.h\<close>; its state is the seed.\<close>

definition rnd_M :: u32 where
  "rnd_M = 2147483647"

definition rnd_A :: u64 where
  "rnd_A = 16807"

definition Random_new :: "u32 \<Rightarrow> u32" where
  "Random_new s = (let seed = s AND 0x7fffffff in if seed = 0 \<or> seed = 2147483647 then 1 else seed)"

definition rnd_Next :: "u32 \<Rightarrow> u32 \<times> u32" where
  "rnd_Next seed =
     (let product = ucast seed * rnd_A :: u64;
          seed1 = ucast (drop_bit 31 product + (product AND ucast rnd_M)) :: u32;
          seed2 = (if seed1 > rnd_M then seed1 - rnd_M else seed1)
      in (seed2, seed2))"

text \<open>The argument \<open>n\<close> is a positive \<open>int\<close>, converted to unsigned for the remainder.\<close>

definition rnd_Uniform :: "u32 \<Rightarrow> u32 \<Rightarrow> u32 \<times> u32" where
  "rnd_Uniform n seed = (let (v, seed') = rnd_Next seed in (v mod n, seed'))"

definition rnd_OneIn :: "u32 \<Rightarrow> u32 \<Rightarrow> bool \<times> u32" where
  "rnd_OneIn n seed = (let (v, seed') = rnd_Next seed in (v mod n = 0, seed'))"

definition rnd_Skewed :: "u32 \<Rightarrow> u32 \<Rightarrow> u32 \<times> u32" where
  "rnd_Skewed max_log seed =
     (let (b, seed1) = rnd_Uniform (max_log + 1) seed in rnd_Uniform (push_bit (unat b) 1) seed1)"

subsection \<open>Lemmas\<close>

text \<open>A seed the generator may be in.\<close>

definition seed_ok :: "u32 \<Rightarrow> bool" where
  "seed_ok seed \<longleftrightarrow> 0 < unat seed \<and> unat seed < 2147483647"

lemma seed_ok_new: "seed_ok (Random_new s)"
proof -
  have "unat (s AND mask 31) < 2 ^ 31"
    using take_bit_nat_less_exp [of 31 "unat s"]
    unfolding take_bit_eq_mask [symmetric] by (simp add: unsigned_take_bit_eq)
  then have "unat (s AND 0x7fffffff) < 2147483648" by (simp add: mask_numeral)
  moreover define seed where "seed = s AND 0x7fffffff"
  moreover have "unat seed = 2147483647" if "\<not> unat seed < 2147483647" "unat seed < 2147483648" using that by simp
  then have "seed = 2147483647" if "\<not> unat seed < 2147483647" "unat seed < 2147483648"
    using that by (intro iffD2 [OF word_unat_eq_iff]) simp
  moreover have "0 < unat seed" if "seed \<noteq> 0" using that unat_eq_0 [of seed] by simp
  ultimately have "seed = 0 \<or> seed = 2147483647 \<or> seed_ok seed" unfolding seed_ok_def by metis
  then show ?thesis
    unfolding Random_new_def Let_def seed_def [symmetric] by (auto simp: seed_ok_def [of 1])
qed

text \<open>Adding the high part of the product to the low one is a reduction modulo \<open>2 ^ 31 - 1\<close>.\<close>

lemma mersenne_reduction: "(p div 2147483648 + p mod 2147483648) mod 2147483647 = p mod (2147483647 :: nat)"
proof -
  have "p = (p div 2147483648 + p mod 2147483648) + p div 2147483648 * 2147483647"
    using div_mult_mod_eq [of p 2147483648] by linarith
  then show ?thesis by (metis mod_mult_self1)
qed

lemma rnd_Next_product:
  assumes "seed_ok seed"
  defines "p \<equiv> unat seed * 16807"
  shows "unat (ucast (drop_bit 31 (ucast seed * rnd_A :: u64) + ((ucast seed * rnd_A) AND ucast rnd_M)) :: u32) =
    p div 2147483648 + p mod 2147483648"
proof -
  have p: "p < 2147483647 * 16807" using assms by (simp add: seed_ok_def)
  then have up: "unat (ucast seed * rnd_A :: u64) = p"
    by (simp add: p_def rnd_A_def unat_mult_lem [THEN iffD1] unat_word_ariths)
  have "unat (drop_bit 31 (ucast seed * rnd_A :: u64)) = p div 2147483648"
    using up unat_drop_bit_word [of 31 "ucast seed * rnd_A :: u64"] by simp
  moreover have "unat ((ucast seed * rnd_A :: u64) AND ucast rnd_M) = p mod 2147483648"
  proof -
    have "(ucast rnd_M :: u64) = mask 31" by (simp add: rnd_M_def mask_numeral)
    then show ?thesis
      using up unsigned_take_bit_eq [of 31 "ucast seed * rnd_A :: u64", where 'a = nat]
      by (simp add: take_bit_eq_mod [of 31 p] flip: take_bit_eq_mask)
  qed
  moreover have "p div 2147483648 < 16807" using p by (simp add: less_mult_imp_div_less)
  moreover have "p mod 2147483648 < 2147483648" by simp
  ultimately show ?thesis
    by (simp add: unsigned_ucast_eq unat_word_ariths take_bit_eq_mod)
qed

lemma reduce_once: "s < 2 * m \<Longrightarrow> s \<noteq> m \<Longrightarrow> (if s > m then s - m else s) = s mod (m :: nat)"
  by (auto simp: le_mod_geq)

lemma reduced_seed:
  assumes "0 < (p :: nat)" and "p < 2147483647 * 16807" and "p mod 2147483647 \<noteq> 0"
  shows "(let s = p div 2147483648 + p mod 2147483648 in if s > 2147483647 then s - 2147483647 else s) = p mod 2147483647"
proof -
  let ?s = "p div 2147483648 + p mod 2147483648"
  have "p div 2147483648 < 16807" "p mod 2147483648 < 2147483648"
    using assms(2) by (simp_all add: less_mult_imp_div_less)
  then have "?s < 2 * 2147483647" by linarith
  moreover have "?s mod 2147483647 = p mod 2147483647" by (rule mersenne_reduction)
  moreover have "?s \<noteq> 2147483647" using assms(3) calculation(2) by auto
  ultimately show ?thesis
    unfolding Let_def using reduce_once [of ?s 2147483647] by metis
qed

subsection \<open>The recurrence\<close>

text \<open>The generator computes its recurrence exactly: from a seed in \<open>[1, 2^31 - 2]\<close>, which the constructor
  always gives, the next value is \<open>seed * 16807\<close> modulo \<open>2^31 - 1\<close>, and is again such a seed.\<close>
lemma rnd_Next_correct:
  assumes "seed_ok seed"
  shows "unat (fst (rnd_Next seed)) = unat seed * 16807 mod 2147483647 \<and> seed_ok (snd (rnd_Next seed)) \<and>
    seed_ok (Random_new s)"
proof -
  let ?p = "unat seed * 16807"
  have nz: "?p mod 2147483647 \<noteq> 0"
  proof
    assume "?p mod 2147483647 = 0"
    then have "2147483647 dvd unat seed * 16807" by (simp add: mod_eq_0_iff_dvd)
    moreover have "gcd (2147483647 :: nat) 16807 = 1" by (subst gcd_red_nat, simp)+
    then have "coprime (2147483647 :: nat) 16807" by (simp only: coprime_iff_gcd_eq_1)
    ultimately have "2147483647 dvd unat seed" using coprime_dvd_mult_left_iff by blast
    with assms show False by (auto simp: seed_ok_def dest: dvd_imp_le)
  qed
  have b: "0 < ?p" "?p < 2147483647 * 16807" using assms by (simp_all add: seed_ok_def)
  have "unat (fst (rnd_Next seed)) = ?p mod 2147483647" "snd (rnd_Next seed) = fst (rnd_Next seed)"
    using reduced_seed [OF b nz] rnd_Next_product [OF assms]
    by (auto simp: rnd_Next_def Let_def rnd_M_def word_less_nat_alt unat_sub_if' split: if_splits)
  with nz show ?thesis using seed_ok_new [of s] by (simp add: seed_ok_def)
qed

end
