(* ===== verification/Arena.thy ===== *)
theory Arena
  imports Prelude
begin

text \<open>
  The arena allocator of \<open>util/arena.h\<close> and \<open>util/arena.cc\<close>. Addresses are natural numbers; \<open>new char[n]\<close> is the
  function \<open>new_array\<close>, which from the arrays handed out before and \<open>n\<close> gives the address of the new one.
\<close>

definition arena_kBlockSize :: nat where
  "arena_kBlockSize = 4096"

definition pointer_size :: nat where
  "pointer_size = 8"

type_synonym new_array = "(nat \<times> nat) list \<Rightarrow> nat \<Rightarrow> nat"

text \<open>The blocks are kept with their sizes, the newest last.\<close>

record Arena =
  alloc_ptr :: nat
  alloc_bytes_remaining :: nat
  arena_blocks :: "(nat \<times> nat) list"
  memory_usage :: nat

definition Arena_new :: Arena where
  "Arena_new = \<lparr>alloc_ptr = 0, alloc_bytes_remaining = 0, arena_blocks = [], memory_usage = 0\<rparr>"

definition MemoryUsage :: "Arena \<Rightarrow> nat" where
  "MemoryUsage ar = memory_usage ar"

definition AllocateNewBlock :: "new_array \<Rightarrow> nat \<Rightarrow> Arena \<Rightarrow> nat \<times> Arena" where
  "AllocateNewBlock new_array block_bytes ar =
     (let result = new_array (arena_blocks ar) block_bytes
      in (result, ar\<lparr>arena_blocks := arena_blocks ar @ [(result, block_bytes)],
                     memory_usage := memory_usage ar + block_bytes + pointer_size\<rparr>))"

definition AllocateFallback :: "new_array \<Rightarrow> nat \<Rightarrow> Arena \<Rightarrow> nat \<times> Arena" where
  "AllocateFallback new_array bytes ar =
     (if bytes > arena_kBlockSize div 4 then AllocateNewBlock new_array bytes ar
      else
        (let (p, ar1) = AllocateNewBlock new_array arena_kBlockSize ar
         in (p, ar1\<lparr>alloc_ptr := p + bytes, alloc_bytes_remaining := arena_kBlockSize - bytes\<rparr>)))"

definition Allocate :: "new_array \<Rightarrow> nat \<Rightarrow> Arena \<Rightarrow> nat \<times> Arena" where
  "Allocate new_array bytes ar =
     (if bytes \<le> alloc_bytes_remaining ar then
        (alloc_ptr ar, ar\<lparr>alloc_ptr := alloc_ptr ar + bytes,
                         alloc_bytes_remaining := alloc_bytes_remaining ar - bytes\<rparr>)
      else AllocateFallback new_array bytes ar)"

definition AllocateAligned :: "new_array \<Rightarrow> nat \<Rightarrow> Arena \<Rightarrow> nat \<times> Arena" where
  "AllocateAligned new_array bytes ar =
     (let align = (if pointer_size > 8 then pointer_size else 8);
          current_mod = alloc_ptr ar mod align;
          slop = (if current_mod = 0 then 0 else align - current_mod);
          needed = bytes + slop
      in if needed \<le> alloc_bytes_remaining ar then
           (alloc_ptr ar + slop, ar\<lparr>alloc_ptr := alloc_ptr ar + needed,
                                   alloc_bytes_remaining := alloc_bytes_remaining ar - needed\<rparr>)
         else AllocateFallback new_array bytes ar)"

subsection \<open>Runs of the arena\<close>

text \<open>The allocations of a run with the addresses they returned, the newest first: \<open>True\<close> asks for an aligned
  address.\<close>

fun run_arena :: "new_array \<Rightarrow> (bool \<times> nat) list \<Rightarrow> Arena \<Rightarrow> (nat \<times> nat) list \<Rightarrow> (nat \<times> nat) list \<times> Arena" where
  "run_arena new_array [] ar out = (out, ar)"
| "run_arena new_array ((aligned, bytes) # reqs) ar out =
     (let (p, ar') = (if aligned then AllocateAligned new_array bytes ar else Allocate new_array bytes ar)
      in run_arena new_array reqs ar' ((p, bytes) # out))"

definition region_disjoint :: "nat \<times> nat \<Rightarrow> nat \<times> nat \<Rightarrow> bool" where
  "region_disjoint r1 r2 \<longleftrightarrow> fst r1 + snd r1 \<le> fst r2 \<or> fst r2 + snd r2 \<le> fst r1"

definition region_inside :: "nat \<times> nat \<Rightarrow> nat \<times> nat \<Rightarrow> bool" where
  "region_inside r b \<longleftrightarrow> fst b \<le> fst r \<and> fst r + snd r \<le> fst b + snd b"

text \<open>What the code relies on: a new array overlaps none that is in use and is aligned for any type.\<close>

definition new_array_ok :: "new_array \<Rightarrow> bool" where
  "new_array_ok new_array \<longleftrightarrow>
     (\<forall>blocks n. new_array blocks n mod 8 = 0 \<and> (\<forall>b \<in> set blocks. region_disjoint (new_array blocks n, n) b))"

text \<open>Every region handed out lies in a block, the regions are disjoint, and the unused rest of the current block
  lies in a block and is disjoint from them all.\<close>

definition rest_ok :: "Arena \<Rightarrow> (nat \<times> nat) list \<Rightarrow> bool" where
  "rest_ok ar out \<longleftrightarrow> 0 < alloc_bytes_remaining ar \<longrightarrow>
     (\<forall>r \<in> set out. region_disjoint (alloc_ptr ar, alloc_bytes_remaining ar) r) \<and>
     (\<exists>b \<in> set (arena_blocks ar). region_inside (alloc_ptr ar, alloc_bytes_remaining ar) b)"

definition arena_inv :: "Arena \<Rightarrow> (nat \<times> nat) list \<Rightarrow> bool" where
  "arena_inv ar out \<longleftrightarrow>
     sorted_wrt region_disjoint out \<and>
     (\<forall>r \<in> set out. \<exists>b \<in> set (arena_blocks ar). region_inside r b) \<and>
     rest_ok ar out \<and>
     memory_usage ar = (\<Sum>(_, n) \<leftarrow> arena_blocks ar. n + pointer_size)"

subsection \<open>Lemmas\<close>

lemma region_inside_disjoint: "region_inside r b \<Longrightarrow> region_disjoint b' b \<Longrightarrow> region_disjoint b' r"
  by (auto simp: region_inside_def region_disjoint_def)

lemma region_disjoint_sym: "region_disjoint r b \<longleftrightarrow> region_disjoint b r"
  by (auto simp: region_disjoint_def)

lemma new_block_disjoint:
  assumes "new_array_ok new_array" and "arena_inv ar out" and "r \<in> set out"
  shows "region_disjoint (new_array (arena_blocks ar) n, n) r"
  using assms region_inside_disjoint unfolding arena_inv_def new_array_ok_def by metis

lemma new_block_rest:
  assumes "new_array_ok new_array" and "arena_inv ar out" and "0 < alloc_bytes_remaining ar"
  shows "region_disjoint (new_array (arena_blocks ar) n, n) (alloc_ptr ar, alloc_bytes_remaining ar)"
  using assms region_inside_disjoint unfolding arena_inv_def new_array_ok_def rest_ok_def by metis

lemma arena_inv_fallback:
  assumes new: "new_array_ok new_array" and inv: "arena_inv ar out"
    and alloc: "AllocateFallback new_array bytes ar = (p, ar')"
  shows "arena_inv ar' ((p, bytes) # out) \<and> p mod 8 = 0"
proof (cases "bytes > arena_kBlockSize div 4")
  case True
  with alloc have p: "p = new_array (arena_blocks ar) bytes" and ar': "alloc_ptr ar' = alloc_ptr ar"
    "alloc_bytes_remaining ar' = alloc_bytes_remaining ar" "arena_blocks ar' = arena_blocks ar @ [(p, bytes)]"
    "memory_usage ar' = memory_usage ar + bytes + pointer_size"
    by (auto simp: AllocateFallback_def AllocateNewBlock_def Let_def)
  have "\<forall>r \<in> set out. region_disjoint (p, bytes) r"
    "0 < alloc_bytes_remaining ar \<longrightarrow> region_disjoint (alloc_ptr ar, alloc_bytes_remaining ar) (p, bytes)"
    unfolding p using new_block_disjoint [OF new inv] new_block_rest [OF new inv] region_disjoint_sym by blast+
  moreover have "p mod 8 = 0" unfolding p using new by (simp add: new_array_ok_def)
  ultimately show ?thesis
    using inv by (auto simp: arena_inv_def rest_ok_def ar' region_inside_def)
next
  case False
  with alloc have p: "p = new_array (arena_blocks ar) arena_kBlockSize" and ar': "alloc_ptr ar' = p + bytes"
    "alloc_bytes_remaining ar' = arena_kBlockSize - bytes" "arena_blocks ar' = arena_blocks ar @ [(p, arena_kBlockSize)]"
    "memory_usage ar' = memory_usage ar + arena_kBlockSize + pointer_size"
    by (auto simp: AllocateFallback_def AllocateNewBlock_def Let_def)
  have le: "bytes \<le> arena_kBlockSize" using False by (simp add: arena_kBlockSize_def)
  have d: "region_disjoint (p, arena_kBlockSize) r" if "r \<in> set out" for r
    unfolding p using new_block_disjoint [OF new inv that] .
  have "region_disjoint (p, bytes) r" "region_disjoint (p + bytes, arena_kBlockSize - bytes) r" if "r \<in> set out" for r
    using d [OF that] le by (auto simp: region_disjoint_def)
  moreover have "p mod 8 = 0" unfolding p using new by (simp add: new_array_ok_def)
  ultimately show ?thesis
    using inv le by (auto simp: arena_inv_def rest_ok_def ar' region_inside_def region_disjoint_def [of "(p + bytes, _)" "(p, bytes)"])
qed

lemma arena_inv_bump:
  assumes inv: "arena_inv ar out" and n: "slop + bytes \<le> alloc_bytes_remaining ar" "0 < bytes"
    and ar': "ar' = ar\<lparr>alloc_ptr := alloc_ptr ar + (bytes + slop),
      alloc_bytes_remaining := alloc_bytes_remaining ar - (bytes + slop)\<rparr>"
  shows "arena_inv ar' ((alloc_ptr ar + slop, bytes) # out)"
proof -
  have pos: "0 < alloc_bytes_remaining ar" using n by simp
  from inv pos have d: "region_disjoint (alloc_ptr ar, alloc_bytes_remaining ar) r" if "r \<in> set out" for r
    using that by (simp add: arena_inv_def rest_ok_def)
  have "region_disjoint (alloc_ptr ar + slop, bytes) r"
    "region_disjoint (alloc_ptr ar + (bytes + slop), alloc_bytes_remaining ar - (bytes + slop)) r" if "r \<in> set out" for r
    using d [OF that] n by (auto simp: region_disjoint_def)
  moreover obtain b where "b \<in> set (arena_blocks ar)" "region_inside (alloc_ptr ar, alloc_bytes_remaining ar) b"
    using inv pos by (auto simp: arena_inv_def rest_ok_def)
  moreover from this n have "region_inside (alloc_ptr ar + slop, bytes) b"
    "region_inside (alloc_ptr ar + (bytes + slop), alloc_bytes_remaining ar - (bytes + slop)) b"
    by (auto simp: region_inside_def)
  ultimately show ?thesis
    using inv by (auto simp: arena_inv_def rest_ok_def ar' region_disjoint_def [of "(alloc_ptr ar + (bytes + slop), _)" "(_, bytes)"])
qed

lemma slop_aligned: "(p + (if p mod 8 = 0 then 0 else 8 - p mod 8)) mod 8 = (0 :: nat)"
  by presburger

lemma arena_inv_allocate:
  assumes "new_array_ok new_array" and "arena_inv ar out" and "0 < bytes" and "Allocate new_array bytes ar = (p, ar')"
  shows "arena_inv ar' ((p, bytes) # out)"
  using assms arena_inv_fallback [of new_array ar out bytes p ar'] arena_inv_bump [of ar out 0 bytes]
  by (auto simp: Allocate_def split: if_splits)

lemma arena_inv_aligned:
  assumes "new_array_ok new_array" and "arena_inv ar out" and "0 < bytes" and "AllocateAligned new_array bytes ar = (p, ar')"
  shows "arena_inv ar' ((p, bytes) # out) \<and> p mod 8 = 0"
proof -
  let ?slop = "if alloc_ptr ar mod 8 = 0 then 0 else 8 - alloc_ptr ar mod 8"
  have align: "(if (8::nat) > 8 then 8 else 8) = (8::nat)" by simp
  show ?thesis
  proof (cases "bytes + ?slop \<le> alloc_bytes_remaining ar")
    case True
    with assms(4) have "p = alloc_ptr ar + ?slop"
      "ar' = ar\<lparr>alloc_ptr := alloc_ptr ar + (bytes + ?slop), alloc_bytes_remaining := alloc_bytes_remaining ar - (bytes + ?slop)\<rparr>"
      unfolding AllocateAligned_def Let_def pointer_size_def align by (auto simp only: if_True prod.inject)
    with arena_inv_bump [OF assms(2) _ assms(3), of ?slop ar'] slop_aligned [of "alloc_ptr ar"] True show ?thesis
      by (metis add.commute)
  next
    case False
    with assms(4) have "AllocateFallback new_array bytes ar = (p, ar')"
      unfolding AllocateAligned_def Let_def pointer_size_def align by (simp only: if_False)
    with arena_inv_fallback [OF assms(1,2)] show ?thesis by blast
  qed
qed

lemma run_arena_inv:
  assumes "new_array_ok new_array" and "arena_inv ar out" and "\<forall>(_, n) \<in> set reqs. 0 < n"
    and "run_arena new_array reqs ar out = (out', ar')"
  shows "arena_inv ar' out'"
  using assms(2-4)
proof (induction reqs arbitrary: ar out)
  case (Cons req reqs)
  obtain aligned bytes where req: "req = (aligned, bytes)" by fastforce
  obtain p ar1 where a: "(if aligned then AllocateAligned new_array bytes ar else Allocate new_array bytes ar) = (p, ar1)" by fastforce
  with Cons.prems req arena_inv_allocate [OF assms(1)] arena_inv_aligned [OF assms(1)]
  have "arena_inv ar1 ((p, bytes) # out)" by (auto split: if_splits)
  with Cons a req show ?case by simp
qed simp

subsection \<open>Properties\<close>

text \<open>C23: Over any run of allocations of at least one byte, given that \<open>new[]\<close> returns fresh aligned memory, the
  regions the arena hands out are pairwise disjoint and lie within its blocks, an aligned allocation is aligned to
  eight bytes, and the memory usage is the total size of the blocks and of the pointers to them.\<close>
theorem arena_safe:
  assumes "new_array_ok new_array" and "\<forall>(_, n) \<in> set reqs. 0 < n"
    and "run_arena new_array reqs Arena_new [] = (out, ar)"
  shows "sorted_wrt region_disjoint out \<and> (\<forall>r \<in> set out. \<exists>b \<in> set (arena_blocks ar). region_inside r b) \<and>
    MemoryUsage ar = (\<Sum>(_, n) \<leftarrow> arena_blocks ar. n + pointer_size) \<and>
    (\<forall>n. 0 < n \<longrightarrow> fst (AllocateAligned new_array n ar) mod 8 = 0)"
proof -
  have inv: "arena_inv ar out"
    using run_arena_inv [OF assms(1) _ assms(2,3)] by (simp add: arena_inv_def rest_ok_def Arena_new_def)
  have "fst (AllocateAligned new_array n ar) mod 8 = 0" if "0 < n" for n
    using arena_inv_aligned [OF assms(1) inv that] by (metis prod.collapse)
  with inv show ?thesis by (simp add: arena_inv_def MemoryUsage_def)
qed

text \<open>An allocator of this kind: the new array is put above all earlier ones.\<close>

definition bump_new :: new_array where
  "bump_new blocks n = (\<Sum>(p, k) \<leftarrow> blocks. p + k) * 8"

lemma bump_new_ok: "new_array_ok bump_new"
proof -
  have "p + k \<le> (\<Sum>(p, k) \<leftarrow> blocks. p + k)" if "(p, k) \<in> set blocks" for p k and blocks :: "(nat \<times> nat) list"
    using that member_le_sum_list [of "p + k" "map (\<lambda>(p, k). p + k) blocks"] by force
  then show ?thesis unfolding new_array_ok_def bump_new_def region_disjoint_def by fastforce
qed

theorem arena_safe_witness:
  "sorted_wrt region_disjoint (fst (run_arena bump_new [(True, 24), (False, 5), (True, 5000)] Arena_new []))"
  using arena_safe [OF bump_new_ok, of "[(True, 24), (False, 5), (True, 5000)]"]
  by (metis (no_types, lifting) prod.collapse list.set case_prod_conv insertE singletonD empty_iff zero_less_numeral)

end
