(* ===== verification/SkipList.thy ===== *)
theory SkipList
  imports RandomGen Arena
begin

text \<open>
  The skip list of \<open>db/skiplist.h\<close>. A node is its address; \<open>compare_\<close> is the function \<open>cmp\<close> and the arena's aligned
  allocation the function \<open>alloc\<close> over the state of the arena. The loops, which the code leaves only by a return, are
  partial functions. Loads and stores of the links are atomic and take effect in program order.
\<close>

subsection \<open>Nodes\<close>

definition kMaxHeight :: nat where
  "kMaxHeight = 12"

record 'k SkipList =
  sl_head :: nat
  sl_key :: "nat \<Rightarrow> 'k"
  sl_next :: "nat \<Rightarrow> nat \<Rightarrow> nat option"
  sl_max_height :: nat
  sl_rnd :: u32

definition Node_Next :: "nat \<Rightarrow> nat \<Rightarrow> 'k SkipList \<Rightarrow> nat option" where
  "Node_Next x n sl = sl_next sl x n"

definition Node_SetNext :: "nat \<Rightarrow> nat \<Rightarrow> nat option \<Rightarrow> 'k SkipList \<Rightarrow> 'k SkipList" where
  "Node_SetNext x n y sl = sl\<lparr>sl_next := (sl_next sl)(x := (sl_next sl x)(n := y))\<rparr>"

definition sizeof_Node :: nat where
  "sizeof_Node = 8 + pointer_size"

definition NewNode :: "(nat \<Rightarrow> 'a \<Rightarrow> nat \<times> 'a) \<Rightarrow> 'k \<Rightarrow> nat \<Rightarrow> 'k SkipList \<Rightarrow> 'a \<Rightarrow> nat \<times> 'k SkipList \<times> 'a" where
  "NewNode alloc key height sl ar =
     (let (x, ar') = alloc (sizeof_Node + pointer_size * (height - 1)) ar
      in (x, sl\<lparr>sl_key := (sl_key sl)(x := key)\<rparr>, ar'))"

text \<open>The constructor; \<open>mem\<close> is what the memory of the links holds before they are set, \<open>any\<close> the key of the head.\<close>

definition SkipList_new ::
    "(nat \<Rightarrow> 'a \<Rightarrow> nat \<times> 'a) \<Rightarrow> 'k \<Rightarrow> (nat \<Rightarrow> nat \<Rightarrow> nat option) \<Rightarrow> 'a \<Rightarrow> 'k SkipList \<times> 'a" where
  "SkipList_new alloc any mem ar =
     (let (head, ar') = alloc (sizeof_Node + pointer_size * (kMaxHeight - 1)) ar;
          sl = \<lparr>sl_head = head, sl_key = (\<lambda>_. any), sl_next = mem, sl_max_height = 1, sl_rnd = Random_new 0xdeadbeef\<rparr>
      in (fold (\<lambda>i. Node_SetNext head i None) [0..<kMaxHeight] sl, ar'))"

definition kBranching :: u32 where
  "kBranching = 4"

function RandomHeight_loop :: "nat \<Rightarrow> u32 \<Rightarrow> nat \<times> u32" where
  "RandomHeight_loop height rnd =
     (if height < kMaxHeight then
        (let (b, rnd') = rnd_OneIn kBranching rnd in if b then RandomHeight_loop (height + 1) rnd' else (height, rnd'))
      else (height, rnd))"
  by auto
termination by (relation "measure (\<lambda>(height, _). kMaxHeight - height)") auto

declare RandomHeight_loop.simps [simp del]

definition RandomHeight :: "u32 \<Rightarrow> nat \<times> u32" where
  "RandomHeight rnd = RandomHeight_loop 1 rnd"

subsection \<open>Searches\<close>

definition KeyIsAfterNode :: "('k \<Rightarrow> 'k \<Rightarrow> int) \<Rightarrow> 'k \<Rightarrow> nat option \<Rightarrow> 'k SkipList \<Rightarrow> bool" where
  "KeyIsAfterNode cmp key n sl = (case n of None \<Rightarrow> False | Some y \<Rightarrow> cmp (sl_key sl y) key < 0)"

text \<open>One turn of the loop of \<open>FindGreaterOrEqual\<close>: the next position and array, or the result.\<close>

definition find_ge_turn ::
    "('k \<Rightarrow> 'k \<Rightarrow> int) \<Rightarrow> 'k \<Rightarrow> 'k SkipList \<Rightarrow> nat \<Rightarrow> nat \<Rightarrow> (nat \<Rightarrow> nat) \<Rightarrow>
     (nat \<times> nat \<times> (nat \<Rightarrow> nat)) + (nat option \<times> (nat \<Rightarrow> nat))" where
  "find_ge_turn cmp key sl x level prev =
     (let nxt = Node_Next x level sl
      in if KeyIsAfterNode cmp key nxt sl then Inl (the nxt, level, prev)
         else if level = 0 then Inr (nxt, prev(level := x))
         else Inl (x, level - 1, prev(level := x)))"

partial_function (option) find_ge_loop ::
    "('k \<Rightarrow> 'k \<Rightarrow> int) \<Rightarrow> 'k \<Rightarrow> 'k SkipList \<Rightarrow> nat \<Rightarrow> nat \<Rightarrow> (nat \<Rightarrow> nat) \<Rightarrow> (nat option \<times> (nat \<Rightarrow> nat)) option" where
  "find_ge_loop cmp key sl x level prev =
     (case find_ge_turn cmp key sl x level prev of
        Inl (x', level', prev') \<Rightarrow> find_ge_loop cmp key sl x' level' prev'
      | Inr res \<Rightarrow> Some res)"

definition FindGreaterOrEqual ::
    "('k \<Rightarrow> 'k \<Rightarrow> int) \<Rightarrow> 'k \<Rightarrow> (nat \<Rightarrow> nat) \<Rightarrow> 'k SkipList \<Rightarrow> (nat option \<times> (nat \<Rightarrow> nat)) option" where
  "FindGreaterOrEqual cmp key prev sl = find_ge_loop cmp key sl (sl_head sl) (sl_max_height sl - 1) prev"

partial_function (option) find_lt_loop :: "('k \<Rightarrow> 'k \<Rightarrow> int) \<Rightarrow> 'k \<Rightarrow> 'k SkipList \<Rightarrow> nat \<Rightarrow> nat \<Rightarrow> nat option" where
  "find_lt_loop cmp key sl x level =
     (case Node_Next x level sl of
        None \<Rightarrow> if level = 0 then Some x else find_lt_loop cmp key sl x (level - 1)
      | Some nxt \<Rightarrow>
          if cmp (sl_key sl nxt) key \<ge> 0 then
            if level = 0 then Some x else find_lt_loop cmp key sl x (level - 1)
          else find_lt_loop cmp key sl nxt level)"

definition FindLessThan :: "('k \<Rightarrow> 'k \<Rightarrow> int) \<Rightarrow> 'k \<Rightarrow> 'k SkipList \<Rightarrow> nat option" where
  "FindLessThan cmp key sl = find_lt_loop cmp key sl (sl_head sl) (sl_max_height sl - 1)"

partial_function (option) find_last_loop :: "'k SkipList \<Rightarrow> nat \<Rightarrow> nat \<Rightarrow> nat option" where
  "find_last_loop sl x level =
     (case Node_Next x level sl of
        None \<Rightarrow> if level = 0 then Some x else find_last_loop sl x (level - 1)
      | Some nxt \<Rightarrow> find_last_loop sl nxt level)"

definition FindLast :: "'k SkipList \<Rightarrow> nat option" where
  "FindLast sl = find_last_loop sl (sl_head sl) (sl_max_height sl - 1)"

subsection \<open>Insertion and membership\<close>

text \<open>\<open>Insert\<close> up to its last loop: the search, the height, the new levels of the head and the new node.\<close>

definition Insert_prepare ::
    "('k \<Rightarrow> 'k \<Rightarrow> int) \<Rightarrow> (nat \<Rightarrow> 'a \<Rightarrow> nat \<times> 'a) \<Rightarrow> 'k \<Rightarrow> 'k SkipList \<Rightarrow> 'a \<Rightarrow>
     (nat \<times> nat \<times> (nat \<Rightarrow> nat) \<times> 'k SkipList \<times> 'a) option" where
  "Insert_prepare cmp alloc key sl ar =
     (case FindGreaterOrEqual cmp key (\<lambda>_. 0) sl of
        None \<Rightarrow> None
      | Some (_, prev) \<Rightarrow>
          (let (height, rnd') = RandomHeight (sl_rnd sl);
               sl1 = sl\<lparr>sl_rnd := rnd'\<rparr>;
               (prev', sl2) =
                 (if height > sl_max_height sl1 then
                    (\<lambda>i. if sl_max_height sl1 \<le> i \<and> i < height then sl_head sl1 else prev i, sl1\<lparr>sl_max_height := height\<rparr>)
                  else (prev, sl1));
               (x, sl3, ar') = NewNode alloc key height sl2 ar
           in Some (x, height, prev', sl3, ar')))"

definition Insert_link :: "nat \<Rightarrow> (nat \<Rightarrow> nat) \<Rightarrow> nat \<Rightarrow> 'k SkipList \<Rightarrow> 'k SkipList" where
  "Insert_link x prev i sl =
     (let sl1 = Node_SetNext x i (Node_Next (prev i) i sl) sl in Node_SetNext (prev i) i (Some x) sl1)"

definition Insert ::
    "('k \<Rightarrow> 'k \<Rightarrow> int) \<Rightarrow> (nat \<Rightarrow> 'a \<Rightarrow> nat \<times> 'a) \<Rightarrow> 'k \<Rightarrow> 'k SkipList \<Rightarrow> 'a \<Rightarrow> ('k SkipList \<times> 'a) option" where
  "Insert cmp alloc key sl ar =
     (case Insert_prepare cmp alloc key sl ar of
        None \<Rightarrow> None
      | Some (x, height, prev, sl1, ar') \<Rightarrow> Some (fold (Insert_link x prev) [0..<height] sl1, ar'))"

definition Contains :: "('k \<Rightarrow> 'k \<Rightarrow> int) \<Rightarrow> 'k \<Rightarrow> 'k SkipList \<Rightarrow> bool option" where
  "Contains cmp key sl =
     (case FindGreaterOrEqual cmp key (\<lambda>_. 0) sl of
        None \<Rightarrow> None
      | Some (x, _) \<Rightarrow> Some (case x of None \<Rightarrow> False | Some y \<Rightarrow> cmp key (sl_key sl y) = 0))"

subsection \<open>The iterator\<close>

text \<open>The position of an iterator is its node, or \<^term>\<open>None\<close> when it is not valid. \<open>key\<close>, \<open>Next\<close> and \<open>Prev\<close> need a valid
  position.\<close>

definition Iter_Valid :: "nat option \<Rightarrow> bool" where
  "Iter_Valid node \<longleftrightarrow> node \<noteq> None"

definition Iter_key :: "'k SkipList \<Rightarrow> nat option \<Rightarrow> 'k" where
  "Iter_key sl node = sl_key sl (the node)"

definition Iter_Next :: "'k SkipList \<Rightarrow> nat option \<Rightarrow> nat option" where
  "Iter_Next sl node = Node_Next (the node) 0 sl"

definition Iter_Prev :: "('k \<Rightarrow> 'k \<Rightarrow> int) \<Rightarrow> 'k SkipList \<Rightarrow> nat option \<Rightarrow> nat option option" where
  "Iter_Prev cmp sl node =
     (case FindLessThan cmp (sl_key sl (the node)) sl of
        None \<Rightarrow> None
      | Some x \<Rightarrow> Some (if x = sl_head sl then None else Some x))"

definition Iter_Seek :: "('k \<Rightarrow> 'k \<Rightarrow> int) \<Rightarrow> 'k \<Rightarrow> 'k SkipList \<Rightarrow> nat option option" where
  "Iter_Seek cmp target sl = map_option fst (FindGreaterOrEqual cmp target (\<lambda>_. 0) sl)"

definition Iter_SeekToFirst :: "'k SkipList \<Rightarrow> nat option" where
  "Iter_SeekToFirst sl = Node_Next (sl_head sl) 0 sl"

definition Iter_SeekToLast :: "'k SkipList \<Rightarrow> nat option option" where
  "Iter_SeekToLast sl =
     (case FindLast sl of
        None \<Rightarrow> None
      | Some x \<Rightarrow> Some (if x = sl_head sl then None else Some x))"

subsection \<open>The links of one level\<close>

definition first_opt :: "'b list \<Rightarrow> 'b option" where
  "first_opt xs = (case xs of [] \<Rightarrow> None | a # _ \<Rightarrow> Some a)"

fun lpath :: "(nat \<Rightarrow> nat option) \<Rightarrow> nat \<Rightarrow> nat list \<Rightarrow> bool" where
  "lpath nx a [] \<longleftrightarrow> nx a = None"
| "lpath nx a (b # bs) \<longleftrightarrow> nx a = Some b \<and> lpath nx b bs"

lemma first_opt_simps [simp]: "first_opt [] = None" "first_opt (a # as) = Some a" "first_opt xs = None \<longleftrightarrow> xs = []"
  by (auto simp: first_opt_def split: list.splits)

lemma lpath_append: "lpath nx a (as @ bs) \<Longrightarrow> lpath nx (last (a # as)) bs"
  by (induction as arbitrary: a) auto

lemma lpath_next: "lpath nx a (as @ bs) \<Longrightarrow> nx (last (a # as)) = first_opt bs"
  using lpath_append [of nx a as bs] by (cases bs) auto

lemma lpath_cong: "(\<And>b. b \<in> set (a # as) \<Longrightarrow> nx b = nx' b) \<Longrightarrow> lpath nx a as = lpath nx' a as"
  by (induction as arbitrary: a) auto

lemma lpath_insert:
  assumes "lpath nx a (as @ bs)" and "x \<notin> set (a # as @ bs)" and "distinct (a # as @ bs)"
  shows "lpath (nx(x := nx (last (a # as)), last (a # as) := Some x)) a (as @ x # bs)"
  using assms
proof (induction as arbitrary: a)
  case Nil
  show ?case
  proof (cases bs)
    case (Cons b cs)
    define nx' where "nx' = nx(x := nx a, a := Some x)"
    have "lpath nx' b cs = lpath nx b cs" using Nil Cons by (intro lpath_cong) (auto simp: nx'_def)
    moreover have "nx' a = Some x" "nx' x = nx a" using Nil by (simp_all add: nx'_def)
    ultimately have "lpath nx' a (x # bs)" using Nil Cons by simp
    then show ?thesis unfolding nx'_def by (simp only: last_ConsL append_Nil)
  qed (use Nil in auto)
next
  case (Cons b as)
  then have "last (b # as) \<noteq> a" using last_in_set [of "b # as"] by auto
  with Cons show ?case by (auto simp: fun_upd_twist)
qed

lemma lpath_unique: "lpath nx a as \<Longrightarrow> lpath nx a bs \<Longrightarrow> as = bs"
proof (induction as arbitrary: a bs)
  case Nil
  then show ?case by (cases bs) auto
next
  case (Cons b as)
  then show ?case by (cases bs) auto
qed

subsection \<open>The invariant\<close>

text \<open>\<open>ns\<close> are the nodes in the order of their keys and \<open>h\<close> their heights: level \<open>l\<close> links the nodes higher than \<open>l\<close>.\<close>

definition sl_paths :: "'k SkipList \<Rightarrow> nat list \<Rightarrow> (nat \<Rightarrow> nat) \<Rightarrow> bool" where
  "sl_paths sl ns h \<longleftrightarrow> (\<forall>l < kMaxHeight. lpath (\<lambda>n. Node_Next n l sl) (sl_head sl) (filter (\<lambda>n. l < h n) ns))"

definition sl_inv :: "('k \<Rightarrow> 'k \<Rightarrow> int) \<Rightarrow> ('k \<Rightarrow> bool) \<Rightarrow> 'k SkipList \<Rightarrow> nat list \<Rightarrow> (nat \<Rightarrow> nat) \<Rightarrow> bool" where
  "sl_inv cmp valid sl ns h \<longleftrightarrow>
     sl_paths sl ns h \<and> distinct (sl_head sl # ns) \<and>
     sorted_wrt (\<lambda>a b. cmp (sl_key sl a) (sl_key sl b) < 0) ns \<and>
     (\<forall>n \<in> set ns. valid (sl_key sl n) \<and> 1 \<le> h n \<and> h n \<le> sl_max_height sl) \<and>
     1 \<le> sl_max_height sl \<and> sl_max_height sl \<le> kMaxHeight"

text \<open>The nodes before and from a key on.\<close>

definition sl_below :: "('k \<Rightarrow> 'k \<Rightarrow> int) \<Rightarrow> 'k \<Rightarrow> 'k SkipList \<Rightarrow> nat list \<Rightarrow> nat list" where
  "sl_below cmp key sl ns = filter (\<lambda>n. cmp (sl_key sl n) key < 0) ns"

definition sl_above :: "('k \<Rightarrow> 'k \<Rightarrow> int) \<Rightarrow> 'k \<Rightarrow> 'k SkipList \<Rightarrow> nat list \<Rightarrow> nat list" where
  "sl_above cmp key sl ns = filter (\<lambda>n. \<not> cmp (sl_key sl n) key < 0) ns"

definition sl_pred :: "'k SkipList \<Rightarrow> (nat \<Rightarrow> nat) \<Rightarrow> nat list \<Rightarrow> nat \<Rightarrow> nat" where
  "sl_pred sl h as l = last (sl_head sl # filter (\<lambda>n. l < h n) as)"

text \<open>What the list needs of its comparator and of its allocator.\<close>

locale key_order =
  fixes cmp :: "'k \<Rightarrow> 'k \<Rightarrow> int" and valid :: "'k \<Rightarrow> bool"
  assumes cmp_sym: "\<lbrakk>valid a; valid b\<rbrakk> \<Longrightarrow> sgn (cmp b a) = - sgn (cmp a b)"
    and cmp_le_trans: "\<lbrakk>valid a; valid b; valid c; cmp a b \<le> 0; cmp b c \<le> 0\<rbrakk> \<Longrightarrow> cmp a c \<le> 0"
begin

lemma cmp_flip:
  assumes "valid a" and "valid b"
  shows "cmp a b < 0 \<longleftrightarrow> 0 < cmp b a" and "cmp a b = 0 \<longleftrightarrow> cmp b a = 0"
  using cmp_sym [OF assms] by (auto simp: sgn_if split: if_splits)

lemma cmp_less_le_trans:
  assumes "valid a" "valid b" "valid c" "cmp a b < 0" "cmp b c \<le> 0"
  shows "cmp a c < 0"
proof (rule ccontr)
  assume "\<not> cmp a c < 0"
  then have "cmp c a \<le> 0" using cmp_flip [of a c] cmp_flip [of c a] assms by force
  with cmp_le_trans [of b c a] assms have "cmp b a \<le> 0" by blast
  with assms cmp_flip [of a b] show False by simp
qed

lemma cmp_less_trans: "\<lbrakk>valid a; valid b; valid c; cmp a b < 0; cmp b c < 0\<rbrakk> \<Longrightarrow> cmp a c < 0"
  using cmp_less_le_trans [of a b c] by simp

lemma sorted_split:
  assumes "sorted_wrt (\<lambda>a b. cmp (sl_key sl a) (sl_key sl b) < 0) ns" and "\<forall>n \<in> set ns. valid (sl_key sl n)" and "valid key"
  shows "ns = sl_below cmp key sl ns @ sl_above cmp key sl ns"
  using assms(1,2)
proof (induction ns)
  case (Cons n ns)
  show ?case
  proof (cases "cmp (sl_key sl n) key < 0")
    case True
    with Cons show ?thesis by (simp add: sl_below_def sl_above_def)
  next
    case False
    have "\<not> cmp (sl_key sl m) key < 0" if "m \<in> set ns" for m
      using cmp_less_trans [of "sl_key sl n" "sl_key sl m" key] that Cons.prems False assms(3) by auto
    then have "sl_below cmp key sl ns = []" by (simp add: sl_below_def)
    with Cons False show ?thesis by (simp add: sl_below_def sl_above_def)
  qed
qed (simp add: sl_below_def sl_above_def)

lemma inv_split: "\<lbrakk>sl_inv cmp valid sl ns h; valid key\<rbrakk> \<Longrightarrow> ns = sl_below cmp key sl ns @ sl_above cmp key sl ns"
  using sorted_split by (auto simp: sl_inv_def)

end

locale node_allocator =
  fixes alloc :: "nat \<Rightarrow> 'a \<Rightarrow> nat \<times> 'a" and used :: "'a \<Rightarrow> nat set \<Rightarrow> bool"
  assumes alloc_fresh: "\<lbrakk>used ar S; 0 < n; alloc n ar = (p, ar')\<rbrakk> \<Longrightarrow> p \<notin> S \<and> used ar' (insert p S)"

subsection \<open>Searches on one level\<close>

lemma find_ge_level:
  assumes "lpath (\<lambda>n. Node_Next n level sl) x (as @ bs)" and "\<forall>a \<in> set as. cmp (sl_key sl a) key < 0"
    and "\<forall>b \<in> set bs. \<not> cmp (sl_key sl b) key < 0"
  shows "find_ge_loop cmp key sl x level prev =
    (let y = last (x # as)
     in if level = 0 then Some (first_opt bs, prev(level := y)) else find_ge_loop cmp key sl y (level - 1) (prev(level := y)))"
  using assms
proof (induction as arbitrary: x)
  case Nil
  then have "Node_Next x level sl = first_opt bs" using lpath_next [of _ x "[]" bs] by simp
  with Nil show ?case
    by (subst find_ge_loop.simps) (cases bs; auto simp: find_ge_turn_def KeyIsAfterNode_def)
next
  case (Cons a as)
  then show ?case by (subst find_ge_loop.simps) (simp add: find_ge_turn_def KeyIsAfterNode_def)
qed

lemma find_lt_level:
  assumes "lpath (\<lambda>n. Node_Next n level sl) x (as @ bs)" and "\<forall>a \<in> set as. cmp (sl_key sl a) key < 0"
    and "\<forall>b \<in> set bs. \<not> cmp (sl_key sl b) key < 0"
  shows "find_lt_loop cmp key sl x level =
    (let y = last (x # as) in if level = 0 then Some y else find_lt_loop cmp key sl y (level - 1))"
  using assms
proof (induction as arbitrary: x)
  case Nil
  then have "Node_Next x level sl = first_opt bs" using lpath_next [of _ x "[]" bs] by simp
  with Nil show ?case by (subst find_lt_loop.simps) (cases bs; auto)
next
  case (Cons a as)
  then show ?case by (subst find_lt_loop.simps) simp
qed

lemma find_last_level:
  assumes "lpath (\<lambda>n. Node_Next n level sl) x as"
  shows "find_last_loop sl x level = (let y = last (x # as) in if level = 0 then Some y else find_last_loop sl y (level - 1))"
  using assms
proof (induction as arbitrary: x)
  case Nil
  then show ?case by (subst find_last_loop.simps) simp
next
  case (Cons a as)
  then show ?case by (subst find_last_loop.simps) simp
qed

text \<open>A node of a level can also be found on the level below, and the rest of the level starts from it.\<close>

definition sl_at :: "'k SkipList \<Rightarrow> (nat \<Rightarrow> nat) \<Rightarrow> nat list \<Rightarrow> nat \<Rightarrow> nat \<Rightarrow> bool" where
  "sl_at sl h as x l \<longleftrightarrow> x = sl_head sl \<or> x \<in> set as \<and> l < h x"

lemma sl_at_rest:
  assumes "sl_paths sl (as @ bs) h" and "l < kMaxHeight" and "sl_at sl h as x l"
  shows "\<exists>cs. lpath (\<lambda>n. Node_Next n l sl) x (cs @ filter (\<lambda>n. l < h n) bs) \<and> set cs \<subseteq> set (filter (\<lambda>n. l < h n) as) \<and> last (x # cs) = sl_pred sl h as l"
proof (cases "x = sl_head sl")
  case True
  with assms show ?thesis by (intro exI [of _ "filter (\<lambda>n. l < h n) as"]) (auto simp: sl_paths_def sl_pred_def)
next
  case False
  with assms(3) have "x \<in> set (filter (\<lambda>n. l < h n) as)" by (simp add: sl_at_def)
  then obtain ps qs where pq: "filter (\<lambda>n. l < h n) as = ps @ x # qs" by (meson split_list)
  have "lpath (\<lambda>n. Node_Next n l sl) (sl_head sl) ((ps @ [x]) @ (qs @ filter (\<lambda>n. l < h n) bs))"
    using assms(1,2) pq by (auto simp: sl_paths_def)
  from lpath_append [OF this] have "lpath (\<lambda>n. Node_Next n l sl) x (qs @ filter (\<lambda>n. l < h n) bs)" by simp
  then show ?thesis unfolding sl_pred_def pq by (intro exI [of _ qs]) auto
qed

lemma sl_at_pred: "sl_at sl h as (sl_pred sl h as (Suc l)) l"
proof (cases "filter (\<lambda>n. Suc l < h n) as = []")
  case False
  then have "sl_pred sl h as (Suc l) \<in> set (filter (\<lambda>n. Suc l < h n) as)" by (metis last.simps last_in_set sl_pred_def)
  then show ?thesis by (auto simp: sl_at_def)
qed (simp add: sl_at_def sl_pred_def)

lemma find_ge_run:
  assumes paths: "sl_paths sl (as @ bs) h" and "\<forall>a \<in> set as. cmp (sl_key sl a) key < 0" and "\<forall>b \<in> set bs. \<not> cmp (sl_key sl b) key < 0"
    and "l < kMaxHeight" and "sl_at sl h as x l" and pos: "\<forall>b \<in> set bs. 0 < h b"
  shows "\<exists>prev'. find_ge_loop cmp key sl x l prev = Some (first_opt bs, prev') \<and>
    (\<forall>k. prev' k = (if k \<le> l then sl_pred sl h as k else prev k))"
  using assms(4,5)
proof (induction l arbitrary: x prev)
  case 0
  obtain cs where cs: "lpath (\<lambda>n. Node_Next n 0 sl) x (cs @ filter (\<lambda>n. 0 < h n) bs)" "set cs \<subseteq> set (filter (\<lambda>n. 0 < h n) as)" "last (x # cs) = sl_pred sl h as 0"
    using sl_at_rest [OF paths 0] by blast
  have bs: "filter (\<lambda>n. 0 < h n) bs = bs" using pos by simp
  show ?case using find_ge_level [OF cs(1), where cmp = cmp and key = key and prev = prev] cs assms(2,3) unfolding bs by (auto simp: subset_iff)
next
  case (Suc l)
  obtain cs where cs: "lpath (\<lambda>n. Node_Next n (Suc l) sl) x (cs @ filter (\<lambda>n. Suc l < h n) bs)" "set cs \<subseteq> set (filter (\<lambda>n. Suc l < h n) as)"
    "last (x # cs) = sl_pred sl h as (Suc l)"
    using sl_at_rest [OF paths Suc.prems] by blast
  have "find_ge_loop cmp key sl x (Suc l) prev = find_ge_loop cmp key sl (sl_pred sl h as (Suc l)) l (prev(Suc l := sl_pred sl h as (Suc l)))"
    using find_ge_level [OF cs(1), where cmp = cmp and key = key and prev = prev] cs assms(2,3) by (auto simp: subset_iff Let_def)
  moreover obtain prev' where "find_ge_loop cmp key sl (sl_pred sl h as (Suc l)) l (prev(Suc l := sl_pred sl h as (Suc l))) = Some (first_opt bs, prev')"
    "\<forall>k. prev' k = (if k \<le> l then sl_pred sl h as k else (prev(Suc l := sl_pred sl h as (Suc l))) k)"
    using Suc.IH [OF _ sl_at_pred] Suc.prems(1) by (meson Suc_lessD)
  ultimately show ?case by (auto simp: le_Suc_eq)
qed

lemma find_lt_run:
  assumes paths: "sl_paths sl (as @ bs) h" and "\<forall>a \<in> set as. cmp (sl_key sl a) key < 0" and "\<forall>b \<in> set bs. \<not> cmp (sl_key sl b) key < 0"
    and "l < kMaxHeight" and "sl_at sl h as x l"
  shows "find_lt_loop cmp key sl x l = Some (sl_pred sl h as 0)"
  using assms(4,5)
proof (induction l arbitrary: x)
  case 0
  obtain cs where cs: "lpath (\<lambda>n. Node_Next n 0 sl) x (cs @ filter (\<lambda>n. 0 < h n) bs)" "set cs \<subseteq> set (filter (\<lambda>n. 0 < h n) as)" "last (x # cs) = sl_pred sl h as 0"
    using sl_at_rest [OF paths 0] by blast
  then show ?case using find_lt_level [OF cs(1), where cmp = cmp and key = key] assms(2,3) by (auto simp: subset_iff)
next
  case (Suc l)
  obtain cs where cs: "lpath (\<lambda>n. Node_Next n (Suc l) sl) x (cs @ filter (\<lambda>n. Suc l < h n) bs)" "set cs \<subseteq> set (filter (\<lambda>n. Suc l < h n) as)"
    "last (x # cs) = sl_pred sl h as (Suc l)"
    using sl_at_rest [OF paths Suc.prems] by blast
  then have "find_lt_loop cmp key sl x (Suc l) = find_lt_loop cmp key sl (sl_pred sl h as (Suc l)) l"
    using find_lt_level [OF cs(1), where cmp = cmp and key = key] assms(2,3) by (auto simp: subset_iff)
  with Suc.IH [OF _ sl_at_pred] Suc.prems(1) show ?case by simp
qed

lemma find_last_run:
  assumes paths: "sl_paths sl ns h" and "l < kMaxHeight" and "sl_at sl h ns x l"
  shows "find_last_loop sl x l = Some (sl_pred sl h ns 0)"
  using assms(2,3)
proof (induction l arbitrary: x)
  case 0
  with sl_at_rest [of sl ns "[]" h 0 x] paths find_last_level [of 0 sl x] show ?case by auto
next
  case (Suc l)
  with sl_at_rest [of sl ns "[]" h "Suc l" x] paths find_last_level [of "Suc l" sl x]
  have "find_last_loop sl x (Suc l) = find_last_loop sl (sl_pred sl h ns (Suc l)) l" by auto
  with Suc.IH [OF _ sl_at_pred] Suc.prems(1) show ?case by simp
qed

subsection \<open>Linking a node\<close>

lemma RandomHeight_loop_range:
  "height \<le> kMaxHeight \<Longrightarrow> height \<le> fst (RandomHeight_loop height rnd) \<and> fst (RandomHeight_loop height rnd) \<le> kMaxHeight"
proof (induction height rnd rule: RandomHeight_loop.induct)
  case (1 height rnd)
  show ?case
  proof (cases "height < kMaxHeight")
    case True
    obtain b rnd' where r: "rnd_OneIn kBranching rnd = (b, rnd')" by fastforce
    have "b \<longrightarrow> height + 1 \<le> fst (RandomHeight_loop (height + 1) rnd') \<and> fst (RandomHeight_loop (height + 1) rnd') \<le> kMaxHeight"
      using "1.IH" [OF True r [symmetric] refl] True by simp
    then show ?thesis using True by (cases b) (auto simp: RandomHeight_loop.simps [of height] r)
  qed (use 1 in \<open>simp add: RandomHeight_loop.simps [of kMaxHeight]\<close>)
qed

lemma RandomHeight_range: "RandomHeight rnd = (height, rnd') \<Longrightarrow> 1 \<le> height \<and> height \<le> kMaxHeight"
  using RandomHeight_loop_range [of 1 rnd] by (simp add: RandomHeight_def kMaxHeight_def)

text \<open>The list while the first \<open>i\<close> levels of the node \<open>x\<close> between \<open>as\<close> and \<open>bs\<close> are linked.\<close>

definition sl_linking ::
    "('k \<Rightarrow> 'k \<Rightarrow> int) \<Rightarrow> ('k \<Rightarrow> bool) \<Rightarrow> 'k SkipList \<Rightarrow> nat list \<Rightarrow> nat \<Rightarrow> nat list \<Rightarrow> (nat \<Rightarrow> nat) \<Rightarrow> (nat \<Rightarrow> nat) \<Rightarrow> nat \<Rightarrow> nat \<Rightarrow> bool" where
  "sl_linking cmp valid sl as x bs h prev i height \<longleftrightarrow>
     sl_paths sl (as @ x # bs) h \<and> h x = i \<and> i \<le> height \<and> 1 \<le> height \<and> height \<le> sl_max_height sl \<and> sl_max_height sl \<le> kMaxHeight \<and>
     distinct (sl_head sl # as @ x # bs) \<and> sorted_wrt (\<lambda>a b. cmp (sl_key sl a) (sl_key sl b) < 0) (as @ x # bs) \<and>
     (\<forall>n \<in> set (as @ bs). 1 \<le> h n \<and> h n \<le> sl_max_height sl) \<and> (\<forall>n \<in> set (as @ x # bs). valid (sl_key sl n)) \<and>
     (\<forall>l. i \<le> l \<and> l < height \<longrightarrow> prev l = sl_pred sl h as l)"

lemma filter_upd: "x \<notin> set as \<Longrightarrow> filter (\<lambda>n. l < (h(x := v)) n) as = filter (\<lambda>n. l < h n) as"
  by (rule filter_cong) auto

lemma sl_pred_upd: "x \<notin> set as \<Longrightarrow> sl_pred sl (h(x := v)) as l = sl_pred sl h as l"
  unfolding sl_pred_def by (subst filter_upd) auto

lemma sl_pred_other: "x \<notin> set (sl_head sl # as) \<Longrightarrow> sl_pred sl h as l \<noteq> x"
  using last_in_set [of "sl_head sl # filter (\<lambda>n. l < h n) as"] unfolding sl_pred_def by auto

lemma Insert_link_simps [simp]:
  "sl_head (Insert_link x prev i sl) = sl_head sl" "sl_key (Insert_link x prev i sl) = sl_key sl"
  "sl_max_height (Insert_link x prev i sl) = sl_max_height sl" "sl_rnd (Insert_link x prev i sl) = sl_rnd sl"
  by (simp_all add: Insert_link_def Node_SetNext_def)

lemma sl_pred_Insert_link [simp]: "sl_pred (Insert_link x prev i sl) h as l = sl_pred sl h as l"
  by (simp add: sl_pred_def)

lemma Insert_link_paths:
  assumes paths: "sl_paths sl (as @ x # bs) h" and i: "h x = i" "i < kMaxHeight" and d: "distinct (sl_head sl # as @ x # bs)"
    and prev: "prev i = sl_pred sl h as i"
  shows "sl_paths (Insert_link x prev i sl) (as @ x # bs) (h(x := Suc i))"
  unfolding sl_paths_def
proof (intro allI impI)
  fix l assume l: "l < kMaxHeight"
  let ?as = "filter (\<lambda>n. l < h n) as" and ?bs = "filter (\<lambda>n. l < h n) bs" and ?nx = "\<lambda>n. Node_Next n l sl"
  have fl: "filter (\<lambda>n. l < (h(x := Suc i)) n) (as @ x # bs) = ?as @ (if l < Suc i then [x] else []) @ ?bs"
    using d filter_upd [of x as l h "Suc i"] filter_upd [of x bs l h "Suc i"] by simp
  have p: "lpath ?nx (sl_head sl) (filter (\<lambda>n. l < h n) (as @ x # bs))" using paths l unfolding sl_paths_def by blast
  show "lpath (\<lambda>n. Node_Next n l (Insert_link x prev i sl)) (sl_head (Insert_link x prev i sl))
      (filter (\<lambda>n. l < (h(x := Suc i)) n) (as @ x # bs))"
  proof (cases "l = i")
    case True
    have "lpath ?nx (sl_head sl) (?as @ ?bs)" using p i True by simp
    then have "lpath (?nx(x := ?nx (last (sl_head sl # ?as)), last (sl_head sl # ?as) := Some x)) (sl_head sl) (?as @ x # ?bs)"
      using d by (intro lpath_insert) auto
    moreover have "(\<lambda>n. Node_Next n l (Insert_link x prev i sl)) = ?nx(x := ?nx (prev i), prev i := Some x)"
      using d True prev sl_pred_other [of x sl as h i] by (auto simp: Insert_link_def Node_SetNext_def Node_Next_def fun_eq_iff)
    ultimately show ?thesis using True prev fl by (simp add: sl_pred_def)
  next
    case False
    then have "(\<lambda>n. Node_Next n l (Insert_link x prev i sl)) = ?nx"
      by (auto simp: Insert_link_def Node_SetNext_def Node_Next_def fun_eq_iff)
    moreover have "lpath ?nx (sl_head sl) (?as @ (if l < Suc i then [x] else []) @ ?bs)"
      using p i False by (cases "l < i") auto
    ultimately show ?thesis using fl by simp
  qed
qed

lemma linking_step:
  assumes lk: "sl_linking cmp valid sl as x bs h prev i height" and "i < height"
  shows "sl_linking cmp valid (Insert_link x prev i sl) as x bs (h(x := Suc i)) prev (Suc i) height"
proof -
  have x: "x \<notin> set as" "x \<notin> set bs" using lk by (auto simp: sl_linking_def)
  have "sl_paths (Insert_link x prev i sl) (as @ x # bs) (h(x := Suc i))"
    using lk assms(2) by (intro Insert_link_paths) (auto simp: sl_linking_def)
  moreover have "sl_pred (Insert_link x prev i sl) (h(x := Suc i)) as l = sl_pred sl h as l" for l
    using sl_pred_upd [OF x(1)] by simp
  ultimately show ?thesis using lk assms(2) x unfolding sl_linking_def by auto
qed

lemma linking_fold:
  assumes "sl_linking cmp valid sl as x bs h prev 0 height" and "k \<le> height"
  shows "sl_linking cmp valid (fold (Insert_link x prev) [0..<k] sl) as x bs (h(x := k)) prev k height"
  using assms(2)
proof (induction k)
  case 0
  have "h(x := 0) = h" using assms(1) by (auto simp: sl_linking_def)
  with assms(1) show ?case by simp
next
  case (Suc k)
  from linking_step [OF Suc.IH] Suc.prems show ?case by (simp del: fun_upd_apply)
qed

lemma linking_inv: "\<lbrakk>sl_linking cmp valid sl as x bs h prev i height; 0 < i\<rbrakk> \<Longrightarrow> sl_inv cmp valid sl (as @ x # bs) h"
  by (auto simp: sl_linking_def sl_inv_def)

lemma linking_inv_0:
  assumes "sl_linking cmp valid sl as x bs h prev 0 height"
  shows "sl_inv cmp valid sl (as @ bs) h"
proof -
  have "filter (\<lambda>n. l < h n) (as @ x # bs) = filter (\<lambda>n. l < h n) (as @ bs)" for l using assms by (simp add: sl_linking_def)
  then show ?thesis using assms by (auto simp: sl_linking_def sl_inv_def sl_paths_def sorted_wrt_append)
qed

subsection \<open>The operations\<close>

locale skip_list = key_order cmp valid + node_allocator alloc used
  for cmp :: "'k \<Rightarrow> 'k \<Rightarrow> int" and valid and alloc :: "nat \<Rightarrow> 'a \<Rightarrow> nat \<times> 'a" and used
begin

lemma inv_paths: "\<lbrakk>sl_inv cmp valid sl ns h; valid key\<rbrakk> \<Longrightarrow> sl_paths sl (sl_below cmp key sl ns @ sl_above cmp key sl ns) h"
  using inv_split by (metis sl_inv_def)

lemma FindGreaterOrEqual_run:
  assumes inv: "sl_inv cmp valid sl ns h" and "valid key"
  shows "\<exists>prev'. FindGreaterOrEqual cmp key prev sl = Some (first_opt (sl_above cmp key sl ns), prev') \<and>
    (\<forall>l < sl_max_height sl. prev' l = sl_pred sl h (sl_below cmp key sl ns) l)"
proof -
  from find_ge_run [OF inv_paths [OF assms], of cmp key "sl_max_height sl - 1" "sl_head sl" prev] inv
  show ?thesis unfolding FindGreaterOrEqual_def by (fastforce simp: sl_inv_def sl_below_def sl_above_def sl_at_def)
qed

lemma FindLessThan_run:
  assumes inv: "sl_inv cmp valid sl ns h" and "valid key"
  shows "FindLessThan cmp key sl = Some (last (sl_head sl # sl_below cmp key sl ns))"
proof -
  let ?as = "sl_below cmp key sl ns"
  from find_lt_run [OF inv_paths [OF assms], of cmp key "sl_max_height sl - 1" "sl_head sl"] inv
  have "FindLessThan cmp key sl = Some (sl_pred sl h ?as 0)"
    unfolding FindLessThan_def by (fastforce simp: sl_inv_def sl_below_def sl_above_def sl_at_def)
  moreover have "filter (\<lambda>n. 0 < h n) ?as = ?as" using inv by (intro filter_True) (auto simp: sl_inv_def sl_below_def)
  ultimately show ?thesis by (simp add: sl_pred_def)
qed

lemma FindLast_run:
  assumes inv: "sl_inv cmp valid sl ns h"
  shows "FindLast sl = Some (last (sl_head sl # ns))"
proof -
  from find_last_run [of sl ns h "sl_max_height sl - 1" "sl_head sl"] inv
  have "FindLast sl = Some (sl_pred sl h ns 0)" unfolding FindLast_def by (auto simp: sl_inv_def sl_at_def)
  moreover have "filter (\<lambda>n. 0 < h n) ns = ns" using inv by (intro filter_True) (auto simp: sl_inv_def)
  ultimately show ?thesis by (simp add: sl_pred_def)
qed

lemma level_0: "sl_inv cmp valid sl ns h \<Longrightarrow> lpath (\<lambda>n. Node_Next n 0 sl) (sl_head sl) ns"
proof -
  assume inv: "sl_inv cmp valid sl ns h"
  then have "filter (\<lambda>n. 0 < h n) ns = ns" by (intro filter_True) (auto simp: sl_inv_def)
  with inv show ?thesis by (force simp: sl_inv_def sl_paths_def kMaxHeight_def)
qed

lemma sorted_insert:
  assumes inv: "sl_inv cmp valid sl ns h" and "valid key" and new: "\<forall>n \<in> set ns. cmp (sl_key sl n) key \<noteq> 0" and x: "x \<notin> set ns"
  shows "sorted_wrt (\<lambda>a b. cmp (((sl_key sl)(x := key)) a) (((sl_key sl)(x := key)) b) < 0) (sl_below cmp key sl ns @ x # sl_above cmp key sl ns)"
proof -
  let ?as = "sl_below cmp key sl ns" and ?bs = "sl_above cmp key sl ns"
  have "sorted_wrt (\<lambda>a b. cmp (sl_key sl a) (sl_key sl b) < 0) (?as @ ?bs)"
    using inv_split [OF assms(1,2)] inv by (metis sl_inv_def)
  then have s: "sorted_wrt (\<lambda>a b. cmp (((sl_key sl)(x := key)) a) (((sl_key sl)(x := key)) b) < 0) (?as @ ?bs)"
    by (rule sorted_wrt_mono_rel [rotated]) (use x in \<open>auto simp: sl_below_def sl_above_def\<close>)
  have "cmp key (sl_key sl b) < 0" if "b \<in> set ?bs" for b
    using that cmp_flip [of key "sl_key sl b"] new inv assms(2) by (force simp: sl_above_def sl_inv_def)
  moreover have "cmp (sl_key sl a) key < 0" if "a \<in> set ?as" for a using that by (simp add: sl_below_def)
  moreover have "x \<notin> set ?as" "x \<notin> set ?bs" using x by (auto simp: sl_below_def sl_above_def)
  ultimately show ?thesis using s by (auto simp: sorted_wrt_append)
qed

lemma Insert_prepare_run:
  assumes inv: "sl_inv cmp valid sl ns h" and key: "valid key" and new: "\<forall>n \<in> set ns. cmp (sl_key sl n) key \<noteq> 0"
    and u: "used ar S" "set (sl_head sl # ns) \<subseteq> S"
  shows "\<exists>x height prev sl1 ar'. Insert_prepare cmp alloc key sl ar = Some (x, height, prev, sl1, ar') \<and> x \<notin> S \<and> used ar' (insert x S) \<and>
    sl_head sl1 = sl_head sl \<and> sl_key sl1 = (sl_key sl)(x := key) \<and> sl_next sl1 = sl_next sl \<and>
    sl_linking cmp valid sl1 (sl_below cmp key sl ns) x (sl_above cmp key sl ns) (h(x := 0)) prev 0 height"
proof -
  let ?as = "sl_below cmp key sl ns" and ?bs = "sl_above cmp key sl ns"
  obtain y prev where f: "FindGreaterOrEqual cmp key (\<lambda>_. 0) sl = Some (y, prev)" "\<forall>l < sl_max_height sl. prev l = sl_pred sl h ?as l"
    using FindGreaterOrEqual_run [OF inv key] by blast
  obtain height rnd' where r: "RandomHeight (sl_rnd sl) = (height, rnd')" by fastforce
  note hr = RandomHeight_range [OF r]
  obtain x ar' where a: "alloc (sizeof_Node + pointer_size * (height - 1)) ar = (x, ar')" by fastforce
  have x: "x \<notin> S" "used ar' (insert x S)" using alloc_fresh [OF u(1) _ a] by (auto simp: sizeof_Node_def)
  let ?m = "max height (sl_max_height sl)"
  let ?prev = "\<lambda>i. if sl_max_height sl \<le> i \<and> i < height then sl_head sl else prev i"
  let ?sl = "sl\<lparr>sl_rnd := rnd', sl_max_height := ?m, sl_key := (sl_key sl)(x := key)\<rparr>"
  have n: "x \<noteq> sl_head sl" "x \<notin> set ?as" "x \<notin> set ?bs" using x(1) u(2) by (auto simp: sl_below_def sl_above_def)
  have xn: "x \<notin> set ns" using x(1) u(2) by auto
  have prev: "?prev l = sl_pred ?sl (h(x := 0)) ?as l" if "l < height" for l
  proof -
    have "l \<ge> sl_max_height sl \<Longrightarrow> filter (\<lambda>n. l < h n) ?as = []" using inv by (fastforce simp: sl_inv_def sl_below_def filter_empty_conv)
    then have "?prev l = sl_pred sl h ?as l" using f(2) that by (auto simp: sl_pred_def)
    then show ?thesis unfolding sl_pred_upd [OF n(2)] by (simp add: sl_pred_def)
  qed
  have d: "distinct (sl_head sl # ?as @ ?bs)" using inv_split [OF inv key] inv by (metis sl_inv_def)
  have ht: "\<forall>n \<in> set (?as @ ?bs). valid (sl_key sl n) \<and> 1 \<le> h n \<and> h n \<le> sl_max_height sl" using inv by (auto simp: sl_inv_def sl_below_def sl_above_def)
  have fl: "filter (\<lambda>n. l < (h(x := 0)) n) (?as @ x # ?bs) = filter (\<lambda>n. l < h n) (?as @ ?bs)" for l
    using filter_upd [OF n(2), of l h 0] filter_upd [OF n(3), of l h 0] by simp
  have paths: "sl_paths ?sl (?as @ x # ?bs) (h(x := 0))" using inv_paths [OF inv key] unfolding sl_paths_def fl by (simp add: Node_Next_def)
  have "sl_linking cmp valid ?sl ?as x ?bs (h(x := 0)) ?prev 0 height"
    unfolding sl_linking_def
  proof (intro conjI)
    show "sorted_wrt (\<lambda>a b. cmp (sl_key ?sl a) (sl_key ?sl b) < 0) (?as @ x # ?bs)"
      using sorted_insert [OF inv key new xn] by (simp del: fun_upd_apply)
  qed (use paths prev d ht n hr inv key in \<open>auto simp: sl_inv_def le_max_iff_disj\<close>)
  moreover have "Insert_prepare cmp alloc key sl ar = Some (x, height, ?prev, ?sl, ar')"
    using f(1) by (auto simp: Insert_prepare_def r NewNode_def a [simplified] max_def fun_eq_iff Let_def)
  ultimately show ?thesis using x by auto
qed

lemma Insert_run:
  assumes inv: "sl_inv cmp valid sl ns h" and key: "valid key" and new: "\<forall>n \<in> set ns. cmp (sl_key sl n) key \<noteq> 0"
    and u: "used ar S" "set (sl_head sl # ns) \<subseteq> S"
  shows "\<exists>x sl' ar' h'. Insert cmp alloc key sl ar = Some (sl', ar') \<and> x \<notin> S \<and> used ar' (insert x S) \<and> sl_head sl' = sl_head sl \<and>
    sl_key sl' = (sl_key sl)(x := key) \<and> sl_inv cmp valid sl' (sl_below cmp key sl ns @ x # sl_above cmp key sl ns) h'"
proof -
  obtain x height prev sl1 ar' where p: "Insert_prepare cmp alloc key sl ar = Some (x, height, prev, sl1, ar')" "x \<notin> S" "used ar' (insert x S)"
    "sl_head sl1 = sl_head sl" "sl_key sl1 = (sl_key sl)(x := key)"
    and lk: "sl_linking cmp valid sl1 (sl_below cmp key sl ns) x (sl_above cmp key sl ns) (h(x := 0)) prev 0 height"
    using Insert_prepare_run [OF assms] by blast
  let ?sl = "fold (Insert_link x prev) [0..<height] sl1"
  have "sl_head (fold (Insert_link x prev) [0..<k] sl1) = sl_head sl1 \<and> sl_key (fold (Insert_link x prev) [0..<k] sl1) = sl_key sl1" for k
    by (induction k) auto
  then have k: "sl_head ?sl = sl_head sl1" "sl_key ?sl = sl_key sl1" by simp_all
  have "0 < height" using lk by (simp add: sl_linking_def)
  with linking_inv [OF linking_fold [OF lk order_refl]] p k show ?thesis by (auto simp: Insert_def)
qed

lemma Contains_run:
  assumes inv: "sl_inv cmp valid sl ns h" and key: "valid key"
  shows "Contains cmp key sl = Some (\<exists>n \<in> set ns. cmp key (sl_key sl n) = 0)"
proof -
  let ?bs = "sl_above cmp key sl ns"
  obtain prev where f: "FindGreaterOrEqual cmp key (\<lambda>_. 0) sl = Some (first_opt ?bs, prev)" using FindGreaterOrEqual_run [OF inv key] by blast
  have v: "valid (sl_key sl n)" if "n \<in> set ns" for n using inv that by (simp add: sl_inv_def)
  have eq: "n \<in> set ?bs" if "n \<in> set ns" "cmp key (sl_key sl n) = 0" for n
    using that cmp_flip(2) [OF key v] by (auto simp: sl_above_def)
  have sub: "set ?bs \<subseteq> set ns" by (auto simp: sl_above_def)
  show ?thesis
  proof (cases ?bs)
    case Nil
    then show ?thesis using f eq by (fastforce simp: Contains_def)
  next
    case (Cons b bs)
    have "sorted_wrt (\<lambda>a b. cmp (sl_key sl a) (sl_key sl b) < 0) ?bs"
      using inv unfolding sl_above_def by (auto simp: sl_inv_def intro: sorted_wrt_filter)
    then have "cmp key (sl_key sl b) = 0" if "n \<in> set bs" "cmp key (sl_key sl n) = 0" for n
    proof -
      have b: "b \<in> set ns" "n \<in> set ns" "cmp (sl_key sl b) (sl_key sl n) < 0" "\<not> cmp (sl_key sl b) key < 0"
        using \<open>sorted_wrt _ ?bs\<close> that sub Cons by (auto simp: sl_above_def [of cmp key sl ns] filter_eq_Cons_iff)
      have "cmp (sl_key sl n) key \<le> 0" using cmp_flip(2) [OF key v [OF b(2)]] that by simp
      with cmp_less_le_trans [of "sl_key sl b" "sl_key sl n" key] b v key show ?thesis by blast
    qed
    then show ?thesis using f eq sub Cons by (auto simp: Contains_def)
  qed
qed

text \<open>The iterator at the end of \<open>as\<close> in the list \<open>as @ bs\<close> is at the first node of \<open>bs\<close>.\<close>

lemma Iter_run:
  assumes inv: "sl_inv cmp valid sl ns h"
  shows "Iter_SeekToFirst sl = first_opt ns"
    and "Iter_SeekToLast sl = Some (if ns = [] then None else Some (last ns))"
    and "valid key \<Longrightarrow> Iter_Seek cmp key sl = Some (first_opt (sl_above cmp key sl ns))"
    and "ns = as @ n # bs \<Longrightarrow> Iter_Next sl (Some n) = first_opt bs"
    and "ns = as @ n # bs \<Longrightarrow> Iter_Prev cmp sl (Some n) = Some (if as = [] then None else Some (last as))"
proof -
  have head: "sl_head sl \<notin> set ns" using inv by (simp add: sl_inv_def)
  have head_last: "cs \<noteq> [] \<longrightarrow> last cs \<noteq> sl_head sl" if "set cs \<subseteq> set ns" for cs using that head by (metis last_in_set subsetD)
  show "Iter_SeekToFirst sl = first_opt ns"
    using lpath_next [of _ "sl_head sl" "[]" ns] level_0 [OF inv] by (simp add: Iter_SeekToFirst_def)
  show "Iter_SeekToLast sl = Some (if ns = [] then None else Some (last ns))"
    using FindLast_run [OF inv] head_last [of ns] by (auto simp: Iter_SeekToLast_def)
  show "Iter_Seek cmp key sl = Some (first_opt (sl_above cmp key sl ns))" if "valid key"
    using FindGreaterOrEqual_run [OF inv that, of "\<lambda>_. 0"] by (auto simp: Iter_Seek_def)
  show "Iter_Next sl (Some n) = first_opt bs" if "ns = as @ n # bs"
    using lpath_next [of _ "sl_head sl" "as @ [n]" bs] level_0 [OF inv] that by (simp add: Iter_Next_def)
  show "Iter_Prev cmp sl (Some n) = Some (if as = [] then None else Some (last as))" if ns: "ns = as @ n # bs"
  proof -
    have v: "valid (sl_key sl m)" if "m \<in> set ns" for m using inv that by (simp add: sl_inv_def)
    have s: "\<forall>a \<in> set as. cmp (sl_key sl a) (sl_key sl n) < 0" "\<forall>b \<in> set bs. cmp (sl_key sl n) (sl_key sl b) < 0"
      using inv ns by (auto simp: sl_inv_def sorted_wrt_append)
    have "cmp (sl_key sl n) (sl_key sl n) = 0" using cmp_sym [of "sl_key sl n" "sl_key sl n"] v ns by (auto simp: sgn_if split: if_splits)
    moreover have "\<not> cmp (sl_key sl b) (sl_key sl n) < 0" if "b \<in> set bs" for b
      using s(2) that cmp_flip(1) [of "sl_key sl n" "sl_key sl b"] v ns by force
    ultimately have "sl_below cmp (sl_key sl n) sl ns = as" using s(1) ns by (simp add: sl_below_def filter_empty_conv)
    then show ?thesis using FindLessThan_run [OF inv, of "sl_key sl n"] v ns head_last [of as] by (auto simp: Iter_Prev_def)
  qed
qed

end

end
