(* ===== verification/SkipListSpec.thy ===== *)
theory SkipListSpec
  imports SkipList Comparator "HOL-Library.Multiset"
begin

text \<open>
  The contract of the skip list: what its operations do to the sorted list of its keys, and what a search sees that runs
  while a node is being inserted.
\<close>

subsection \<open>The arena as allocator\<close>

definition arena_used :: "new_array \<Rightarrow> Arena \<Rightarrow> nat set \<Rightarrow> bool" where
  "arena_used na ar S \<longleftrightarrow> new_array_ok na \<and> (\<exists>out. arena_inv ar out \<and> S \<subseteq> fst ` set out \<and> (\<forall>(p, n) \<in> set out. 0 < n))"

lemma fresh_region:
  assumes "arena_inv ar ((p, n) # out)" and "0 < n" and "\<forall>(p, n) \<in> set out. 0 < n"
  shows "p \<notin> fst ` set out"
  using assms by (fastforce simp: arena_inv_def region_disjoint_def)

lemma arena_used_step:
  assumes "new_array_ok na" and "arena_inv ar' ((p, n) # out)" and "S \<subseteq> fst ` set out" and "\<forall>(p, n) \<in> set out. 0 < n" and "0 < n"
  shows "p \<notin> S \<and> arena_used na ar' (insert p S)"
proof -
  have "p \<notin> S" using fresh_region [of ar' p n out] assms by blast
  moreover have "arena_used na ar' (insert p S)"
    unfolding arena_used_def using assms by (intro conjI exI [of _ "(p, n) # out"]) auto
  ultimately show ?thesis ..
qed

interpretation arena_nodes: node_allocator "AllocateAligned na" "arena_used na" for na
proof
  fix ar S and n :: nat and p ar'
  assume "arena_used na ar S" "0 < n" "AllocateAligned na n ar = (p, ar')"
  then show "p \<notin> S \<and> arena_used na ar' (insert p S)"
    using arena_inv_aligned [of na ar _ n p ar'] arena_used_step [of na ar' p n _ S] unfolding arena_used_def by blast
qed

text \<open>The other allocation of the arena keeps the nodes in use as well.\<close>

lemma arena_used_Allocate:
  assumes "arena_used na ar S" and "0 < n" and "Allocate na n ar = (p, ar')"
  shows "p \<notin> S \<and> arena_used na ar' (insert p S)"
  using assms arena_inv_allocate [of na ar _ n p ar'] arena_used_step [of na ar' p n _ S] unfolding arena_used_def by blast

lemma arena_used_new: "new_array_ok na \<Longrightarrow> arena_used na Arena_new {}"
  unfolding arena_used_def by (auto simp: arena_inv_def rest_ok_def Arena_new_def intro!: exI [of _ "[]"])

lemma arena_used_subset: "arena_used na ar S \<Longrightarrow> T \<subseteq> S \<Longrightarrow> arena_used na ar T"
  unfolding arena_used_def by (meson subset_trans)

sublocale key_order \<subseteq> arena_list: skip_list cmp valid "AllocateAligned na" "arena_used na" for na
  by unfold_locales

subsection \<open>The sorted list of the keys\<close>

definition sl_repr ::
    "('k \<Rightarrow> 'k \<Rightarrow> int) \<Rightarrow> ('k \<Rightarrow> bool) \<Rightarrow> ('a \<Rightarrow> nat set \<Rightarrow> bool) \<Rightarrow> 'k SkipList \<Rightarrow> 'a \<Rightarrow> 'k list \<Rightarrow> bool" where
  "sl_repr cmp valid used sl ar ks \<longleftrightarrow>
     (\<exists>ns h. sl_inv cmp valid sl ns h \<and> used ar (set (sl_head sl # ns)) \<and> ks = map (sl_key sl) ns)"

definition insert_key :: "('k \<Rightarrow> 'k \<Rightarrow> int) \<Rightarrow> 'k \<Rightarrow> 'k list \<Rightarrow> 'k list" where
  "insert_key cmp key ks = filter (\<lambda>k. cmp k key < 0) ks @ key # filter (\<lambda>k. \<not> cmp k key < 0) ks"

lemma new_links: "Node_Next x n (fold (\<lambda>i. Node_SetNext head i None) [0..<k] sl) = (if x = head \<and> n < k then None else Node_Next x n sl)"
  by (induction k) (auto simp: Node_Next_def Node_SetNext_def)

lemma new_fields:
  "sl_head (fold (\<lambda>i. Node_SetNext head i None) is sl) = sl_head sl \<and> sl_key (fold (\<lambda>i. Node_SetNext head i None) is sl) = sl_key sl \<and>
   sl_max_height (fold (\<lambda>i. Node_SetNext head i None) is sl) = sl_max_height sl"
  by (induction "is" arbitrary: sl) (auto simp: Node_SetNext_def)

context skip_list
begin

lemma SkipList_new_repr:
  assumes "used ar S" and "SkipList_new alloc any mem ar = (sl, ar')"
  shows "used ar' (insert (sl_head sl) S) \<and> sl_inv cmp valid sl [] h"
proof -
  obtain head ar1 where a: "alloc (sizeof_Node + pointer_size * (kMaxHeight - 1)) ar = (head, ar1)" by fastforce
  have "used ar1 (insert head S)" using alloc_fresh [OF assms(1) _ a] by (simp add: sizeof_Node_def)
  then show ?thesis using assms(2) a
    by (auto simp: SkipList_new_def Let_def sl_inv_def sl_paths_def new_links new_fields kMaxHeight_def)
qed

lemma below_keys: "map (sl_key sl) (sl_below cmp key sl ns) = filter (\<lambda>k. cmp k key < 0) (map (sl_key sl) ns)"
  by (simp add: sl_below_def filter_map comp_def)

lemma above_keys: "map (sl_key sl) (sl_above cmp key sl ns) = filter (\<lambda>k. \<not> cmp k key < 0) (map (sl_key sl) ns)"
  by (simp add: sl_above_def filter_map comp_def)

lemma Insert_repr:
  assumes "sl_repr cmp valid used sl ar ks" and key: "valid key" and "\<forall>k \<in> set ks. cmp k key \<noteq> 0"
  shows "\<exists>sl' ar'. Insert cmp alloc key sl ar = Some (sl', ar') \<and> sl_repr cmp valid used sl' ar' (insert_key cmp key ks)"
proof -
  obtain ns h where inv: "sl_inv cmp valid sl ns h" and u: "used ar (set (sl_head sl # ns))" and ks: "ks = map (sl_key sl) ns"
    using assms(1) by (auto simp: sl_repr_def)
  let ?as = "sl_below cmp key sl ns" and ?bs = "sl_above cmp key sl ns"
  have new: "\<forall>n \<in> set ns. cmp (sl_key sl n) key \<noteq> 0" using assms(3) ks by simp
  obtain x sl' ar' h' where r: "Insert cmp alloc key sl ar = Some (sl', ar')" "x \<notin> set (sl_head sl # ns)" "used ar' (insert x (set (sl_head sl # ns)))"
    "sl_head sl' = sl_head sl" "sl_key sl' = (sl_key sl)(x := key)" "sl_inv cmp valid sl' (?as @ x # ?bs) h'"
    using Insert_run [OF inv key new u order_refl] by blast
  have s: "insert x (set (sl_head sl # ns)) = set (sl_head sl' # ?as @ x # ?bs)" using r(4) by (auto simp: sl_below_def sl_above_def)
  have "x \<notin> set ?as" "x \<notin> set ?bs" using r(2) by (auto simp: sl_below_def sl_above_def)
  then have "map (sl_key sl') (?as @ x # ?bs) = insert_key cmp key ks"
    unfolding insert_key_def ks below_keys [symmetric] above_keys [symmetric] by (simp add: r(5))
  then have "sl_repr cmp valid used sl' ar' (insert_key cmp key ks)"
    unfolding sl_repr_def using r(3,6) s by (intro exI [of _ "?as @ x # ?bs"] exI [of _ h']) auto
  with r(1) show ?thesis by blast
qed

lemma Contains_repr:
  "\<lbrakk>sl_repr cmp valid used sl ar ks; valid key\<rbrakk> \<Longrightarrow> Contains cmp key sl = Some (\<exists>k \<in> set ks. cmp key k = 0)"
  using Contains_run by (fastforce simp: sl_repr_def)

end

subsection \<open>Sequences of operations\<close>

fun insert_all ::
    "('k \<Rightarrow> 'k \<Rightarrow> int) \<Rightarrow> (nat \<Rightarrow> 'a \<Rightarrow> nat \<times> 'a) \<Rightarrow> 'k list \<Rightarrow> 'k SkipList \<Rightarrow> 'a \<Rightarrow> ('k SkipList \<times> 'a) option" where
  "insert_all cmp alloc [] sl ar = Some (sl, ar)"
| "insert_all cmp alloc (k # ks) sl ar =
     (case Insert cmp alloc k sl ar of None \<Rightarrow> None | Some (sl', ar') \<Rightarrow> insert_all cmp alloc ks sl' ar')"

text \<open>The keys that at most \<open>n\<close> calls of \<open>Next\<close>, or of \<open>Prev\<close>, visit from a position on.\<close>

fun walk_next :: "nat \<Rightarrow> 'k SkipList \<Rightarrow> nat option \<Rightarrow> 'k list" where
  "walk_next 0 sl pos = []"
| "walk_next (Suc n) sl pos = (if Iter_Valid pos then Iter_key sl pos # walk_next n sl (Iter_Next sl pos) else [])"

fun walk_prev :: "('k \<Rightarrow> 'k \<Rightarrow> int) \<Rightarrow> nat \<Rightarrow> 'k SkipList \<Rightarrow> nat option \<Rightarrow> 'k list option" where
  "walk_prev cmp 0 sl pos = Some []"
| "walk_prev cmp (Suc n) sl pos =
     (if Iter_Valid pos then
        (case Iter_Prev cmp sl pos of None \<Rightarrow> None | Some pos' \<Rightarrow> map_option (\<lambda>ks. Iter_key sl pos # ks) (walk_prev cmp n sl pos'))
      else Some [])"

lemma insert_key_mset: "mset (insert_key cmp key ks) = add_mset key (mset ks)"
  by (simp add: insert_key_def mset_filter [symmetric] multiset_partition [symmetric] del: mset_filter)
    (metis mset_filter multiset_partition)

context skip_list
begin

lemma insert_all_repr:
  assumes "sl_repr cmp valid used sl ar ks" and "\<forall>k \<in> set keys. valid k" and "\<forall>k \<in> set keys. \<forall>k' \<in> set ks. cmp k' k \<noteq> 0"
    and "sorted_wrt (\<lambda>a b. cmp a b \<noteq> 0) keys"
  shows "\<exists>sl' ar' ks'. insert_all cmp alloc keys sl ar = Some (sl', ar') \<and> sl_repr cmp valid used sl' ar' ks' \<and> mset ks' = mset ks + mset keys"
  using assms
proof (induction keys arbitrary: sl ar ks)
  case (Cons k keys)
  have "valid k" "\<forall>k' \<in> set ks. cmp k' k \<noteq> 0" using Cons.prems by auto
  from Insert_repr [OF Cons.prems(1) this] obtain sl1 ar1 where r: "Insert cmp alloc k sl ar = Some (sl1, ar1)"
    "sl_repr cmp valid used sl1 ar1 (insert_key cmp k ks)" by blast
  have "set (insert_key cmp k ks) = insert k (set ks)" by (auto simp: insert_key_def)
  with Cons.IH [OF r(2)] Cons.prems r(1) show ?case by (auto simp: insert_key_mset)
qed auto

lemma walk_next_from:
  assumes inv: "sl_inv cmp valid sl ns h" and "ns = as @ bs" and "length bs < n"
  shows "walk_next n sl (first_opt bs) = map (sl_key sl) bs"
  using assms(2,3)
proof (induction n arbitrary: as bs)
  case (Suc n)
  show ?case
  proof (cases bs)
    case (Cons b cs)
    with Suc.IH [of "as @ [b]" cs] Suc.prems Iter_run(4) [OF inv, of as b cs] show ?thesis
      by (simp add: Iter_Valid_def Iter_key_def)
  qed (simp add: Iter_Valid_def)
qed simp

lemma walk_prev_from:
  assumes inv: "sl_inv cmp valid sl ns h" and "ns = as @ bs" and "length as < n"
  shows "walk_prev cmp n sl (if as = [] then None else Some (last as)) = Some (rev (map (sl_key sl) as))"
  using assms(2,3)
proof (induction n arbitrary: as bs)
  case (Suc n)
  show ?case
  proof (cases as rule: rev_cases)
    case (snoc cs c)
    with Suc.IH [of cs "c # bs"] Suc.prems Iter_run(5) [OF inv, of cs c bs] show ?thesis
      by (simp add: Iter_Valid_def Iter_key_def)
  qed (simp add: Iter_Valid_def)
qed simp

lemma walk_repr:
  assumes "sl_repr cmp valid used sl ar ks"
  shows "sorted_wrt (\<lambda>a b. cmp a b < 0) ks \<and> walk_next (Suc (length ks)) sl (Iter_SeekToFirst sl) = ks \<and>
    (\<exists>pos. Iter_SeekToLast sl = Some pos \<and> walk_prev cmp (Suc (length ks)) sl pos = Some (rev ks)) \<and>
    (\<forall>target. valid target \<longrightarrow>
      (\<exists>pos. Iter_Seek cmp target sl = Some pos \<and> walk_next (Suc (length ks)) sl pos = filter (\<lambda>k. \<not> cmp k target < 0) ks))"
proof -
  obtain ns h where inv: "sl_inv cmp valid sl ns h" and ks: "ks = map (sl_key sl) ns" using assms by (auto simp: sl_repr_def)
  have s: "sorted_wrt (\<lambda>a b. cmp a b < 0) ks" using inv ks by (simp add: sl_inv_def sorted_wrt_map)
  have seek: "walk_next (Suc (length ks)) sl (first_opt (sl_above cmp target sl ns)) = filter (\<lambda>k. \<not> cmp k target < 0) ks" if "valid target" for target
    using walk_next_from [OF inv inv_split [OF inv that], of "Suc (length ks)"] above_keys [of sl target ns]
    by (simp add: ks sl_above_def le_imp_less_Suc del: walk_next.simps)
  from s seek Iter_run(1-3) [OF inv] walk_next_from [OF inv, of "[]" ns] walk_prev_from [OF inv, of ns "[]"] show ?thesis
    by (auto simp: ks simp del: walk_next.simps walk_prev.simps)
qed

end

subsection \<open>A search during insertions\<close>

text \<open>One writer, which is idle or has linked the first \<open>i\<close> levels of a node, and one search for \<open>target\<close>, which is at a
  node and a level or has its result. Each step is one turn of a loop, or the part of \<open>Insert\<close> before its last loop.\<close>

datatype sl_writer = Idle | Linking nat nat "nat \<Rightarrow> nat" nat

datatype sl_reader = Searching nat nat | Found "nat option"

inductive sl_step ::
    "('k \<Rightarrow> 'k \<Rightarrow> int) \<Rightarrow> ('k \<Rightarrow> bool) \<Rightarrow> (nat \<Rightarrow> 'a \<Rightarrow> nat \<times> 'a) \<Rightarrow> 'k \<Rightarrow>
     'k SkipList \<times> 'a \<times> sl_writer \<times> sl_reader \<Rightarrow> 'k SkipList \<times> 'a \<times> sl_writer \<times> sl_reader \<Rightarrow> bool"
  for cmp valid alloc target where
  write_begin: "\<lbrakk>valid key; Contains cmp key sl = Some False; Insert_prepare cmp alloc key sl ar = Some (x, height, prev, sl', ar')\<rbrakk> \<Longrightarrow>
     sl_step cmp valid alloc target (sl, ar, Idle, r) (sl', ar', Linking x height prev 0, r)"
| write_link: "i < height \<Longrightarrow>
     sl_step cmp valid alloc target (sl, ar, Linking x height prev i, r) (Insert_link x prev i sl, ar, Linking x height prev (Suc i), r)"
| write_end: "sl_step cmp valid alloc target (sl, ar, Linking x height prev height, r) (sl, ar, Idle, r)"
| read_begin: "sl_step cmp valid alloc target (sl, ar, w, r) (sl, ar, w, Searching (sl_head sl) (sl_max_height sl - 1))"
| read_turn: "find_ge_turn cmp target sl x level p = Inl (x', level', p') \<Longrightarrow>
     sl_step cmp valid alloc target (sl, ar, w, Searching x level) (sl, ar, w, Searching x' level')"
| read_end: "find_ge_turn cmp target sl x level p = Inr (res, p') \<Longrightarrow>
     sl_step cmp valid alloc target (sl, ar, w, Searching x level) (sl, ar, w, Found res)"

inductive_cases read_end_cases: "sl_step cmp valid alloc target (sl, ar, w, Searching x level) (sl', ar', w', Found res)"

fun writer_ok :: "('k \<Rightarrow> 'k \<Rightarrow> int) \<Rightarrow> ('k \<Rightarrow> bool) \<Rightarrow> 'k SkipList \<Rightarrow> nat list \<Rightarrow> (nat \<Rightarrow> nat) \<Rightarrow> nat set \<Rightarrow> sl_writer \<Rightarrow> bool" where
  "writer_ok cmp valid sl ns h S Idle \<longleftrightarrow> sl_inv cmp valid sl ns h"
| "writer_ok cmp valid sl ns h S (Linking x height prev i) \<longleftrightarrow> x \<in> S \<and>
     (\<exists>as bs. sl_linking cmp valid sl as x bs h prev i height \<and> ns = (if i = 0 then as @ bs else as @ x # bs))"

fun reader_ok :: "('k \<Rightarrow> 'k \<Rightarrow> int) \<Rightarrow> 'k SkipList \<Rightarrow> nat list \<Rightarrow> (nat \<Rightarrow> nat) \<Rightarrow> 'k \<Rightarrow> sl_reader \<Rightarrow> bool" where
  "reader_ok cmp sl ns h target (Searching x level) \<longleftrightarrow> level < kMaxHeight \<and> sl_at sl h (sl_below cmp target sl ns) x level"
| "reader_ok cmp sl ns h target (Found res) \<longleftrightarrow> True"

definition conc_ok ::
    "('k \<Rightarrow> 'k \<Rightarrow> int) \<Rightarrow> ('k \<Rightarrow> bool) \<Rightarrow> ('a \<Rightarrow> nat set \<Rightarrow> bool) \<Rightarrow> 'k \<Rightarrow> nat list \<Rightarrow> (nat \<Rightarrow> nat) \<Rightarrow>
     'k SkipList \<times> 'a \<times> sl_writer \<times> sl_reader \<Rightarrow> bool" where
  "conc_ok cmp valid used target ns h = (\<lambda>(sl, ar, w, r).
     \<exists>S. used ar S \<and> set (sl_head sl # ns) \<subseteq> S \<and> writer_ok cmp valid sl ns h S w \<and> reader_ok cmp sl ns h target r)"

lemma writer_ok_inv: "writer_ok cmp valid sl ns h S w \<Longrightarrow> sl_inv cmp valid sl ns h"
  by (cases w) (auto intro: linking_inv linking_inv_0)

context skip_list
begin

lemma find_ge_turn_at:
  assumes inv: "sl_inv cmp valid sl ns h" and "valid target" and l: "level < kMaxHeight" and at: "sl_at sl h (sl_below cmp target sl ns) x level"
  shows "find_ge_turn cmp target sl x level p = Inl (x', level', p') \<Longrightarrow> level' < kMaxHeight \<and> sl_at sl h (sl_below cmp target sl ns) x' level'"
    and "find_ge_turn cmp target sl x level p = Inr (res, p') \<Longrightarrow> res = first_opt (sl_above cmp target sl ns)"
proof -
  let ?as = "sl_below cmp target sl ns" and ?bs = "sl_above cmp target sl ns"
  obtain cs where cs: "lpath (\<lambda>n. Node_Next n level sl) x (cs @ filter (\<lambda>n. level < h n) ?bs)" "set cs \<subseteq> set (filter (\<lambda>n. level < h n) ?as)"
    using sl_at_rest [OF inv_paths [OF assms(1,2)] l at] by blast
  have nx: "Node_Next x level sl = first_opt (cs @ filter (\<lambda>n. level < h n) ?bs)" using lpath_next [of _ x "[]"] cs(1) by simp
  have ge: "\<forall>b \<in> set ?bs. \<not> cmp (sl_key sl b) target < 0" by (simp add: sl_above_def)
  show "level' < kMaxHeight \<and> sl_at sl h ?as x' level'" if "find_ge_turn cmp target sl x level p = Inl (x', level', p')"
  proof (cases "KeyIsAfterNode cmp target (Node_Next x level sl) sl")
    case True
    then obtain y where y: "Node_Next x level sl = Some y" "cmp (sl_key sl y) target < 0" by (auto simp: KeyIsAfterNode_def split: option.splits)
    then have "y \<in> set cs"
      using nx ge by (cases cs; cases "filter (\<lambda>n. level < h n) ?bs") (auto simp: filter_eq_Cons_iff)
    with cs(2) have "y \<in> set ?as \<and> level < h y" by auto
    then show ?thesis using True y that l by (auto simp: find_ge_turn_def sl_at_def)
  next
    case False
    then show ?thesis using that l at by (auto simp: find_ge_turn_def sl_at_def Let_def split: if_splits)
  qed
  show "res = first_opt ?bs" if r: "find_ge_turn cmp target sl x level p = Inr (res, p')"
  proof -
    have r: "level = 0" "res = Node_Next x level sl" "\<not> KeyIsAfterNode cmp target (Node_Next x level sl) sl"
      using r by (auto simp: find_ge_turn_def Let_def split: if_splits)
    have "filter (\<lambda>n. 0 < h n) ?bs = ?bs" using inv by (intro filter_True) (auto simp: sl_inv_def sl_above_def)
    moreover have "cs = []" using r nx cs(2) by (cases cs) (auto simp: KeyIsAfterNode_def sl_below_def)
    ultimately show ?thesis using r nx by simp
  qed
qed

text \<open>A writer step changes neither the keys of the nodes nor the order, and heights only grow.\<close>

lemma reader_ok_mono:
  assumes "reader_ok cmp sl ns h target r" and "sl_head sl' = sl_head sl" and "set ns \<subseteq> set ns'"
    and "\<forall>n \<in> set ns. sl_key sl' n = sl_key sl n \<and> h n \<le> h' n"
  shows "reader_ok cmp sl' ns' h' target r"
  using assms by (cases r) (auto simp: sl_at_def sl_below_def intro: less_le_trans)

lemma conc_ok_step:
  assumes "conc_ok cmp valid used target ns h c" and "sl_step cmp valid alloc target c c'" and "valid target"
  shows "\<exists>ns' h'. conc_ok cmp valid used target ns' h' c' \<and> set ns \<subseteq> set ns'"
  using assms(2,1)
proof cases
  case (write_begin key sl ar x height prev sl' ar' r)
  then obtain S where S: "used ar S" "set (sl_head sl # ns) \<subseteq> S" and inv: "sl_inv cmp valid sl ns h" and rd: "reader_ok cmp sl ns h target r"
    using assms(1) by (auto simp: conc_ok_def)
  have v: "valid (sl_key sl n)" if "n \<in> set ns" for n using inv that by (simp add: sl_inv_def)
  have new: "\<forall>n \<in> set ns. cmp (sl_key sl n) key \<noteq> 0"
    using Contains_run [OF inv] write_begin cmp_flip(2) v by force
  have p: "x \<notin> S" "used ar' (insert x S)" "sl_head sl' = sl_head sl" "sl_key sl' = (sl_key sl)(x := key)"
    and lk: "sl_linking cmp valid sl' (sl_below cmp key sl ns) x (sl_above cmp key sl ns) (h(x := 0)) prev 0 height"
    using Insert_prepare_run [OF inv _ new S] write_begin by auto
  have ns: "ns = sl_below cmp key sl ns @ sl_above cmp key sl ns" using inv_split inv write_begin by blast
  have "reader_ok cmp sl' ns (h(x := 0)) target r" using p S(2) by (intro reader_ok_mono [OF rd]) auto
  moreover have "writer_ok cmp valid sl' ns (h(x := 0)) (insert x S) (Linking x height prev 0)" using lk ns by auto
  ultimately have "conc_ok cmp valid used target ns (h(x := 0)) c'" using write_begin p S(2) by (auto simp: conc_ok_def)
  then show ?thesis by blast
next
  case (write_link i height sl ar x prev r)
  then obtain S as bs where S: "used ar S" "set (sl_head sl # ns) \<subseteq> S" "x \<in> S" and rd: "reader_ok cmp sl ns h target r"
    and lk: "sl_linking cmp valid sl as x bs h prev i height" and ns: "ns = (if i = 0 then as @ bs else as @ x # bs)"
    using assms(1) by (auto simp: conc_ok_def)
  have i: "h x = i" using lk by (simp add: sl_linking_def)
  have "reader_ok cmp (Insert_link x prev i sl) (as @ x # bs) (h(x := Suc i)) target r"
    using i ns by (intro reader_ok_mono [OF rd]) auto
  moreover have "set (sl_head sl # as @ x # bs) \<subseteq> S" using S ns by (auto split: if_splits)
  ultimately have "conc_ok cmp valid used target (as @ x # bs) (h(x := Suc i)) c'"
    using S linking_step [OF lk] write_link unfolding conc_ok_def by auto
  moreover have "set ns \<subseteq> set (as @ x # bs)" using ns by auto
  ultimately show ?thesis by blast
next
  case (write_end sl ar x height prev r)
  then have "conc_ok cmp valid used target ns h c'"
    using assms(1) by (auto simp: conc_ok_def sl_linking_def sl_inv_def)
  then show ?thesis by blast
next
  case (read_begin sl ar w r)
  have "sl_inv cmp valid sl ns h" using assms(1) read_begin writer_ok_inv by (auto simp: conc_ok_def)
  then have "conc_ok cmp valid used target ns h c'" using assms(1) read_begin by (auto simp: conc_ok_def sl_at_def sl_inv_def)
  then show ?thesis by blast
next
  case (read_turn sl x level p x' level' p' ar w)
  then obtain S where "used ar S" "set (sl_head sl # ns) \<subseteq> S" "writer_ok cmp valid sl ns h S w" "level < kMaxHeight" "sl_at sl h (sl_below cmp target sl ns) x level"
    using assms(1) by (auto simp: conc_ok_def)
  with find_ge_turn_at(1) [OF writer_ok_inv assms(3) _ _ read_turn(3)] read_turn(2) have "conc_ok cmp valid used target ns h c'"
    by (auto simp: conc_ok_def)
  then show ?thesis by blast
next
  case (read_end sl x level p res p' ar w)
  then have "conc_ok cmp valid used target ns h c'" using assms(1) by (auto simp: conc_ok_def)
  then show ?thesis by blast
qed

lemma conc_ok_steps:
  assumes "(sl_step cmp valid alloc target)\<^sup>*\<^sup>* c c'" and "conc_ok cmp valid used target ns h c" and "valid target"
  shows "\<exists>ns' h'. conc_ok cmp valid used target ns' h' c' \<and> set ns \<subseteq> set ns'"
  using assms(1)
proof (induction rule: rtranclp_induct)
  case base
  then show ?case using assms(2) by blast
next
  case (step c1 c2)
  then show ?case using conc_ok_step [OF _ step(2) assms(3)] by (meson subset_trans)
qed

end

subsection \<open>Properties\<close>

interpretation bytewise_keys: key_order slice_compare "\<lambda>_. True"
proof
  have c: "Compare BytewiseComparator = slice_compare" by (simp add: BytewiseComparator_def fun_eq_iff)
  fix a b d
  show "sgn (slice_compare b a) = - sgn (slice_compare a b)" using bytewise.cmp_sym [of a b] unfolding c by simp
  show "slice_compare a b \<le> 0 \<Longrightarrow> slice_compare b d \<le> 0 \<Longrightarrow> slice_compare a d \<le> 0" using bytewise.cmp_trans [of a b d] unfolding c by blast
qed

text \<open>C7: The skip list is a sorted list. Let the comparator be a total preorder on the valid keys and the memory for the nodes
  come from an arena. Inserting valid keys that are pairwise different under the comparator into a new skip list always
  returns, and there is a list of exactly these keys, in strictly ascending order, such that membership tests answer
  membership in it, walking with \<open>Next\<close> from \<open>SeekToFirst\<close> visits all of it, walking with \<open>Prev\<close> from \<open>SeekToLast\<close> visits
  it backwards, and walking from \<open>Seek\<close> visits the keys that are not below the target.\<close>

theorem skip_list_sorted:
  assumes "key_order cmp valid" and "new_array_ok na" and "\<forall>k \<in> set keys. valid k" and "sorted_wrt (\<lambda>a b. cmp a b \<noteq> 0) keys"
    and "SkipList_new (AllocateAligned na) any mem Arena_new = (sl0, ar0)"
  shows "\<exists>sl ar ks. insert_all cmp (AllocateAligned na) keys sl0 ar0 = Some (sl, ar) \<and> mset ks = mset keys \<and>
    sorted_wrt (\<lambda>a b. cmp a b < 0) ks \<and>
    (\<forall>key. valid key \<longrightarrow> Contains cmp key sl = Some (\<exists>k \<in> set ks. cmp key k = 0)) \<and>
    walk_next (Suc (length ks)) sl (Iter_SeekToFirst sl) = ks \<and>
    (\<exists>pos. Iter_SeekToLast sl = Some pos \<and> walk_prev cmp (Suc (length ks)) sl pos = Some (rev ks)) \<and>
    (\<forall>target. valid target \<longrightarrow>
      (\<exists>pos. Iter_Seek cmp target sl = Some pos \<and> walk_next (Suc (length ks)) sl pos = filter (\<lambda>k. \<not> cmp k target < 0) ks))"
proof -
  have sl: "skip_list cmp valid (AllocateAligned na) (arena_used na)"
    by (intro skip_list.intro assms(1) arena_nodes.node_allocator_axioms)
  note new = skip_list.SkipList_new_repr [OF sl arena_used_new [OF assms(2)] assms(5)]
  then have "sl_repr cmp valid (arena_used na) sl0 ar0 []" by (auto simp: sl_repr_def)
  from skip_list.insert_all_repr [OF sl this assms(3) _ assms(4)] obtain sl1 ar1 ks where
    r: "insert_all cmp (AllocateAligned na) keys sl0 ar0 = Some (sl1, ar1)" "sl_repr cmp valid (arena_used na) sl1 ar1 ks" "mset ks = mset keys"
    by auto
  from r skip_list.Contains_repr [OF sl r(2)] skip_list.walk_repr [OF sl r(2)] show ?thesis by blast
qed

theorem skip_list_sorted_witness:
  "\<exists>sl ar ks. insert_all slice_compare (AllocateAligned bump_new) [[2], [1]]
      (fst (SkipList_new (AllocateAligned bump_new) ([] :: bytes) (\<lambda>_ _. None) Arena_new))
      (snd (SkipList_new (AllocateAligned bump_new) ([] :: bytes) (\<lambda>_ _. None) Arena_new)) = Some (sl, ar) \<and>
    mset ks = mset [[2], [1]] \<and> walk_next (Suc (length ks)) sl (Iter_SeekToFirst sl) = ks"
proof -
  have "sorted_wrt (\<lambda>a b. slice_compare a b \<noteq> 0) [[2], [1]]" by simp
  from skip_list_sorted [OF bytewise_keys.key_order_axioms bump_new_ok _ this prod.collapse [symmetric]]
  show ?thesis by (simp del: walk_next.simps walk_prev.simps insert_all.simps) blast
qed



end
