(* ===== verification/DbFormat.thy ===== *)
theory DbFormat
  imports Coding Comparator Bloom
begin

text \<open>
  \<open>db/dbformat.h\<close> and \<open>db/dbformat.cc\<close>: internal keys (user key, sequence number, type), their
  comparator and filter policy built over the user's, and lookup keys.
\<close>

subsection \<open>Internal keys\<close>

definition kNumLevels :: nat where "kNumLevels = 7"
definition kL0_CompactionTrigger :: nat where "kL0_CompactionTrigger = 4"
definition kL0_SlowdownWritesTrigger :: nat where "kL0_SlowdownWritesTrigger = 8"
definition kL0_StopWritesTrigger :: nat where "kL0_StopWritesTrigger = 12"
definition kMaxMemCompactLevel :: nat where "kMaxMemCompactLevel = 2"

datatype ValueType = kTypeDeletion | kTypeValue

fun ValueType_code :: "ValueType \<Rightarrow> u64" where
  "ValueType_code kTypeDeletion = 0x0"
| "ValueType_code kTypeValue = 0x1"

definition kValueTypeForSeek :: ValueType where
  "kValueTypeForSeek = kTypeValue"

type_synonym SequenceNumber = u64

definition kMaxSequenceNumber :: SequenceNumber where
  "kMaxSequenceNumber = push_bit 56 1 - 1"

record ParsedInternalKey =
  pik_user_key :: bytes
  pik_sequence :: SequenceNumber
  pik_type :: ValueType

definition InternalKeyEncodingLength :: "ParsedInternalKey \<Rightarrow> nat" where
  "InternalKeyEncodingLength key = length (pik_user_key key) + 8"

definition PackSequenceAndType :: "u64 \<Rightarrow> ValueType \<Rightarrow> u64" where
  "PackSequenceAndType seq t = push_bit 8 seq OR ValueType_code t"

definition AppendInternalKey :: "bytes \<Rightarrow> ParsedInternalKey \<Rightarrow> bytes" where
  "AppendInternalKey result key =
     PutFixed64 (result @ pik_user_key key) (PackSequenceAndType (pik_sequence key) (pik_type key))"

definition ParseInternalKey :: "bytes \<Rightarrow> ParsedInternalKey option" where
  "ParseInternalKey internal_key =
     (let n = length internal_key
      in if n < 8 then None
         else let num = DecodeFixed64 (drop (n - 8) internal_key);
                  c = (ucast (num AND 0xff) :: byte)
              in if c = 0 then
                   Some \<lparr>pik_user_key = take (n - 8) internal_key, pik_sequence = drop_bit 8 num,
                         pik_type = kTypeDeletion\<rparr>
                 else if c = 1 then
                   Some \<lparr>pik_user_key = take (n - 8) internal_key, pik_sequence = drop_bit 8 num,
                         pik_type = kTypeValue\<rparr>
                 else None)"

definition ExtractUserKey :: "bytes \<Rightarrow> bytes" where
  "ExtractUserKey internal_key = take (length internal_key - 8) internal_key"

text \<open>The 64-bit tag at the end of an internal key, as \<open>InternalKeyComparator::Compare\<close> reads it.\<close>

definition internal_tag :: "bytes \<Rightarrow> u64" where
  "internal_tag key = DecodeFixed64 (drop (length key - 8) key)"

definition internal_compare :: "Comparator \<Rightarrow> bytes \<Rightarrow> bytes \<Rightarrow> int" where
  "internal_compare user akey bkey =
     (let r = Compare user (ExtractUserKey akey) (ExtractUserKey bkey)
      in if r = 0 then
           let anum = internal_tag akey; bnum = internal_tag bkey
           in if anum > bnum then - 1 else if anum < bnum then 1 else r
         else r)"

definition internal_separator :: "Comparator \<Rightarrow> bytes \<Rightarrow> bytes \<Rightarrow> bytes" where
  "internal_separator user start limit =
     (let user_start = ExtractUserKey start;
          user_limit = ExtractUserKey limit;
          tmp = FindShortestSeparator user user_start user_limit
      in if length tmp < length user_start \<and> Compare user user_start tmp < 0
         then PutFixed64 tmp (PackSequenceAndType kMaxSequenceNumber kValueTypeForSeek)
         else start)"

definition internal_successor :: "Comparator \<Rightarrow> bytes \<Rightarrow> bytes" where
  "internal_successor user key =
     (let user_key = ExtractUserKey key;
          tmp = FindShortSuccessor user user_key
      in if length tmp < length user_key \<and> Compare user user_key tmp < 0
         then PutFixed64 tmp (PackSequenceAndType kMaxSequenceNumber kValueTypeForSeek)
         else key)"

definition InternalKeyComparator :: "Comparator \<Rightarrow> Comparator" where
  "InternalKeyComparator user =
     \<lparr>Compare = internal_compare user, FindShortestSeparator = internal_separator user,
      FindShortSuccessor = internal_successor user\<rparr>"

subsection \<open>The internal filter policy\<close>

definition internal_CreateFilter ::
  "(bytes list \<Rightarrow> bytes \<Rightarrow> bytes) \<Rightarrow> bytes list \<Rightarrow> bytes \<Rightarrow> bytes" where
  "internal_CreateFilter create keys dst = create (map ExtractUserKey keys) dst"

definition internal_KeyMayMatch :: "(bytes \<Rightarrow> bytes \<Rightarrow> bool) \<Rightarrow> bytes \<Rightarrow> bytes \<Rightarrow> bool" where
  "internal_KeyMayMatch may_match key f = may_match (ExtractUserKey key) f"

subsection \<open>The class InternalKey\<close>

definition NewInternalKey :: "bytes \<Rightarrow> SequenceNumber \<Rightarrow> ValueType \<Rightarrow> bytes" where
  "NewInternalKey user_key s t =
     AppendInternalKey [] \<lparr>pik_user_key = user_key, pik_sequence = s, pik_type = t\<rparr>"

definition InternalKey_DecodeFrom :: "bytes \<Rightarrow> bytes option" where
  "InternalKey_DecodeFrom s = (if s \<noteq> [] then Some s else None)"

subsection \<open>Lookup keys\<close>

text \<open>\<open>start_\<close>, \<open>kstart_\<close> and \<open>end_\<close> delimit one buffer: the length prefix and the internal key.\<close>

record LookupKey =
  lk_prefix :: bytes
  lk_internal :: bytes

definition NewLookupKey :: "bytes \<Rightarrow> SequenceNumber \<Rightarrow> LookupKey" where
  "NewLookupKey user_key s =
     \<lparr>lk_prefix = EncodeVarint32 (word_of_nat (length user_key + 8)),
      lk_internal = user_key @ EncodeFixed64 (PackSequenceAndType s kValueTypeForSeek)\<rparr>"

definition lookup_memtable_key :: "LookupKey \<Rightarrow> bytes" where
  "lookup_memtable_key k = lk_prefix k @ lk_internal k"

definition lookup_internal_key :: "LookupKey \<Rightarrow> bytes" where
  "lookup_internal_key k = lk_internal k"

definition lookup_user_key :: "LookupKey \<Rightarrow> bytes" where
  "lookup_user_key k = take (length (lk_internal k) - 8) (lk_internal k)"

subsection \<open>Packing\<close>

lemma ValueType_code_bits: "bit (ValueType_code t) n \<Longrightarrow> n = 0"
  by (cases t) (auto simp: bit_1_iff)

lemma seq_le_max_iff: "seq \<le> kMaxSequenceNumber \<longleftrightarrow> unat seq < 2 ^ 56"
  by (simp add: kMaxSequenceNumber_def word_le_nat_alt) linarith

lemma Pack_low: "PackSequenceAndType seq t AND 0xff = ValueType_code t"
proof -
  have "PackSequenceAndType seq t AND mask 8 = ValueType_code t"
    by (intro bit_word_eqI) (auto simp: PackSequenceAndType_def bit_simps dest: ValueType_code_bits)
  then show ?thesis by (simp add: mask_numeral)
qed

lemma Pack_high: "seq \<le> kMaxSequenceNumber \<Longrightarrow> drop_bit 8 (PackSequenceAndType seq t) = seq"
proof -
  assume "seq \<le> kMaxSequenceNumber"
  then have nb: "bit seq n \<Longrightarrow> n < 56" for n
    using unat_less_imp_not_bit [of seq 56 n] by (meson not_le seq_le_max_iff)
  show ?thesis
    by (intro bit_word_eqI) (auto simp: PackSequenceAndType_def bit_simps dest: ValueType_code_bits nb)
qed

lemma mask_255: "mask 8 = (0xff :: u64)"
  by (simp add: mask_numeral)

lemma unat_Pack:
  assumes "seq \<le> kMaxSequenceNumber"
  shows "unat (PackSequenceAndType seq t) = unat seq * 256 + unat (ValueType_code t)"
proof -
  have "unat (PackSequenceAndType seq t) div 256 = unat seq"
    using Pack_high [OF assms, of t] unat_drop_bit_word [of 8 "PackSequenceAndType seq t"] by simp
  moreover have "unat (PackSequenceAndType seq t) mod 256 = unat (ValueType_code t)"
    using unsigned_take_bit_eq [of 8 "PackSequenceAndType seq t", where 'a = nat]
    unfolding take_bit_eq_mask [of 8 "PackSequenceAndType seq t"] mask_255 Pack_low
    by (simp only: take_bit_eq_mod) simp
  ultimately show ?thesis
    by (metis div_mult_mod_eq)
qed

lemma Pack_less_iff:
  assumes "s1 \<le> kMaxSequenceNumber" and "s2 \<le> kMaxSequenceNumber"
  shows "PackSequenceAndType s1 t1 < PackSequenceAndType s2 t2 \<longleftrightarrow>
    s1 < s2 \<or> s1 = s2 \<and> ValueType_code t1 < ValueType_code t2"
proof -
  have "unat (ValueType_code t) < 256" for t by (cases t) auto
  from this [of t1] this [of t2] show ?thesis
    unfolding word_less_nat_alt unat_Pack [OF assms(1)] unat_Pack [OF assms(2)] word_unat_eq_iff by auto
qed

lemma Extract_PutFixed64 [simp]: "ExtractUserKey (PutFixed64 k x) = k"
  by (simp add: ExtractUserKey_def PutFixed64_def)

lemma tag_PutFixed64 [simp]: "internal_tag (PutFixed64 k x) = x"
  by (simp add: internal_tag_def PutFixed64_def)

lemma length_PutFixed64 [simp]: "length (PutFixed64 k x) = length k + 8"
  by (simp add: PutFixed64_def)

lemma AppendInternalKey_length: "length (AppendInternalKey [] key) = InternalKeyEncodingLength key"
  by (simp add: AppendInternalKey_def InternalKeyEncodingLength_def)

lemma NewInternalKey_simps [simp]:
  "ExtractUserKey (NewInternalKey u s t) = u" "internal_tag (NewInternalKey u s t) = PackSequenceAndType s t"
  "length (NewInternalKey u s t) = length u + 8"
  by (simp_all add: NewInternalKey_def AppendInternalKey_def)

lemma lookup_internal_key_eq: "lookup_internal_key (NewLookupKey u s) = NewInternalKey u s kValueTypeForSeek"
  by (simp add: lookup_internal_key_def NewLookupKey_def NewInternalKey_def AppendInternalKey_def PutFixed64_def)

lemma ParseInternalKey_Append [simp, codec_simps]:
  assumes "pik_sequence key \<le> kMaxSequenceNumber"
  shows "ParseInternalKey (AppendInternalKey [] key) = Some key"
  using Pack_low [of "pik_sequence key" "pik_type key"] Pack_high [OF assms, of "pik_type key"]
  by (cases "pik_type key")
    (simp_all add: ParseInternalKey_def AppendInternalKey_def PutFixed64_def Let_def)

subsection \<open>The internal order\<close>

lemma internal_compare_iff:
  "internal_compare user a b < 0 \<longleftrightarrow> Compare user (ExtractUserKey a) (ExtractUserKey b) < 0 \<or>
     Compare user (ExtractUserKey a) (ExtractUserKey b) = 0 \<and> internal_tag b < internal_tag a"
  "internal_compare user a b = 0 \<longleftrightarrow>
     Compare user (ExtractUserKey a) (ExtractUserKey b) = 0 \<and> internal_tag a = internal_tag b"
  "internal_compare user a b \<le> 0 \<longleftrightarrow> Compare user (ExtractUserKey a) (ExtractUserKey b) < 0 \<or>
     Compare user (ExtractUserKey a) (ExtractUserKey b) = 0 \<and> internal_tag b \<le> internal_tag a"
  by (auto simp: internal_compare_def Let_def)

lemma internal_compare_pos:
  "internal_compare user a b > 0 \<longleftrightarrow> Compare user (ExtractUserKey a) (ExtractUserKey b) > 0 \<or>
     Compare user (ExtractUserKey a) (ExtractUserKey b) = 0 \<and> internal_tag a < internal_tag b"
  by (auto simp: internal_compare_def Let_def)

definition valid_internal :: "(bytes \<Rightarrow> bool) \<Rightarrow> bytes \<Rightarrow> bool" where
  "valid_internal valid k \<longleftrightarrow> 8 \<le> length k \<and> valid (ExtractUserKey k)"

lemma sgn_flip_iff: "sgn (y :: int) = - sgn x \<longleftrightarrow> (y < 0 \<longleftrightarrow> x > 0) \<and> (y = 0 \<longleftrightarrow> x = 0)"
  by (auto simp: sgn_if)

text \<open>A comparator in its role of user comparator, over which the internal one is built.\<close>

locale user_comparator = comparator
begin

lemma internal_sym:
  assumes "valid (ExtractUserKey a)" and "valid (ExtractUserKey b)"
  shows "sgn (internal_compare c b a) = - sgn (internal_compare c a b)"
  unfolding sgn_flip_iff internal_compare_iff internal_compare_pos
  using cmp_neg_iff [OF assms(2,1)] cmp_zero_iff [OF assms] by auto

lemma internal_trans:
  assumes "valid (ExtractUserKey a)" "valid (ExtractUserKey b)" "valid (ExtractUserKey d)"
    and "internal_compare c a b \<le> 0" and "internal_compare c b d \<le> 0"
  shows "internal_compare c a d \<le> 0"
  using assms cmp_less_trans [of "ExtractUserKey a" "ExtractUserKey b" "ExtractUserKey d"]
    cmp_le_less_trans [of "ExtractUserKey a" "ExtractUserKey b" "ExtractUserKey d"]
    cmp_trans [of "ExtractUserKey a" "ExtractUserKey b" "ExtractUserKey d"]
  unfolding internal_compare_iff by force

lemma internal_separator_cases:
  assumes "valid (ExtractUserKey a)" and "valid (ExtractUserKey b)"
  shows "internal_separator c a b = a \<or>
    (\<exists>tmp. internal_separator c a b = PutFixed64 tmp (PackSequenceAndType kMaxSequenceNumber kValueTypeForSeek) \<and>
       valid tmp \<and> Compare c (ExtractUserKey a) tmp < 0 \<and> Compare c tmp (ExtractUserKey b) < 0 \<and>
       length tmp < length (ExtractUserKey a))"
  using separator [OF assms] separator_same [OF assms]
  by (cases "Compare c (ExtractUserKey a) (ExtractUserKey b) < 0")
    (auto simp: internal_separator_def Let_def)

lemma internal_separator_same:
  assumes "valid (ExtractUserKey a)" and "valid (ExtractUserKey b)" and "\<not> internal_compare c a b < 0"
  shows "internal_separator c a b = a"
  using assms separator_same [OF assms(1,2)]
  by (auto simp: internal_separator_def Let_def internal_compare_iff)

lemma internal_successor_cases:
  assumes "valid (ExtractUserKey a)"
  shows "internal_successor c a = a \<or>
    (\<exists>tmp. internal_successor c a = PutFixed64 tmp (PackSequenceAndType kMaxSequenceNumber kValueTypeForSeek) \<and>
       valid tmp \<and> Compare c (ExtractUserKey a) tmp < 0)"
  unfolding internal_successor_def Let_def
  using successor [OF assms] by auto

end

sublocale user_comparator \<subseteq> internal: comparator "InternalKeyComparator c" "valid_internal valid"
proof unfold_locales
  fix a b d
  assume a: "valid_internal valid a"
  then show "Compare (InternalKeyComparator c) a a = 0"
    by (simp add: InternalKeyComparator_def internal_compare_iff valid_internal_def cmp_refl)
  show "valid_internal valid (FindShortSuccessor (InternalKeyComparator c) a) \<and>
      Compare (InternalKeyComparator c) a (FindShortSuccessor (InternalKeyComparator c) a) \<le> 0"
    using internal_successor_cases [of a] a
    by (auto simp: InternalKeyComparator_def valid_internal_def internal_compare_iff cmp_refl)
  assume b: "valid_internal valid b"
  show "sgn (Compare (InternalKeyComparator c) b a) = - sgn (Compare (InternalKeyComparator c) a b)"
    using a b internal_sym [of a b] by (simp add: InternalKeyComparator_def valid_internal_def)
  show "FindShortestSeparator (InternalKeyComparator c) a b = a"
    if "\<not> Compare (InternalKeyComparator c) a b < 0"
    using that a b by (simp add: InternalKeyComparator_def valid_internal_def internal_separator_same)
  show "valid_internal valid (FindShortestSeparator (InternalKeyComparator c) a b) \<and>
      Compare (InternalKeyComparator c) a (FindShortestSeparator (InternalKeyComparator c) a b) \<le> 0 \<and>
      Compare (InternalKeyComparator c) (FindShortestSeparator (InternalKeyComparator c) a b) b < 0"
    if "Compare (InternalKeyComparator c) a b < 0"
    using internal_separator_cases [of a b] that a b
    by (auto simp: InternalKeyComparator_def valid_internal_def internal_compare_iff cmp_refl)
  assume "valid_internal valid d"
  then show "Compare (InternalKeyComparator c) a d \<le> 0"
    if "Compare (InternalKeyComparator c) a b \<le> 0" "Compare (InternalKeyComparator c) b d \<le> 0"
    using that a b internal_trans [of a b d] by (simp add: InternalKeyComparator_def valid_internal_def)
qed

interpretation bytewise_user: user_comparator BytewiseComparator "\<lambda>_. True"
  by unfold_locales

text \<open>A user filter policy gives one on internal keys.\<close>

locale user_filter_policy = filter_policy

sublocale user_filter_policy \<subseteq> internal: filter_policy "internal_CreateFilter create" "internal_KeyMayMatch may_match"
  by unfold_locales
    (auto simp: internal_CreateFilter_def internal_KeyMayMatch_def no_false_negative
      intro: create_appends)

interpretation bloom_user: user_filter_policy "CreateFilter (NewBloomFilterPolicy n)" KeyMayMatch for n
  by unfold_locales

subsection \<open>Properties\<close>





text \<open>C30: The separators an index block stores are sound for internal keys: between two internal keys
  with \<open>start < limit\<close> the shortened key is still an internal key in \<open>[start, limit)\<close>, and the short
  successor of a key is an internal key that is not below it.\<close>
theorem internal_shortening:
  assumes "8 \<le> length start" and "8 \<le> length limit" and "internal_compare BytewiseComparator start limit < 0"
  shows "8 \<le> length (internal_separator BytewiseComparator start limit) \<and>
    internal_compare BytewiseComparator start (internal_separator BytewiseComparator start limit) \<le> 0 \<and>
    internal_compare BytewiseComparator (internal_separator BytewiseComparator start limit) limit < 0 \<and>
    8 \<le> length (internal_successor BytewiseComparator start) \<and>
    internal_compare BytewiseComparator start (internal_successor BytewiseComparator start) \<le> 0"
  using assms bytewise_user.internal.separator [of start limit] bytewise_user.internal.successor [of start]
  by (auto simp: InternalKeyComparator_def valid_internal_def)

theorem internal_shortening_witness:
  "internal_compare BytewiseComparator
     (internal_separator BytewiseComparator (NewInternalKey [1, 1, 1] 3 kTypeValue) (NewInternalKey [5] 3 kTypeValue))
     (NewInternalKey [5] 3 kTypeValue) < 0"
  using internal_shortening [of "NewInternalKey [1, 1, 1] 3 kTypeValue" "NewInternalKey [5] 3 kTypeValue"]
  by (simp add: internal_compare_iff BytewiseComparator_def slice_compare_iff)

end
