(* ===== verification/MemTable.thy ===== *)
theory MemTable
  imports SkipListSpec DbFormat Status
begin

text \<open>
  The memtable of \<open>db/memtable.h\<close> and \<open>db/memtable.cc\<close>: a skip list of encoded entries in an arena. A pointer to
  an entry is the bytes from there on, which nothing changes once the entry is in the list. Searches that do not return are
  \<^term>\<open>None\<close>.
\<close>

subsection \<open>Entries\<close>

text \<open>The length-prefixed slice at a pointer and what follows it; \<^term>\<open>None\<close> when the length is malformed, which the code
  assumes away.\<close>

definition entry_slice :: "bytes \<Rightarrow> (bytes \<times> bytes) option" where
  "entry_slice data =
     (case GetVarint32Ptr (take 5 data) of
        None \<Rightarrow> None
      | Some (len, r) \<Rightarrow>
          (let p = drop (length (take 5 data) - length r) data in Some (take (unat len) p, drop (unat len) p)))"

definition KeyComparator :: "Comparator \<Rightarrow> bytes \<Rightarrow> bytes \<Rightarrow> int" where
  "KeyComparator user aptr bptr =
     (case (entry_slice aptr, entry_slice bptr) of
        (Some (a, _), Some (b, _)) \<Rightarrow> Compare (InternalKeyComparator user) a b
      | _ \<Rightarrow> 0)"

definition EncodeKey :: "bytes \<Rightarrow> bytes" where
  "EncodeKey target = PutVarint32 [] (word_of_nat (length target)) @ target"

definition memtable_entry :: "SequenceNumber \<Rightarrow> ValueType \<Rightarrow> bytes \<Rightarrow> bytes \<Rightarrow> bytes" where
  "memtable_entry s t key value =
     (let internal_key_size = length key + 8;
          val_size = length value
      in EncodeVarint32 (word_of_nat internal_key_size) @ key @ EncodeFixed64 (push_bit 8 s OR ValueType_code t) @
         EncodeVarint32 (word_of_nat val_size) @ value)"

subsection \<open>The table\<close>

record MemTable =
  mt_comparator :: Comparator
  mt_refs :: int
  mt_arena :: Arena
  mt_table :: "bytes SkipList"

definition MemTable_new :: "new_array \<Rightarrow> Comparator \<Rightarrow> (nat \<Rightarrow> nat \<Rightarrow> nat option) \<Rightarrow> MemTable" where
  "MemTable_new na user mem =
     (let (table, ar) = SkipList_new (AllocateAligned na) [] mem Arena_new
      in \<lparr>mt_comparator = user, mt_refs = 0, mt_arena = ar, mt_table = table\<rparr>)"

definition MemTable_Ref :: "MemTable \<Rightarrow> MemTable" where
  "MemTable_Ref mem = mem\<lparr>mt_refs := mt_refs mem + 1\<rparr>"

text \<open>\<^term>\<open>None\<close> when the last reference is gone and the table is deleted.\<close>

definition MemTable_Unref :: "MemTable \<Rightarrow> MemTable option" where
  "MemTable_Unref mem = (if mt_refs mem - 1 \<le> 0 then None else Some (mem\<lparr>mt_refs := mt_refs mem - 1\<rparr>))"

definition ApproximateMemoryUsage :: "MemTable \<Rightarrow> nat" where
  "ApproximateMemoryUsage mem = MemoryUsage (mt_arena mem)"

definition MemTable_Add ::
    "new_array \<Rightarrow> SequenceNumber \<Rightarrow> ValueType \<Rightarrow> bytes \<Rightarrow> bytes \<Rightarrow> MemTable \<Rightarrow> MemTable option" where
  "MemTable_Add na s t key value mem =
     (let key_size = length key;
          val_size = length value;
          internal_key_size = key_size + 8;
          encoded_len = VarintLength (word_of_nat internal_key_size) + internal_key_size + VarintLength (word_of_nat val_size) + val_size;
          (_, ar) = Allocate na encoded_len (mt_arena mem)
      in map_option (\<lambda>(table, ar'). mem\<lparr>mt_table := table, mt_arena := ar'\<rparr>)
           (Insert (KeyComparator (mt_comparator mem)) (AllocateAligned na) (memtable_entry s t key value) (mt_table mem) ar))"

text \<open>The result of \<open>Get\<close> with the new contents of \<open>*value\<close> and \<open>*s\<close>.\<close>

definition MemTable_Get :: "LookupKey \<Rightarrow> bytes \<Rightarrow> Status \<Rightarrow> MemTable \<Rightarrow> (bool \<times> bytes \<times> Status) option" where
  "MemTable_Get key value s mem =
     (case Iter_Seek (KeyComparator (mt_comparator mem)) (lookup_memtable_key key) (mt_table mem) of
        None \<Rightarrow> None
      | Some pos \<Rightarrow>
          if Iter_Valid pos then
            (let entry = Iter_key (mt_table mem) pos
             in case GetVarint32Ptr (take 5 entry) of
                  None \<Rightarrow> None
                | Some (key_length, r) \<Rightarrow>
                    (let key_ptr = drop (length (take 5 entry) - length r) entry
                     in if Compare (mt_comparator mem) (take (unat (key_length - 8)) key_ptr) (lookup_user_key key) = 0 then
                          (let tag = DecodeFixed64 (drop (unat key_length - 8) key_ptr)
                           in if tag AND 0xff = ValueType_code kTypeValue then
                                (case entry_slice (drop (unat key_length) key_ptr) of
                                   None \<Rightarrow> None
                                 | Some (v, _) \<Rightarrow> Some (True, v, s))
                              else if tag AND 0xff = ValueType_code kTypeDeletion then Some (True, value, NotFound [] [])
                              else Some (False, value, s))
                        else Some (False, value, s)))
          else Some (False, value, s))"

subsection \<open>The iterator\<close>

text \<open>A \<open>MemTableIterator\<close> is a position of the skip list's iterator.\<close>

definition MemIter_Seek :: "bytes \<Rightarrow> MemTable \<Rightarrow> nat option option" where
  "MemIter_Seek k mem = Iter_Seek (KeyComparator (mt_comparator mem)) (EncodeKey k) (mt_table mem)"

definition MemIter_SeekToFirst :: "MemTable \<Rightarrow> nat option" where
  "MemIter_SeekToFirst mem = Iter_SeekToFirst (mt_table mem)"

definition MemIter_SeekToLast :: "MemTable \<Rightarrow> nat option option" where
  "MemIter_SeekToLast mem = Iter_SeekToLast (mt_table mem)"

definition MemIter_Next :: "MemTable \<Rightarrow> nat option \<Rightarrow> nat option" where
  "MemIter_Next mem pos = Iter_Next (mt_table mem) pos"

definition MemIter_Prev :: "MemTable \<Rightarrow> nat option \<Rightarrow> nat option option" where
  "MemIter_Prev mem pos = Iter_Prev (KeyComparator (mt_comparator mem)) (mt_table mem) pos"

definition MemIter_key :: "MemTable \<Rightarrow> nat option \<Rightarrow> bytes option" where
  "MemIter_key mem pos = map_option fst (entry_slice (Iter_key (mt_table mem) pos))"

definition MemIter_value :: "MemTable \<Rightarrow> nat option \<Rightarrow> bytes option" where
  "MemIter_value mem pos =
     (case entry_slice (Iter_key (mt_table mem) pos) of
        None \<Rightarrow> None
      | Some (_, after_key) \<Rightarrow> map_option fst (entry_slice after_key))"

subsection \<open>Reading entries\<close>

lemma varint_at_pointer:
  "GetVarint32Ptr (take 5 (EncodeVarint32 v @ rest)) = Some (v, take (5 - length (EncodeVarint32 v)) rest)"
  "drop (length (take 5 (EncodeVarint32 v @ rest)) - length (take (5 - length (EncodeVarint32 v)) rest)) (EncodeVarint32 v @ rest) = rest"
proof -
  show "GetVarint32Ptr (take 5 (EncodeVarint32 v @ rest)) = Some (v, take (5 - length (EncodeVarint32 v)) rest)"
    using GetVarint32_Encode [of v "take (5 - length (EncodeVarint32 v)) rest"] length_EncodeVarint32_bounds(2) [of v]
    by (simp add: GetVarint32_def)
  have "length (take 5 (EncodeVarint32 v @ rest)) - length (take (5 - length (EncodeVarint32 v)) rest) = length (EncodeVarint32 v)"
    using length_EncodeVarint32_bounds(2) [of v] by auto
  then show "drop (length (take 5 (EncodeVarint32 v @ rest)) - length (take (5 - length (EncodeVarint32 v)) rest)) (EncodeVarint32 v @ rest) = rest"
    by simp
qed

lemma entry_slice_prefixed:
  "length k < 2 ^ 32 \<Longrightarrow> entry_slice (EncodeVarint32 (word_of_nat (length k)) @ k @ rest) = Some (k, rest)"
  by (simp only: entry_slice_def varint_at_pointer option.case prod.case Let_def) (simp add: word_of_nat_unat_less)

lemma memtable_entry_prefixed:
  "memtable_entry s t key value =
     EncodeVarint32 (word_of_nat (length (NewInternalKey key s t))) @ NewInternalKey key s t @
     EncodeVarint32 (word_of_nat (length value)) @ value"
  by (simp add: memtable_entry_def Let_def NewInternalKey_def AppendInternalKey_def PutFixed64_def PackSequenceAndType_def)

lemma memtable_entry_slices:
  assumes "length key + 8 < 2 ^ 32" and "length value < 2 ^ 32"
  shows "entry_slice (memtable_entry s t key value) = Some (NewInternalKey key s t, EncodeVarint32 (word_of_nat (length value)) @ value)"
    and "entry_slice (EncodeVarint32 (word_of_nat (length value)) @ value) = Some (value, [])"
  using entry_slice_prefixed [of "NewInternalKey key s t"] entry_slice_prefixed [of "value" "[]"] assms
  unfolding memtable_entry_prefixed by simp_all

lemma memtable_entry_length:
  assumes "length key + 8 < 2 ^ 32" and "length value < 2 ^ 32"
  shows "length (memtable_entry s t key value) =
    VarintLength (word_of_nat (length key + 8)) + (length key + 8) + VarintLength (word_of_nat (length value)) + length value"
proof -
  have "ucast (word_of_nat n :: u32) = (word_of_nat n :: u64)" if "n < 2 ^ 32" for n
    using that by (intro word_unat_eq_iff [THEN iffD2]) (simp add: word_of_nat_unat_less)
  then show ?thesis
    using assms by (simp add: memtable_entry_def Let_def EncodeVarint32_eq_64 EncodeVarint64_length del: of_nat_add)
qed

lemma lookup_key_slice:
  assumes "length u + 8 < 2 ^ 32"
  shows "entry_slice (lookup_memtable_key (NewLookupKey u s)) = Some (NewInternalKey u s kValueTypeForSeek, [])"
  using entry_slice_prefixed [of "NewInternalKey u s kValueTypeForSeek" "[]"] assms
  by (simp add: lookup_memtable_key_def NewLookupKey_def NewInternalKey_def AppendInternalKey_def PutFixed64_def)

lemma lookup_user_key_eq: "lookup_user_key (NewLookupKey u s) = u"
  by (simp add: lookup_user_key_def NewLookupKey_def)

context skip_list
begin

lemma Seek_repr:
  assumes "sl_repr cmp valid used sl ar ks" and "valid target"
  shows "\<exists>pos. Iter_Seek cmp target sl = Some pos \<and> map_option (sl_key sl) pos = first_opt (filter (\<lambda>k. \<not> cmp k target < 0) ks)"
proof -
  obtain ns h where inv: "sl_inv cmp valid sl ns h" and ks: "ks = map (sl_key sl) ns" using assms by (auto simp: sl_repr_def)
  have "filter (\<lambda>k. \<not> cmp k target < 0) ks = map (sl_key sl) (sl_above cmp target sl ns)" using above_keys ks by simp
  with Iter_run(3) [OF inv assms(2)] show ?thesis by (cases "sl_above cmp target sl ns") auto
qed

end

subsection \<open>The order of the entries\<close>

definition valid_entry :: "(bytes \<Rightarrow> bool) \<Rightarrow> bytes \<Rightarrow> bool" where
  "valid_entry valid e \<longleftrightarrow> (case entry_slice e of None \<Rightarrow> False | Some (k, _) \<Rightarrow> valid_internal valid k)"

lemma KeyComparator_slices:
  "\<lbrakk>entry_slice a = Some (ka, ra); entry_slice b = Some (kb, rb)\<rbrakk> \<Longrightarrow> KeyComparator user a b = internal_compare user ka kb"
  by (simp add: KeyComparator_def InternalKeyComparator_def)

lemma valid_entry_slice: "valid_entry valid e \<Longrightarrow> \<exists>k r. entry_slice e = Some (k, r) \<and> valid_internal valid k"
  by (auto simp: valid_entry_def split: option.splits)

sublocale user_comparator \<subseteq> entries: key_order "KeyComparator c" "valid_entry valid"
proof
  fix a b assume v: "valid_entry valid a" "valid_entry valid b"
  then obtain ka ra kb rb where ab: "entry_slice a = Some (ka, ra)" "entry_slice b = Some (kb, rb)"
    "valid_internal valid ka" "valid_internal valid kb" using valid_entry_slice by metis
  then show "sgn (KeyComparator c b a) = - sgn (KeyComparator c a b)"
    using internal_sym [of ka kb] KeyComparator_slices by (simp add: valid_internal_def)
  fix d assume "valid_entry valid d"
  then obtain kd rd where d: "entry_slice d = Some (kd, rd)" "valid_internal valid kd" using valid_entry_slice by metis
  then show "KeyComparator c a d \<le> 0" if "KeyComparator c a b \<le> 0" "KeyComparator c b d \<le> 0"
    using that ab internal_trans [of ka kb kd] KeyComparator_slices by (simp add: valid_internal_def)
qed

subsection \<open>The contents of a memtable\<close>

text \<open>The arguments of a call of \<open>Add\<close>, the calls that are admissible, and a sequence of them.\<close>

type_synonym mem_add = "SequenceNumber \<times> ValueType \<times> bytes \<times> bytes"

definition add_ok :: "(bytes \<Rightarrow> bool) \<Rightarrow> mem_add \<Rightarrow> bool" where
  "add_ok valid = (\<lambda>(s, t, key, value). s \<le> kMaxSequenceNumber \<and> valid key \<and> length key + 8 < 2 ^ 32 \<and> length value < 2 ^ 32)"

definition add_entry :: "mem_add \<Rightarrow> bytes" where
  "add_entry = (\<lambda>(s, t, key, value). memtable_entry s t key value)"

definition add_ikey :: "mem_add \<Rightarrow> bytes" where
  "add_ikey = (\<lambda>(s, t, key, value). NewInternalKey key s t)"

fun MemTable_add_all :: "new_array \<Rightarrow> mem_add list \<Rightarrow> MemTable \<Rightarrow> MemTable option" where
  "MemTable_add_all na [] mem = Some mem"
| "MemTable_add_all na ((s, t, key, value) # adds) mem =
     (case MemTable_Add na s t key value mem of None \<Rightarrow> None | Some mem' \<Rightarrow> MemTable_add_all na adds mem')"

definition mt_repr :: "Comparator \<Rightarrow> (bytes \<Rightarrow> bool) \<Rightarrow> new_array \<Rightarrow> MemTable \<Rightarrow> mem_add list \<Rightarrow> bool" where
  "mt_repr c valid na mem adds \<longleftrightarrow> mt_comparator mem = c \<and> list_all (add_ok valid) adds \<and> distinct (map fst adds) \<and>
     (\<exists>ks. sl_repr (KeyComparator c) (valid_entry valid) (arena_used na) (mt_table mem) (mt_arena mem) ks \<and>
        mset ks = mset (map add_entry adds))"

text \<open>What a lookup should find: the calls for the user key that are visible at a sequence number, and the newest of them.\<close>

definition visible :: "Comparator \<Rightarrow> bytes \<Rightarrow> SequenceNumber \<Rightarrow> mem_add \<Rightarrow> bool" where
  "visible c u s = (\<lambda>(q, t, key, value). Compare c key u = 0 \<and> q \<le> s)"

fun newest_visible :: "Comparator \<Rightarrow> bytes \<Rightarrow> SequenceNumber \<Rightarrow> mem_add list \<Rightarrow> mem_add option" where
  "newest_visible c u s [] = None"
| "newest_visible c u s (a # adds) =
     (case newest_visible c u s adds of
        None \<Rightarrow> if visible c u s a then Some a else None
      | Some b \<Rightarrow> if visible c u s a \<and> fst b < fst a then Some a else Some b)"

definition lookup_result :: "bytes \<Rightarrow> Status \<Rightarrow> mem_add option \<Rightarrow> bool \<times> bytes \<times> Status" where
  "lookup_result val st r =
     (case r of
        None \<Rightarrow> (False, val, st)
      | Some (_, kTypeValue, _, v) \<Rightarrow> (True, v, st)
      | Some (_, kTypeDeletion, _, _) \<Rightarrow> (True, val, NotFound [] []))"

lemma newest_visible_None: "newest_visible c u s adds = None \<longleftrightarrow> (\<forall>a \<in> set adds. \<not> visible c u s a)"
  by (induction adds) (auto split: option.splits)

lemma newest_visible_Some:
  "newest_visible c u s adds = Some a \<Longrightarrow> a \<in> set adds \<and> visible c u s a \<and> (\<forall>b \<in> set adds. visible c u s b \<longrightarrow> fst b \<le> fst a)"
  by (induction adds arbitrary: a) (force split: option.splits if_splits simp: newest_visible_None)+

lemma newest_visibleI:
  assumes "a \<in> set adds" and "visible c u s a" and "\<forall>b \<in> set adds. visible c u s b \<longrightarrow> fst b \<le> fst a" and "distinct (map fst adds)"
  shows "newest_visible c u s adds = Some a"
proof -
  obtain b where b: "newest_visible c u s adds = Some b" using assms newest_visible_None by (metis not_None_eq)
  with newest_visible_Some [OF b] assms have "fst b = fst a" by (metis order_antisym)
  with newest_visible_Some [OF b] assms b show ?thesis by (metis eq_key_imp_eq_value prod.collapse)
qed

lemma add_entry_slice: "add_ok valid a \<Longrightarrow> entry_slice (add_entry a) = Some (add_ikey a, EncodeVarint32 (word_of_nat (length (snd (snd (snd a))))) @ snd (snd (snd a)))"
  by (auto simp: add_ok_def add_entry_def add_ikey_def memtable_entry_slices)

lemma add_entry_valid: "add_ok valid a \<Longrightarrow> valid_entry valid (add_entry a)"
  by (simp add: valid_entry_def add_entry_slice) (auto simp: add_ok_def add_ikey_def valid_internal_def)

lemma add_ikey_simps [simp]:
  "ExtractUserKey (add_ikey (q, t, key, v)) = key" "internal_tag (add_ikey (q, t, key, v)) = PackSequenceAndType q t"
  by (simp_all add: add_ikey_def)

lemma add_cmp: "\<lbrakk>add_ok valid a; add_ok valid b\<rbrakk> \<Longrightarrow> KeyComparator c (add_entry a) (add_entry b) = internal_compare c (add_ikey a) (add_ikey b)"
  using KeyComparator_slices [OF add_entry_slice add_entry_slice] by blast

lemma Pack_inj: "\<lbrakk>s1 \<le> kMaxSequenceNumber; s2 \<le> kMaxSequenceNumber; s1 \<noteq> s2\<rbrakk> \<Longrightarrow> PackSequenceAndType s1 t1 \<noteq> PackSequenceAndType s2 t2"
  by (metis Pack_high)

subsection \<open>The operations\<close>

lemma arena_repr_mono:
  assumes "sl_repr cmp valid (arena_used na) sl ar ks" and "0 < n" and "Allocate na n ar = (p, ar')"
  shows "sl_repr cmp valid (arena_used na) sl ar' ks"
proof -
  obtain ns h where "sl_inv cmp valid sl ns h" "arena_used na ar (set (sl_head sl # ns))" "ks = map (sl_key sl) ns"
    using assms(1) by (auto simp: sl_repr_def)
  moreover from arena_used_Allocate [OF this(2) assms(2,3)] have "arena_used na ar' (set (sl_head sl # ns))"
    using arena_used_subset by blast
  ultimately show ?thesis by (auto simp: sl_repr_def)
qed

context user_comparator
begin

lemma mt_repr_new:
  assumes "new_array_ok na"
  shows "mt_repr c valid na (MemTable_new na c mem) []"
proof -
  obtain table ar where n: "SkipList_new (AllocateAligned na) ([] :: bytes) mem Arena_new = (table, ar)" by fastforce
  have "sl_repr (KeyComparator c) (valid_entry valid) (arena_used na) table ar []"
    using entries.arena_list.SkipList_new_repr [OF arena_used_new [OF assms] n] by (auto simp: sl_repr_def)
  then show ?thesis using n by (simp add: mt_repr_def MemTable_new_def)
qed

lemma Add_run:
  assumes "mt_repr c valid na mem adds" and "add_ok valid (s, t, key, v)" and "s \<notin> fst ` set adds"
  shows "\<exists>mem'. MemTable_Add na s t key v mem = Some mem' \<and> mt_repr c valid na mem' ((s, t, key, v) # adds)"
proof -
  let ?a = "(s, t, key, v)"
  obtain ks where c: "mt_comparator mem = c" "list_all (add_ok valid) adds" "distinct (map fst adds)"
    and r: "sl_repr (KeyComparator c) (valid_entry valid) (arena_used na) (mt_table mem) (mt_arena mem) ks" "mset ks = mset (map add_entry adds)"
    using assms(1) by (auto simp: mt_repr_def)
  let ?n = "VarintLength (word_of_nat (length key + 8)) + (length key + 8) + VarintLength (word_of_nat (length v)) + length v"
  obtain p ar where al: "Allocate na ?n (mt_arena mem) = (p, ar)" by fastforce
  have r1: "sl_repr (KeyComparator c) (valid_entry valid) (arena_used na) (mt_table mem) ar ks"
    using arena_repr_mono [OF r(1) _ al] by simp
  have "KeyComparator c k (add_entry ?a) \<noteq> 0" if "k \<in> set ks" for k
  proof -
    from that r(2) have "k \<in> add_entry ` set adds" by (metis list.set_map mset_eq_setD)
    then obtain b where b: "b \<in> set adds" "k = add_entry b" by blast
    obtain q t' key' v' where b': "b = (q, t', key', v')" by (cases b)
    have ok: "add_ok valid b" using b(1) c(2) by (simp add: list_all_iff)
    moreover have "q \<noteq> s" using b b' assms(3) by force
    ultimately show ?thesis
      using Pack_inj [of q s t' t] add_cmp [OF ok assms(2), of c] b b' assms(2)
      by (auto simp: internal_compare_iff add_ok_def)
  qed
  from entries.arena_list.Insert_repr [OF r1 add_entry_valid [OF assms(2)]] this
  obtain table ar' where ins: "Insert (KeyComparator c) (AllocateAligned na) (add_entry ?a) (mt_table mem) ar = Some (table, ar')"
    "sl_repr (KeyComparator c) (valid_entry valid) (arena_used na) table ar' (insert_key (KeyComparator c) (add_entry ?a) ks)" by blast
  have "MemTable_Add na s t key v mem = Some (mem\<lparr>mt_table := table, mt_arena := ar'\<rparr>)"
    using al ins(1) c(1) by (simp add: MemTable_Add_def add_entry_def Let_def)
  moreover have "mt_repr c valid na (mem\<lparr>mt_table := table, mt_arena := ar'\<rparr>) (?a # adds)"
    using ins(2) c assms(2,3) r(2) unfolding mt_repr_def
    by (auto simp: insert_key_mset intro!: exI [of _ "insert_key (KeyComparator c) (add_entry ?a) ks"])
  ultimately show ?thesis by blast
qed

lemma add_all_run:
  assumes "mt_repr c valid na mem adds0" and "list_all (add_ok valid) adds" and "distinct (map fst adds)"
    and "fst ` set adds \<inter> fst ` set adds0 = {}"
  shows "\<exists>mem'. MemTable_add_all na adds mem = Some mem' \<and> mt_repr c valid na mem' (rev adds @ adds0)"
  using assms
proof (induction adds arbitrary: mem adds0)
  case (Cons a adds)
  obtain s t key v where a: "a = (s, t, key, v)" by (cases a)
  from Add_run [OF Cons.prems(1), of s t key v] Cons.prems a obtain mem1 where
    m: "MemTable_Add na s t key v mem = Some mem1" "mt_repr c valid na mem1 (a # adds0)" by auto
  from Cons.IH [OF m(2)] Cons.prems a m(1) show ?case by auto
qed auto

lemma Get_entry:
  assumes "mt_comparator mem = c" and "Iter_Seek (KeyComparator c) (lookup_memtable_key (NewLookupKey u s)) (mt_table mem) = Some (Some n)"
    and "sl_key (mt_table mem) n = add_entry (q, t, key, v)" and "add_ok valid (q, t, key, v)"
  shows "MemTable_Get (NewLookupKey u s) val st mem =
    Some (if Compare c key u = 0 then lookup_result val st (Some (q, t, key, v)) else (False, val, st))"
proof -
  let ?k = "NewInternalKey key q t" and ?len = "word_of_nat (length key + 8) :: u32" and ?rest = "EncodeVarint32 (word_of_nat (length v)) @ v"
  have l: "length key + 8 < 2 ^ 32" "length v < 2 ^ 32" using assms(4) by (auto simp: add_ok_def)
  have e: "add_entry (q, t, key, v) = EncodeVarint32 ?len @ ?k @ ?rest" by (simp add: add_entry_def memtable_entry_prefixed)
  have len: "unat ?len = length key + 8" using l by (simp add: word_of_nat_unat_less del: of_nat_add)
  have "unat (?len - 8) = length key" using l by (simp add: word_of_nat_unat_less)
  moreover have "take (length key) (?k @ ?rest) = key" "DecodeFixed64 (drop (length key) (?k @ ?rest)) = PackSequenceAndType q t"
    by (simp_all add: NewInternalKey_def AppendInternalKey_def PutFixed64_def)
  moreover have "drop (length key + 8) (?k @ ?rest) = ?rest" by simp
  moreover obtain r where "GetVarint32Ptr (take 5 (add_entry (q, t, key, v))) = Some (?len, r)"
    "drop (length (take 5 (add_entry (q, t, key, v))) - length r) (add_entry (q, t, key, v)) = ?k @ ?rest"
    unfolding e using varint_at_pointer by blast
  moreover note memtable_entry_slices(2) [OF l] Pack_low [of q t] len
  ultimately show ?thesis
    using assms(1,2) unfolding MemTable_Get_def Iter_Valid_def Iter_key_def
    by (cases t) (simp_all add: assms(3) lookup_user_key_eq lookup_result_def Let_def del: take_append drop_append of_nat_add)
qed

text \<open>The first entry that is not below the lookup key belongs to the newest visible call, if there is one.\<close>

lemma lookup_cmp:
  assumes "add_ok valid a" and "length u + 8 < 2 ^ 32"
  shows "KeyComparator c (add_entry a) (lookup_memtable_key (NewLookupKey u s)) = internal_compare c (add_ikey a) (NewInternalKey u s kValueTypeForSeek)"
  using KeyComparator_slices [OF add_entry_slice [OF assms(1)] lookup_key_slice [OF assms(2)]] .

lemma not_below_visible:
  assumes "add_ok valid (q, t, key, v)" and "s \<le> kMaxSequenceNumber" and "valid u" and "length u + 8 < 2 ^ 32"
  shows "\<not> KeyComparator c (add_entry (q, t, key, v)) (lookup_memtable_key (NewLookupKey u s)) < 0 \<longleftrightarrow>
    0 < Compare c key u \<or> visible c u s (q, t, key, v)"
proof -
  have "PackSequenceAndType s kValueTypeForSeek < PackSequenceAndType q t \<longleftrightarrow> s < q"
    using Pack_less_iff [of s q kValueTypeForSeek t] assms by (cases t) (auto simp: add_ok_def kValueTypeForSeek_def)
  then show ?thesis
    unfolding lookup_cmp [OF assms(1,4)] internal_compare_iff by (auto simp: visible_def)
qed

lemma newest_order:
  assumes ok: "add_ok valid (q, t, key, v)" "add_ok valid (q', t', key', v')" and "valid u" and "Compare c key' u = 0"
    and le: "internal_compare c (add_ikey (q, t, key, v)) (add_ikey (q', t', key', v')) < 0 \<or> add_ikey (q, t, key, v) = add_ikey (q', t', key', v')"
  shows "Compare c key u \<le> 0 \<and> (Compare c key u = 0 \<longrightarrow> q' \<le> q)"
proof -
  have v: "valid key" "valid key'" "q \<le> kMaxSequenceNumber" "q' \<le> kMaxSequenceNumber" using ok by (auto simp: add_ok_def)
  have 1: "Compare c key u < 0" if "Compare c key key' < 0" using cmp_less_trans [of key key' u] that v assms(3,4) by simp
  have 2: "Compare c key u \<le> 0" if "Compare c key key' \<le> 0" using cmp_trans [of key key' u] that v assms(3,4) by simp
  from le consider "Compare c key key' < 0" | "Compare c key key' = 0" "PackSequenceAndType q' t' < PackSequenceAndType q t"
    | "key = key'" "PackSequenceAndType q t = PackSequenceAndType q' t'"
    using add_ikey_simps [of q t key v] add_ikey_simps [of q' t' key' v'] unfolding internal_compare_iff by metis
  then show ?thesis
  proof cases
    case 2
    then show ?thesis using \<open>Compare c key key' \<le> 0 \<Longrightarrow> _\<close> Pack_less_iff [OF v(4,3)] by auto
  next
    case 3
    then show ?thesis using assms(4) Pack_inj [OF v(3,4)] by auto
  qed (use 1 in auto)
qed

lemma Get_run:
  assumes repr: "mt_repr c valid na mem adds" and u: "valid u" "length u + 8 < 2 ^ 32" and s: "s \<le> kMaxSequenceNumber"
  shows "MemTable_Get (NewLookupKey u s) val st mem = Some (lookup_result val st (newest_visible c u s adds))"
proof -
  let ?t = "lookup_memtable_key (NewLookupKey u s)" and ?cmp = "KeyComparator c"
  obtain ks where c: "mt_comparator mem = c" and ok: "\<And>a. a \<in> set adds \<Longrightarrow> add_ok valid a" and d: "distinct (map fst adds)"
    and r: "sl_repr ?cmp (valid_entry valid) (arena_used na) (mt_table mem) (mt_arena mem) ks" "mset ks = mset (map add_entry adds)"
    using repr by (auto simp: mt_repr_def list_all_iff)
  have set_ks: "set ks = add_entry ` set adds" using r(2) by (metis list.set_map mset_eq_setD)
  have vt: "valid_entry valid ?t" using u lookup_key_slice [OF u(2)] by (simp add: valid_entry_def valid_internal_def)
  obtain pos where pos: "Iter_Seek ?cmp ?t (mt_table mem) = Some pos" "map_option (sl_key (mt_table mem)) pos = first_opt (filter (\<lambda>k. \<not> ?cmp k ?t < 0) ks)"
    using entries.arena_list.Seek_repr [OF r(1) vt] by blast
  have vis: "\<not> ?cmp (add_entry a) ?t < 0" if "a \<in> set adds" "visible c u s a" for a
    using not_below_visible [of _ _ _ _ s u] ok that u s by (cases a) blast
  show ?thesis
  proof (cases "filter (\<lambda>k. \<not> ?cmp k ?t < 0) ks")
    case Nil
    then have "newest_visible c u s adds = None" unfolding newest_visible_None using vis set_ks by (auto simp: filter_empty_conv)
    moreover have "pos = None" using pos(2) Nil by simp
    ultimately show ?thesis using pos(1) c by (simp add: MemTable_Get_def Iter_Valid_def lookup_result_def)
  next
    case (Cons e es)
    then have "e \<in> set (filter (\<lambda>k. \<not> ?cmp k ?t < 0) ks)" by simp
    then have e: "e \<in> set ks" "\<not> ?cmp e ?t < 0" by auto
    then obtain a where a: "a \<in> set adds" "e = add_entry a" using set_ks by blast
    obtain q t key v where a': "a = (q, t, key, v)" by (cases a)
    obtain n where n: "pos = Some n" "sl_key (mt_table mem) n = e" using pos(2) Cons by auto
    have "sorted_wrt (\<lambda>a b. ?cmp a b < 0) (e # es)"
      using entries.arena_list.walk_repr [OF r(1)] sorted_wrt_filter unfolding Cons [symmetric] by blast
    then have first: "?cmp e (add_entry b) < 0 \<or> e = add_entry b" if "b \<in> set adds" "visible c u s b" for b
    proof -
      have "add_entry b \<in> set (filter (\<lambda>k. \<not> ?cmp k ?t < 0) ks)" using vis [OF that] that set_ks by auto
      with \<open>sorted_wrt _ (e # es)\<close> Cons show ?thesis by auto
    qed
    have get: "MemTable_Get (NewLookupKey u s) val st mem = Some (if Compare c key u = 0 then lookup_result val st (Some a) else (False, val, st))"
      using Get_entry [OF c, of u s n q t key v] pos(1) n a a' ok by blast
    have seen: "Compare c key u \<le> 0 \<and> (visible c u s a \<longrightarrow> fst b \<le> fst a)" if b: "b \<in> set adds" "visible c u s b" for b
    proof -
      obtain q' t' key' v' where b': "b = (q', t', key', v')" by (cases b)
      have "internal_compare c (add_ikey a) (add_ikey b) < 0 \<or> add_ikey a = add_ikey b"
        using first [OF b] add_cmp [of valid a b c] add_entry_slice [of valid a] add_entry_slice [of valid b] ok a b by auto
      then show ?thesis using newest_order [of q t key v q' t' key' v' u] b ok a a' b' u by (auto simp: visible_def)
    qed
    show ?thesis
    proof (cases "visible c u s a")
      case True
      have "fst b \<le> fst a" if b: "b \<in> set adds" "visible c u s b" for b using seen [OF b] True by blast
      then have "newest_visible c u s adds = Some a" using newest_visibleI [OF a(1) True _ d] by blast
      moreover have "Compare c key u = 0" using True a' by (simp add: visible_def)
      ultimately show ?thesis using get by simp
    next
      case False
      have pos: "0 < Compare c key u" using e(2) False not_below_visible [of q t key v s u] ok a a' u s by blast
      have "\<not> visible c u s b" if b: "b \<in> set adds" for b using seen [OF b] pos by auto
      then have "newest_visible c u s adds = None" by (simp add: newest_visible_None)
      then show ?thesis using get pos by (simp add: lookup_result_def)
    qed
  qed
qed

end

lemma newest_visible_rev:
  assumes "distinct (map fst adds)"
  shows "newest_visible c u s (rev adds) = newest_visible c u s adds"
proof (cases "newest_visible c u s adds")
  case None
  then have "newest_visible c u s (rev adds) = None" unfolding newest_visible_None by simp
  with None show ?thesis by simp
next
  case (Some a)
  with newest_visible_Some [OF this] assms show ?thesis by (auto intro!: newest_visibleI simp: rev_map [symmetric])
qed

subsection \<open>Properties\<close>

text \<open>C12: The memtable holds versions. Let the user comparator be a total preorder on the valid keys, and let any number of
  calls of \<open>Add\<close> with valid keys and different sequence numbers be made on a new memtable, in any order. All of them return,
  and a later \<open>Get\<close> for a user key at a sequence number returns and decides by the call with the largest sequence number
  among those for this user key that are not newer: it returns that call's value, or a not-found status when it was a
  deletion, and reports nothing when there is no such call.\<close>

theorem memtable_lookup:
  assumes "user_comparator c valid" and "new_array_ok na" and "list_all (add_ok valid) adds" and "distinct (map fst adds)"
    and "valid u" and "length u + 8 < 2 ^ 32" and "s \<le> kMaxSequenceNumber"
  shows "\<exists>mem. MemTable_add_all na adds (MemTable_new na c junk) = Some mem \<and>
    MemTable_Get (NewLookupKey u s) val st mem = Some (lookup_result val st (newest_visible c u s adds))"
proof -
  have "mt_repr c valid na (MemTable_new na c junk) []" using user_comparator.mt_repr_new [OF assms(1,2)] .
  from user_comparator.add_all_run [OF assms(1) this assms(3,4)] obtain mem where
    m: "MemTable_add_all na adds (MemTable_new na c junk) = Some mem" "mt_repr c valid na mem (rev adds)" by auto
  from m(1) user_comparator.Get_run [OF assms(1) m(2) assms(5-7)] newest_visible_rev [OF assms(4)] show ?thesis by auto
qed

theorem memtable_lookup_witness:
  "\<exists>mem. MemTable_add_all bump_new [(5, kTypeValue, [1], [10]), (7, kTypeDeletion, [1], []), (6, kTypeValue, [1], [20])]
      (MemTable_new bump_new BytewiseComparator (\<lambda>_ _. None)) = Some mem \<and>
    MemTable_Get (NewLookupKey [1] 6) [] OK mem = Some (True, [20], OK)"
proof -
  let ?adds = "[(5, kTypeValue, [1], [10]), (7, kTypeDeletion, [1], []), (6, kTypeValue, [1], [20])] :: mem_add list"
  have 1: "list_all (add_ok (\<lambda>_. True)) ?adds" by (simp add: add_ok_def kMaxSequenceNumber_def)
  have 2: "distinct (map fst ?adds)" by simp
  have 3: "lookup_result [] OK (newest_visible BytewiseComparator [1] 6 ?adds) = (True, [20], OK)"
    by (simp add: visible_def lookup_result_def BytewiseComparator_def)
  from memtable_lookup [OF bytewise_user.user_comparator_axioms bump_new_ok 1 2, of "[1]" 6 "\<lambda>_ _. None" "[]" OK] 3
  show ?thesis by (simp add: kMaxSequenceNumber_def)
qed

end
