(* ===== verification/WriteBatch.thy ===== *)
theory WriteBatch
  imports MemTable
begin

text \<open>
  Write batches: \<open>db/write_batch.cc\<close> and \<open>db/write_batch_internal.h\<close>. A batch is its representation \<open>rep_\<close>. A handler
  is a pair of functions on its state.
\<close>

definition kHeader :: nat where
  "kHeader = 12"

definition WriteBatch_Clear :: bytes where
  "WriteBatch_Clear = replicate kHeader 0"

definition ApproximateSize :: "bytes \<Rightarrow> nat" where
  "ApproximateSize rep = length rep"

definition Count :: "bytes \<Rightarrow> int" where
  "Count rep = sint (DecodeFixed32 (drop 8 rep))"

text \<open>The encoders write over the bytes from an index on.\<close>

definition overwrite :: "nat \<Rightarrow> bytes \<Rightarrow> bytes \<Rightarrow> bytes" where
  "overwrite i bs rep = take i rep @ bs @ drop (i + length bs) rep"

definition SetCount :: "bytes \<Rightarrow> int \<Rightarrow> bytes" where
  "SetCount rep n = overwrite 8 (EncodeFixed32 (word_of_int n)) rep"

definition Sequence :: "bytes \<Rightarrow> SequenceNumber" where
  "Sequence rep = DecodeFixed64 rep"

definition SetSequence :: "bytes \<Rightarrow> SequenceNumber \<Rightarrow> bytes" where
  "SetSequence rep seq = overwrite 0 (EncodeFixed64 seq) rep"

definition Contents :: "bytes \<Rightarrow> bytes" where
  "Contents rep = rep"

definition ByteSize :: "bytes \<Rightarrow> nat" where
  "ByteSize rep = length rep"

definition SetContents :: "bytes \<Rightarrow> bytes" where
  "SetContents contents = contents"

definition WriteBatch_Put :: "bytes \<Rightarrow> bytes \<Rightarrow> bytes \<Rightarrow> bytes" where
  "WriteBatch_Put rep key value =
     (let rep1 = SetCount rep (Count rep + 1);
          rep2 = rep1 @ [ucast (ValueType_code kTypeValue)]
      in PutLengthPrefixedSlice (PutLengthPrefixedSlice rep2 key) value)"

definition WriteBatch_Delete :: "bytes \<Rightarrow> bytes \<Rightarrow> bytes" where
  "WriteBatch_Delete rep key =
     (let rep1 = SetCount rep (Count rep + 1);
          rep2 = rep1 @ [ucast (ValueType_code kTypeDeletion)]
      in PutLengthPrefixedSlice rep2 key)"

definition WriteBatch_Append :: "bytes \<Rightarrow> bytes \<Rightarrow> bytes" where
  "WriteBatch_Append dst src = SetCount dst (Count dst + Count src) @ drop kHeader src"

subsection \<open>Iteration\<close>

record 'h batch_handler =
  on_Put :: "bytes \<Rightarrow> bytes \<Rightarrow> 'h \<Rightarrow> 'h"
  on_Delete :: "bytes \<Rightarrow> 'h \<Rightarrow> 'h"

text \<open>The loop returns the error it met, if any, the number of entries and the state of the handler.\<close>

function Iterate_loop :: "'h batch_handler \<Rightarrow> bytes \<Rightarrow> int \<Rightarrow> 'h \<Rightarrow> Status \<times> int \<times> 'h" where
  "Iterate_loop hnd [] found h = (OK, found, h)"
| "Iterate_loop hnd (tag # input) found h =
     (if tag = ucast (ValueType_code kTypeValue) then
        (case GetLengthPrefixedSlice input of
           None \<Rightarrow> (Corruption (str ''bad WriteBatch Put'') [], found + 1, h)
         | Some (key, input1) \<Rightarrow>
             (case GetLengthPrefixedSlice input1 of
                None \<Rightarrow> (Corruption (str ''bad WriteBatch Put'') [], found + 1, h)
              | Some (val, input2) \<Rightarrow> Iterate_loop hnd input2 (found + 1) (on_Put hnd key val h)))
      else if tag = ucast (ValueType_code kTypeDeletion) then
        (case GetLengthPrefixedSlice input of
           None \<Rightarrow> (Corruption (str ''bad WriteBatch Delete'') [], found + 1, h)
         | Some (key, input1) \<Rightarrow> Iterate_loop hnd input1 (found + 1) (on_Delete hnd key h))
      else (Corruption (str ''unknown WriteBatch tag'') [], found + 1, h))"
  by pat_completeness auto
termination
  by (relation "measure (\<lambda>(hnd, input, found, h). length input)") (auto dest!: GetLengthPrefixedSlice_length)

definition Iterate :: "'h batch_handler \<Rightarrow> bytes \<Rightarrow> 'h \<Rightarrow> Status \<times> 'h" where
  "Iterate hnd rep h =
     (if length rep < kHeader then (Corruption (str ''malformed WriteBatch (too small)'') [], h)
      else
        (let (st, found, h') = Iterate_loop hnd (drop kHeader rep) 0 h
         in if \<not> ok st then (st, h')
            else if found \<noteq> Count rep then (Corruption (str ''WriteBatch has wrong count'') [], h')
            else (OK, h')))"

subsection \<open>Insertion into a memtable\<close>

text \<open>The state of the inserter: the sequence number and the memtable, \<^term>\<open>None\<close> when an \<open>Add\<close> did not return.\<close>

definition MemTableInserter :: "new_array \<Rightarrow> (SequenceNumber \<times> MemTable option) batch_handler" where
  "MemTableInserter na =
     \<lparr>on_Put = (\<lambda>key val (seq, mem). (seq + 1, Option.bind mem (MemTable_Add na seq kTypeValue key val))),
      on_Delete = (\<lambda>key (seq, mem). (seq + 1, Option.bind mem (MemTable_Add na seq kTypeDeletion key [])))\<rparr>"

definition InsertInto :: "new_array \<Rightarrow> bytes \<Rightarrow> MemTable \<Rightarrow> Status \<times> MemTable option" where
  "InsertInto na rep mem =
     (case Iterate (MemTableInserter na) rep (Sequence rep, Some mem) of (st, _, mem') \<Rightarrow> (st, mem'))"

subsection \<open>Batches as sequences of operations\<close>

datatype batch_op = BPut bytes bytes | BDelete bytes

fun op_image :: "batch_op \<Rightarrow> bytes" where
  "op_image (BPut k v) = 1 # PutLengthPrefixedSlice [] k @ PutLengthPrefixedSlice [] v"
| "op_image (BDelete k) = 0 # PutLengthPrefixedSlice [] k"

fun op_ok :: "batch_op \<Rightarrow> bool" where
  "op_ok (BPut k v) \<longleftrightarrow> length k < 2 ^ 32 \<and> length v < 2 ^ 32"
| "op_ok (BDelete k) \<longleftrightarrow> length k < 2 ^ 32"

fun apply_op :: "'h batch_handler \<Rightarrow> batch_op \<Rightarrow> 'h \<Rightarrow> 'h" where
  "apply_op hnd (BPut k v) h = on_Put hnd k v h"
| "apply_op hnd (BDelete k) h = on_Delete hnd k h"

fun build_op :: "batch_op \<Rightarrow> bytes \<Rightarrow> bytes" where
  "build_op (BPut k v) rep = WriteBatch_Put rep k v"
| "build_op (BDelete k) rep = WriteBatch_Delete rep k"

definition batch_image :: "SequenceNumber \<Rightarrow> batch_op list \<Rightarrow> bytes" where
  "batch_image seq ops = EncodeFixed64 seq @ EncodeFixed32 (word_of_nat (length ops)) @ concat (map op_image ops)"

lemma tag_codes [simp]: "ucast (ValueType_code kTypeValue) = (1 :: byte)" "ucast (ValueType_code kTypeDeletion) = (0 :: byte)"
  by simp_all

lemma Iterate_loop_ops:
  assumes "list_all op_ok ops"
  shows "Iterate_loop hnd (concat (map op_image ops) @ rest) found h =
    Iterate_loop hnd rest (found + int (length ops)) (fold (apply_op hnd) ops h)"
  using assms
proof (induction ops arbitrary: found h)
  case (Cons op ops)
  then show ?case by (cases op) (simp_all add: ac_simps)
qed simp

lemma batch_image_parts [simp]:
  "length (batch_image seq ops) = kHeader + length (concat (map op_image ops))"
  "drop kHeader (batch_image seq ops) = concat (map op_image ops)"
  "drop 12 (batch_image seq ops) = concat (map op_image ops)"
  "DecodeFixed64 (batch_image seq ops) = seq"
  "DecodeFixed32 (drop 8 (batch_image seq ops)) = word_of_nat (length ops)"
  by (simp_all add: batch_image_def kHeader_def)

lemma SetCount_image:
  "SetCount (batch_image seq ops) n = EncodeFixed64 seq @ EncodeFixed32 (word_of_int n) @ concat (map op_image ops)"
  by (simp add: SetCount_def overwrite_def batch_image_def)

lemma build_op_image: "build_op op (batch_image seq ops) = batch_image seq (ops @ [op])"
  by (cases op; simp add: WriteBatch_Put_def WriteBatch_Delete_def Count_def SetCount_image Let_def
      PutLengthPrefixedSlice_append [of "_ @ _"] PutLengthPrefixedSlice_append [of "PutLengthPrefixedSlice _ _"];
      simp add: batch_image_def add.commute)

lemma Append_image:
  "WriteBatch_Append (batch_image seq ops) (batch_image seq' ops') = batch_image seq (ops @ ops')"
  by (simp add: WriteBatch_Append_def Count_def SetCount_image; simp add: batch_image_def)

lemma SetSequence_image: "SetSequence (batch_image seq ops) seq' = batch_image seq' ops"
  by (simp add: SetSequence_def overwrite_def batch_image_def)

lemma Clear_image: "WriteBatch_Clear = batch_image 0 []"
  by (simp add: WriteBatch_Clear_def batch_image_def kHeader_def EncodeFixed64_def EncodeFixed32_def numeral_eq_Suc)

lemma build_image: "fold build_op ops (batch_image seq ops0) = batch_image seq (ops0 @ ops)"
  by (induction ops arbitrary: ops0) (simp_all add: build_op_image)

lemma Count_image: "length ops < 2 ^ 31 \<Longrightarrow> Count (batch_image seq ops) = int (length ops)"
  by (simp add: Count_def signed_of_nat signed_take_bit_int_eq_self)

lemma Iterate_image:
  assumes "list_all op_ok ops" and "length ops < 2 ^ 31"
  shows "Iterate hnd (batch_image seq ops) h = (OK, fold (apply_op hnd) ops h)"
  using Iterate_loop_ops [OF assms(1), of hnd "[]" 0 h] Count_image [OF assms(2)]
  by (simp add: Iterate_def ok_def OK_def)

text \<open>Whatever the bytes, what a successful iteration handed over is all of them.\<close>

lemma Iterate_loop_sound:
  "Iterate_loop hnd input found h = (OK, found', h') \<Longrightarrow>
     \<exists>ops. found' = found + int (length ops) \<and> h' = fold (apply_op hnd) ops h"
proof (induction hnd input found h rule: Iterate_loop.induct)
  case (1 hnd found h)
  then show ?case by (intro exI [of _ "[]"]) simp
next
  case (2 hnd tag input found h)
  have no [simp]: "Corruption m m' \<noteq> OK" for m m' by (simp add: OK_def Corruption_def Status_new_def Let_def)
  show ?case
  proof (cases "tag = 1")
    case True
    then obtain key input1 val input2 where g: "GetLengthPrefixedSlice input = Some (key, input1)" "GetLengthPrefixedSlice input1 = Some (val, input2)"
      using 2(3) by (auto split: option.splits)
    obtain ops where "found' = found + 1 + int (length ops)" "h' = fold (apply_op hnd) ops (on_Put hnd key val h)"
      using 2(1) [OF _ g(1) refl g(2) refl] 2(3) True g by auto
    then show ?thesis by (intro exI [of _ "BPut key val # ops"]) simp
  next
    case False
    then have t: "tag = 0" using 2(3) by (auto split: if_splits)
    then obtain key input1 where g: "GetLengthPrefixedSlice input = Some (key, input1)" using 2(3) by (auto split: option.splits)
    obtain ops where "found' = found + 1 + int (length ops)" "h' = fold (apply_op hnd) ops (on_Delete hnd key h)"
      using 2(2) [OF _ _ g refl] 2(3) t g by auto
    then show ?thesis by (intro exI [of _ "BDelete key # ops"]) simp
  qed
qed

subsection \<open>Batches in a memtable\<close>

fun batch_adds :: "SequenceNumber \<Rightarrow> batch_op list \<Rightarrow> mem_add list" where
  "batch_adds seq [] = []"
| "batch_adds seq (BPut k v # ops) = (seq, kTypeValue, k, v) # batch_adds (seq + 1) ops"
| "batch_adds seq (BDelete k # ops) = (seq, kTypeDeletion, k, []) # batch_adds (seq + 1) ops"

text \<open>An operation that the memtable admits.\<close>

fun op_valid :: "(bytes \<Rightarrow> bool) \<Rightarrow> batch_op \<Rightarrow> bool" where
  "op_valid valid (BPut k v) \<longleftrightarrow> valid k \<and> length k + 8 < 2 ^ 32 \<and> length v < 2 ^ 32"
| "op_valid valid (BDelete k) \<longleftrightarrow> valid k \<and> length k + 8 < 2 ^ 32"

lemma inserter_fold:
  "snd (fold (apply_op (MemTableInserter na)) ops (seq, m)) = Option.bind m (MemTable_add_all na (batch_adds seq ops))"
proof (induction seq ops arbitrary: m rule: batch_adds.induct)
  case (1 seq)
  then show ?case by (cases m) auto
next
  case (2 seq k v ops)
  then show ?case by (cases m) (auto simp: MemTableInserter_def split: option.splits)
next
  case (3 seq k ops)
  then show ?case by (cases m) (auto simp: MemTableInserter_def split: option.splits)
qed

lemma add_all_append: "MemTable_add_all na (xs @ ys) mem = Option.bind (MemTable_add_all na xs mem) (MemTable_add_all na ys)"
  by (induction na xs mem rule: MemTable_add_all.induct) (auto split: option.splits)

lemma op_valid_ok: "list_all (op_valid valid) ops \<Longrightarrow> list_all op_ok ops"
  unfolding list_all_iff by (metis (no_types, lifting) add_lessD1 batch_op.exhaust op_ok.simps op_valid.simps)

lemma seq_less_max: "unat seq < 2 ^ 56 \<longleftrightarrow> seq \<le> kMaxSequenceNumber"
  by (simp add: seq_le_max_iff)

lemma batch_adds_ok:
  assumes "list_all (op_valid valid) ops" and "unat seq + length ops \<le> 2 ^ 56"
  shows "list_all (add_ok valid) (batch_adds seq ops) \<and> distinct (map fst (batch_adds seq ops)) \<and> (\<forall>a \<in> set (batch_adds seq ops). seq \<le> fst a)"
  using assms
proof (induction seq ops rule: batch_adds.induct)
  case (2 seq k v ops)
  then have s: "unat (seq + 1) = unat seq + 1" "seq \<le> kMaxSequenceNumber" using unat_add_lem [of seq 1] seq_less_max [of seq] by auto
  then have "seq < seq + 1" by (simp add: word_less_nat_alt)
  with 2 s show ?case by (force simp: add_ok_def)
next
  case (3 seq k ops)
  then have s: "unat (seq + 1) = unat seq + 1" "seq \<le> kMaxSequenceNumber" using unat_add_lem [of seq 1] seq_less_max [of seq] by auto
  then have "seq < seq + 1" by (simp add: word_less_nat_alt)
  with 3 s show ?case by (force simp: add_ok_def)
qed simp

lemma InsertInto_image:
  assumes "list_all op_ok ops" and "length ops < 2 ^ 31"
  shows "InsertInto na (batch_image seq ops) mem = (OK, MemTable_add_all na (batch_adds seq ops) mem)"
  using Iterate_image [OF assms, of "MemTableInserter na" seq "(seq, Some mem)"] inserter_fold [of na ops seq "Some mem"]
  by (auto simp: InsertInto_def Sequence_def split: prod.splits)

subsection \<open>Properties\<close>

text \<open>C17: A batch is the sequence of its operations. A batch that is built from an empty one by \<open>Put\<close> and \<open>Delete\<close>, has further
  batches appended and is given a sequence number, carries this sequence number and the number of its operations, and
  iterating over it returns OK after calling the handler once for each operation, in order. And whatever the bytes of a batch
  are, an iteration that returns OK made as many calls as the header counts.\<close>

theorem write_batch_roundtrip:
  assumes "list_all op_ok (ops @ ops')" and "length (ops @ ops') < 2 ^ 31"
  shows "let rep = SetSequence (WriteBatch_Append (fold build_op ops WriteBatch_Clear) (fold build_op ops' WriteBatch_Clear)) seq
    in Sequence rep = seq \<and> Count rep = int (length (ops @ ops')) \<and>
       Iterate hnd rep h = (OK, fold (apply_op hnd) (ops @ ops') h) \<and>
       (\<forall>junk h'. Iterate hnd junk h = (OK, h') \<longrightarrow> (\<exists>called. Count junk = int (length called) \<and> h' = fold (apply_op hnd) called h))"
proof -
  have "\<exists>called. Count junk = int (length called) \<and> h' = fold (apply_op hnd) called h" if "Iterate hnd junk h = (OK, h')" for junk h'
    using that Iterate_loop_sound [of hnd "drop kHeader junk" 0 h _ h']
    by (auto simp: Iterate_def ok_def OK_def Corruption_def Status_new_def Let_def split: if_splits prod.splits)
  then show ?thesis
    using Iterate_image [OF assms] Count_image [OF assms(2)]
    by (simp add: Clear_image build_image Append_image SetSequence_image Sequence_def Let_def)
qed

theorem write_batch_roundtrip_witness:
  "Iterate \<lparr>on_Put = (\<lambda>k v h. h @ [(k, v)]), on_Delete = (\<lambda>k h. h @ [(k, [])])\<rparr>
     (SetSequence (WriteBatch_Append (fold build_op [BPut [1] [2]] WriteBatch_Clear) (fold build_op [BDelete [3]] WriteBatch_Clear)) 9) [] =
   (OK, [([1], [2]), ([3], [])])"
  using write_batch_roundtrip [of "[BPut [1] [2]]" "[BDelete [3]]" 9 "\<lparr>on_Put = (\<lambda>k v h. h @ [(k, v)]), on_Delete = (\<lambda>k h. h @ [(k, [])])\<rparr>" "[]"]
  by (simp add: Let_def)

text \<open>C18: From batch to lookup. A memtable has taken any sequence of additions. Inserting a batch whose sequence number is above
  theirs returns OK, numbers the operations consecutively from there, and every later lookup answers as if the operations of
  the batch had been added one by one: by the newest one that is visible at the sequence number asked for, over the old
  contents and the batch together.\<close>

theorem batch_insert_lookup:
  assumes "user_comparator c valid" and "new_array_ok na" and "list_all (add_ok valid) adds" and "distinct (map fst adds)"
    and "\<forall>a \<in> set adds. fst a < seq" and "list_all (op_valid valid) ops" and "length ops < 2 ^ 31" and "unat seq + length ops \<le> 2 ^ 56"
    and "valid u" and "length u + 8 < 2 ^ 32" and "s \<le> kMaxSequenceNumber"
  shows "\<exists>mem mem'. MemTable_add_all na adds (MemTable_new na c junk) = Some mem \<and>
    InsertInto na (SetSequence (fold build_op ops WriteBatch_Clear) seq) mem = (OK, Some mem') \<and>
    MemTable_Get (NewLookupKey u s) val st mem' = Some (lookup_result val st (newest_visible c u s (adds @ batch_adds seq ops)))"
proof -
  note b = batch_adds_ok [OF assms(6,8)]
  have r: "SetSequence (fold build_op ops WriteBatch_Clear) seq = batch_image seq ops"
    by (simp add: Clear_image build_image SetSequence_image)
  have all: "list_all (add_ok valid) (adds @ batch_adds seq ops)" "distinct (map fst (adds @ batch_adds seq ops))"
    using b assms(3-5) by fastforce+
  have new: "mt_repr c valid na (MemTable_new na c junk) []" using user_comparator.mt_repr_new [OF assms(1,2)] .
  from user_comparator.add_all_run [OF assms(1) new all] obtain mem' where
    m: "MemTable_add_all na (adds @ batch_adds seq ops) (MemTable_new na c junk) = Some mem'" "mt_repr c valid na mem' (rev (adds @ batch_adds seq ops))"
    by auto
  then obtain mem where mem: "MemTable_add_all na adds (MemTable_new na c junk) = Some mem" "MemTable_add_all na (batch_adds seq ops) mem = Some mem'"
    unfolding add_all_append by (auto simp: bind_eq_Some_conv)
  moreover have "InsertInto na (batch_image seq ops) mem = (OK, Some mem')"
    using InsertInto_image [OF op_valid_ok [OF assms(6)] assms(7)] mem(2) by simp
  moreover have "MemTable_Get (NewLookupKey u s) val st mem' = Some (lookup_result val st (newest_visible c u s (adds @ batch_adds seq ops)))"
    using user_comparator.Get_run [OF assms(1) m(2) assms(9-11)] newest_visible_rev [OF all(2)] by simp
  ultimately show ?thesis unfolding r by blast
qed

theorem batch_insert_lookup_witness:
  "\<exists>mem mem'. MemTable_add_all bump_new [(5, kTypeValue, [1], [10])] (MemTable_new bump_new BytewiseComparator (\<lambda>_ _. None)) = Some mem \<and>
    InsertInto bump_new (SetSequence (fold build_op [BPut [2] [20], BDelete [1]] WriteBatch_Clear) 6) mem = (OK, Some mem') \<and>
    MemTable_Get (NewLookupKey [1] 9) [] OK mem' = Some (True, [], NotFound [] [])"
proof -
  let ?adds = "[(5, kTypeValue, [1], [10])] :: mem_add list" and ?ops = "[BPut [2] [20], BDelete [1]]"
  have 1: "list_all (add_ok (\<lambda>_. True)) ?adds" "list_all (op_valid (\<lambda>_. True)) ?ops" "unat (6 :: u64) + length ?ops \<le> 2 ^ 56"
    "(9 :: u64) \<le> kMaxSequenceNumber" "\<forall>a \<in> set ?adds. fst a < 6"
    by (simp_all add: add_ok_def kMaxSequenceNumber_def)
  have 2: "lookup_result [] OK (newest_visible BytewiseComparator [1] 9 (?adds @ batch_adds 6 ?ops)) = (True, [], NotFound [] [])"
    by (simp add: visible_def lookup_result_def BytewiseComparator_def)
  from batch_insert_lookup [OF bytewise_user.user_comparator_axioms bump_new_ok 1(1) _ 1(5,2) _ 1(3) _ _ 1(4), of "[1]" "\<lambda>_ _. None" "[]" OK] 2
  show ?thesis by simp
qed

end
