(* ===== verification/VersionEdit.thy ===== *)
theory VersionEdit
  imports DbFormat Status
begin

text \<open>
  Version edits, the records of the manifest: \<open>db/version_edit.h\<close> and \<open>db/version_edit.cc\<close>. Levels are natural
  numbers. \<open>deleted_files_\<close>, a \<open>std::set\<close> of pairs, is the list of its elements in their order.
\<close>

subsection \<open>Data\<close>

record FileMetaData =
  fm_refs :: int
  fm_allowed_seeks :: int
  fm_number :: u64
  fm_file_size :: u64
  fm_smallest :: bytes
  fm_largest :: bytes

definition FileMetaData_new :: "u64 \<Rightarrow> u64 \<Rightarrow> bytes \<Rightarrow> bytes \<Rightarrow> FileMetaData" where
  "FileMetaData_new number file_size smallest largest =
     \<lparr>fm_refs = 0, fm_allowed_seeks = 2 ^ 30, fm_number = number, fm_file_size = file_size,
      fm_smallest = smallest, fm_largest = largest\<rparr>"

record VersionEdit =
  ve_comparator :: bytes
  ve_log_number :: u64
  ve_prev_log_number :: u64
  ve_next_file_number :: u64
  ve_last_sequence :: u64
  ve_has_comparator :: bool
  ve_has_log_number :: bool
  ve_has_prev_log_number :: bool
  ve_has_next_file_number :: bool
  ve_has_last_sequence :: bool
  ve_compact_pointers :: "(nat \<times> bytes) list"
  ve_deleted_files :: "(nat \<times> u64) list"
  ve_new_files :: "(nat \<times> FileMetaData) list"

definition kComparator :: u32 where "kComparator = 1"
definition kLogNumber :: u32 where "kLogNumber = 2"
definition kNextFileNumber :: u32 where "kNextFileNumber = 3"
definition kLastSequence :: u32 where "kLastSequence = 4"
definition kCompactPointer :: u32 where "kCompactPointer = 5"
definition kDeletedFile :: u32 where "kDeletedFile = 6"
definition kNewFile :: u32 where "kNewFile = 7"
definition kPrevLogNumber :: u32 where "kPrevLogNumber = 9"

lemmas tag_defs = kComparator_def kLogNumber_def kNextFileNumber_def kLastSequence_def kCompactPointer_def
  kDeletedFile_def kNewFile_def kPrevLogNumber_def

subsection \<open>Building an edit\<close>

definition VersionEdit_Clear :: VersionEdit where
  "VersionEdit_Clear =
     \<lparr>ve_comparator = [], ve_log_number = 0, ve_prev_log_number = 0, ve_next_file_number = 0, ve_last_sequence = 0,
      ve_has_comparator = False, ve_has_log_number = False, ve_has_prev_log_number = False,
      ve_has_next_file_number = False, ve_has_last_sequence = False,
      ve_compact_pointers = [], ve_deleted_files = [], ve_new_files = []\<rparr>"

definition SetComparatorName :: "bytes \<Rightarrow> VersionEdit \<Rightarrow> VersionEdit" where
  "SetComparatorName name ve = ve\<lparr>ve_has_comparator := True, ve_comparator := name\<rparr>"

definition SetLogNumber :: "u64 \<Rightarrow> VersionEdit \<Rightarrow> VersionEdit" where
  "SetLogNumber num ve = ve\<lparr>ve_has_log_number := True, ve_log_number := num\<rparr>"

definition SetPrevLogNumber :: "u64 \<Rightarrow> VersionEdit \<Rightarrow> VersionEdit" where
  "SetPrevLogNumber num ve = ve\<lparr>ve_has_prev_log_number := True, ve_prev_log_number := num\<rparr>"

definition SetNextFile :: "u64 \<Rightarrow> VersionEdit \<Rightarrow> VersionEdit" where
  "SetNextFile num ve = ve\<lparr>ve_has_next_file_number := True, ve_next_file_number := num\<rparr>"

definition SetLastSequence :: "SequenceNumber \<Rightarrow> VersionEdit \<Rightarrow> VersionEdit" where
  "SetLastSequence seq ve = ve\<lparr>ve_has_last_sequence := True, ve_last_sequence := seq\<rparr>"

definition SetCompactPointer :: "nat \<Rightarrow> bytes \<Rightarrow> VersionEdit \<Rightarrow> VersionEdit" where
  "SetCompactPointer level key ve = ve\<lparr>ve_compact_pointers := ve_compact_pointers ve @ [(level, key)]\<rparr>"

definition AddFile :: "nat \<Rightarrow> u64 \<Rightarrow> u64 \<Rightarrow> bytes \<Rightarrow> bytes \<Rightarrow> VersionEdit \<Rightarrow> VersionEdit" where
  "AddFile level number file_size smallest largest ve =
     ve\<lparr>ve_new_files := ve_new_files ve @ [(level, FileMetaData_new number file_size smallest largest)]\<rparr>"

definition level_file_less :: "nat \<times> u64 \<Rightarrow> nat \<times> u64 \<Rightarrow> bool" where
  "level_file_less a b \<longleftrightarrow> fst a < fst b \<or> fst a = fst b \<and> snd a < snd b"

fun set_insert :: "nat \<times> u64 \<Rightarrow> (nat \<times> u64) list \<Rightarrow> (nat \<times> u64) list" where
  "set_insert x [] = [x]"
| "set_insert x (y # ys) = (if level_file_less x y then x # y # ys else if level_file_less y x then y # set_insert x ys else y # ys)"

definition VersionEdit_RemoveFile :: "nat \<Rightarrow> u64 \<Rightarrow> VersionEdit \<Rightarrow> VersionEdit" where
  "VersionEdit_RemoveFile level number ve = ve\<lparr>ve_deleted_files := set_insert (level, number) (ve_deleted_files ve)\<rparr>"

subsection \<open>Encoding\<close>

definition put_compact_pointer :: "nat \<times> bytes \<Rightarrow> bytes \<Rightarrow> bytes" where
  "put_compact_pointer cp dst =
     PutLengthPrefixedSlice (PutVarint32 (PutVarint32 dst kCompactPointer) (word_of_nat (fst cp))) (snd cp)"

definition put_deleted_file :: "nat \<times> u64 \<Rightarrow> bytes \<Rightarrow> bytes" where
  "put_deleted_file df dst = PutVarint64 (PutVarint32 (PutVarint32 dst kDeletedFile) (word_of_nat (fst df))) (snd df)"

definition put_new_file :: "nat \<times> FileMetaData \<Rightarrow> bytes \<Rightarrow> bytes" where
  "put_new_file nf dst =
     (let f = snd nf;
          dst1 = PutVarint32 (PutVarint32 dst kNewFile) (word_of_nat (fst nf));
          dst2 = PutVarint64 (PutVarint64 dst1 (fm_number f)) (fm_file_size f)
      in PutLengthPrefixedSlice (PutLengthPrefixedSlice dst2 (fm_smallest f)) (fm_largest f))"

definition VersionEdit_EncodeTo :: "VersionEdit \<Rightarrow> bytes \<Rightarrow> bytes" where
  "VersionEdit_EncodeTo ve dst =
     (let dst1 = (if ve_has_comparator ve then PutLengthPrefixedSlice (PutVarint32 dst kComparator) (ve_comparator ve) else dst);
          dst2 = (if ve_has_log_number ve then PutVarint64 (PutVarint32 dst1 kLogNumber) (ve_log_number ve) else dst1);
          dst3 = (if ve_has_prev_log_number ve then PutVarint64 (PutVarint32 dst2 kPrevLogNumber) (ve_prev_log_number ve) else dst2);
          dst4 = (if ve_has_next_file_number ve then PutVarint64 (PutVarint32 dst3 kNextFileNumber) (ve_next_file_number ve) else dst3);
          dst5 = (if ve_has_last_sequence ve then PutVarint64 (PutVarint32 dst4 kLastSequence) (ve_last_sequence ve) else dst4);
          dst6 = fold put_compact_pointer (ve_compact_pointers ve) dst5;
          dst7 = fold put_deleted_file (ve_deleted_files ve) dst6
      in fold put_new_file (ve_new_files ve) dst7)"

subsection \<open>Decoding\<close>

definition GetInternalKey :: "bytes \<Rightarrow> (bytes \<times> bytes) option" where
  "GetInternalKey input =
     (case GetLengthPrefixedSlice input of
        None \<Rightarrow> None
      | Some (s, input') \<Rightarrow> (case InternalKey_DecodeFrom s of None \<Rightarrow> None | Some k \<Rightarrow> Some (k, input')))"

definition GetLevel :: "bytes \<Rightarrow> (nat \<times> bytes) option" where
  "GetLevel input =
     (case GetVarint32 input of
        None \<Rightarrow> None
      | Some (v, input') \<Rightarrow> if unat v < kNumLevels then Some (unat v, input') else None)"

text \<open>The \<open>switch\<close> of \<open>DecodeFrom\<close>: the message, or the rest of the input and the edit.\<close>

definition decode_field :: "u32 \<Rightarrow> bytes \<Rightarrow> VersionEdit \<Rightarrow> bytes + bytes \<times> VersionEdit" where
  "decode_field tag input ve =
     (if tag = kComparator then
        (case GetLengthPrefixedSlice input of
           Some (s, input') \<Rightarrow> Inr (input', ve\<lparr>ve_comparator := s, ve_has_comparator := True\<rparr>)
         | None \<Rightarrow> Inl (str ''comparator name''))
      else if tag = kLogNumber then
        (case GetVarint64 input of
           Some (n, input') \<Rightarrow> Inr (input', ve\<lparr>ve_log_number := n, ve_has_log_number := True\<rparr>)
         | None \<Rightarrow> Inl (str ''log number''))
      else if tag = kPrevLogNumber then
        (case GetVarint64 input of
           Some (n, input') \<Rightarrow> Inr (input', ve\<lparr>ve_prev_log_number := n, ve_has_prev_log_number := True\<rparr>)
         | None \<Rightarrow> Inl (str ''previous log number''))
      else if tag = kNextFileNumber then
        (case GetVarint64 input of
           Some (n, input') \<Rightarrow> Inr (input', ve\<lparr>ve_next_file_number := n, ve_has_next_file_number := True\<rparr>)
         | None \<Rightarrow> Inl (str ''next file number''))
      else if tag = kLastSequence then
        (case GetVarint64 input of
           Some (n, input') \<Rightarrow> Inr (input', ve\<lparr>ve_last_sequence := n, ve_has_last_sequence := True\<rparr>)
         | None \<Rightarrow> Inl (str ''last sequence number''))
      else if tag = kCompactPointer then
        (case GetLevel input of
           None \<Rightarrow> Inl (str ''compaction pointer'')
         | Some (level, input1) \<Rightarrow>
             (case GetInternalKey input1 of
                None \<Rightarrow> Inl (str ''compaction pointer'')
              | Some (key, input2) \<Rightarrow> Inr (input2, ve\<lparr>ve_compact_pointers := ve_compact_pointers ve @ [(level, key)]\<rparr>)))
      else if tag = kDeletedFile then
        (case GetLevel input of
           None \<Rightarrow> Inl (str ''deleted file'')
         | Some (level, input1) \<Rightarrow>
             (case GetVarint64 input1 of
                None \<Rightarrow> Inl (str ''deleted file'')
              | Some (number, input2) \<Rightarrow> Inr (input2, ve\<lparr>ve_deleted_files := set_insert (level, number) (ve_deleted_files ve)\<rparr>)))
      else if tag = kNewFile then
        (case Option.bind (GetLevel input) (\<lambda>(level, input1).
              Option.bind (GetVarint64 input1) (\<lambda>(number, input2).
              Option.bind (GetVarint64 input2) (\<lambda>(file_size, input3).
              Option.bind (GetInternalKey input3) (\<lambda>(smallest, input4).
              Option.bind (GetInternalKey input4) (\<lambda>(largest, input5).
                Some (input5, level, FileMetaData_new number file_size smallest largest)))))) of
           None \<Rightarrow> Inl (str ''new-file entry'')
         | Some (input', level, f) \<Rightarrow> Inr (input', ve\<lparr>ve_new_files := ve_new_files ve @ [(level, f)]\<rparr>))
      else Inl (str ''unknown tag''))"

lemma GetVarint64_length: "GetVarint64 input = Some (v, rest) \<Longrightarrow> length rest < length input"
proof -
  have "varint64_loop shift result input = Some (v, rest) \<Longrightarrow> length rest < length input" for shift result
    by (induction shift result input rule: varint64_loop.induct) (auto simp: Let_def split: if_splits)
  then show "GetVarint64 input = Some (v, rest) \<Longrightarrow> length rest < length input" by (simp add: GetVarint64_def GetVarint64Ptr_def)
qed

lemma GetLevel_length: "GetLevel input = Some (v, rest) \<Longrightarrow> length rest < length input"
  by (auto simp: GetLevel_def dest!: GetVarint32_length split: option.splits if_splits)

lemma GetInternalKey_length: "GetInternalKey input = Some (v, rest) \<Longrightarrow> length rest < length input"
  by (auto simp: GetInternalKey_def dest!: GetLengthPrefixedSlice_length split: option.splits)

lemma decode_field_length: "decode_field tag input ve = Inr (input', ve') \<Longrightarrow> length input' < length input"
  unfolding decode_field_def
  by (auto dest!: GetLengthPrefixedSlice_length GetVarint64_length GetLevel_length GetInternalKey_length
      split: if_splits option.splits simp: bind_eq_Some_conv)

text \<open>The loop ends with a message or with the input it stopped at.\<close>

function decode_loop :: "bytes \<Rightarrow> VersionEdit \<Rightarrow> bytes option \<times> bytes \<times> VersionEdit" where
  "decode_loop input ve =
     (case GetVarint32 input of
        None \<Rightarrow> (None, input, ve)
      | Some (tag, input1) \<Rightarrow>
          (case decode_field tag input1 ve of
             Inl msg \<Rightarrow> (Some msg, input1, ve)
           | Inr (input2, ve') \<Rightarrow> decode_loop input2 ve'))"
  by auto
termination
  by (relation "measure (\<lambda>(input, ve). length input)") (auto dest!: GetVarint32_length decode_field_length)

declare decode_loop.simps [simp del]

definition VersionEdit_DecodeFrom :: "bytes \<Rightarrow> Status \<times> VersionEdit" where
  "VersionEdit_DecodeFrom src =
     (let (msg, input, ve) = decode_loop src VersionEdit_Clear;
          msg' = (if msg = None \<and> input \<noteq> [] then Some (str ''invalid tag'') else msg)
      in (case msg' of None \<Rightarrow> OK | Some m \<Rightarrow> Corruption (str ''VersionEdit'') m, ve))"

subsection \<open>Printing\<close>

definition ParsedInternalKey_DebugString :: "ParsedInternalKey \<Rightarrow> bytes" where
  "ParsedInternalKey_DebugString k =
     [39] @ EscapeString (pik_user_key k) @ [39] @ str '' @ '' @ NumberToString (pik_sequence k) @ str '' : '' @
     NumberToString (ValueType_code (pik_type k))"

definition InternalKey_DebugString :: "bytes \<Rightarrow> bytes" where
  "InternalKey_DebugString rep =
     (case ParseInternalKey rep of
        Some parsed \<Rightarrow> ParsedInternalKey_DebugString parsed
      | None \<Rightarrow> str ''(bad)'' @ EscapeString rep)"

definition debug_line :: "string \<Rightarrow> bytes" where
  "debug_line s = [10] @ str s"

definition VersionEdit_DebugString :: "VersionEdit \<Rightarrow> bytes" where
  "VersionEdit_DebugString ve =
     str ''VersionEdit {'' @
     (if ve_has_comparator ve then debug_line ''  Comparator: '' @ ve_comparator ve else []) @
     (if ve_has_log_number ve then debug_line ''  LogNumber: '' @ NumberToString (ve_log_number ve) else []) @
     (if ve_has_prev_log_number ve then debug_line ''  PrevLogNumber: '' @ NumberToString (ve_prev_log_number ve) else []) @
     (if ve_has_next_file_number ve then debug_line ''  NextFile: '' @ NumberToString (ve_next_file_number ve) else []) @
     (if ve_has_last_sequence ve then debug_line ''  LastSeq: '' @ NumberToString (ve_last_sequence ve) else []) @
     concat (map (\<lambda>(level, key). debug_line ''  CompactPointer: '' @ NumberToString (word_of_nat level) @ str '' '' @
       InternalKey_DebugString key) (ve_compact_pointers ve)) @
     concat (map (\<lambda>(level, number). debug_line ''  RemoveFile: '' @ NumberToString (word_of_nat level) @ str '' '' @
       NumberToString number) (ve_deleted_files ve)) @
     concat (map (\<lambda>(level, f). debug_line ''  AddFile: '' @ NumberToString (word_of_nat level) @ str '' '' @
       NumberToString (fm_number f) @ str '' '' @ NumberToString (fm_file_size f) @ str '' '' @
       InternalKey_DebugString (fm_smallest f) @ str '' .. '' @ InternalKey_DebugString (fm_largest f)) (ve_new_files ve)) @
     [10] @ str ''}'' @ [10]"

subsection \<open>Edits that can be encoded\<close>

definition key_ok :: "bytes \<Rightarrow> bool" where
  "key_ok k \<longleftrightarrow> k \<noteq> [] \<and> length k < 2 ^ 32"

definition new_file_ok :: "nat \<times> FileMetaData \<Rightarrow> bool" where
  "new_file_ok nf \<longleftrightarrow> fst nf < kNumLevels \<and> key_ok (fm_smallest (snd nf)) \<and> key_ok (fm_largest (snd nf)) \<and>
     snd nf = FileMetaData_new (fm_number (snd nf)) (fm_file_size (snd nf)) (fm_smallest (snd nf)) (fm_largest (snd nf))"

definition ve_ok :: "VersionEdit \<Rightarrow> bool" where
  "ve_ok ve \<longleftrightarrow>
     (\<not> ve_has_comparator ve \<longrightarrow> ve_comparator ve = []) \<and> (\<not> ve_has_log_number ve \<longrightarrow> ve_log_number ve = 0) \<and>
     (\<not> ve_has_prev_log_number ve \<longrightarrow> ve_prev_log_number ve = 0) \<and> (\<not> ve_has_next_file_number ve \<longrightarrow> ve_next_file_number ve = 0) \<and>
     (\<not> ve_has_last_sequence ve \<longrightarrow> ve_last_sequence ve = 0) \<and> length (ve_comparator ve) < 2 ^ 32 \<and>
     (\<forall>(level, key) \<in> set (ve_compact_pointers ve). level < kNumLevels \<and> key_ok key) \<and>
     (\<forall>(level, _) \<in> set (ve_deleted_files ve). level < kNumLevels) \<and> sorted_wrt level_file_less (ve_deleted_files ve) \<and>
     (\<forall>nf \<in> set (ve_new_files ve). new_file_ok nf)"

text \<open>One call on an edit, with its result.\<close>

inductive edit_step :: "VersionEdit \<Rightarrow> VersionEdit \<Rightarrow> bool" where
  "length name < 2 ^ 32 \<Longrightarrow> edit_step ve (SetComparatorName name ve)"
| "edit_step ve (SetLogNumber n ve)"
| "edit_step ve (SetPrevLogNumber n ve)"
| "edit_step ve (SetNextFile n ve)"
| "edit_step ve (SetLastSequence s ve)"
| "level < kNumLevels \<Longrightarrow> key_ok key \<Longrightarrow> edit_step ve (SetCompactPointer level key ve)"
| "level < kNumLevels \<Longrightarrow> key_ok smallest \<Longrightarrow> key_ok largest \<Longrightarrow> edit_step ve (AddFile level n sz smallest largest ve)"
| "level < kNumLevels \<Longrightarrow> edit_step ve (VersionEdit_RemoveFile level n ve)"

lemma level_file_less_linear: "a = b \<or> level_file_less a b \<or> level_file_less b a"
  by (cases a, cases b) (auto simp: level_file_less_def)

lemma level_file_less_trans: "level_file_less a b \<Longrightarrow> level_file_less b d \<Longrightarrow> level_file_less a d"
  by (auto simp: level_file_less_def)

lemma set_insert_set: "set (set_insert x ys) = insert x (set ys)"
proof (induction ys)
  case (Cons y ys)
  then show ?case using level_file_less_linear [of x y] by auto
qed simp

lemma set_insert_sorted: "sorted_wrt level_file_less ys \<Longrightarrow> sorted_wrt level_file_less (set_insert x ys)"
  by (induction ys) (auto simp: set_insert_set intro: level_file_less_trans)

lemma set_insert_last: "\<forall>y \<in> set ys. level_file_less y x \<Longrightarrow> set_insert x ys = ys @ [x]"
  by (induction ys) (auto simp: level_file_less_def)

lemma fold_set_insert: "sorted_wrt level_file_less (ys @ xs) \<Longrightarrow> fold set_insert xs ys = ys @ xs"
proof (induction xs arbitrary: ys)
  case (Cons x xs)
  then have "set_insert x ys = ys @ [x]" by (intro set_insert_last) (auto simp: sorted_wrt_append)
  with Cons show ?case by simp
qed simp

lemma ve_ok_Clear: "ve_ok VersionEdit_Clear"
  by (simp add: ve_ok_def VersionEdit_Clear_def)

lemma ve_ok_step: "edit_step ve ve' \<Longrightarrow> ve_ok ve \<Longrightarrow> ve_ok ve'"
  by (induction rule: edit_step.induct)
    (auto simp: ve_ok_def new_file_ok_def FileMetaData_new_def set_insert_set set_insert_sorted SetComparatorName_def SetLogNumber_def
      SetPrevLogNumber_def SetNextFile_def SetLastSequence_def SetCompactPointer_def AddFile_def VersionEdit_RemoveFile_def)

lemma ve_ok_steps: "edit_step\<^sup>*\<^sup>* ve ve' \<Longrightarrow> ve_ok ve \<Longrightarrow> ve_ok ve'"
  by (induction rule: rtranclp_induct) (auto intro: ve_ok_step)

subsection \<open>Decoding what was encoded\<close>

lemmas put_simps = PutVarint32_def PutVarint64_def

lemma fold_put_compact: "fold put_compact_pointer cps dst = dst @ concat (map (\<lambda>cp. put_compact_pointer cp []) cps)"
  by (induction cps arbitrary: dst) (simp_all add: put_compact_pointer_def put_simps PutLengthPrefixedSlice_def)

lemma fold_put_deleted: "fold put_deleted_file dfs dst = dst @ concat (map (\<lambda>df. put_deleted_file df []) dfs)"
  by (induction dfs arbitrary: dst) (simp_all add: put_deleted_file_def put_simps)

lemma fold_put_new: "fold put_new_file nfs dst = dst @ concat (map (\<lambda>nf. put_new_file nf []) nfs)"
  by (induction nfs arbitrary: dst) (simp_all add: put_new_file_def put_simps PutLengthPrefixedSlice_def Let_def)

lemma decode_step:
  "decode_field tag input ve = Inr (input', ve') \<Longrightarrow> decode_loop (EncodeVarint32 tag @ input) ve = decode_loop input' ve'"
  by (subst decode_loop.simps) simp

lemma GetLevel_Encode: "level < kNumLevels \<Longrightarrow> GetLevel (EncodeVarint32 (word_of_nat level) @ rest) = Some (level, rest)"
  by (simp add: GetLevel_def kNumLevels_def word_of_nat_unat_less)

lemma GetInternalKey_Put: "key_ok k \<Longrightarrow> GetInternalKey (PutLengthPrefixedSlice [] k @ rest) = Some (k, rest)"
  by (simp add: GetInternalKey_def key_ok_def InternalKey_DecodeFrom_def)

lemma decode_compact:
  assumes "\<forall>(level, key) \<in> set cps. level < kNumLevels \<and> key_ok key"
  shows "decode_loop (concat (map (\<lambda>cp. put_compact_pointer cp []) cps) @ rest) ve =
    decode_loop rest (ve\<lparr>ve_compact_pointers := ve_compact_pointers ve @ cps\<rparr>)"
  using assms
proof (induction cps arbitrary: ve)
  case (Cons cp cps)
  obtain level key where cp: "cp = (level, key)" by fastforce
  have "decode_field kCompactPointer (EncodeVarint32 (word_of_nat level) @ PutLengthPrefixedSlice [] key @ r) ve =
      Inr (r, ve\<lparr>ve_compact_pointers := ve_compact_pointers ve @ [(level, key)]\<rparr>)" for r
    using Cons.prems cp by (simp add: decode_field_def tag_defs GetLevel_Encode GetInternalKey_Put)
  from decode_step [OF this] Cons show ?case
    by (simp add: cp put_compact_pointer_def put_simps PutLengthPrefixedSlice_append [of "_ @ _"])
qed simp

lemma decode_deleted:
  assumes "\<forall>(level, _) \<in> set dfs. level < kNumLevels"
  shows "decode_loop (concat (map (\<lambda>df. put_deleted_file df []) dfs) @ rest) ve =
    decode_loop rest (ve\<lparr>ve_deleted_files := fold set_insert dfs (ve_deleted_files ve)\<rparr>)"
  using assms
proof (induction dfs arbitrary: ve)
  case (Cons df dfs)
  obtain level n where df: "df = (level, n)" by fastforce
  have "decode_field kDeletedFile (EncodeVarint32 (word_of_nat level) @ EncodeVarint64 n @ r) ve =
      Inr (r, ve\<lparr>ve_deleted_files := set_insert (level, n) (ve_deleted_files ve)\<rparr>)" for r
    using Cons.prems df by (simp add: decode_field_def tag_defs GetLevel_Encode)
  from decode_step [OF this] Cons show ?case by (simp add: df put_deleted_file_def put_simps)
qed simp

lemma decode_new:
  assumes "\<forall>nf \<in> set nfs. new_file_ok nf"
  shows "decode_loop (concat (map (\<lambda>nf. put_new_file nf []) nfs) @ rest) ve =
    decode_loop rest (ve\<lparr>ve_new_files := ve_new_files ve @ nfs\<rparr>)"
  using assms
proof (induction nfs arbitrary: ve)
  case (Cons nf nfs)
  obtain level f where nf: "nf = (level, f)" by fastforce
  have "decode_field kNewFile (EncodeVarint32 (word_of_nat level) @ EncodeVarint64 (fm_number f) @ EncodeVarint64 (fm_file_size f) @
        PutLengthPrefixedSlice [] (fm_smallest f) @ PutLengthPrefixedSlice [] (fm_largest f) @ r) ve =
      Inr (r, ve\<lparr>ve_new_files := ve_new_files ve @ [(level, f)]\<rparr>)" for r
    using Cons.prems nf by (simp add: decode_field_def tag_defs GetLevel_Encode GetInternalKey_Put new_file_ok_def)
  from decode_step [OF this] Cons show ?case
    by (simp add: nf put_new_file_def put_simps Let_def PutLengthPrefixedSlice_append [of "_ @ _"]
        PutLengthPrefixedSlice_append [of "PutLengthPrefixedSlice _ _"])
qed simp

text \<open>The fields in front.\<close>

definition number_field :: "bool \<Rightarrow> u32 \<Rightarrow> u64 \<Rightarrow> bytes" where
  "number_field has tag n = (if has then EncodeVarint32 tag @ EncodeVarint64 n else [])"

definition name_field :: "VersionEdit \<Rightarrow> bytes" where
  "name_field ve = (if ve_has_comparator ve then EncodeVarint32 kComparator @ PutLengthPrefixedSlice [] (ve_comparator ve) else [])"

lemma EncodeTo_fields:
  "VersionEdit_EncodeTo ve dst = dst @ name_field ve @ number_field (ve_has_log_number ve) kLogNumber (ve_log_number ve) @
     number_field (ve_has_prev_log_number ve) kPrevLogNumber (ve_prev_log_number ve) @
     number_field (ve_has_next_file_number ve) kNextFileNumber (ve_next_file_number ve) @
     number_field (ve_has_last_sequence ve) kLastSequence (ve_last_sequence ve) @
     concat (map (\<lambda>cp. put_compact_pointer cp []) (ve_compact_pointers ve)) @
     concat (map (\<lambda>df. put_deleted_file df []) (ve_deleted_files ve)) @
     concat (map (\<lambda>nf. put_new_file nf []) (ve_new_files ve))"
  by (simp add: VersionEdit_EncodeTo_def Let_def fold_put_compact fold_put_deleted fold_put_new name_field_def number_field_def
      put_simps PutLengthPrefixedSlice_append [of "_ @ _"])

lemma decode_name:
  "length (ve_comparator ve) < 2 ^ 32 \<Longrightarrow> decode_loop (name_field ve @ rest) ve0 =
    decode_loop rest (if ve_has_comparator ve then ve0\<lparr>ve_comparator := ve_comparator ve, ve_has_comparator := True\<rparr> else ve0)"
  using decode_step [of kComparator "PutLengthPrefixedSlice [] (ve_comparator ve) @ rest"]
  by (simp add: name_field_def decode_field_def)

lemma decode_numbers:
  "decode_loop (number_field has kLogNumber n @ rest) ve = decode_loop rest (if has then ve\<lparr>ve_log_number := n, ve_has_log_number := True\<rparr> else ve)"
  "decode_loop (number_field has kPrevLogNumber n @ rest) ve =
     decode_loop rest (if has then ve\<lparr>ve_prev_log_number := n, ve_has_prev_log_number := True\<rparr> else ve)"
  "decode_loop (number_field has kNextFileNumber n @ rest) ve =
     decode_loop rest (if has then ve\<lparr>ve_next_file_number := n, ve_has_next_file_number := True\<rparr> else ve)"
  "decode_loop (number_field has kLastSequence n @ rest) ve =
     decode_loop rest (if has then ve\<lparr>ve_last_sequence := n, ve_has_last_sequence := True\<rparr> else ve)"
  by (simp_all add: number_field_def decode_step decode_field_def tag_defs)

lemma decode_end: "decode_loop [] ve = (None, [], ve)"
  by (subst decode_loop.simps) (simp add: GetVarint32_def GetVarint32Ptr_def GetVarint32PtrFallback_def)

lemma decode_encoded:
  assumes "ve_ok ve"
  shows "decode_loop (VersionEdit_EncodeTo ve []) VersionEdit_Clear = (None, [], ve)"
proof -
  have c: "\<forall>(level, key) \<in> set (ve_compact_pointers ve). level < kNumLevels \<and> key_ok key" "\<forall>(level, _) \<in> set (ve_deleted_files ve). level < kNumLevels"
    "\<forall>nf \<in> set (ve_new_files ve). new_file_ok nf" "sorted_wrt level_file_less (ve_deleted_files ve)" "length (ve_comparator ve) < 2 ^ 32"
    using assms by (simp_all add: ve_ok_def)
  have f: "fold set_insert (ve_deleted_files ve) [] = ve_deleted_files ve" using fold_set_insert [of "[]"] c(4) by simp
  have n: "decode_loop (concat (map (\<lambda>nf. put_new_file nf []) (ve_new_files ve))) ve0 = (None, [], ve0\<lparr>ve_new_files := ve_new_files ve0 @ ve_new_files ve\<rparr>)" for ve0
    using decode_new [OF c(3), of "[]" ve0] by (simp add: decode_end)
  show ?thesis
    unfolding EncodeTo_fields append_Nil decode_name [OF c(5)] decode_numbers decode_compact [OF c(1)] decode_deleted [OF c(2)] n
    using assms f by (cases ve) (auto simp: VersionEdit_Clear_def ve_ok_def)
qed

subsection \<open>Properties\<close>

text \<open>C16: The manifest's records are read back. Whatever calls an edit was built by, with levels in range, keys that are not empty and
  strings shorter than four gigabytes, decoding its encoding returns OK and gives the very same edit.\<close>

theorem version_edit_roundtrip:
  assumes "edit_step\<^sup>*\<^sup>* VersionEdit_Clear ve"
  shows "VersionEdit_DecodeFrom (VersionEdit_EncodeTo ve []) = (OK, ve)"
  using decode_encoded [OF ve_ok_steps [OF assms ve_ok_Clear]] by (simp add: VersionEdit_DecodeFrom_def)

theorem version_edit_roundtrip_witness:
  "VersionEdit_DecodeFrom (VersionEdit_EncodeTo (AddFile 3 9 100 [1, 2] [3] (VersionEdit_RemoveFile 1 4 VersionEdit_Clear)) []) =
    (OK, AddFile 3 9 100 [1, 2] [3] (VersionEdit_RemoveFile 1 4 VersionEdit_Clear))"
proof -
  have "edit_step VersionEdit_Clear (VersionEdit_RemoveFile 1 4 VersionEdit_Clear)"
    "edit_step (VersionEdit_RemoveFile 1 4 VersionEdit_Clear) (AddFile 3 9 100 [1, 2] [3] (VersionEdit_RemoveFile 1 4 VersionEdit_Clear))"
    by (auto intro!: edit_step.intros simp: kNumLevels_def key_ok_def)
  then have "edit_step\<^sup>*\<^sup>* VersionEdit_Clear (AddFile 3 9 100 [1, 2] [3] (VersionEdit_RemoveFile 1 4 VersionEdit_Clear))" by auto
  from version_edit_roundtrip [OF this] show ?thesis .
qed

end
