(* ===== verification/DList.thy ===== *)
theory DList
  imports Prelude
begin

text \<open>
  Circular doubly linked lists with a dummy head, as the snapshot list and the lists of the cache use them: \<open>nx\<close> and
  \<open>pv\<close> are the two link fields by address.
\<close>

fun links :: "(nat \<Rightarrow> nat) \<Rightarrow> (nat \<Rightarrow> nat) \<Rightarrow> nat list \<Rightarrow> bool" where
  "links nx pv (a # b # r) \<longleftrightarrow> nx a = b \<and> pv b = a \<and> links nx pv (b # r)"
| "links nx pv _ \<longleftrightarrow> True"

definition ring :: "(nat \<Rightarrow> nat) \<Rightarrow> (nat \<Rightarrow> nat) \<Rightarrow> nat \<Rightarrow> nat list \<Rightarrow> bool" where
  "ring nx pv h xs \<longleftrightarrow> links nx pv (h # xs @ [h]) \<and> distinct (h # xs)"

lemma links_append: "links nx pv (as @ a # bs) \<longleftrightarrow> links nx pv (as @ [a]) \<and> links nx pv (a # bs)"
proof (induction as)
  case (Cons x as)
  then show ?case by (cases as) auto
qed simp

lemma links_split: "links nx pv (as @ a # b # bs) \<longleftrightarrow> links nx pv (as @ [a]) \<and> nx a = b \<and> pv b = a \<and> links nx pv (b # bs)"
  using links_append [of nx pv as a "b # bs"] by simp

lemma links_cong:
  assumes "\<And>a. a \<in> set (butlast ls) \<Longrightarrow> nx a = nx' a" and "\<And>b. b \<in> set (tl ls) \<Longrightarrow> pv b = pv' b"
  shows "links nx pv ls = links nx' pv' ls"
  using assms
proof (induction ls rule: induct_list012)
  case (3 a b r)
  from "3.prems"(2) have "links nx pv (b # r) = links nx' pv' (b # r)"
    by (intro "3.IH"(2)) (use "3.prems" in \<open>auto split: if_splits\<close>)
  with "3.prems" show ?case by (auto simp: "3.prems"(1) [of a])
qed auto

lemma ring_empty: "ring nx pv h [] \<longleftrightarrow> nx h = h \<and> pv h = h"
  by (auto simp: ring_def)

lemma ring_next: "ring nx pv h xs \<Longrightarrow> nx h = (case xs of [] \<Rightarrow> h | a # _ \<Rightarrow> a)"
  by (cases xs) (auto simp: ring_def)

lemma ring_prev: "ring nx pv h xs \<Longrightarrow> pv h = last (h # xs)"
  using links_split [of nx pv "h # butlast xs" "last xs" h "[]"] by (cases xs rule: rev_cases) (auto simp: ring_def)

lemma ring_next_is_head: "ring nx pv h xs \<Longrightarrow> nx h = h \<longleftrightarrow> xs = []"
  using ring_next [of nx pv h xs] by (cases xs) (auto simp: ring_def)

text \<open>Inserting before the head and taking out a node; other lists do not change.\<close>

lemma ring_insert:
  assumes r: "ring nx pv h xs" and e: "e \<notin> set (h # xs)"
  shows "ring (nx(e := h, pv h := e)) (pv(e := pv h, h := e)) h (xs @ [e])"
proof -
  obtain ys l where l: "h # xs = ys @ [l]" by (metis append_butlast_last_id list.distinct(1))
  have p: "pv h = l" using ring_prev [OF r] l by (metis last_snoc)
  have d: "distinct (ys @ [l])" "e \<notin> set (ys @ [l])" using r e l by (metis ring_def)+
  have h: "h \<in> set (ys @ [l])" using l by (metis list.set_intros(1))
  have hd: "tl (ys @ [l]) = xs" using l by (metis list.sel(3))
  have hn: "h \<notin> set xs" using r by (simp add: ring_def)
  have "links nx pv (ys @ [l])" using r l unfolding ring_def by (metis append_Cons links_append append_assoc append_Cons append_Nil)
  moreover have "links (nx(e := h, l := e)) (pv(e := l, h := e)) (ys @ [l]) = links nx pv (ys @ [l])"
  proof (rule links_cong)
    fix b assume "b \<in> set (tl (ys @ [l]))"
    then show "(pv(e := l, h := e)) b = pv b" using hd hn e by auto
  qed (use d in auto)
  moreover have "links (nx(e := h, l := e)) (pv(e := l, h := e)) [l, e, h]" using d h by auto
  ultimately have "links (nx(e := h, l := e)) (pv(e := l, h := e)) (ys @ l # [e, h])" unfolding links_split by auto
  moreover have "ys @ l # [e, h] = h # (xs @ [e]) @ [h]" using l by (metis append.assoc append_Cons append_Nil)
  ultimately show ?thesis using r e unfolding ring_def p by auto
qed

lemma ring_remove:
  assumes r: "ring nx pv h (as @ e # bs)"
  shows "ring (nx(pv e := nx e)) (pv(nx e := pv e)) h (as @ bs)"
proof -
  obtain ys l where l: "h # as = ys @ [l]" by (metis append_butlast_last_id list.distinct(1))
  obtain f zs where f: "bs @ [h] = f # zs" by (cases "bs @ [h]") auto
  have eq: "h # (as @ e # bs) @ [h] = ys @ l # e # f # zs" "h # (as @ bs) @ [h] = ys @ l # f # zs" using l f by (metis append.assoc append_Cons append_Nil)+
  have lk: "links nx pv (ys @ [l])" "nx l = e" "pv e = l" "nx e = f" "pv f = e" "links nx pv (f # zs)"
    using r unfolding ring_def eq links_split by auto
  have d: "distinct (h # as @ e # bs)" using r by (simp add: ring_def)
  have s1: "set ys \<subseteq> set (h # as)" "set (tl (ys @ [l])) \<subseteq> set as" using l by (auto, metis list.sel(3) subsetD subset_refl)
  have dl: "distinct (ys @ [l])" using d l by (metis append_Cons distinct_append)
  have f': "f \<in> set (bs @ [h])" using f by (metis list.set_intros(1))
  have l': "l \<in> set (h # as)" using l by (metis in_set_conv_decomp)
  have 1: "links (nx(l := f)) (pv(f := l)) (ys @ [l])"
  proof -
    have "links (nx(l := f)) (pv(f := l)) (ys @ [l]) = links nx pv (ys @ [l])"
    proof (rule links_cong)
      fix b assume "b \<in> set (tl (ys @ [l]))"
      then show "(pv(f := l)) b = pv b" using s1(2) d f' by auto
    qed (use dl in auto)
    with lk(1) show ?thesis by simp
  qed
  have zs: "set zs \<subseteq> insert h (set bs)" "f \<notin> set zs" "l \<notin> set (butlast (f # zs))"
  proof -
    have "distinct (bs @ [h])" using d by auto
    then show "f \<notin> set zs" using f by (metis distinct.simps(2))
    show "set zs \<subseteq> insert h (set bs)" using f by (metis Un_insert_right list.simps(15) set_append set_subset_Cons sup_bot_right empty_set)
    have "butlast (f # zs) = bs" using f by (metis butlast_snoc)
    then show "l \<notin> set (butlast (f # zs))" using d l' by auto
  qed
  have 2: "links (nx(l := f)) (pv(f := l)) (f # zs)"
  proof -
    have "links (nx(l := f)) (pv(f := l)) (f # zs) = links nx pv (f # zs)"
    proof (rule links_cong)
      fix a assume "a \<in> set (butlast (f # zs))"
      then show "(nx(l := f)) a = nx a" using zs(3) by auto
    qed (use zs(2) in auto)
    with lk(6) show ?thesis by simp
  qed
  have "links (nx(l := f)) (pv(f := l)) (ys @ l # f # zs)" unfolding links_split using 1 2 by auto
  then show ?thesis using d unfolding ring_def eq(2) lk(3,4) by auto
qed

lemma ring_frame:
  assumes "ring nx pv h xs" and "\<And>a. a \<in> set (h # xs) \<Longrightarrow> nx' a = nx a \<and> pv' a = pv a"
  shows "ring nx' pv' h xs"
proof -
  have "links nx' pv' (h # xs @ [h]) = links nx pv (h # xs @ [h])"
    by (intro links_cong) (use assms(2) in \<open>auto dest!: in_set_butlastD\<close>)
  with assms(1) show ?thesis by (simp add: ring_def)
qed

lemma ring_in: "ring nx pv h (as @ e # bs) \<Longrightarrow> pv e \<in> set (h # as) \<and> nx e \<in> set (h # bs)"
proof -
  assume r: "ring nx pv h (as @ e # bs)"
  obtain ys l where l: "h # as = ys @ [l]" by (metis append_butlast_last_id list.distinct(1))
  obtain f zs where f: "bs @ [h] = f # zs" by (cases "bs @ [h]") auto
  have eq: "h # (as @ e # bs) @ [h] = ys @ l # e # f # zs" using l f by (metis append.assoc append_Cons append_Nil)
  have "pv e = l" "nx e = f" using r unfolding ring_def eq links_split by auto
  moreover have "l \<in> set (h # as)" using l by (metis in_set_conv_decomp)
  moreover have "f \<in> set (bs @ [h])" using f by (metis list.set_intros(1))
  ultimately show ?thesis by auto
qed

end
