(* ===== verification/Snapshot.thy ===== *)
theory Snapshot
  imports DbFormat DList
begin

text \<open>
  The list of snapshots, \<open>db/snapshot.h\<close>. A \<open>SnapshotImpl\<close> is its address; the dummy head has the address zero. The
  memory for a new snapshot is at an address that is not in use.
\<close>

record SnapshotList =
  sn_prev :: "nat \<Rightarrow> nat"
  sn_next :: "nat \<Rightarrow> nat"
  sn_sequence :: "nat \<Rightarrow> SequenceNumber"
  sn_live :: "nat set"

definition sn_head :: nat where
  "sn_head = 0"

definition SnapshotList_new :: SnapshotList where
  "SnapshotList_new =
     \<lparr>sn_prev = (\<lambda>_. sn_head), sn_next = (\<lambda>_. sn_head), sn_sequence = (\<lambda>_. 0), sn_live = {}\<rparr>"

definition Snapshot_empty :: "SnapshotList \<Rightarrow> bool" where
  "Snapshot_empty l \<longleftrightarrow> sn_next l sn_head = sn_head"

definition Snapshot_oldest :: "SnapshotList \<Rightarrow> nat" where
  "Snapshot_oldest l = sn_next l sn_head"

definition Snapshot_newest :: "SnapshotList \<Rightarrow> nat" where
  "Snapshot_newest l = sn_prev l sn_head"

definition Snapshot_New :: "nat \<Rightarrow> SequenceNumber \<Rightarrow> SnapshotList \<Rightarrow> SnapshotList" where
  "Snapshot_New snapshot sequence_number l =
     (let l0 = l\<lparr>sn_sequence := (sn_sequence l)(snapshot := sequence_number), sn_live := insert snapshot (sn_live l)\<rparr>;
          l1 = l0\<lparr>sn_next := (sn_next l0)(snapshot := sn_head)\<rparr>;
          l2 = l1\<lparr>sn_prev := (sn_prev l1)(snapshot := sn_prev l1 sn_head)\<rparr>;
          l3 = l2\<lparr>sn_next := (sn_next l2)(sn_prev l2 snapshot := snapshot)\<rparr>
      in l3\<lparr>sn_prev := (sn_prev l3)(sn_next l3 snapshot := snapshot)\<rparr>)"

definition Snapshot_Delete :: "nat \<Rightarrow> SnapshotList \<Rightarrow> SnapshotList" where
  "Snapshot_Delete snapshot l =
     (let l1 = l\<lparr>sn_next := (sn_next l)(sn_prev l snapshot := sn_next l snapshot)\<rparr>;
          l2 = l1\<lparr>sn_prev := (sn_prev l1)(sn_next l1 snapshot := sn_prev l1 snapshot)\<rparr>
      in l2\<lparr>sn_live := sn_live l2 - {snapshot}\<rparr>)"

subsection \<open>Histories\<close>

text \<open>A history of the list with the snapshots that are live, oldest first. A new snapshot is not older than the newest.\<close>

inductive snap_reach :: "SnapshotList \<Rightarrow> nat list \<Rightarrow> bool" where
  snap_init: "snap_reach SnapshotList_new []"
| snap_new: "\<lbrakk>snap_reach l xs; p \<noteq> sn_head; p \<notin> sn_live l; Snapshot_empty l \<or> sn_sequence l (Snapshot_newest l) \<le> seq\<rbrakk> \<Longrightarrow>
     snap_reach (Snapshot_New p seq l) (xs @ [p])"
| snap_delete: "snap_reach l (xs @ p # ys) \<Longrightarrow> snap_reach (Snapshot_Delete p l) (xs @ ys)"

definition snap_inv :: "SnapshotList \<Rightarrow> nat list \<Rightarrow> bool" where
  "snap_inv l xs \<longleftrightarrow> ring (sn_next l) (sn_prev l) sn_head xs \<and> sn_live l = set xs \<and> sorted (map (sn_sequence l) xs)"

lemma Snapshot_New_fields:
  assumes "p \<noteq> sn_head"
  shows "sn_next (Snapshot_New p seq l) = (sn_next l)(p := sn_head, (if sn_prev l sn_head = p then p else sn_prev l sn_head) := p)"
    and "sn_prev (Snapshot_New p seq l) = (sn_prev l)(p := sn_prev l sn_head, (if sn_prev l sn_head = p then p else sn_head) := p)"
    and "sn_sequence (Snapshot_New p seq l) = (sn_sequence l)(p := seq)" and "sn_live (Snapshot_New p seq l) = insert p (sn_live l)"
  using assms by (auto simp: Snapshot_New_def Let_def)

lemma snap_inv_new:
  assumes inv: "snap_inv l xs" and p: "p \<noteq> sn_head" "p \<notin> sn_live l" and seq: "Snapshot_empty l \<or> sn_sequence l (Snapshot_newest l) \<le> seq"
  shows "snap_inv (Snapshot_New p seq l) (xs @ [p])"
proof -
  have r: "ring (sn_next l) (sn_prev l) sn_head xs" and live: "sn_live l = set xs" and s: "sorted (map (sn_sequence l) xs)"
    using inv by (auto simp: snap_inv_def)
  have last: "sn_prev l sn_head = last (sn_head # xs)" using ring_prev [OF r] .
  then have np: "sn_prev l sn_head \<noteq> p" using p live last_in_set [of xs] by (auto split: if_splits)
  have "map ((sn_sequence l)(p := seq)) xs = map (sn_sequence l) xs" using p live by (intro map_cong) auto
  moreover have "sn_sequence l a \<le> seq" if "a \<in> set xs" for a
  proof -
    have "xs \<noteq> []" using that by auto
    then have "sn_sequence l (last xs) \<le> seq"
      using seq last ring_next_is_head [OF r] by (simp add: Snapshot_empty_def Snapshot_newest_def)
    moreover have "sn_sequence l a \<le> sn_sequence l (last xs)"
      using s that by (cases xs rule: rev_cases) (auto simp: sorted_append)
    ultimately show ?thesis by simp
  qed
  ultimately show ?thesis
    using ring_insert [OF r, of p] p live s np by (auto simp: snap_inv_def Snapshot_New_fields [OF p(1)] sorted_append)
qed

lemma snap_inv_delete:
  assumes inv: "snap_inv l (xs @ p # ys)"
  shows "snap_inv (Snapshot_Delete p l) (xs @ ys)"
proof -
  have r: "ring (sn_next l) (sn_prev l) sn_head (xs @ p # ys)" using inv by (simp add: snap_inv_def)
  have d: "p \<noteq> sn_head" "p \<notin> set xs" "p \<notin> set ys" using r by (auto simp: ring_def)
  have "sn_prev l p \<noteq> p" using ring_in [OF r] d by auto
  then have "sn_next (Snapshot_Delete p l) = (sn_next l)(sn_prev l p := sn_next l p)"
    "sn_prev (Snapshot_Delete p l) = (sn_prev l)(sn_next l p := sn_prev l p)"
    "sn_sequence (Snapshot_Delete p l) = sn_sequence l" "sn_live (Snapshot_Delete p l) = sn_live l - {p}"
    by (simp_all add: Snapshot_Delete_def Let_def)
  with ring_remove [OF r] inv d show ?thesis by (auto simp: snap_inv_def sorted_append)
qed

lemma snap_reach_inv: "snap_reach l xs \<Longrightarrow> snap_inv l xs"
proof (induction rule: snap_reach.induct)
  case snap_init
  then show ?case by (simp add: snap_inv_def SnapshotList_new_def ring_empty)
qed (auto intro: snap_inv_new snap_inv_delete)

subsection \<open>Properties\<close>

text \<open>C28: The snapshot list. After any history of taking snapshots, each not older than the newest, and releasing them in any order,
  the list is empty exactly when no snapshot is live, its oldest entry is a live snapshot with the smallest sequence number of
  all live ones, which bounds what compactions may drop, and its newest entry one with the largest.\<close>

theorem snapshot_list_bounds:
  assumes "snap_reach l xs"
  shows "Snapshot_empty l = (sn_live l = {}) \<and> sn_live l = set xs \<and>
    (sn_live l \<noteq> {} \<longrightarrow> Snapshot_oldest l \<in> sn_live l \<and> Snapshot_newest l \<in> sn_live l \<and>
      (\<forall>p \<in> sn_live l. sn_sequence l (Snapshot_oldest l) \<le> sn_sequence l p \<and> sn_sequence l p \<le> sn_sequence l (Snapshot_newest l)))"
proof -
  have r: "ring (sn_next l) (sn_prev l) sn_head xs" and live: "sn_live l = set xs" and s: "sorted (map (sn_sequence l) xs)"
    using snap_reach_inv [OF assms] by (auto simp: snap_inv_def)
  have o: "xs \<noteq> [] \<Longrightarrow> Snapshot_oldest l = hd xs" using ring_next [OF r] by (cases xs) (auto simp: Snapshot_oldest_def)
  have n: "xs \<noteq> [] \<Longrightarrow> Snapshot_newest l = last xs" using ring_prev [OF r] by (simp add: Snapshot_newest_def)
  have "p \<in> set xs \<Longrightarrow> sn_sequence l (hd xs) \<le> sn_sequence l p" for p using s by (cases xs) auto
  moreover have "p \<in> set xs \<Longrightarrow> sn_sequence l p \<le> sn_sequence l (last xs)" for p
    using s by (cases xs rule: rev_cases) (auto simp: sorted_append)
  ultimately show ?thesis using o n live ring_next_is_head [OF r] by (auto simp: Snapshot_empty_def)
qed

theorem snapshot_list_bounds_witness:
  "Snapshot_oldest (Snapshot_Delete 8 (Snapshot_New 16 9 (Snapshot_New 8 5 SnapshotList_new))) \<in>
    sn_live (Snapshot_Delete 8 (Snapshot_New 16 9 (Snapshot_New 8 5 SnapshotList_new)))"
proof -
  let ?l = "Snapshot_New 16 9 (Snapshot_New 8 5 SnapshotList_new)"
  have "snap_reach (Snapshot_New 8 5 SnapshotList_new) ([] @ [8])"
    by (rule snap_new [OF snap_init]) (simp_all add: SnapshotList_new_def sn_head_def Snapshot_empty_def)
  from snap_new [OF this, of 16 9] have "snap_reach ?l ([] @ 8 # [16])"
    by (simp add: SnapshotList_new_def sn_head_def Snapshot_New_def Snapshot_newest_def)
  from snapshot_list_bounds [OF snap_delete [OF this]] show ?thesis by auto
qed

end
