(* ===== verification/Block.thy ===== *)
theory Block
  imports Comparator Status
begin

text \<open>
  Blocks of key-value pairs: \<open>table/block_builder.cc\<close> and \<open>table/block.cc\<close>. Pointers into a block are offsets. An
  iterator works on the block's data, whose size the format keeps below four gigabytes; offsets are natural numbers, except that
  what the code keeps in 32 bits is truncated to them.
\<close>

subsection \<open>The builder\<close>

record BlockBuilder =
  bb_interval :: nat
  bb_buffer :: bytes
  bb_restarts :: "u32 list"
  bb_counter :: nat
  bb_finished :: bool
  bb_last_key :: bytes

definition BlockBuilder_new :: "nat \<Rightarrow> BlockBuilder" where
  "BlockBuilder_new interval =
     \<lparr>bb_interval = interval, bb_buffer = [], bb_restarts = [0], bb_counter = 0, bb_finished = False, bb_last_key = []\<rparr>"

definition BlockBuilder_Reset :: "BlockBuilder \<Rightarrow> BlockBuilder" where
  "BlockBuilder_Reset b =
     b\<lparr>bb_buffer := [], bb_restarts := [0], bb_counter := 0, bb_finished := False, bb_last_key := []\<rparr>"

definition CurrentSizeEstimate :: "BlockBuilder \<Rightarrow> nat" where
  "CurrentSizeEstimate b = length (bb_buffer b) + length (bb_restarts b) * 4 + 4"

definition BlockBuilder_Finish :: "BlockBuilder \<Rightarrow> bytes \<times> BlockBuilder" where
  "BlockBuilder_Finish b =
     (let buf = fold (\<lambda>r buf. PutFixed32 buf r) (bb_restarts b) (bb_buffer b);
          buf' = PutFixed32 buf (word_of_nat (length (bb_restarts b)))
      in (buf', b\<lparr>bb_buffer := buf', bb_finished := True\<rparr>))"

fun shared_prefix :: "bytes \<Rightarrow> bytes \<Rightarrow> nat" where
  "shared_prefix (a # as) (b # bs) = (if a = b then Suc (shared_prefix as bs) else 0)"
| "shared_prefix _ _ = 0"

definition BlockBuilder_Add :: "bytes \<Rightarrow> bytes \<Rightarrow> BlockBuilder \<Rightarrow> BlockBuilder" where
  "BlockBuilder_Add key val b =
     (let (shared, restarts, counter) =
            (if bb_counter b < bb_interval b then (shared_prefix (bb_last_key b) key, bb_restarts b, bb_counter b)
             else (0, bb_restarts b @ [word_of_nat (length (bb_buffer b))], 0));
          non_shared = length key - shared;
          buf1 = PutVarint32 (bb_buffer b) (word_of_nat shared);
          buf2 = PutVarint32 buf1 (word_of_nat non_shared);
          buf3 = PutVarint32 buf2 (word_of_nat (length val))
      in b\<lparr>bb_buffer := buf3 @ drop shared key @ val, bb_restarts := restarts, bb_counter := counter + 1,
           bb_last_key := take shared (bb_last_key b) @ drop shared key\<rparr>)"

definition BlockBuilder_empty :: "BlockBuilder \<Rightarrow> bool" where
  "BlockBuilder_empty b \<longleftrightarrow> bb_buffer b = []"

subsection \<open>The block\<close>

record Block =
  bl_data :: bytes
  bl_size :: nat
  bl_restart_offset :: nat

definition NumRestarts :: "bytes \<Rightarrow> nat \<Rightarrow> u32" where
  "NumRestarts data sz = DecodeFixed32 (drop (sz - 4) data)"

definition Block_new :: "bytes \<Rightarrow> Block" where
  "Block_new contents =
     (let sz = length contents
      in if sz < 4 then \<lparr>bl_data = contents, bl_size = 0, bl_restart_offset = 0\<rparr>
         else
           (let max_restarts_allowed = (sz - 4) div 4
            in if unat (NumRestarts contents sz) > max_restarts_allowed
               then \<lparr>bl_data = contents, bl_size = 0, bl_restart_offset = 0\<rparr>
               else \<lparr>bl_data = contents, bl_size = sz,
                     bl_restart_offset = unat (word_of_nat (sz - (1 + unat (NumRestarts contents sz)) * 4) :: u32)\<rparr>))"

text \<open>The bytes from \<open>p\<close> to \<open>limit\<close>; the result has the three lengths and the bytes from the key delta to the limit.
  The sum of two lengths is taken in 32 bits.\<close>

definition DecodeEntry :: "bytes \<Rightarrow> (u32 \<times> u32 \<times> u32 \<times> bytes) option" where
  "DecodeEntry p =
     (if length p < 3 then None
      else
        (case (if (ucast (p ! 0) OR ucast (p ! 1) OR ucast (p ! 2) :: u32) < 128
               then Some (ucast (p ! 0), ucast (p ! 1), ucast (p ! 2), drop 3 p)
               else Option.bind (GetVarint32Ptr p) (\<lambda>(shared, p1).
                    Option.bind (GetVarint32Ptr p1) (\<lambda>(non_shared, p2).
                    Option.bind (GetVarint32Ptr p2) (\<lambda>(value_length, p3).
                      Some (shared, non_shared, value_length, p3))))) of
           None \<Rightarrow> None
         | Some (shared, non_shared, value_length, p') \<Rightarrow>
             if (word_of_nat (length p') :: u32) < non_shared + value_length then None
             else Some (shared, non_shared, value_length, p')))"

subsection \<open>The iterator\<close>

text \<open>The value is a slice of the data, an offset and a length.\<close>

record BlockIter =
  bi_comparator :: Comparator
  bi_data :: bytes
  bi_restarts :: nat
  bi_num_restarts :: nat
  bi_current :: nat
  bi_restart_index :: nat
  bi_key :: bytes
  bi_value :: "nat \<times> nat"
  bi_status :: Status

definition BlockIter_new :: "Comparator \<Rightarrow> bytes \<Rightarrow> nat \<Rightarrow> nat \<Rightarrow> BlockIter" where
  "BlockIter_new cmp data restarts num_restarts =
     \<lparr>bi_comparator = cmp, bi_data = data, bi_restarts = restarts, bi_num_restarts = num_restarts,
      bi_current = restarts, bi_restart_index = num_restarts, bi_key = [], bi_value = (0, 0), bi_status = OK\<rparr>"

definition BlockIter_Valid :: "BlockIter \<Rightarrow> bool" where
  "BlockIter_Valid it \<longleftrightarrow> bi_current it < bi_restarts it"

definition BlockIter_value :: "BlockIter \<Rightarrow> bytes" where
  "BlockIter_value it = take (snd (bi_value it)) (drop (fst (bi_value it)) (bi_data it))"

definition NextEntryOffset :: "BlockIter \<Rightarrow> nat" where
  "NextEntryOffset it = unat (word_of_nat (fst (bi_value it) + snd (bi_value it)) :: u32)"

definition GetRestartPoint :: "BlockIter \<Rightarrow> nat \<Rightarrow> nat" where
  "GetRestartPoint it index = unat (DecodeFixed32 (drop (bi_restarts it + index * 4) (bi_data it)))"

definition SeekToRestartPoint :: "nat \<Rightarrow> BlockIter \<Rightarrow> BlockIter" where
  "SeekToRestartPoint index it = it\<lparr>bi_key := [], bi_restart_index := index, bi_value := (GetRestartPoint it index, 0)\<rparr>"

definition CorruptionError :: "BlockIter \<Rightarrow> BlockIter" where
  "CorruptionError it =
     it\<lparr>bi_current := bi_restarts it, bi_restart_index := bi_num_restarts it,
        bi_status := Corruption (str ''bad entry in block'') [], bi_key := [], bi_value := (0, 0)\<rparr>"

function advance_restart :: "BlockIter \<Rightarrow> nat \<Rightarrow> nat" where
  "advance_restart it index =
     (if index + 1 < bi_num_restarts it \<and> GetRestartPoint it (index + 1) < bi_current it
      then advance_restart it (index + 1) else index)"
  by auto
termination by (relation "measure (\<lambda>(it, index). bi_num_restarts it - index)") auto

declare advance_restart.simps [simp del]

definition ParseNextKey :: "BlockIter \<Rightarrow> bool \<times> BlockIter" where
  "ParseNextKey it =
     (let it1 = it\<lparr>bi_current := NextEntryOffset it\<rparr>;
          p = bi_current it1;
          limit = bi_restarts it1
      in if p \<ge> limit then (False, it1\<lparr>bi_current := limit, bi_restart_index := bi_num_restarts it1\<rparr>)
         else
           (let bytes = take (limit - p) (drop p (bi_data it1))
            in case DecodeEntry bytes of
                 None \<Rightarrow> (False, CorruptionError it1)
               | Some (shared, non_shared, value_length, rest) \<Rightarrow>
                   if length (bi_key it1) < unat shared then (False, CorruptionError it1)
                   else
                     (let p' = p + (length bytes - length rest);
                          it2 = it1\<lparr>bi_key := take (unat shared) (bi_key it1) @ take (unat non_shared) (drop p' (bi_data it1)),
                                    bi_value := (p' + unat non_shared, unat value_length)\<rparr>
                      in (True, it2\<lparr>bi_restart_index := advance_restart it2 (bi_restart_index it2)\<rparr>))))"

definition BlockIter_Next :: "BlockIter \<Rightarrow> BlockIter" where
  "BlockIter_Next it = snd (ParseNextKey it)"

definition BlockIter_SeekToFirst :: "BlockIter \<Rightarrow> BlockIter" where
  "BlockIter_SeekToFirst it = snd (ParseNextKey (SeekToRestartPoint 0 it))"

text \<open>The loops that call \<open>ParseNextKey\<close> until the end of an entry reaches an offset, or its key a target.\<close>

partial_function (option) scan_to_offset :: "nat \<Rightarrow> BlockIter \<Rightarrow> BlockIter option" where
  "scan_to_offset limit it =
     (case ParseNextKey it of
        (parsed, it') \<Rightarrow> if parsed \<and> NextEntryOffset it' < limit then scan_to_offset limit it' else Some it')"

partial_function (option) scan_to_key :: "bytes \<Rightarrow> BlockIter \<Rightarrow> BlockIter option" where
  "scan_to_key target it =
     (case ParseNextKey it of
        (parsed, it') \<Rightarrow>
          if \<not> parsed then Some it'
          else if Compare (bi_comparator it') (bi_key it') target \<ge> 0 then Some it'
          else scan_to_key target it')"

definition BlockIter_SeekToLast :: "BlockIter \<Rightarrow> BlockIter option" where
  "BlockIter_SeekToLast it = scan_to_offset (bi_restarts it) (SeekToRestartPoint (bi_num_restarts it - 1) it)"

text \<open>The restart point before \<open>original\<close>, or \<^term>\<open>None\<close> when there is none.\<close>

fun restart_before :: "BlockIter \<Rightarrow> nat \<Rightarrow> nat \<Rightarrow> nat option" where
  "restart_before it original 0 = (if GetRestartPoint it 0 \<ge> original then None else Some 0)"
| "restart_before it original (Suc index) =
     (if GetRestartPoint it (Suc index) \<ge> original then restart_before it original index else Some (Suc index))"

definition BlockIter_Prev :: "BlockIter \<Rightarrow> BlockIter option" where
  "BlockIter_Prev it =
     (let original = bi_current it
      in case restart_before it original (bi_restart_index it) of
           None \<Rightarrow> Some (it\<lparr>bi_current := bi_restarts it, bi_restart_index := bi_num_restarts it\<rparr>)
         | Some index \<Rightarrow> scan_to_offset original (SeekToRestartPoint index it))"

text \<open>The binary search over the restart points; \<^term>\<open>None\<close> when an entry at a restart point is malformed.\<close>

function seek_restart :: "BlockIter \<Rightarrow> bytes \<Rightarrow> nat \<Rightarrow> nat \<Rightarrow> nat option" where
  "seek_restart it target left right =
     (if left < right then
        (let mid = (left + right + 1) div 2;
             region_offset = GetRestartPoint it mid
         in case DecodeEntry (take (bi_restarts it - region_offset) (drop region_offset (bi_data it))) of
              None \<Rightarrow> None
            | Some (shared, non_shared, value_length, key_ptr) \<Rightarrow>
                if shared \<noteq> 0 then None
                else if Compare (bi_comparator it) (take (unat non_shared) key_ptr) target < 0
                then seek_restart it target mid right
                else seek_restart it target left (mid - 1))
      else Some left)"
  by auto
termination by (relation "measure (\<lambda>(it, target, left, right). right - left)") auto

declare seek_restart.simps [simp del]

definition BlockIter_Seek :: "bytes \<Rightarrow> BlockIter \<Rightarrow> BlockIter option" where
  "BlockIter_Seek target it =
     (let current_key_compare = (if BlockIter_Valid it then Compare (bi_comparator it) (bi_key it) target else 0);
          left0 = (if BlockIter_Valid it \<and> current_key_compare < 0 then bi_restart_index it else 0);
          right0 = (if BlockIter_Valid it \<and> current_key_compare > 0 then bi_restart_index it else bi_num_restarts it - 1)
      in if BlockIter_Valid it \<and> current_key_compare = 0 then Some it
         else
           (case seek_restart it target left0 right0 of
              None \<Rightarrow> Some (CorruptionError it)
            | Some left \<Rightarrow>
                (let skip_seek = (left = bi_restart_index it \<and> current_key_compare < 0)
                 in scan_to_key target (if skip_seek then it else SeekToRestartPoint left it))))"

text \<open>\<^term>\<open>Inl\<close> is an iterator without entries, with its status.\<close>

definition Block_NewIterator :: "Comparator \<Rightarrow> Block \<Rightarrow> Status + BlockIter" where
  "Block_NewIterator cmp b =
     (if bl_size b < 4 then Inl (Corruption (str ''bad block contents'') [])
      else
        (let num_restarts = unat (NumRestarts (bl_data b) (bl_size b))
         in if num_restarts = 0 then Inl OK
            else Inr (BlockIter_new cmp (bl_data b) (bl_restart_offset b) num_restarts)))"

subsection \<open>Decoding an entry\<close>

lemma small_iff_bits: "(w :: u32) < 128 \<longleftrightarrow> (\<forall>n. bit w n \<longrightarrow> n < 7)"
proof
  assume "w < 128"
  then have "unat w < 2 ^ 7" by (simp add: word_less_nat_alt)
  then show "\<forall>n. bit w n \<longrightarrow> n < 7" using unat_less_imp_not_bit not_less by blast
next
  assume "\<forall>n. bit w n \<longrightarrow> n < 7"
  then have "w = take_bit 7 w" by (intro bit_word_eqI) (auto simp: bit_take_bit_iff)
  then have "unat w = take_bit 7 (unat w)" by (metis unsigned_take_bit_eq)
  then show "w < 128" using take_bit_nat_less_exp [of 7 "unat w"] by (simp add: word_less_nat_alt)
qed

lemma first_byte_small:
  assumes "EncodeVarint32 v @ rest = b # r" and "(ucast b :: u32) < 128"
  shows "EncodeVarint32 v = [b] \<and> v = ucast b"
proof -
  have nz: "\<not> bit b 7" using assms(2) unfolding small_iff_bits by (auto simp: bit_simps dest: spec [of _ 7])
  have g: "GetVarint32 (b # r) = Some (ucast b, r)"
  proof -
    have "(ucast b :: u32) AND 128 = 0"
      using nz by (intro bit_word_eqI) (auto simp: bit_simps bit_numeral_128)
    then show ?thesis by (simp add: GetVarint32_def GetVarint32Ptr_def Let_def)
  qed
  from GetVarint32_Encode [of v rest] g assms(1) have "v = ucast b" "rest = r" by auto
  with assms(1) show ?thesis by simp
qed

lemma or_small: "(a OR b OR (c :: u32)) < 128 \<Longrightarrow> a < 128 \<and> b < 128 \<and> c < 128"
  unfolding small_iff_bits by (simp add: bit_or_iff)

lemma EncodeVarint32_nonempty: "EncodeVarint32 v \<noteq> []"
  using length_EncodeVarint32_bounds(1) [of v] by auto

text \<open>The fast path reads what the general path reads.\<close>

lemma DecodeEntry_Encode:
  assumes "unat n + unat v \<le> length rest" and "length rest < 2 ^ 32"
  shows "DecodeEntry (EncodeVarint32 s @ EncodeVarint32 n @ EncodeVarint32 v @ rest) = Some (s, n, v, rest)"
proof -
  let ?p = "EncodeVarint32 s @ EncodeVarint32 n @ EncodeVarint32 v @ rest"
  have l3: "\<not> length ?p < 3" using length_EncodeVarint32_bounds(1) [of s] length_EncodeVarint32_bounds(1) [of n] length_EncodeVarint32_bounds(1) [of v]
    unfolding length_append by linarith
  have fit: "\<not> (word_of_nat (length rest) :: u32) < n + v"
  proof -
    have "unat (n + v) = unat n + unat v" using assms unat_add_lem [of n v] by simp
    then show ?thesis using assms by (simp add: word_less_nat_alt word_of_nat_unat_less)
  qed
  have slow: "Option.bind (GetVarint32Ptr ?p) (\<lambda>(shared, p1). Option.bind (GetVarint32Ptr p1) (\<lambda>(non_shared, p2).
      Option.bind (GetVarint32Ptr p2) (\<lambda>(value_length, p3). Some (shared, non_shared, value_length, p3)))) = Some (s, n, v, rest)"
    using GetVarint32_Encode by (simp add: GetVarint32_def)
  have fast: "Some (ucast (?p ! 0) :: u32, ucast (?p ! 1) :: u32, ucast (?p ! 2) :: u32, drop 3 ?p) = Some (s, n, v, rest)"
    if "(ucast (?p ! 0) OR ucast (?p ! 1) OR ucast (?p ! 2) :: u32) < 128"
  proof -
    note small = or_small [OF that]
    have s: "EncodeVarint32 s = [?p ! 0]" "s = ucast (?p ! 0)"
      using first_byte_small [of s "EncodeVarint32 n @ EncodeVarint32 v @ rest" "?p ! 0" "tl ?p"] small EncodeVarint32_nonempty [of s]
      by (metis append_is_Nil_conv hd_conv_nth list.collapse)+
    have n1: "?p ! 1 = (EncodeVarint32 n @ EncodeVarint32 v @ rest) ! 0" using s(1) by (metis One_nat_def append_Cons append_Nil nth_Cons_Suc)
    have n: "EncodeVarint32 n = [?p ! 1]" "n = ucast (?p ! 1)"
      using first_byte_small [of n "EncodeVarint32 v @ rest" "?p ! 1" "tl (EncodeVarint32 n @ EncodeVarint32 v @ rest)"] small n1 EncodeVarint32_nonempty [of n]
      by (metis append_is_Nil_conv hd_conv_nth list.collapse)+
    have v1: "?p ! 2 = (EncodeVarint32 v @ rest) ! 0"
      using s(1) n(1) by (metis append_Cons append_Nil nth_Cons_Suc numeral_2_eq_2)
    have v: "EncodeVarint32 v = [?p ! 2]" "v = ucast (?p ! 2)"
      using first_byte_small [of v rest "?p ! 2" "tl (EncodeVarint32 v @ rest)"] small v1 EncodeVarint32_nonempty [of v]
      by (metis append_is_Nil_conv hd_conv_nth list.collapse)+
    have "length (EncodeVarint32 s) = 1" "length (EncodeVarint32 n) = 1" "length (EncodeVarint32 v) = 1" using s(1) n(1) v(1) by (metis length_Cons list.size(3) One_nat_def)+
    then have "drop 3 ?p = rest" by simp
    with s(2) n(2) v(2) show ?thesis by metis
  qed
  have c: "(if (ucast (?p ! 0) OR ucast (?p ! 1) OR ucast (?p ! 2) :: u32) < 128 then Some (ucast (?p ! 0) :: u32, ucast (?p ! 1) :: u32, ucast (?p ! 2) :: u32, drop 3 ?p)
      else Option.bind (GetVarint32Ptr ?p) (\<lambda>(shared, p1). Option.bind (GetVarint32Ptr p1) (\<lambda>(non_shared, p2).
      Option.bind (GetVarint32Ptr p2) (\<lambda>(value_length, p3). Some (shared, non_shared, value_length, p3))))) = Some (s, n, v, rest)"
    unfolding slow using fast by presburger
  show ?thesis unfolding DecodeEntry_def c using l3 fit by simp
qed

text \<open>The 32-bit sum of the lengths wraps: an entry without any data is accepted with lengths of almost four gigabytes.\<close>

lemma DecodeEntry_wraps:
  "DecodeEntry (EncodeVarint32 0 @ EncodeVarint32 (- 8) @ EncodeVarint32 8) = Some (0, - 8, 8, [])"
proof -
  let ?p = "EncodeVarint32 0 @ EncodeVarint32 (- 8) @ EncodeVarint32 8"
  have "length ?p = 7" "\<not> (ucast (?p ! 0) OR ucast (?p ! 1) OR ucast (?p ! 2) :: u32) < 128" by (simp_all add: EncodeVarint32_def Let_def)
  moreover have "Option.bind (GetVarint32Ptr ?p) (\<lambda>(shared, p1). Option.bind (GetVarint32Ptr p1) (\<lambda>(non_shared, p2).
      Option.bind (GetVarint32Ptr p2) (\<lambda>(value_length, p3). Some (shared, non_shared, value_length, p3)))) = Some (0, - 8, 8, [])"
    using GetVarint32_Encode [of 0] GetVarint32_Encode [of "- 8"] GetVarint32_Encode [of 8 "[]"] by (simp add: GetVarint32_def)
  ultimately show ?thesis unfolding DecodeEntry_def by simp
qed

end
