(* ===== verification/BlockSpec.thy ===== *)
theory BlockSpec
  imports Block
begin

text \<open>
  What a block's iterator visits: the entries that were added to the builder, in both directions, and from any key on.
\<close>

subsection \<open>The layout of a block\<close>

text \<open>An entry with the number of bytes it shares with the key before.\<close>

type_synonym block_entry = "nat \<times> bytes \<times> bytes"

definition entry_image :: "block_entry \<Rightarrow> bytes" where
  "entry_image = (\<lambda>(s, k, v). EncodeVarint32 (word_of_nat s) @ EncodeVarint32 (word_of_nat (length k - s)) @
     EncodeVarint32 (word_of_nat (length v)) @ drop s k @ v)"

abbreviation e_shared :: "block_entry \<Rightarrow> nat" where "e_shared e \<equiv> fst e"
abbreviation e_key :: "block_entry \<Rightarrow> bytes" where "e_key e \<equiv> fst (snd e)"
abbreviation e_val :: "block_entry \<Rightarrow> bytes" where "e_val e \<equiv> snd (snd e)"

definition block_off :: "block_entry list \<Rightarrow> nat \<Rightarrow> nat" where
  "block_off es i = length (concat (map entry_image (take i es)))"

definition block_image :: "block_entry list \<Rightarrow> nat list \<Rightarrow> bytes" where
  "block_image es rs = concat (map entry_image es) @ concat (map (\<lambda>r. EncodeFixed32 (word_of_nat (block_off es r))) rs) @
     EncodeFixed32 (word_of_nat (length rs))"

definition shares_ok :: "bytes \<Rightarrow> block_entry \<Rightarrow> bool" where
  "shares_ok key e \<longleftrightarrow> e_shared e \<le> length key \<and> e_shared e \<le> length (e_key e) \<and> take (e_shared e) key = take (e_shared e) (e_key e)"

definition entries_ok :: "block_entry list \<Rightarrow> bool" where
  "entries_ok es \<longleftrightarrow> (es \<noteq> [] \<longrightarrow> shares_ok [] (es ! 0)) \<and> (\<forall>i. Suc i < length es \<longrightarrow> shares_ok (e_key (es ! i)) (es ! Suc i))"

definition restarts_ok :: "block_entry list \<Rightarrow> nat list \<Rightarrow> bool" where
  "restarts_ok es rs \<longleftrightarrow> rs \<noteq> [] \<and> rs ! 0 = 0 \<and> sorted_wrt (<) rs \<and>
     (\<forall>r \<in> set rs. r < length es \<and> e_shared (es ! r) = 0 \<or> r = 0)"

definition layout_ok :: "block_entry list \<Rightarrow> nat list \<Rightarrow> bool" where
  "layout_ok es rs \<longleftrightarrow> entries_ok es \<and> restarts_ok es rs \<and> length (block_image es rs) < 2 ^ 32"

lemma concat_map_nth:
  "i < length xs \<Longrightarrow> concat (map f xs) = concat (map f (take i xs)) @ f (xs ! i) @ concat (map f (drop (Suc i) xs))"
  using arg_cong [OF id_take_nth_drop [of i xs], of "\<lambda>ys. concat (map f ys)"] by simp

lemma block_off_0 [simp]: "block_off es 0 = 0"
  by (simp add: block_off_def)

lemma block_off_Suc: "i < length es \<Longrightarrow> block_off es (Suc i) = block_off es i + length (entry_image (es ! i))"
  by (simp add: block_off_def take_Suc_conv_app_nth)

lemma entry_image_nonempty: "0 < length (entry_image e)"
  using EncodeVarint32_nonempty by (cases e) (auto simp: entry_image_def)

lemma block_off_mono: "i \<le> j \<Longrightarrow> j \<le> length es \<Longrightarrow> block_off es i \<le> block_off es j"
proof (induction j)
  case (Suc j)
  then show ?case using block_off_Suc [of j es] by (cases "i = Suc j") auto
qed simp

lemma block_off_less: "i < j \<Longrightarrow> j \<le> length es \<Longrightarrow> block_off es i < block_off es j"
  using block_off_mono [of "Suc i" j es] block_off_Suc [of i es] entry_image_nonempty [of "es ! i"] by linarith

lemma block_off_less_iff: "\<lbrakk>i \<le> length es; j \<le> length es\<rbrakk> \<Longrightarrow> block_off es i < block_off es j \<longleftrightarrow> i < j"
  using block_off_less [of i j es] block_off_mono [of j i es] by force

lemma block_off_all: "block_off es (length es) = length (concat (map entry_image es))"
  by (simp add: block_off_def)

lemma block_split:
  assumes "i < length es"
  shows "drop (block_off es i) (block_image es rs) = entry_image (es ! i) @ concat (map entry_image (drop (Suc i) es)) @
      concat (map (\<lambda>r. EncodeFixed32 (word_of_nat (block_off es r))) rs) @ EncodeFixed32 (word_of_nat (length rs))"
    and "take (block_off es (length es) - block_off es i) (drop (block_off es i) (block_image es rs)) =
      entry_image (es ! i) @ concat (map entry_image (drop (Suc i) es))"
proof -
  have es: "concat (map entry_image es) = concat (map entry_image (take i es)) @ entry_image (es ! i) @ concat (map entry_image (drop (Suc i) es))"
    using concat_map_nth [OF assms] .
  show d: "drop (block_off es i) (block_image es rs) = entry_image (es ! i) @ concat (map entry_image (drop (Suc i) es)) @
      concat (map (\<lambda>r. EncodeFixed32 (word_of_nat (block_off es r))) rs) @ EncodeFixed32 (word_of_nat (length rs))"
    unfolding block_image_def es by (simp add: block_off_def)
  have "block_off es (length es) - block_off es i = length (entry_image (es ! i) @ concat (map entry_image (drop (Suc i) es)))"
    unfolding block_off_all es by (simp add: block_off_def)
  then show "take (block_off es (length es) - block_off es i) (drop (block_off es i) (block_image es rs)) =
      entry_image (es ! i) @ concat (map entry_image (drop (Suc i) es))"
    unfolding d by simp
qed

lemma restart_array:
  assumes "j < length rs"
  shows "drop (block_off es (length es) + j * 4) (block_image es rs) = EncodeFixed32 (word_of_nat (block_off es (rs ! j))) @
    concat (map (\<lambda>r. EncodeFixed32 (word_of_nat (block_off es r))) (drop (Suc j) rs)) @ EncodeFixed32 (word_of_nat (length rs))"
proof -
  have "concat (map (\<lambda>r. EncodeFixed32 (word_of_nat (block_off es r))) rs) =
      concat (map (\<lambda>r. EncodeFixed32 (word_of_nat (block_off es r))) (take j rs)) @ EncodeFixed32 (word_of_nat (block_off es (rs ! j))) @
      concat (map (\<lambda>r. EncodeFixed32 (word_of_nat (block_off es r))) (drop (Suc j) rs))"
    using concat_map_nth [OF assms] .
  moreover have "length (concat (map (\<lambda>r. EncodeFixed32 (word_of_nat (block_off es r))) (take j rs))) = j * 4"
    using assms by (simp add: length_concat comp_def sum_list_triv)
  ultimately show ?thesis unfolding block_image_def block_off_all by (simp add: add.commute)
qed

lemma block_image_length: "length (block_image es rs) = block_off es (length es) + 4 * length rs + 4"
  by (simp add: block_image_def block_off_all length_concat comp_def sum_list_triv)

subsection \<open>Positions of the iterator\<close>

definition it_base :: "Comparator \<Rightarrow> block_entry list \<Rightarrow> nat list \<Rightarrow> BlockIter \<Rightarrow> bool" where
  "it_base c es rs it \<longleftrightarrow> bi_comparator it = c \<and> bi_data it = block_image es rs \<and> bi_restarts it = block_off es (length es) \<and>
     bi_num_restarts it = length rs \<and> bi_status it = OK"

text \<open>Before entry \<open>i\<close>: the next call of \<open>ParseNextKey\<close> reads it.\<close>

definition it_before :: "Comparator \<Rightarrow> block_entry list \<Rightarrow> nat list \<Rightarrow> nat \<Rightarrow> BlockIter \<Rightarrow> bool" where
  "it_before c es rs i it \<longleftrightarrow> it_base c es rs it \<and> i \<le> length es \<and> fst (bi_value it) + snd (bi_value it) = block_off es i \<and>
     (i < length es \<longrightarrow> shares_ok (bi_key it) (es ! i)) \<and> bi_restart_index it < length rs \<and> rs ! bi_restart_index it \<le> i"

definition it_at :: "Comparator \<Rightarrow> block_entry list \<Rightarrow> nat list \<Rightarrow> nat \<Rightarrow> BlockIter \<Rightarrow> bool" where
  "it_at c es rs i it \<longleftrightarrow> it_base c es rs it \<and> i < length es \<and> bi_current it = block_off es i \<and> bi_key it = e_key (es ! i) \<and>
     bi_value it = (block_off es (Suc i) - length (e_val (es ! i)), length (e_val (es ! i))) \<and>
     bi_restart_index it < length rs \<and> rs ! bi_restart_index it \<le> i \<and>
     (Suc (bi_restart_index it) < length rs \<longrightarrow> i \<le> rs ! Suc (bi_restart_index it))"

definition it_end :: "Comparator \<Rightarrow> block_entry list \<Rightarrow> nat list \<Rightarrow> BlockIter \<Rightarrow> bool" where
  "it_end c es rs it \<longleftrightarrow> it_base c es rs it \<and> bi_current it = block_off es (length es)"

lemma GetRestartPoint_layout:
  assumes "layout_ok es rs" and "it_base c es rs it" and "j < length rs"
  shows "GetRestartPoint it j = block_off es (rs ! j)" and "rs ! j \<le> length es"
proof -
  have "\<forall>r \<in> set rs. r < length es \<and> e_shared (es ! r) = 0 \<or> r = 0" using assms(1) unfolding layout_ok_def restarts_ok_def by blast
  from bspec [OF this nth_mem [OF assms(3)]] have r: "rs ! j \<le> length es" by auto
  then have "block_off es (rs ! j) < 2 ^ 32"
    using assms(1) block_off_mono [OF r order_refl] block_image_length [of es rs] by (simp add: layout_ok_def)
  then show "GetRestartPoint it j = block_off es (rs ! j)"
    using assms(2) restart_array [OF assms(3), of es] by (simp add: GetRestartPoint_def it_base_def word_of_nat_unat_less)
  show "rs ! j \<le> length es" by fact
qed

lemma advance_restart_spec:
  assumes lay: "layout_ok es rs" and base: "it_base c es rs it" and cur: "bi_current it = block_off es i" "i \<le> length es"
    and j: "j < length rs" "rs ! j \<le> i"
  shows "advance_restart it j < length rs \<and> rs ! advance_restart it j \<le> i \<and>
    (Suc (advance_restart it j) < length rs \<longrightarrow> i \<le> rs ! Suc (advance_restart it j))"
  using j
proof (induction "length rs - j" arbitrary: j rule: less_induct)
  case less
  show ?case
  proof (cases "Suc j < length rs \<and> rs ! Suc j < i")
    case True
    then have "advance_restart it j = advance_restart it (Suc j)"
      using GetRestartPoint_layout [OF lay base, of "Suc j"] block_off_less_iff [of "rs ! Suc j" es i] base cur
      by (subst advance_restart.simps) (simp add: it_base_def)
    with less.hyps [of "Suc j"] less.prems True show ?thesis by (simp add: diff_less_mono2)
  next
    case False
    then have "advance_restart it j = j"
      using GetRestartPoint_layout [OF lay base, of "Suc j"] block_off_less_iff [of "rs ! Suc j" es i] base cur
      by (subst advance_restart.simps) (auto simp: it_base_def)
    with False less.prems show ?thesis by auto
  qed
qed

lemma e_sizes:
  assumes "layout_ok es rs" and "i < length es"
  shows "length (e_val (es ! i)) < 2 ^ 32" "length (e_key (es ! i)) - e_shared (es ! i) < 2 ^ 32" "block_off es i < 2 ^ 32" "block_off es (Suc i) < 2 ^ 32"
proof -
  have "block_off es (Suc i) \<le> block_off es (length es)" using assms(2) by (intro block_off_mono) auto
  moreover have "block_off es (length es) < 2 ^ 32" using assms(1) block_image_length [of es rs] by (simp add: layout_ok_def)
  ultimately have o: "block_off es (Suc i) < 2 ^ 32" by simp
  then show "block_off es (Suc i) < 2 ^ 32" "block_off es i < 2 ^ 32" using block_off_Suc [OF assms(2)] by simp_all
  from o block_off_Suc [OF assms(2)] show "length (e_val (es ! i)) < 2 ^ 32" "length (e_key (es ! i)) - e_shared (es ! i) < 2 ^ 32"
    by (simp_all add: entry_image_def split_beta)
qed

lemma key_length:
  assumes "entries_ok es" and "i < length es"
  shows "length (e_key (es ! i)) \<le> block_off es (Suc i)"
  using assms(2)
proof (induction i)
  case 0
  then have "e_shared (es ! 0) = 0" using assms(1) by (auto simp: entries_ok_def shares_ok_def)
  with 0 show ?case by (simp add: block_off_Suc entry_image_def split_beta)
next
  case (Suc i)
  then have "e_shared (es ! Suc i) \<le> block_off es (Suc i)" using assms(1) by (auto simp: entries_ok_def shares_ok_def dest: le_trans)
  with Suc.prems show ?case by (simp add: block_off_Suc [OF Suc.prems] entry_image_def split_beta)
qed

lemma ParseNextKey_decoded:
  assumes "NextEntryOffset it = p" and "p < bi_restarts it"
    and "DecodeEntry (take (bi_restarts it - p) (drop p (bi_data it))) = Some (s, n, v, rest)" and "unat s \<le> length (bi_key it)"
    and "p' = p + (length (take (bi_restarts it - p) (drop p (bi_data it))) - length rest)"
    and "it1 = it\<lparr>bi_current := p, bi_key := take (unat s) (bi_key it) @ take (unat n) (drop p' (bi_data it)), bi_value := (p' + unat n, unat v)\<rparr>"
  shows "ParseNextKey it = (True, it1\<lparr>bi_restart_index := advance_restart it1 (bi_restart_index it)\<rparr>)"
  using assms(2-4) unfolding ParseNextKey_def Let_def assms(1,5,6) by simp

lemma ParseNextKey_entry:
  assumes lay: "layout_ok es rs" and it: "it_before c es rs i it" and i: "i < length es"
  shows "\<exists>it'. ParseNextKey it = (True, it') \<and> it_at c es rs i it'"
proof -
  obtain s k v where e: "es ! i = (s, k, v)" by (metis prod_cases3)
  have base: "it_base c es rs it" and nx: "fst (bi_value it) + snd (bi_value it) = block_off es i"
    and sh: "s \<le> length (bi_key it)" "s \<le> length k" "take s (bi_key it) = take s k"
    and ri: "bi_restart_index it < length rs" "rs ! bi_restart_index it \<le> i"
    using it i e by (auto simp: it_before_def shares_ok_def)
  have sz: "length v < 2 ^ 32" "length k - s < 2 ^ 32" "block_off es i < 2 ^ 32" using e_sizes [OF lay i] e by auto
  have s32: "s < 2 ^ 32" using key_length [OF _ i] lay e sh(2) e_sizes(4) [OF lay i] by (simp add: layout_ok_def)
  let ?rest = "drop s k @ v @ concat (map entry_image (drop (Suc i) es))"
  let ?p = "take (bi_restarts it - block_off es i) (drop (block_off es i) (bi_data it))"
  have p: "?p = EncodeVarint32 (word_of_nat s) @ EncodeVarint32 (word_of_nat (length k - s)) @ EncodeVarint32 (word_of_nat (length v)) @ ?rest"
    using block_split(2) [OF i, of rs] base by (simp add: it_base_def e entry_image_def)
  have "length ?p \<le> length (block_image es rs)" using base by (simp add: it_base_def)
  then have "length ?rest < 2 ^ 32" unfolding p using lay by (simp add: layout_ok_def)
  then have dec: "DecodeEntry ?p = Some (word_of_nat s, word_of_nat (length k - s), word_of_nat (length v), ?rest)"
    unfolding p using sz s32 by (intro DecodeEntry_Encode) (simp_all add: word_of_nat_unat_less)
  define hl where "hl = length ?p - length ?rest"
  have hl: "length (entry_image (es ! i)) = hl + (length k - s) + length v" unfolding hl_def p by (simp add: e entry_image_def)
  have drop_hl: "drop (block_off es i + hl) (bi_data it) = drop s k @ v @ drop (block_off es (Suc i)) (bi_data it)"
  proof -
    obtain X where d: "drop (block_off es i) (bi_data it) = entry_image (es ! i) @ X"
      using block_split(1) [OF i, of rs] base by (auto simp: it_base_def)
    have X: "drop (block_off es (Suc i)) (bi_data it) = X"
      unfolding block_off_Suc [OF i] by (simp add: add.commute [of "block_off es i"] drop_drop [symmetric] d del: drop_drop)
    have "hl = length (EncodeVarint32 (word_of_nat s) @ EncodeVarint32 (word_of_nat (length k - s)) @ EncodeVarint32 (word_of_nat (length v)))"
      unfolding hl_def p by simp
    then have "drop hl (entry_image (es ! i) @ X) = drop s k @ v @ X" by (simp add: e entry_image_def)
    then show ?thesis unfolding X by (simp add: add.commute [of _ hl] drop_drop [symmetric] d del: drop_drop drop_append)
  qed
  define it1 where "it1 = it\<lparr>bi_current := block_off es i, bi_key := k,
      bi_value := (block_off es (Suc i) - length v, length v)\<rparr>"
  have val: "block_off es i + hl + (length k - s) = block_off es (Suc i) - length v" using hl block_off_Suc [OF i] by simp
  have cur: "NextEntryOffset it = block_off es i" using nx sz(3) by (simp add: NextEntryOffset_def word_of_nat_unat_less)
  have lim: "block_off es i < bi_restarts it" using block_off_less [OF i] base by (simp add: it_base_def)
  have u: "unat (word_of_nat s :: u32) = s" "unat (word_of_nat (length k - s) :: u32) = length k - s" "unat (word_of_nat (length v) :: u32) = length v"
    using sz s32 by (simp_all add: word_of_nat_unat_less)
  have key: "take s (bi_key it) @ take (length k - s) (drop (block_off es i + hl) (bi_data it)) = k" using sh by (simp add: drop_hl)
  have "ParseNextKey it = (True, it1\<lparr>bi_restart_index := advance_restart it1 (bi_restart_index it)\<rparr>)"
  proof (rule ParseNextKey_decoded [OF cur lim dec])
    show "unat (word_of_nat s :: u32) \<le> length (bi_key it)" using sh s32 by (simp add: word_of_nat_unat_less)
    show "block_off es i + hl = block_off es i + (length ?p - length ?rest)" by (simp only: hl_def)
    show "it1 = it\<lparr>bi_current := block_off es i,
        bi_key := take (unat (word_of_nat s :: u32)) (bi_key it) @ take (unat (word_of_nat (length k - s) :: u32)) (drop (block_off es i + hl) (bi_data it)),
        bi_value := (block_off es i + hl + unat (word_of_nat (length k - s) :: u32), unat (word_of_nat (length v) :: u32))\<rparr>"
      unfolding u key it1_def val by (rule refl)
  qed
  moreover have b1: "it_base c es rs it1" using base by (simp add: it_base_def it1_def)
  moreover have "it_at c es rs i (it1\<lparr>bi_restart_index := advance_restart it1 (bi_restart_index it)\<rparr>)"
    using advance_restart_spec [OF lay b1, of i "bi_restart_index it"] ri i b1 by (simp add: it_at_def it_base_def it1_def e)
  ultimately show ?thesis by blast
qed

lemma ParseNextKey_end:
  assumes lay: "layout_ok es rs" and it: "it_before c es rs (length es) it"
  shows "\<exists>it'. ParseNextKey it = (False, it') \<and> it_end c es rs it'"
proof -
  have "block_off es (length es) < 2 ^ 32" using lay block_image_length [of es rs] by (simp add: layout_ok_def)
  then have "NextEntryOffset it = block_off es (length es)" using it by (simp add: it_before_def NextEntryOffset_def word_of_nat_unat_less)
  with it show ?thesis by (simp add: ParseNextKey_def Let_def it_before_def it_base_def it_end_def)
qed

lemma at_NextEntryOffset:
  assumes "layout_ok es rs" and "it_at c es rs i it"
  shows "NextEntryOffset it = block_off es (Suc i)" "fst (bi_value it) + snd (bi_value it) = block_off es (Suc i)"
proof -
  have i: "i < length es" using assms(2) by (simp add: it_at_def)
  have "length (e_val (es ! i)) \<le> block_off es (Suc i)" using block_off_Suc [OF i] by (simp add: entry_image_def split_beta)
  then show v: "fst (bi_value it) + snd (bi_value it) = block_off es (Suc i)" using assms(2) by (simp add: it_at_def)
  then show "NextEntryOffset it = block_off es (Suc i)" using e_sizes(4) [OF assms(1) i] by (simp add: NextEntryOffset_def word_of_nat_unat_less)
qed

lemma at_before:
  assumes "layout_ok es rs" and "it_at c es rs i it"
  shows "it_before c es rs (Suc i) it"
  using assms at_NextEntryOffset(2) [OF assms] by (auto simp: it_before_def it_at_def layout_ok_def entries_ok_def)

lemma restart_before_entry:
  assumes lay: "layout_ok es rs" and base: "it_base c es rs it" and j: "j < length rs"
  shows "it_before c es rs (rs ! j) (SeekToRestartPoint j it)"
proof -
  note g = GetRestartPoint_layout [OF lay base j]
  have "shares_ok [] (es ! (rs ! j))" if "rs ! j < length es"
  proof (cases "rs ! j = 0")
    case True
    then show ?thesis using lay that by (auto simp: layout_ok_def entries_ok_def)
  next
    case False
    have "\<forall>r \<in> set rs. r < length es \<and> e_shared (es ! r) = 0 \<or> r = 0" using lay unfolding layout_ok_def restarts_ok_def by blast
    from bspec [OF this nth_mem [OF j]] False show ?thesis by (simp add: shares_ok_def)
  qed
  with g base j show ?thesis by (simp add: it_before_def SeekToRestartPoint_def it_base_def)
qed

lemma at_value:
  assumes lay: "layout_ok es rs" and it: "it_at c es rs i it"
  shows "BlockIter_value it = e_val (es ! i)" "bi_key it = e_key (es ! i)" "BlockIter_Valid it"
proof -
  have i: "i < length es" and d: "bi_data it = block_image es rs" using it by (auto simp: it_at_def it_base_def)
  obtain s k v where e: "es ! i = (s, k, v)" by (metis prod_cases3)
  let ?h = "EncodeVarint32 (word_of_nat s) @ EncodeVarint32 (word_of_nat (length k - s)) @ EncodeVarint32 (word_of_nat (length v)) @ drop s k"
  obtain X where X: "drop (block_off es i) (bi_data it) = ?h @ v @ X"
    using block_split(1) [OF i, of rs] d e by (auto simp: entry_image_def)
  have "block_off es (Suc i) - length v = block_off es i + length ?h" using block_off_Suc [OF i] by (simp add: e entry_image_def)
  then have "drop (block_off es (Suc i) - length v) (bi_data it) = v @ X"
    by (simp only: add.commute [of "block_off es i"] drop_drop [symmetric] X) simp
  then show "BlockIter_value it = e_val (es ! i)" using it by (simp add: BlockIter_value_def it_at_def e)
  show "bi_key it = e_key (es ! i)" using it by (simp add: it_at_def)
  show "BlockIter_Valid it" using it block_off_less [OF i] by (simp add: BlockIter_Valid_def it_at_def it_base_def)
qed

lemma end_invalid: "it_end c es rs it \<Longrightarrow> \<not> BlockIter_Valid it"
  by (simp add: it_end_def it_base_def BlockIter_Valid_def)

subsection \<open>Moving\<close>

text \<open>At an entry, or past the last one.\<close>

definition it_pos :: "Comparator \<Rightarrow> block_entry list \<Rightarrow> nat list \<Rightarrow> nat \<Rightarrow> BlockIter \<Rightarrow> bool" where
  "it_pos c es rs i it \<longleftrightarrow> (if i < length es then it_at c es rs i it else i = length es \<and> it_end c es rs it)"

lemma ParseNextKey_pos:
  assumes "layout_ok es rs" and "it_before c es rs i it"
  shows "\<exists>it'. ParseNextKey it = (i < length es, it') \<and> it_pos c es rs i it'"
  using ParseNextKey_entry [OF assms] ParseNextKey_end [OF assms(1), of c it] assms(2)
  by (cases "i < length es") (auto simp: it_pos_def it_before_def)

lemma Next_pos: "\<lbrakk>layout_ok es rs; it_at c es rs i it\<rbrakk> \<Longrightarrow> it_pos c es rs (Suc i) (BlockIter_Next it)"
  using ParseNextKey_pos [OF _ at_before] by (fastforce simp: BlockIter_Next_def)

lemma layout_first: "layout_ok es rs \<Longrightarrow> 0 < length rs \<and> rs ! 0 = 0"
  by (auto simp: layout_ok_def restarts_ok_def)

lemma SeekToFirst_pos:
  assumes "layout_ok es rs" and "it_base c es rs it"
  shows "it_pos c es rs 0 (BlockIter_SeekToFirst it)"
  using ParseNextKey_pos [OF assms(1) restart_before_entry [OF assms, of 0]] layout_first [OF assms(1)]
  by (auto simp: BlockIter_SeekToFirst_def)

lemma scan_to_offset_run:
  assumes lay: "layout_ok es rs" and "it_before c es rs i it" and "i < m" and "m \<le> length es"
  shows "\<exists>it'. scan_to_offset (block_off es m) it = Some it' \<and> it_at c es rs (m - 1) it'"
  using assms(2,3)
proof (induction "m - i" arbitrary: i it)
  case (Suc d)
  obtain it1 where p: "ParseNextKey it = (True, it1)" "it_at c es rs i it1" using ParseNextKey_entry [OF lay Suc.prems(1)] Suc.prems(2) assms(4) by auto
  have lt: "NextEntryOffset it1 < block_off es m \<longleftrightarrow> Suc i < m"
    using at_NextEntryOffset(1) [OF lay p(2)] block_off_less_iff [of "Suc i" es m] Suc.prems(2) assms(4) by simp
  show ?case
  proof (cases "Suc i < m")
    case True
    with Suc.hyps(1) [of "Suc i" it1] Suc.hyps(2) at_before [OF lay p(2)] p(1) lt show ?thesis by (subst scan_to_offset.simps) simp
  next
    case False
    then have "m - 1 = i" using Suc.prems(2) by simp
    with False p lt show ?thesis by (subst scan_to_offset.simps) simp
  qed
qed simp

lemma SeekToLast_pos:
  assumes lay: "layout_ok es rs" and base: "it_base c es rs it"
  shows "\<exists>it'. BlockIter_SeekToLast it = Some it' \<and> (if es = [] then it_end c es rs it' else it_at c es rs (length es - 1) it')"
proof -
  let ?j = "length rs - 1"
  have j: "?j < length rs" using layout_first [OF lay] by simp
  note b = restart_before_entry [OF lay base j]
  have seek: "BlockIter_SeekToLast it = scan_to_offset (block_off es (length es)) (SeekToRestartPoint ?j it)"
    using base by (simp add: BlockIter_SeekToLast_def it_base_def)
  have "\<forall>r \<in> set rs. r < length es \<and> e_shared (es ! r) = 0 \<or> r = 0" using lay unfolding layout_ok_def restarts_ok_def by blast
  from bspec [OF this nth_mem [OF j]] have r: "es \<noteq> [] \<Longrightarrow> rs ! ?j < length es" by auto
  show ?thesis
  proof (cases "es = []")
    case True
    then have "it_before c es rs (length es) (SeekToRestartPoint ?j it)" using b GetRestartPoint_layout(2) [OF lay base j] by simp
    then obtain it' where "ParseNextKey (SeekToRestartPoint ?j it) = (False, it')" "it_end c es rs it'" using ParseNextKey_end [OF lay] by blast
    then show ?thesis using True unfolding seek by (subst scan_to_offset.simps) simp
  next
    case False
    with scan_to_offset_run [OF lay b r [OF False] order_refl] show ?thesis unfolding seek by auto
  qed
qed

lemma restart_before_spec:
  assumes lay: "layout_ok es rs" and base: "it_base c es rs it" and i: "i < length es" and j: "j < length rs"
  shows "(restart_before it (block_off es i) j = None \<and> (\<forall>j' \<le> j. i \<le> rs ! j')) \<or>
    (\<exists>j' \<le> j. restart_before it (block_off es i) j = Some j' \<and> rs ! j' < i)"
  using j
proof (induction j)
  case 0
  have "GetRestartPoint it 0 \<ge> block_off es i \<longleftrightarrow> i \<le> rs ! 0"
    using GetRestartPoint_layout [OF lay base 0] block_off_less_iff [of "rs ! 0" es i] i by auto
  then show ?case by auto
next
  case (Suc j)
  have "GetRestartPoint it (Suc j) \<ge> block_off es i \<longleftrightarrow> i \<le> rs ! Suc j"
    using GetRestartPoint_layout [OF lay base Suc.prems] block_off_less_iff [of "rs ! Suc j" es i] i by auto
  with Suc show ?case by (auto simp: le_Suc_eq)
qed

lemma Prev_pos:
  assumes lay: "layout_ok es rs" and at: "it_at c es rs i it"
  shows "\<exists>it'. BlockIter_Prev it = Some it' \<and> (if i = 0 then it_end c es rs it' else it_at c es rs (i - 1) it')"
proof -
  have base: "it_base c es rs it" and i: "i < length es" "bi_current it = block_off es i" and ri: "bi_restart_index it < length rs"
    using at by (auto simp: it_at_def)
  show ?thesis
  proof (cases "i = 0")
    case True
    then have "restart_before it (block_off es i) (bi_restart_index it) = None" using restart_before_spec [OF lay base i(1) ri] by auto
    then show ?thesis using True i(2) base by (auto simp: BlockIter_Prev_def it_end_def it_base_def)
  next
    case False
    then have "\<not> i \<le> rs ! 0" using layout_first [OF lay] by simp
    then obtain j where j: "j < length rs" "restart_before it (block_off es i) (bi_restart_index it) = Some j" "rs ! j < i"
      using restart_before_spec [OF lay base i(1) ri] ri by auto
    from scan_to_offset_run [OF lay restart_before_entry [OF lay base j(1)] j(3)] i(1) j(2) i(2) False show ?thesis
      by (auto simp: BlockIter_Prev_def)
  qed
qed

subsection \<open>Seeking\<close>

definition below_count :: "Comparator \<Rightarrow> block_entry list \<Rightarrow> bytes \<Rightarrow> nat \<Rightarrow> bool" where
  "below_count c es target m \<longleftrightarrow> m \<le> length es \<and> (\<forall>i < length es. Compare c (e_key (es ! i)) target < 0 \<longleftrightarrow> i < m)"

context comparator
begin

lemma below_count_ex:
  assumes "sorted_wrt (\<lambda>a b. Compare c (e_key a) (e_key b) < 0) es" and "\<forall>e \<in> set es. valid (e_key e)" and "valid target"
  shows "below_count c es target (length (filter (\<lambda>e. Compare c (e_key e) target < 0) es))"
  using assms(1,2)
proof (induction es)
  case (Cons e es)
  show ?case
  proof (cases "Compare c (e_key e) target < 0")
    case True
    with Cons show ?thesis by (auto simp: below_count_def nth_Cons split: nat.splits)
  next
    case False
    have "\<not> Compare c (e_key x) target < 0" if "x \<in> set es" for x
      using cmp_less_trans [of "e_key e" "e_key x" target] that Cons.prems False assms(3) by auto
    then have "filter (\<lambda>e. Compare c (e_key e) target < 0) es = []" by (simp add: filter_empty_conv)
    with False \<open>\<And>x. x \<in> set es \<Longrightarrow> \<not> _ x\<close> show ?thesis by (auto simp: below_count_def nth_Cons split: nat.splits)
  qed
qed (simp add: below_count_def)

lemma scan_to_key_run:
  assumes lay: "layout_ok es rs" and m: "below_count c es target m" and "it_before c es rs i it" and "i \<le> m"
  shows "\<exists>it'. scan_to_key target it = Some it' \<and> it_pos c es rs m it'"
  using assms(3,4)
proof (induction "m - i" arbitrary: i it)
  case 0
  then have "it_before c es rs m it" by simp
  then obtain it1 where p: "ParseNextKey it = (m < length es, it1)" "it_pos c es rs m it1" using ParseNextKey_pos [OF lay] by blast
  have "\<not> Compare c (bi_key it1) target < 0 \<and> bi_comparator it1 = c" if "m < length es"
    using p(2) m that by (auto simp: it_pos_def it_at_def it_base_def below_count_def)
  with p show ?case by (subst scan_to_key.simps) auto
next
  case (Suc d)
  then have i: "i < m" "i < length es" using m by (auto simp: below_count_def)
  obtain it1 where p: "ParseNextKey it = (True, it1)" "it_at c es rs i it1" using ParseNextKey_entry [OF lay Suc.prems(1) i(2)] by blast
  have "Compare (bi_comparator it1) (bi_key it1) target < 0" using p(2) m i by (auto simp: it_at_def it_base_def below_count_def)
  with Suc.hyps(1) [of "Suc i" it1] Suc.hyps(2) at_before [OF lay p(2)] i(1) p(1) show ?case by (subst scan_to_key.simps) simp
qed

lemma restart_entry:
  assumes lay: "layout_ok es rs" and base: "it_base c es rs it" and j: "0 < j" "j < length rs"
  shows "rs ! j < length es \<and> (\<exists>vl rest. DecodeEntry (take (bi_restarts it - GetRestartPoint it j) (drop (GetRestartPoint it j) (bi_data it))) =
    Some (0, word_of_nat (length (e_key (es ! (rs ! j)))), vl, e_key (es ! (rs ! j)) @ rest)) \<and> length (e_key (es ! (rs ! j))) < 2 ^ 32"
proof -
  let ?i = "rs ! j"
  have "sorted_wrt (<) rs" using lay by (simp add: layout_ok_def restarts_ok_def)
  from sorted_wrt_nth_less [OF this j] have "rs ! 0 < rs ! j" .
  moreover have "\<forall>r \<in> set rs. r < length es \<and> e_shared (es ! r) = 0 \<or> r = 0" using lay unfolding layout_ok_def restarts_ok_def by blast
  ultimately have i: "?i < length es" "e_shared (es ! ?i) = 0" using nth_mem [OF j(2)] by auto
  obtain k v where e: "es ! ?i = (0, k, v)" using i(2) by (metis prod.collapse)
  have sz: "length k < 2 ^ 32" "length v < 2 ^ 32" using e_sizes [OF lay i(1)] e by auto
  let ?rest = "v @ concat (map entry_image (drop (Suc ?i) es))"
  have g: "GetRestartPoint it j = block_off es ?i" using GetRestartPoint_layout [OF lay base j(2)] by simp
  have p: "take (bi_restarts it - GetRestartPoint it j) (drop (GetRestartPoint it j) (bi_data it)) =
      EncodeVarint32 0 @ EncodeVarint32 (word_of_nat (length k)) @ EncodeVarint32 (word_of_nat (length v)) @ k @ ?rest"
    using block_split(2) [OF i(1), of rs] base by (simp add: g it_base_def e entry_image_def)
  have "length (k @ ?rest) \<le> length (take (bi_restarts it - GetRestartPoint it j) (drop (GetRestartPoint it j) (bi_data it)))" unfolding p by simp
  also have "\<dots> \<le> length (block_image es rs)" using base by (simp add: it_base_def)
  finally have "length (k @ ?rest) < 2 ^ 32" using lay by (simp add: layout_ok_def)
  then have "DecodeEntry (take (bi_restarts it - GetRestartPoint it j) (drop (GetRestartPoint it j) (bi_data it))) =
      Some (0, word_of_nat (length k), word_of_nat (length v), k @ ?rest)"
    unfolding p using sz by (intro DecodeEntry_Encode) (simp_all add: word_of_nat_unat_less)
  with i sz e show ?thesis by auto
qed

lemma seek_restart_run:
  assumes lay: "layout_ok es rs" and base: "it_base c es rs it" and m: "below_count c es target m"
    and "rs ! left \<le> m" and "left < length rs" and "right < length rs"
  shows "\<exists>l < length rs. seek_restart it target left right = Some l \<and> rs ! l \<le> m"
  using assms(4-6)
proof (induction "right - left" arbitrary: left right rule: less_induct)
  case less
  show ?case
  proof (cases "left < right")
    case True
    let ?mid = "(left + right + 1) div 2"
    have mid: "0 < ?mid" "?mid < length rs" "left < ?mid" "?mid \<le> right" using True less.prems by auto
    note r = restart_entry [OF lay base mid(1,2)]
    have c: "bi_comparator it = c" using base by (simp add: it_base_def)
    obtain vl rest where d: "DecodeEntry (take (bi_restarts it - GetRestartPoint it ?mid) (drop (GetRestartPoint it ?mid) (bi_data it))) =
      Some (0, word_of_nat (length (e_key (es ! (rs ! ?mid)))), vl, e_key (es ! (rs ! ?mid)) @ rest)" using r by blast
    have k: "take (unat (word_of_nat (length (e_key (es ! (rs ! ?mid)))) :: u32)) (e_key (es ! (rs ! ?mid)) @ rest) = e_key (es ! (rs ! ?mid))"
      using r by (simp add: word_of_nat_unat_less)
    have step: "seek_restart it target left right =
        (if Compare c (e_key (es ! (rs ! ?mid))) target < 0 then seek_restart it target ?mid right else seek_restart it target left (?mid - 1))"
      by (subst seek_restart.simps) (simp only: Let_def True if_True d option.case prod.case k c not_True_eq_False if_False simp_thms)
    show ?thesis
    proof (cases "Compare c (e_key (es ! (rs ! ?mid))) target < 0")
      case lt: True
      then have "rs ! ?mid \<le> m" using m r by (auto simp: below_count_def)
      with less.hyps [of right ?mid] mid less.prems step lt show ?thesis by auto
    next
      case ge: False
      with less.hyps [of "?mid - 1" left] mid less.prems step show ?thesis by auto
    qed
  next
    case False
    then show ?thesis using less.prems by (subst seek_restart.simps) auto
  qed
qed

lemma Seek_pos:
  assumes lay: "layout_ok es rs" and m: "below_count c es target m"
    and srt: "sorted_wrt (\<lambda>a b. Compare c (e_key a) (e_key b) < 0) es" and v: "\<forall>e \<in> set es. valid (e_key e)" "valid target"
    and it: "it_base c es rs it" "BlockIter_Valid it \<longrightarrow> (\<exists>i. it_at c es rs i it)"
  shows "\<exists>it'. BlockIter_Seek target it = Some it' \<and> it_pos c es rs m it'"
proof (cases "BlockIter_Valid it")
  case False
  obtain l where l: "l < length rs" "seek_restart it target 0 (length rs - 1) = Some l" "rs ! l \<le> m"
    using seek_restart_run [OF lay it(1) m, of 0 "length rs - 1"] layout_first [OF lay] by auto
  from scan_to_key_run [OF lay m restart_before_entry [OF lay it(1) l(1)] l(3)] False l(2) it(1) show ?thesis
    by (simp add: BlockIter_Seek_def Let_def it_base_def)
next
  case True
  then obtain i where at: "it_at c es rs i it" using it(2) by blast
  have i: "i < length es" "bi_key it = e_key (es ! i)" "bi_comparator it = c" "bi_restart_index it < length rs" "rs ! bi_restart_index it \<le> i"
    using at by (auto simp: it_at_def it_base_def)
  let ?r = "Compare c (e_key (es ! i)) target"
  consider "?r = 0" | "?r < 0" | "?r > 0" by linarith
  then show ?thesis
  proof cases
    case 1
    have "m = i"
    proof (rule ccontr)
      assume "m \<noteq> i"
      moreover have "\<not> i < m" using m i 1 by (auto simp: below_count_def)
      ultimately have "m < i" by simp
      then have "Compare c (e_key (es ! m)) (e_key (es ! i)) < 0" using sorted_wrt_nth_less [OF srt] i(1) by blast
      then have "Compare c (e_key (es ! m)) target < 0"
        using cmp_less_trans [of "e_key (es ! m)" "e_key (es ! i)" target] v i(1) \<open>m < i\<close> 1 by simp
      then show False using m i(1) \<open>m < i\<close> by (simp add: below_count_def)
    qed
    then show ?thesis using True 1 i at by (simp add: BlockIter_Seek_def it_pos_def Let_def)
  next
    case 2
    then have im: "i < m" using m i by (auto simp: below_count_def)
    obtain l where l: "l < length rs" "seek_restart it target (bi_restart_index it) (length rs - 1) = Some l" "rs ! l \<le> m"
      using seek_restart_run [OF lay it(1) m, of "bi_restart_index it" "length rs - 1"] layout_first [OF lay] i im by auto
    have b: "it_before c es rs (Suc i) it" using at_before [OF lay at] .
    show ?thesis
      using True 2 i l it(1) scan_to_key_run [OF lay m b] im scan_to_key_run [OF lay m restart_before_entry [OF lay it(1) l(1)] l(3)]
      by (auto simp: BlockIter_Seek_def Let_def it_base_def)
  next
    case 3
    obtain l where l: "l < length rs" "seek_restart it target 0 (bi_restart_index it) = Some l" "rs ! l \<le> m"
      using seek_restart_run [OF lay it(1) m, of 0 "bi_restart_index it"] layout_first [OF lay] i by auto
    show ?thesis
      using True 3 i l it(1) scan_to_key_run [OF lay m restart_before_entry [OF lay it(1) l(1)] l(3)]
      by (auto simp: BlockIter_Seek_def Let_def it_base_def)
  qed
qed

end

subsection \<open>The builder makes such a block\<close>

definition bb_inv :: "BlockBuilder \<Rightarrow> block_entry list \<Rightarrow> nat list \<Rightarrow> bool" where
  "bb_inv b es rs \<longleftrightarrow> bb_buffer b = concat (map entry_image es) \<and> bb_restarts b = map (\<lambda>r. word_of_nat (block_off es r)) rs \<and>
     bb_last_key b = (if es = [] then [] else e_key (last es)) \<and> entries_ok es \<and> restarts_ok es rs \<and> (es = [] \<longrightarrow> bb_counter b = 0) \<and> 1 \<le> bb_interval b"

lemma shared_prefix_spec:
  "shared_prefix a b \<le> length a \<and> shared_prefix a b \<le> length b \<and> take (shared_prefix a b) a = take (shared_prefix a b) b"
  by (induction a b rule: shared_prefix.induct) auto

lemma block_off_snoc: "r \<le> length es \<Longrightarrow> block_off (es @ [e]) r = block_off es r"
  by (simp add: block_off_def)

lemma entries_ok_snoc:
  assumes "entries_ok es" and "shares_ok (if es = [] then [] else e_key (last es)) e"
  shows "entries_ok (es @ [e])"
  using assms by (auto simp: entries_ok_def nth_append last_conv_nth not_less_less_Suc_eq less_Suc_eq split: if_splits)
    (metis diff_Suc_Suc diff_zero)

lemma bb_inv_Add:
  assumes inv: "bb_inv b es rs"
  shows "\<exists>s rs'. bb_inv (BlockBuilder_Add key val b) (es @ [(s, key, val)]) rs'"
proof (cases "bb_counter b < bb_interval b")
  case True
  let ?s = "shared_prefix (bb_last_key b) key"
  have sh: "shares_ok (bb_last_key b) (?s, key, val)" using shared_prefix_spec [of "bb_last_key b" key] by (simp add: shares_ok_def)
  have r: "\<forall>r \<in> set rs. r \<le> length es" using inv by (auto simp: bb_inv_def restarts_ok_def)
  have "restarts_ok (es @ [(?s, key, val)]) rs" using inv by (auto simp: bb_inv_def restarts_ok_def nth_append)
  moreover have "entries_ok (es @ [(?s, key, val)])" using entries_ok_snoc [of es "(?s, key, val)"] sh inv by (simp add: bb_inv_def)
  moreover have "take ?s (bb_last_key b) @ drop ?s key = key" using shared_prefix_spec [of "bb_last_key b" key] by simp
  moreover have "map (\<lambda>r. word_of_nat (block_off (es @ [(?s, key, val)]) r)) rs = (map (\<lambda>r. word_of_nat (block_off es r)) rs :: u32 list)"
    using r by (intro map_cong) (auto simp: block_off_snoc)
  ultimately have "bb_inv (BlockBuilder_Add key val b) (es @ [(?s, key, val)]) rs"
    using True inv by (auto simp: bb_inv_def BlockBuilder_Add_def Let_def PutVarint32_def entry_image_def)
  then show ?thesis by blast
next
  case False
  have ne: "es \<noteq> []" using False inv by (auto simp: bb_inv_def)
  have sh: "shares_ok (bb_last_key b) (0, key, val)" by (simp add: shares_ok_def)
  have r: "\<forall>r \<in> set rs. r < length es" using inv ne by (auto simp: bb_inv_def restarts_ok_def)
  have "restarts_ok (es @ [(0, key, val)]) (rs @ [length es])"
    using inv r ne by (auto simp: bb_inv_def restarts_ok_def nth_append sorted_wrt_append)
  moreover have "entries_ok (es @ [(0, key, val)])" using entries_ok_snoc [of es "(0, key, val)"] sh inv by (simp add: bb_inv_def)
  moreover have "map (\<lambda>r. word_of_nat (block_off (es @ [(0, key, val)]) r)) rs = (map (\<lambda>r. word_of_nat (block_off es r)) rs :: u32 list)"
    using r by (intro map_cong) (auto simp: block_off_snoc)
  ultimately have "bb_inv (BlockBuilder_Add key val b) (es @ [(0, key, val)]) (rs @ [length es])"
    using False inv by (auto simp: bb_inv_def BlockBuilder_Add_def Let_def PutVarint32_def entry_image_def block_off_snoc block_off_all)
  then show ?thesis by blast
qed

lemma bb_inv_build:
  assumes "bb_inv b es rs"
  shows "\<exists>es' rs'. bb_inv (fold (\<lambda>(k, v). BlockBuilder_Add k v) kvs b) (es @ es') rs' \<and> map snd es' = kvs"
  using assms
proof (induction kvs arbitrary: b es rs)
  case Nil
  then show ?case by (intro exI [of _ "[]"] exI [of _ rs]) simp
next
  case (Cons kv kvs)
  obtain k v where kv: "kv = (k, v)" by fastforce
  obtain s rs1 where "bb_inv (BlockBuilder_Add k v b) (es @ [(s, k, v)]) rs1" using bb_inv_Add [OF Cons.prems] by blast
  from Cons.IH [OF this] obtain es' rs' where
    r: "bb_inv (fold (\<lambda>(k, v). BlockBuilder_Add k v) kvs (BlockBuilder_Add k v b)) ((es @ [(s, k, v)]) @ es') rs'" "map snd es' = kvs" by blast
  then show ?case using kv by (intro exI [of _ "(s, k, v) # es'"] exI [of _ rs']) simp
qed

lemma bb_inv_new: "1 \<le> interval \<Longrightarrow> bb_inv (BlockBuilder_new interval) [] [0]"
  by (simp add: bb_inv_def BlockBuilder_new_def entries_ok_def restarts_ok_def)

lemma fold_PutFixed32: "fold (\<lambda>r buf. PutFixed32 buf r) rs buf = buf @ concat (map EncodeFixed32 rs)"
  by (induction rs arbitrary: buf) (simp_all add: PutFixed32_def)

lemma Finish_image: "bb_inv b es rs \<Longrightarrow> fst (BlockBuilder_Finish b) = block_image es rs"
  unfolding bb_inv_def BlockBuilder_Finish_def Let_def fold_PutFixed32 by (simp add: PutFixed32_def block_image_def comp_def)

lemma NewIterator_image:
  assumes "restarts_ok es rs" and "length (block_image es rs) < 2 ^ 32"
  shows "Block_NewIterator c (Block_new (block_image es rs)) = Inr (BlockIter_new c (block_image es rs) (block_off es (length es)) (length rs))"
proof -
  have len: "length (block_image es rs) = block_off es (length es) + 4 * length rs + 4" by (rule block_image_length)
  have "drop (length (block_image es rs) - 4) (block_image es rs) = EncodeFixed32 (word_of_nat (length rs))"
    by (simp add: block_image_def)
  then have n: "unat (NumRestarts (block_image es rs) (length (block_image es rs))) = length rs"
    using assms(2) len by (simp add: NumRestarts_def word_of_nat_unat_less)
  have "0 < length rs" using assms(1) by (auto simp: restarts_ok_def)
  moreover have "(length (block_image es rs) - 4) div 4 \<ge> length rs" using len by simp
  moreover have "unat (word_of_nat (length (block_image es rs) - (1 + length rs) * 4) :: u32) = block_off es (length es)"
    using assms(2) len by (simp add: word_of_nat_unat_less)
  ultimately show ?thesis using n len by (simp add: Block_NewIterator_def Block_new_def Let_def)
qed

subsection \<open>Properties\<close>

text \<open>The pairs that \<open>Next\<close>, or \<open>Prev\<close>, visits from a position on, in at most \<open>n\<close> steps, with the status at the end.\<close>

fun block_walk_next :: "nat \<Rightarrow> BlockIter \<Rightarrow> (bytes \<times> bytes) list \<times> Status" where
  "block_walk_next 0 it = ([], bi_status it)"
| "block_walk_next (Suc n) it =
     (if BlockIter_Valid it then
        (let (kvs, st) = block_walk_next n (BlockIter_Next it) in ((bi_key it, BlockIter_value it) # kvs, st))
      else ([], bi_status it))"

fun block_walk_prev :: "nat \<Rightarrow> BlockIter \<Rightarrow> ((bytes \<times> bytes) list \<times> Status) option" where
  "block_walk_prev 0 it = Some ([], bi_status it)"
| "block_walk_prev (Suc n) it =
     (if BlockIter_Valid it then
        map_option (\<lambda>(kvs, st). ((bi_key it, BlockIter_value it) # kvs, st)) (Option.bind (BlockIter_Prev it) (block_walk_prev n))
      else Some ([], bi_status it))"

lemma block_walk_next_pos:
  assumes lay: "layout_ok es rs" and "it_pos c es rs i it" and "length es - i < n"
  shows "block_walk_next n it = (map snd (drop i es), OK)"
  using assms(2,3)
proof (induction n arbitrary: i it)
  case (Suc n)
  show ?case
  proof (cases "i < length es")
    case True
    then have at: "it_at c es rs i it" using Suc.prems(1) by (simp add: it_pos_def)
    have "drop i es = es ! i # drop (Suc i) es" using True by (simp add: Cons_nth_drop_Suc)
    moreover have "block_walk_next n (BlockIter_Next it) = (map snd (drop (Suc i) es), OK)"
      using Suc.IH [OF Next_pos [OF lay at]] Suc.prems(2) True by simp
    ultimately show ?thesis using at_value [OF lay at] by simp
  next
    case False
    then have "it_end c es rs it" "i = length es" using Suc.prems(1) by (auto simp: it_pos_def)
    then show ?thesis using end_invalid by (auto simp: it_end_def it_base_def)
  qed
qed simp

lemma filter_not_drop:
  assumes "m \<le> length xs" and "\<forall>i < length xs. P (xs ! i) \<longleftrightarrow> i < m"
  shows "filter (\<lambda>x. \<not> P x) xs = drop m xs"
proof -
  have "filter (\<lambda>x. \<not> P x) (take m xs) = []" using assms by (auto simp: filter_empty_conv in_set_conv_nth)
  moreover have "filter (\<lambda>x. \<not> P x) (drop m xs) = drop m xs" using assms by (auto simp: filter_id_conv in_set_conv_nth)
  ultimately have "filter (\<lambda>x. \<not> P x) (take m xs @ drop m xs) = drop m xs" by (simp only: filter_append append_Nil)
  then show ?thesis by simp
qed

lemma block_walk_prev_at:
  assumes lay: "layout_ok es rs" and "it_at c es rs i it" and "Suc i < n"
  shows "block_walk_prev n it = Some (rev (map snd (take (Suc i) es)), OK)"
  using assms(2,3)
proof (induction n arbitrary: i it)
  case (Suc n)
  have i: "i < length es" using Suc.prems(1) by (simp add: it_at_def)
  obtain it1 where p: "BlockIter_Prev it = Some it1" "if i = 0 then it_end c es rs it1 else it_at c es rs (i - 1) it1"
    using Prev_pos [OF lay Suc.prems(1)] by blast
  have "block_walk_prev n it1 = Some (rev (map snd (take i es)), OK)"
  proof (cases i)
    case 0
    then obtain n' where "n = Suc n'" using Suc.prems(2) by (cases n) auto
    then show ?thesis using 0 p(2) end_invalid by (auto simp: it_end_def it_base_def)
  next
    case (Suc k)
    with Suc.IH [of k it1] p(2) Suc.prems(2) show ?thesis by simp
  qed
  with p(1) at_value [OF lay Suc.prems(1)] i show ?case by (simp add: take_Suc_conv_app_nth)
qed simp

text \<open>C8: Blocks are read back. Pairs whose keys are in strictly ascending order for the comparator are added to a builder with
  any restart interval of at least one; let the finished block be smaller than four gigabytes. The block is accepted, and every
  movement of its iterator returns with status OK: forward from the first entry and backward from the last one it visits exactly
  the pairs that were added, in their order; a seek, from the start or from any position reached before, stops at the first
  pair whose key is not below the target, with all the later ones behind it.\<close>

theorem block_roundtrip:
  assumes "comparator c valid" and "\<forall>kv \<in> set kvs. valid (fst kv)" and "sorted_wrt (\<lambda>a b. Compare c (fst a) (fst b) < 0) kvs"
    and "1 \<le> interval"
    and "block = fst (BlockBuilder_Finish (fold (\<lambda>(k, v). BlockBuilder_Add k v) kvs (BlockBuilder_new interval)))"
    and "length block < 2 ^ 32" and "valid t1" and "valid t2"
  shows "\<exists>it. Block_NewIterator c (Block_new block) = Inr it \<and>
    block_walk_next (Suc (length kvs)) (BlockIter_SeekToFirst it) = (kvs, OK) \<and>
    Option.bind (BlockIter_SeekToLast it) (block_walk_prev (Suc (length kvs))) = Some (rev kvs, OK) \<and>
    (\<exists>it1 it2. BlockIter_Seek t1 it = Some it1 \<and>
      block_walk_next (Suc (length kvs)) it1 = (filter (\<lambda>kv. \<not> Compare c (fst kv) t1 < 0) kvs, OK) \<and>
      BlockIter_Seek t2 it1 = Some it2 \<and>
      block_walk_next (Suc (length kvs)) it2 = (filter (\<lambda>kv. \<not> Compare c (fst kv) t2 < 0) kvs, OK))"
proof -
  obtain es rs where inv: "bb_inv (fold (\<lambda>(k, v). BlockBuilder_Add k v) kvs (BlockBuilder_new interval)) es rs" "map snd es = kvs"
    using bb_inv_build [OF bb_inv_new [OF assms(4)], of kvs] by auto
  have block: "block = block_image es rs" using assms(5) Finish_image [OF inv(1)] by simp
  have lay: "layout_ok es rs" using inv(1) assms(6) block by (simp add: layout_ok_def bb_inv_def)
  let ?it = "BlockIter_new c block (block_off es (length es)) (length rs)"
  have new: "Block_NewIterator c (Block_new block) = Inr ?it"
    using NewIterator_image [of es rs c] lay block by (simp add: layout_ok_def)
  have base: "it_base c es rs ?it" and nv: "\<not> BlockIter_Valid ?it" using block by (simp_all add: it_base_def BlockIter_new_def BlockIter_Valid_def)
  have n: "length es = length kvs" using inv(2) by auto
  have first: "block_walk_next (Suc (length kvs)) (BlockIter_SeekToFirst ?it) = (kvs, OK)"
    using block_walk_next_pos [OF lay SeekToFirst_pos [OF lay base], of "Suc (length kvs)"] inv(2) n by simp
  obtain itl where l: "BlockIter_SeekToLast ?it = Some itl" "if es = [] then it_end c es rs itl else it_at c es rs (length es - 1) itl"
    using SeekToLast_pos [OF lay base] by blast
  have last: "block_walk_prev (Suc (length kvs)) itl = Some (rev kvs, OK)"
  proof (cases "es = []")
    case True
    with l(2) have "it_end c es rs itl" by simp
    with end_invalid [OF this] True inv(2) show ?thesis by (auto simp: it_end_def it_base_def)
  next
    case False
    then have "0 < length kvs" using n by auto
    then show ?thesis using False block_walk_prev_at [OF lay, of c "length es - 1" itl "Suc (length kvs)"] l(2) n inv(2)
      by (simp del: block_walk_prev.simps)
  qed
  have srt: "sorted_wrt (\<lambda>a b. Compare c (e_key a) (e_key b) < 0) es" using assms(3) inv(2) by (auto simp: sorted_wrt_map)
  have vl: "\<forall>e \<in> set es. valid (e_key e)" using assms(2) unfolding inv(2) [symmetric] by simp
  let ?m = "\<lambda>t. length (filter (\<lambda>e. Compare c (e_key e) t < 0) es)"
  have tail: "map snd (drop (?m t) es) = filter (\<lambda>kv. \<not> Compare c (fst kv) t < 0) kvs" if "valid t" for t
  proof -
    have "below_count c es t (?m t)" using comparator.below_count_ex [OF assms(1) srt vl that] .
    then have "filter (\<lambda>e. \<not> Compare c (e_key e) t < 0) es = drop (?m t) es" by (intro filter_not_drop) (auto simp: below_count_def)
    then show ?thesis using inv(2) by (metis (mono_tags, lifting) filter_cong filter_map comp_apply)
  qed
  have seek: "\<exists>it'. BlockIter_Seek t it = Some it' \<and> it_pos c es rs (?m t) it'"
    if "valid t" "it_base c es rs it" "BlockIter_Valid it \<longrightarrow> (\<exists>i. it_at c es rs i it)" for t it
    using comparator.Seek_pos [OF assms(1) lay comparator.below_count_ex [OF assms(1) srt vl that(1)] srt vl that] .
  obtain it1 where 1: "BlockIter_Seek t1 ?it = Some it1" "it_pos c es rs (?m t1) it1" using seek [OF assms(7) base] nv by blast
  have b1: "it_base c es rs it1" "BlockIter_Valid it1 \<longrightarrow> (\<exists>i. it_at c es rs i it1)"
    using 1(2) end_invalid by (auto simp: it_pos_def it_at_def it_end_def split: if_splits)
  obtain it2 where 2: "BlockIter_Seek t2 it1 = Some it2" "it_pos c es rs (?m t2) it2" using seek [OF assms(8) b1] by blast
  from block_walk_next_pos [OF lay 1(2), of "Suc (length kvs)"] block_walk_next_pos [OF lay 2(2), of "Suc (length kvs)"] tail assms(7,8) n
  have "block_walk_next (Suc (length kvs)) it1 = (filter (\<lambda>kv. \<not> Compare c (fst kv) t1 < 0) kvs, OK)"
    "block_walk_next (Suc (length kvs)) it2 = (filter (\<lambda>kv. \<not> Compare c (fst kv) t2 < 0) kvs, OK)" by simp_all
  with new first last l(1) 1(1) 2(1) show ?thesis by (auto simp del: block_walk_next.simps block_walk_prev.simps)
qed

theorem block_roundtrip_witness:
  "\<exists>it. Block_NewIterator BytewiseComparator (Block_new (fst (BlockBuilder_Finish
      (fold (\<lambda>(k, v). BlockBuilder_Add k v) [([1, 2], [9]), ([1, 3], [8])] (BlockBuilder_new 16))))) = Inr it \<and>
    block_walk_next 3 (BlockIter_SeekToFirst it) = ([([1, 2], [9]), ([1, 3], [8])], OK)"
proof -
  let ?kvs = "[([1, 2], [9]), ([1, 3], [8])] :: (bytes \<times> bytes) list"
  have s: "sorted_wrt (\<lambda>a b. Compare BytewiseComparator (fst a) (fst b) < 0) ?kvs" by code_simp
  have l: "length (fst (BlockBuilder_Finish (fold (\<lambda>(k, v). BlockBuilder_Add k v) ?kvs (BlockBuilder_new 16)))) < 2 ^ 32"
    by (simp add: BlockBuilder_Finish_def BlockBuilder_Add_def BlockBuilder_new_def Let_def PutFixed32_def PutVarint32_def
        EncodeVarint32_def EncodeFixed32_def)
  from block_roundtrip [OF bytewise.comparator_axioms _ s _ refl l, of "[]" "[]"] show ?thesis
    by (simp add: numeral_3_eq_3 del: block_walk_next.simps block_walk_prev.simps fold_simps) blast
qed

end
