(* ===== verification/IterBase.thy ===== *)
theory IterBase
  imports Comparator Status "HOL-Library.Multiset"
begin

text \<open>
  \<open>include/leveldb/iterator.h\<close>, \<open>table/iterator.cc\<close> and \<open>table/iterator_wrapper.h\<close>: the iterator interface, the
  iterator over nothing, and the wrapper that caches the key.

  The abstract class is a record of its virtual methods over a type of iterator states. A movement gives no state when an assertion
  of the source fails or the code does not return. The contract that the merging, two-level and database iterators rely on, and
  give in turn, is the locale \<open>sorted_iterator\<close>: a cursor over a strictly ascending list of pairs.
\<close>

subsection \<open>The interface\<close>

record 's Iterator =
  iter_Valid :: "'s \<Rightarrow> bool"
  iter_SeekToFirst :: "'s \<Rightarrow> 's option"
  iter_SeekToLast :: "'s \<Rightarrow> 's option"
  iter_Seek :: "bytes \<Rightarrow> 's \<Rightarrow> 's option"
  iter_Next :: "'s \<Rightarrow> 's option"
  iter_Prev :: "'s \<Rightarrow> 's option"
  iter_key :: "'s \<Rightarrow> bytes"
  iter_value :: "'s \<Rightarrow> bytes"
  iter_status :: "'s \<Rightarrow> Status"

text \<open>The cleanup functions of an iterator: the embedded head node and the chain behind it. A function and its arguments are one
  value; running it changes a world the functions work on.\<close>

record 'f CleanupList =
  cl_head :: "'f option"
  cl_next :: "'f list"

definition Iterator_new :: "'f CleanupList" where
  "Iterator_new = \<lparr>cl_head = None, cl_next = []\<rparr>"

definition RegisterCleanup :: "'f \<Rightarrow> 'f CleanupList \<Rightarrow> 'f CleanupList" where
  "RegisterCleanup func l =
     (if cl_head l = None then l\<lparr>cl_head := Some func\<rparr> else l\<lparr>cl_next := func # cl_next l\<rparr>)"

definition Iterator_delete :: "('f \<Rightarrow> 'w \<Rightarrow> 'w) \<Rightarrow> 'f CleanupList \<Rightarrow> 'w \<Rightarrow> 'w" where
  "Iterator_delete run l w =
     (case cl_head l of None \<Rightarrow> w | Some func \<Rightarrow> fold run (cl_next l) (run func w))"

subsection \<open>The iterator over nothing\<close>

definition EmptyIterator :: "Status Iterator" where
  "EmptyIterator =
     \<lparr>iter_Valid = (\<lambda>_. False), iter_SeekToFirst = Some, iter_SeekToLast = Some, iter_Seek = (\<lambda>_. Some),
      iter_Next = (\<lambda>_. None), iter_Prev = (\<lambda>_. None), iter_key = (\<lambda>_. []), iter_value = (\<lambda>_. []), iter_status = (\<lambda>s. s)\<rparr>"

definition NewEmptyIterator :: Status where
  "NewEmptyIterator = OK"

definition NewErrorIterator :: "Status \<Rightarrow> Status" where
  "NewErrorIterator status = status"

subsection \<open>The wrapper\<close>

record 's IteratorWrapper =
  iw_iter :: "'s option"
  iw_valid :: bool
  iw_key :: bytes

definition IteratorWrapper_new :: "'s IteratorWrapper" where
  "IteratorWrapper_new = \<lparr>iw_iter = None, iw_valid = False, iw_key = []\<rparr>"

definition IW_Update :: "'s Iterator \<Rightarrow> 's \<Rightarrow> 's IteratorWrapper \<Rightarrow> 's IteratorWrapper" where
  "IW_Update it s w =
     (let w' = w\<lparr>iw_iter := Some s, iw_valid := iter_Valid it s\<rparr>
      in if iw_valid w' then w'\<lparr>iw_key := iter_key it s\<rparr> else w')"

definition IW_Set :: "'s Iterator \<Rightarrow> 's option \<Rightarrow> 's IteratorWrapper \<Rightarrow> 's IteratorWrapper" where
  "IW_Set it iter w =
     (case iter of None \<Rightarrow> w\<lparr>iw_iter := None, iw_valid := False\<rparr> | Some s \<Rightarrow> IW_Update it s w)"

definition IW_move :: "'s Iterator \<Rightarrow> ('s \<Rightarrow> 's option) \<Rightarrow> 's IteratorWrapper \<Rightarrow> 's IteratorWrapper option" where
  "IW_move it op w =
     (case iw_iter w of
        None \<Rightarrow> None
      | Some s \<Rightarrow> (case op s of None \<Rightarrow> None | Some s' \<Rightarrow> Some (IW_Update it s' w)))"

definition IW_Next :: "'s Iterator \<Rightarrow> 's IteratorWrapper \<Rightarrow> 's IteratorWrapper option" where
  "IW_Next it = IW_move it (iter_Next it)"

definition IW_Prev :: "'s Iterator \<Rightarrow> 's IteratorWrapper \<Rightarrow> 's IteratorWrapper option" where
  "IW_Prev it = IW_move it (iter_Prev it)"

definition IW_Seek :: "'s Iterator \<Rightarrow> bytes \<Rightarrow> 's IteratorWrapper \<Rightarrow> 's IteratorWrapper option" where
  "IW_Seek it k = IW_move it (iter_Seek it k)"

definition IW_SeekToFirst :: "'s Iterator \<Rightarrow> 's IteratorWrapper \<Rightarrow> 's IteratorWrapper option" where
  "IW_SeekToFirst it = IW_move it (iter_SeekToFirst it)"

definition IW_SeekToLast :: "'s Iterator \<Rightarrow> 's IteratorWrapper \<Rightarrow> 's IteratorWrapper option" where
  "IW_SeekToLast it = IW_move it (iter_SeekToLast it)"

definition IW_value :: "'s Iterator \<Rightarrow> 's IteratorWrapper \<Rightarrow> bytes" where
  "IW_value it w = iter_value it (the (iw_iter w))"

definition IW_status :: "'s Iterator \<Rightarrow> 's IteratorWrapper \<Rightarrow> Status" where
  "IW_status it w = iter_status it (the (iw_iter w))"

definition wrapped :: "'s Iterator \<Rightarrow> 's IteratorWrapper Iterator" where
  "wrapped it =
     \<lparr>iter_Valid = iw_valid, iter_SeekToFirst = IW_SeekToFirst it, iter_SeekToLast = IW_SeekToLast it, iter_Seek = IW_Seek it,
      iter_Next = IW_Next it, iter_Prev = IW_Prev it, iter_key = iw_key, iter_value = IW_value it, iter_status = IW_status it\<rparr>"

text \<open>Two dynamic types behind the same interface.\<close>

definition Iterator_sum :: "'s Iterator \<Rightarrow> 't Iterator \<Rightarrow> ('s + 't) Iterator" where
  "Iterator_sum a b =
     \<lparr>iter_Valid = case_sum (iter_Valid a) (iter_Valid b),
      iter_SeekToFirst = case_sum (map_option Inl \<circ> iter_SeekToFirst a) (map_option Inr \<circ> iter_SeekToFirst b),
      iter_SeekToLast = case_sum (map_option Inl \<circ> iter_SeekToLast a) (map_option Inr \<circ> iter_SeekToLast b),
      iter_Seek = (\<lambda>k. case_sum (map_option Inl \<circ> iter_Seek a k) (map_option Inr \<circ> iter_Seek b k)),
      iter_Next = case_sum (map_option Inl \<circ> iter_Next a) (map_option Inr \<circ> iter_Next b),
      iter_Prev = case_sum (map_option Inl \<circ> iter_Prev a) (map_option Inr \<circ> iter_Prev b),
      iter_key = case_sum (iter_key a) (iter_key b), iter_value = case_sum (iter_value a) (iter_value b),
      iter_status = case_sum (iter_status a) (iter_status b)\<rparr>"

subsection \<open>The contract\<close>

text \<open>The number of entries below a target, the position before another one, and the keys in strictly ascending order.\<close>

definition entries_below :: "Comparator \<Rightarrow> bytes \<Rightarrow> (bytes \<times> bytes) list \<Rightarrow> nat" where
  "entries_below c t es = length (filter (\<lambda>e. Compare c (fst e) t < 0) es)"

definition prev_pos :: "nat \<Rightarrow> nat \<Rightarrow> nat" where
  "prev_pos n i = (if i = 0 then n else i - 1)"

definition ascending :: "Comparator \<Rightarrow> (bytes \<times> 'v) list \<Rightarrow> bool" where
  "ascending c es \<longleftrightarrow> sorted_wrt (\<lambda>a b. Compare c (fst a) (fst b) < 0) es"

text \<open>\<open>pos s i\<close>: in state \<open>s\<close> the iterator is at entry \<open>i\<close>, or not valid when \<open>i\<close> is the number of entries.\<close>

locale sorted_iterator = comparator c valid for c valid +
  fixes it :: "'s Iterator" and es :: "(bytes \<times> bytes) list" and pos :: "'s \<Rightarrow> nat \<Rightarrow> bool"
  assumes es_ascending: "ascending c es"
    and es_valid: "e \<in> set es \<Longrightarrow> valid (fst e)"
    and pos_le: "pos s i \<Longrightarrow> i \<le> length es"
    and pos_Valid: "pos s i \<Longrightarrow> iter_Valid it s \<longleftrightarrow> i < length es"
    and pos_key: "\<lbrakk>pos s i; i < length es\<rbrakk> \<Longrightarrow> iter_key it s = fst (es ! i)"
    and pos_value: "\<lbrakk>pos s i; i < length es\<rbrakk> \<Longrightarrow> iter_value it s = snd (es ! i)"
    and pos_status: "pos s i \<Longrightarrow> iter_status it s = OK"
    and pos_SeekToFirst: "pos s i \<Longrightarrow> \<exists>s'. iter_SeekToFirst it s = Some s' \<and> pos s' 0"
    and pos_SeekToLast: "pos s i \<Longrightarrow> \<exists>s'. iter_SeekToLast it s = Some s' \<and> pos s' (prev_pos (length es) (length es))"
    and pos_Seek: "\<lbrakk>pos s i; valid t\<rbrakk> \<Longrightarrow> \<exists>s'. iter_Seek it t s = Some s' \<and> pos s' (entries_below c t es)"
    and pos_Next: "\<lbrakk>pos s i; i < length es\<rbrakk> \<Longrightarrow> \<exists>s'. iter_Next it s = Some s' \<and> pos s' (Suc i)"
    and pos_Prev: "\<lbrakk>pos s i; i < length es\<rbrakk> \<Longrightarrow> \<exists>s'. iter_Prev it s = Some s' \<and> pos s' (prev_pos (length es) i)"

text \<open>What a client sees that moves to one end until the iterator is not valid.\<close>

fun iter_walk_next :: "'s Iterator \<Rightarrow> nat \<Rightarrow> 's \<Rightarrow> ((bytes \<times> bytes) list \<times> Status) option" where
  "iter_walk_next it 0 s = None"
| "iter_walk_next it (Suc n) s =
     (if iter_Valid it s
      then Option.bind (iter_Next it s) (\<lambda>s'. map_option (\<lambda>(kvs, x). ((iter_key it s, iter_value it s) # kvs, x)) (iter_walk_next it n s'))
      else Some ([], iter_status it s))"

fun iter_walk_prev :: "'s Iterator \<Rightarrow> nat \<Rightarrow> 's \<Rightarrow> ((bytes \<times> bytes) list \<times> Status) option" where
  "iter_walk_prev it 0 s = None"
| "iter_walk_prev it (Suc n) s =
     (if iter_Valid it s
      then Option.bind (iter_Prev it s) (\<lambda>s'. map_option (\<lambda>(kvs, x). ((iter_key it s, iter_value it s) # kvs, x)) (iter_walk_prev it n s'))
      else Some ([], iter_status it s))"

subsection \<open>Lemmas\<close>

lemma prev_pos_le: "i \<le> n \<Longrightarrow> prev_pos n i \<le> n"
  by (auto simp: prev_pos_def)

lemma entries_below_le: "entries_below c t es \<le> length es"
  by (simp add: entries_below_def)

lemma filter_take_iff:
  assumes "m \<le> length xs" and "\<And>i. i < length xs \<Longrightarrow> P (xs ! i) \<longleftrightarrow> i < m"
  shows "filter P xs = take m xs"
proof -
  have "filter P (take m xs) = take m xs" using assms by (auto simp: filter_id_conv in_set_conv_nth)
  moreover have "filter P (drop m xs) = []" using assms by (auto simp: filter_empty_conv in_set_conv_nth)
  ultimately have "filter P (take m xs @ drop m xs) = take m xs" by (simp only: filter_append append_Nil2)
  then show ?thesis by simp
qed

lemma ascending_append:
  "ascending c (xs @ ys) \<longleftrightarrow> ascending c xs \<and> ascending c ys \<and> (\<forall>x \<in> set xs. \<forall>y \<in> set ys. Compare c (fst x) (fst y) < 0)"
  by (simp add: ascending_def sorted_wrt_append)

lemma ascending_Cons: "ascending c (x # xs) \<longleftrightarrow> (\<forall>y \<in> set xs. Compare c (fst x) (fst y) < 0) \<and> ascending c xs"
  by (simp add: ascending_def)

lemma ascending_filter: "ascending c es \<Longrightarrow> ascending c (filter P es)"
  by (simp add: ascending_def sorted_wrt_filter)

lemma ascending_nth: "\<lbrakk>ascending c es; i < j; j < length es\<rbrakk> \<Longrightarrow> Compare c (fst (es ! i)) (fst (es ! j)) < 0"
  unfolding ascending_def by (rule sorted_wrt_nth_less)

lemma ascending_map: "(\<And>x. x \<in> set xs \<Longrightarrow> fst (f x) = fst x) \<Longrightarrow> ascending c (map f xs) = ascending c xs"
  by (induction xs) (auto simp: ascending_def)

context comparator
begin

lemma ascending_distinct:
  assumes "ascending c es" and "\<And>e. e \<in> set es \<Longrightarrow> valid (fst e)"
  shows "distinct es"
  using assms
proof (induction es)
  case (Cons e es)
  have "Compare c (fst e) (fst e) = 0" using Cons.prems(2) cmp_refl by simp
  then have "e \<notin> set es" using Cons.prems(1) by (fastforce simp: ascending_Cons)
  with Cons show ?case by (simp add: ascending_Cons)
qed simp

lemma entries_below_split:
  assumes "ascending c es" and "\<And>e. e \<in> set es \<Longrightarrow> valid (fst e)" and "valid t"
  shows "take (entries_below c t es) es = filter (\<lambda>e. Compare c (fst e) t < 0) es \<and>
    drop (entries_below c t es) es = filter (\<lambda>e. \<not> Compare c (fst e) t < 0) es"
  using assms(1,2)
proof (induction es)
  case (Cons e es)
  have IH: "take (entries_below c t es) es = filter (\<lambda>e. Compare c (fst e) t < 0) es \<and>
      drop (entries_below c t es) es = filter (\<lambda>e. \<not> Compare c (fst e) t < 0) es"
    using Cons by (simp add: ascending_Cons)
  show ?case
  proof (cases "Compare c (fst e) t < 0")
    case True
    then show ?thesis using IH by (simp add: entries_below_def)
  next
    case False
    have "\<not> Compare c (fst x) t < 0" if "x \<in> set es" for x
    proof
      assume "Compare c (fst x) t < 0"
      moreover have "Compare c (fst e) (fst x) < 0" using Cons.prems(1) that by (simp add: ascending_Cons)
      ultimately show False using False that Cons.prems(2) assms(3) cmp_less_trans [of "fst e" "fst x" t] by simp
    qed
    then have "filter (\<lambda>e. Compare c (fst e) t < 0) es = []" "filter (\<lambda>e. \<not> Compare c (fst e) t < 0) es = es"
      by (simp_all add: filter_empty_conv filter_id_conv)
    then show ?thesis using False by (simp add: entries_below_def)
  qed
qed (simp add: entries_below_def)

lemma entries_below_nth:
  assumes "ascending c es" and "\<And>e. e \<in> set es \<Longrightarrow> valid (fst e)" and "valid t" and "i < length es"
  shows "Compare c (fst (es ! i)) t < 0 \<longleftrightarrow> i < entries_below c t es"
proof (cases "i < entries_below c t es")
  case True
  then have "es ! i \<in> set (take (entries_below c t es) es)" using assms(4) by (auto simp: in_set_conv_nth)
  then show ?thesis using True entries_below_split [OF assms(1,2,3)] by simp
next
  case False
  then have "es ! i \<in> set (drop (entries_below c t es) es)" using assms(4)
    by (auto simp: in_set_conv_nth intro!: exI [of _ "i - entries_below c t es"])
  then show ?thesis using False entries_below_split [OF assms(1,2,3)] by simp
qed

lemma entries_below_own:
  assumes "ascending c es" and "\<And>e. e \<in> set es \<Longrightarrow> valid (fst e)" and "i < length es"
  shows "entries_below c (fst (es ! i)) es = i"
proof -
  let ?m = "entries_below c (fst (es ! i)) es"
  have v: "valid (fst (es ! i))" using assms(2,3) by simp
  have iff: "Compare c (fst (es ! j)) (fst (es ! i)) < 0 \<longleftrightarrow> j < ?m" if "j < length es" for j
    using entries_below_nth [OF assms(1,2) v that] .
  have "\<not> i < ?m" using iff [OF assms(3)] cmp_refl [OF v] by simp
  moreover have "\<not> ?m < i"
    using iff [of ?m] ascending_nth [OF assms(1), of ?m i] assms(3) by fastforce
  ultimately show ?thesis by simp
qed

end

context sorted_iterator
begin

lemma walk_next_pos: "\<lbrakk>pos s i; length es - i < n\<rbrakk> \<Longrightarrow> iter_walk_next it n s = Some (drop i es, OK)"
proof (induction n arbitrary: s i)
  case (Suc n)
  show ?case
  proof (cases "i < length es")
    case True
    obtain s' where s': "iter_Next it s = Some s'" "pos s' (Suc i)" using pos_Next [OF Suc.prems(1) True] by blast
    then have "iter_walk_next it n s' = Some (drop (Suc i) es, OK)" using Suc.IH Suc.prems(2) True by simp
    then show ?thesis
      using s'(1) pos_Valid [OF Suc.prems(1)] pos_key [OF Suc.prems(1) True] pos_value [OF Suc.prems(1) True] True
      by (simp flip: Cons_nth_drop_Suc)
  next
    case False
    then show ?thesis using pos_Valid [OF Suc.prems(1)] pos_status [OF Suc.prems(1)] by simp
  qed
qed simp

lemma walk_prev_pos:
  "\<lbrakk>pos s i; (if i < length es then Suc i else 0) < n\<rbrakk> \<Longrightarrow>
   iter_walk_prev it n s = Some (if i < length es then rev (take (Suc i) es) else [], OK)"
proof (induction n arbitrary: s i)
  case 0
  then show ?case by simp
next
  case (Suc n)
  show ?case
  proof (cases "i < length es")
    case True
    obtain s' where s': "iter_Prev it s = Some s'" "pos s' (prev_pos (length es) i)" using pos_Prev [OF Suc.prems(1) True] by blast
    have "iter_walk_prev it n s' = Some (rev (take i es), OK)"
    proof (cases i)
      case 0
      then show ?thesis using Suc.IH [OF s'(2)] Suc.prems(2) True by (auto simp: prev_pos_def split: if_splits)
    next
      case (Suc j)
      then show ?thesis using Suc.IH [OF s'(2)] Suc.prems(2) True by (auto simp: prev_pos_def split: if_splits)
    qed
    then show ?thesis
      using s'(1) pos_Valid [OF Suc.prems(1)] pos_key [OF Suc.prems(1) True] pos_value [OF Suc.prems(1) True] True
      by (simp add: take_Suc_conv_app_nth)
  next
    case False
    then show ?thesis using pos_Valid [OF Suc.prems(1)] pos_status [OF Suc.prems(1)] by simp
  qed
qed

lemma walk_all:
  assumes "pos s i"
  shows "Option.bind (iter_SeekToFirst it s) (iter_walk_next it (Suc (length es))) = Some (es, OK)"
    and "Option.bind (iter_SeekToLast it s) (iter_walk_prev it (Suc (length es))) = Some (rev es, OK)"
    and "valid t \<Longrightarrow> Option.bind (iter_Seek it t s) (iter_walk_next it (Suc (length es))) = Some (drop (entries_below c t es) es, OK)"
proof -
  show "Option.bind (iter_SeekToFirst it s) (iter_walk_next it (Suc (length es))) = Some (es, OK)"
    using pos_SeekToFirst [OF assms] walk_next_pos [of _ 0 "Suc (length es)"] by force
  show "Option.bind (iter_SeekToLast it s) (iter_walk_prev it (Suc (length es))) = Some (rev es, OK)"
  proof -
    obtain s' where s': "iter_SeekToLast it s = Some s'" "pos s' (prev_pos (length es) (length es))" using pos_SeekToLast [OF assms] by blast
    have "iter_walk_prev it (Suc (length es)) s' = Some (rev es, OK)"
      using walk_prev_pos [OF s'(2), of "Suc (length es)"] by (cases "es = []") (auto simp: prev_pos_def simp del: iter_walk_prev.simps)
    with s'(1) show ?thesis by simp
  qed
  show "Option.bind (iter_Seek it t s) (iter_walk_next it (Suc (length es))) = Some (drop (entries_below c t es) es, OK)" if "valid t"
    using pos_Seek [OF assms that] walk_next_pos [of _ "entries_below c t es" "Suc (length es)"] by force
qed

end

subsection \<open>Who gives the contract\<close>

context comparator
begin

lemma empty_sorted: "sorted_iterator c valid EmptyIterator [] (\<lambda>s i. s = OK \<and> i = 0)"
  by unfold_locales (auto simp: ascending_def EmptyIterator_def prev_pos_def entries_below_def)

end

interpretation empty_iterator: sorted_iterator BytewiseComparator "\<lambda>_. True" EmptyIterator "[]" "\<lambda>s i. s = OK \<and> i = 0"
  by (rule bytewise.empty_sorted)

text \<open>A wrapper at the position of its iterator, with what it has cached.\<close>

definition wrapper_pos :: "'s Iterator \<Rightarrow> ('s \<Rightarrow> nat \<Rightarrow> bool) \<Rightarrow> 's IteratorWrapper \<Rightarrow> nat \<Rightarrow> bool" where
  "wrapper_pos it pos w i \<longleftrightarrow> (\<exists>s. iw_iter w = Some s \<and> pos s i \<and> iw_valid w = iter_Valid it s \<and>
     (iw_valid w \<longrightarrow> iw_key w = iter_key it s))"

lemma wrapper_pos_Update: "pos s i \<Longrightarrow> wrapper_pos it pos (IW_Update it s w) i"
  by (simp add: wrapper_pos_def IW_Update_def Let_def)

lemma wrapper_pos_Set: "pos s i \<Longrightarrow> wrapper_pos it pos (IW_Set it (Some s) w) i"
  by (simp add: IW_Set_def wrapper_pos_Update)

lemma wrapper_pos_move:
  assumes "wrapper_pos it pos w i" and "\<And>s. pos s i \<Longrightarrow> \<exists>s'. op s = Some s' \<and> pos s' j"
  shows "\<exists>w'. IW_move it op w = Some w' \<and> wrapper_pos it pos w' j"
proof -
  obtain s where "iw_iter w = Some s" "pos s i" using assms(1) by (auto simp: wrapper_pos_def)
  moreover from this obtain s' where "op s = Some s'" "pos s' j" using assms(2) by blast
  ultimately show ?thesis by (auto simp: IW_move_def intro: wrapper_pos_Update)
qed

context sorted_iterator
begin

lemma wrapped_sorted: "sorted_iterator c valid (wrapped it) es (wrapper_pos it pos)"
proof (intro sorted_iterator.intro [OF comparator_axioms] sorted_iterator_axioms.intro)
  fix w i t
  assume w: "wrapper_pos it pos w i"
  then obtain s where s: "iw_iter w = Some s" "pos s i" "iw_valid w = iter_Valid it s" "iw_valid w \<longrightarrow> iw_key w = iter_key it s"
    by (auto simp: wrapper_pos_def)
  show "i \<le> length es" "iter_status (wrapped it) w = OK" "iter_Valid (wrapped it) w \<longleftrightarrow> i < length es"
    using s pos_le pos_status pos_Valid by (auto simp: wrapped_def IW_status_def)
  show "\<exists>w'. iter_SeekToFirst (wrapped it) w = Some w' \<and> wrapper_pos it pos w' 0"
    using wrapper_pos_move [of it pos w i, OF w pos_SeekToFirst] by (simp add: wrapped_def IW_SeekToFirst_def)
  show "\<exists>w'. iter_SeekToLast (wrapped it) w = Some w' \<and> wrapper_pos it pos w' (prev_pos (length es) (length es))"
    using wrapper_pos_move [of it pos w i, OF w pos_SeekToLast] by (simp add: wrapped_def IW_SeekToLast_def)
  show "\<exists>w'. iter_Seek (wrapped it) t w = Some w' \<and> wrapper_pos it pos w' (entries_below c t es)" if "valid t"
    using wrapper_pos_move [of it pos w i, OF w pos_Seek [OF _ that]] by (simp add: wrapped_def IW_Seek_def)
  assume i: "i < length es"
  show "iter_key (wrapped it) w = fst (es ! i)" "iter_value (wrapped it) w = snd (es ! i)"
    using s i pos_key pos_value pos_Valid by (auto simp: wrapped_def IW_value_def)
  show "\<exists>w'. iter_Next (wrapped it) w = Some w' \<and> wrapper_pos it pos w' (Suc i)"
    using wrapper_pos_move [of it pos w i, OF w pos_Next [OF _ i]] by (simp add: wrapped_def IW_Next_def)
  show "\<exists>w'. iter_Prev (wrapped it) w = Some w' \<and> wrapper_pos it pos w' (prev_pos (length es) i)"
    using wrapper_pos_move [of it pos w i, OF w pos_Prev [OF _ i]] by (simp add: wrapped_def IW_Prev_def)
qed (simp_all add: es_ascending es_valid)

text \<open>The states of an iterator inside a larger type of states.\<close>

lemma embedded_sorted:
  assumes "\<And>x. iter_Valid it' (f x) = iter_Valid it x" "\<And>x. iter_key it' (f x) = iter_key it x" "\<And>x. iter_value it' (f x) = iter_value it x"
    "\<And>x. iter_status it' (f x) = iter_status it x"
    and "\<And>x. iter_SeekToFirst it' (f x) = map_option f (iter_SeekToFirst it x)"
    "\<And>x. iter_SeekToLast it' (f x) = map_option f (iter_SeekToLast it x)" "\<And>x t. iter_Seek it' t (f x) = map_option f (iter_Seek it t x)"
    "\<And>x. iter_Next it' (f x) = map_option f (iter_Next it x)" "\<And>x. iter_Prev it' (f x) = map_option f (iter_Prev it x)"
  shows "sorted_iterator c valid it' es (\<lambda>s i. \<exists>x. s = f x \<and> pos x i)"
proof (intro sorted_iterator.intro [OF comparator_axioms] sorted_iterator_axioms.intro)
  fix s i t
  assume "\<exists>x. s = f x \<and> pos x i"
  then obtain x where x: "s = f x" "pos x i" by blast
  show "i \<le> length es" "iter_status it' s = OK" "iter_Valid it' s \<longleftrightarrow> i < length es"
    using x pos_le pos_status pos_Valid assms(1,4) by auto
  show "\<exists>s'. iter_SeekToFirst it' s = Some s' \<and> (\<exists>x. s' = f x \<and> pos x 0)"
    using pos_SeekToFirst [OF x(2)] x(1) assms(5) by auto
  show "\<exists>s'. iter_SeekToLast it' s = Some s' \<and> (\<exists>x. s' = f x \<and> pos x (prev_pos (length es) (length es)))"
    using pos_SeekToLast [OF x(2)] x(1) assms(6) by auto
  show "\<exists>s'. iter_Seek it' t s = Some s' \<and> (\<exists>x. s' = f x \<and> pos x (entries_below c t es))" if "valid t"
    using pos_Seek [OF x(2) that] x(1) assms(7) by auto
  assume i: "i < length es"
  show "iter_key it' s = fst (es ! i)" "iter_value it' s = snd (es ! i)"
    using x i pos_key pos_value assms(2,3) by auto
  show "\<exists>s'. iter_Next it' s = Some s' \<and> (\<exists>x. s' = f x \<and> pos x (Suc i))"
    using pos_Next [OF x(2) i] x(1) assms(8) by auto
  show "\<exists>s'. iter_Prev it' s = Some s' \<and> (\<exists>x. s' = f x \<and> pos x (prev_pos (length es) i))"
    using pos_Prev [OF x(2) i] x(1) assms(9) by auto
qed (simp_all add: es_ascending es_valid)

lemma sum_sorted:
  "sorted_iterator c valid (Iterator_sum it b) es (\<lambda>s i. \<exists>x. s = Inl x \<and> pos x i)"
  "sorted_iterator c valid (Iterator_sum a it) es (\<lambda>s i. \<exists>x. s = Inr x \<and> pos x i)"
  by (rule embedded_sorted; simp add: Iterator_sum_def)+

end

lemma wrapped_simps [simp]:
  "iter_Valid (wrapped it) = iw_valid" "iter_key (wrapped it) = iw_key" "iter_value (wrapped it) = IW_value it"
  "iter_status (wrapped it) = IW_status it" "iter_SeekToFirst (wrapped it) = IW_SeekToFirst it"
  "iter_SeekToLast (wrapped it) = IW_SeekToLast it" "iter_Seek (wrapped it) = IW_Seek it"
  "iter_Next (wrapped it) = IW_Next it" "iter_Prev (wrapped it) = IW_Prev it"
  by (simp_all add: wrapped_def)

subsection \<open>Cleanup functions\<close>

lemma cleanup_order:
  fixes fs :: "'f list"
  shows "Iterator_delete run (fold RegisterCleanup fs Iterator_new) w = (case fs of [] \<Rightarrow> w | f # fs' \<Rightarrow> fold run (f # rev fs') w)"
proof -
  have "fold RegisterCleanup gs \<lparr>cl_head = Some f, cl_next = hs\<rparr> = \<lparr>cl_head = Some f, cl_next = rev gs @ hs\<rparr>" for gs hs and f :: 'f
    by (induction gs arbitrary: hs) (simp_all add: RegisterCleanup_def)
  then show ?thesis
    by (cases fs) (simp_all add: Iterator_delete_def Iterator_new_def RegisterCleanup_def)
qed

end
