(* ===== verification/BlockIterator.thy ===== *)
theory BlockIterator
  imports BlockSpec IterBase
begin

text \<open>
  The iterator of a block that was built from ascending pairs is a sorted iterator over them.
\<close>

definition BlockIter_class :: "BlockIter Iterator" where
  "BlockIter_class =
     \<lparr>iter_Valid = BlockIter_Valid, iter_SeekToFirst = Some \<circ> BlockIter_SeekToFirst, iter_SeekToLast = BlockIter_SeekToLast,
      iter_Seek = BlockIter_Seek, iter_Next = (\<lambda>s. if BlockIter_Valid s then Some (BlockIter_Next s) else None),
      iter_Prev = (\<lambda>s. if BlockIter_Valid s then BlockIter_Prev s else None),
      iter_key = bi_key, iter_value = BlockIter_value, iter_status = bi_status\<rparr>"

text \<open>The dynamic types \<open>Block::NewIterator\<close> returns.\<close>

definition AnyBlockIter_class :: "(Status + BlockIter) Iterator" where
  "AnyBlockIter_class = Iterator_sum EmptyIterator BlockIter_class"

definition build_block :: "nat \<Rightarrow> (bytes \<times> bytes) list \<Rightarrow> bytes" where
  "build_block interval kvs = fst (BlockBuilder_Finish (fold (\<lambda>(k, v). BlockBuilder_Add k v) kvs (BlockBuilder_new interval)))"

definition block_repr :: "nat \<Rightarrow> (bytes \<times> bytes) list \<Rightarrow> block_entry list \<Rightarrow> nat list \<Rightarrow> bool" where
  "block_repr interval kvs es rs \<longleftrightarrow>
     bb_inv (fold (\<lambda>(k, v). BlockBuilder_Add k v) kvs (BlockBuilder_new interval)) es rs \<and> map snd es = kvs"

definition block_pos :: "Comparator \<Rightarrow> nat \<Rightarrow> (bytes \<times> bytes) list \<Rightarrow> BlockIter \<Rightarrow> nat \<Rightarrow> bool" where
  "block_pos c interval kvs s i \<longleftrightarrow> (\<exists>es rs. block_repr interval kvs es rs \<and> it_pos c es rs i s)"

locale built_block = comparator c valid for c valid +
  fixes interval :: nat and kvs :: "(bytes \<times> bytes) list"
  assumes kvs_ascending: "ascending c kvs" and kvs_valid: "kv \<in> set kvs \<Longrightarrow> valid (fst kv)"
    and interval_pos: "1 \<le> interval" and block_small: "length (build_block interval kvs) < 2 ^ 32"
begin

lemma repr_layout: "block_repr interval kvs es rs \<Longrightarrow> layout_ok es rs \<and> build_block interval kvs = block_image es rs"
proof -
  assume r: "block_repr interval kvs es rs"
  then have "build_block interval kvs = block_image es rs" using Finish_image by (simp add: block_repr_def build_block_def)
  with r block_small show ?thesis by (simp add: block_repr_def layout_ok_def bb_inv_def)
qed

lemma repr_ex: "\<exists>es rs. block_repr interval kvs es rs"
  using bb_inv_build [OF bb_inv_new [OF interval_pos], of kvs] by (auto simp: block_repr_def)

lemma repr_below:
  assumes "block_repr interval kvs es rs" and "valid t"
  shows "below_count c es t (entries_below c t kvs)" and "sorted_wrt (\<lambda>a b. Compare c (e_key a) (e_key b) < 0) es"
    and "\<forall>e \<in> set es. valid (e_key e)"
proof -
  have kvs: "map snd es = kvs" using assms(1) by (simp add: block_repr_def)
  show srt: "sorted_wrt (\<lambda>a b. Compare c (e_key a) (e_key b) < 0) es"
    using kvs_ascending unfolding kvs [symmetric] by (simp add: ascending_def sorted_wrt_map)
  show vl: "\<forall>e \<in> set es. valid (e_key e)" using kvs_valid unfolding kvs [symmetric] by auto
  have "entries_below c t kvs = length (filter (\<lambda>e. Compare c (e_key e) t < 0) es)"
    unfolding kvs [symmetric] entries_below_def by (simp add: filter_map o_def)
  then show "below_count c es t (entries_below c t kvs)" using below_count_ex [OF srt vl assms(2)] by simp
qed

lemma NewIterator_pos:
  "\<exists>s. Block_NewIterator c (Block_new (build_block interval kvs)) = Inr s \<and> block_pos c interval kvs s (length kvs)"
proof -
  obtain es rs where r: "block_repr interval kvs es rs" using repr_ex by blast
  note lay = repr_layout [OF r]
  have "length es = length kvs" using r by (auto simp: block_repr_def)
  then have "it_pos c es rs (length kvs) (BlockIter_new c (build_block interval kvs) (block_off es (length es)) (length rs))"
    using lay by (simp add: it_pos_def it_end_def it_base_def BlockIter_new_def)
  then show ?thesis
    using NewIterator_image [of es rs c] lay r by (auto simp: layout_ok_def block_pos_def)
qed

end

sublocale built_block \<subseteq> block_iter: sorted_iterator c valid BlockIter_class kvs "block_pos c interval kvs"
proof (intro sorted_iterator.intro [OF comparator_axioms] sorted_iterator_axioms.intro)
  fix s i t
  assume "block_pos c interval kvs s i"
  then obtain es rs where r: "block_repr interval kvs es rs" and p: "it_pos c es rs i s" by (auto simp: block_pos_def)
  have lay: "layout_ok es rs" and kvs: "kvs = map snd es" and n: "length es = length kvs"
    using repr_layout [OF r] r by (auto simp: block_repr_def)
  have pos: "it_pos c es rs j s' \<Longrightarrow> block_pos c interval kvs s' j" for s' j using r by (auto simp: block_pos_def)
  have base: "it_base c es rs s" using p by (auto simp: it_pos_def it_at_def it_end_def split: if_splits)
  have valid_iff: "BlockIter_Valid s \<longleftrightarrow> i < length es"
  proof (cases "i < length es")
    case True
    then show ?thesis using p at_value(3) [OF lay, of c i s] by (simp add: it_pos_def)
  next
    case False
    then show ?thesis using p end_invalid [of c es rs s] by (simp add: it_pos_def)
  qed
  have status: "bi_status s = OK" using base by (simp add: it_base_def)
  show "i \<le> length kvs" "iter_status BlockIter_class s = OK" "iter_Valid BlockIter_class s \<longleftrightarrow> i < length kvs"
    using p n valid_iff status by (simp_all add: it_pos_def BlockIter_class_def split: if_splits)
  show "\<exists>s'. iter_SeekToFirst BlockIter_class s = Some s' \<and> block_pos c interval kvs s' 0"
    using SeekToFirst_pos [OF lay base] pos by (simp add: BlockIter_class_def)
  show "\<exists>s'. iter_SeekToLast BlockIter_class s = Some s' \<and> block_pos c interval kvs s' (prev_pos (length kvs) (length kvs))"
  proof -
    obtain s' where s': "BlockIter_SeekToLast s = Some s'" "if es = [] then it_end c es rs s' else it_at c es rs (length es - 1) s'"
      using SeekToLast_pos [OF lay base] by blast
    then have "it_pos c es rs (prev_pos (length kvs) (length kvs)) s'" using n by (auto simp: it_pos_def prev_pos_def split: if_splits)
    with s'(1) pos show ?thesis by (auto simp: BlockIter_class_def)
  qed
  show "\<exists>s'. iter_Seek BlockIter_class t s = Some s' \<and> block_pos c interval kvs s' (entries_below c t kvs)" if "valid t"
  proof -
    have "BlockIter_Valid s \<longrightarrow> (\<exists>i. it_at c es rs i s)" using p valid_iff by (auto simp: it_pos_def)
    from Seek_pos [OF lay repr_below [OF r that] that base this] pos show ?thesis by (auto simp: BlockIter_class_def)
  qed
  assume i: "i < length kvs"
  then have at: "it_at c es rs i s" using p n by (simp add: it_pos_def)
  show "iter_key BlockIter_class s = fst (kvs ! i)" "iter_value BlockIter_class s = snd (kvs ! i)"
    using at_value [OF lay at] i unfolding kvs by (simp_all add: BlockIter_class_def)
  show "\<exists>s'. iter_Next BlockIter_class s = Some s' \<and> block_pos c interval kvs s' (Suc i)"
    using Next_pos [OF lay at] pos valid_iff i n by (simp add: BlockIter_class_def)
  show "\<exists>s'. iter_Prev BlockIter_class s = Some s' \<and> block_pos c interval kvs s' (prev_pos (length kvs) i)"
  proof -
    obtain s' where s': "BlockIter_Prev s = Some s'" "if i = 0 then it_end c es rs s' else it_at c es rs (i - 1) s'"
      using Prev_pos [OF lay at] by blast
    then have "it_pos c es rs (prev_pos (length kvs) i) s'" using n i by (auto simp: it_pos_def prev_pos_def split: if_splits)
    with s'(1) pos valid_iff i n show ?thesis by (auto simp: BlockIter_class_def)
  qed
qed (simp_all add: kvs_ascending kvs_valid)

context built_block
begin

lemma block_sorted: "sorted_iterator c valid BlockIter_class kvs (block_pos c interval kvs)"
  by unfold_locales

end

interpretation pair_block: built_block BytewiseComparator "\<lambda>_. True" 16 "[([x], [y])]" for x y
  by unfold_locales (simp_all add: ascending_def build_block_def BlockBuilder_Finish_def BlockBuilder_Add_def BlockBuilder_new_def
      Let_def PutFixed32_def PutVarint32_def EncodeVarint32_def EncodeFixed32_def)

end
