(* ===== verification/Merger.thy ===== *)
theory Merger
  imports BlockIterator
begin

text \<open>
  \<open>table/merger.cc\<close>: the iterator over the union of several sorted iterators. The children are of one dynamic type; children of
  several types are united by \<open>Iterator_sum\<close>. The pointer to the current child is its index.
\<close>

subsection \<open>The iterator\<close>

datatype Direction = kForward | kReverse

record 's MergingIterator =
  mi_comparator :: Comparator
  mi_children :: "'s IteratorWrapper list"
  mi_current :: "nat option"
  mi_direction :: Direction

definition MergingIterator_new :: "'s Iterator \<Rightarrow> Comparator \<Rightarrow> 's list \<Rightarrow> 's MergingIterator" where
  "MergingIterator_new it cmp children =
     \<lparr>mi_comparator = cmp, mi_children = map (\<lambda>s. IW_Set it (Some s) IteratorWrapper_new) children,
      mi_current = None, mi_direction = kForward\<rparr>"

text \<open>One turn of the loops of \<open>FindSmallest\<close> and \<open>FindLargest\<close>.\<close>

definition pick_child :: "(bytes \<Rightarrow> bytes \<Rightarrow> bool) \<Rightarrow> 's IteratorWrapper list \<Rightarrow> nat \<Rightarrow> nat option \<Rightarrow> nat option" where
  "pick_child better children i best =
     (if iw_valid (children ! i) then
        (case best of
           None \<Rightarrow> Some i
         | Some j \<Rightarrow> if better (iw_key (children ! i)) (iw_key (children ! j)) then Some i else best)
      else best)"

definition FindSmallest :: "'s MergingIterator \<Rightarrow> 's MergingIterator" where
  "FindSmallest m =
     m\<lparr>mi_current := fold (pick_child (\<lambda>a b. Compare (mi_comparator m) a b < 0) (mi_children m)) [0..<length (mi_children m)] None\<rparr>"

definition FindLargest :: "'s MergingIterator \<Rightarrow> 's MergingIterator" where
  "FindLargest m =
     m\<lparr>mi_current := fold (pick_child (\<lambda>a b. Compare (mi_comparator m) a b > 0) (mi_children m)) (rev [0..<length (mi_children m)]) None\<rparr>"

text \<open>A loop over the children, by index from \<open>i\<close>.\<close>

fun for_children :: "(nat \<Rightarrow> 'a \<Rightarrow> 'a option) \<Rightarrow> nat \<Rightarrow> 'a list \<Rightarrow> 'a list option" where
  "for_children f i [] = Some []"
| "for_children f i (x # xs) = Option.bind (f i x) (\<lambda>x'. map_option ((#) x') (for_children f (Suc i) xs))"

definition Merging_SeekToFirst :: "'s Iterator \<Rightarrow> 's MergingIterator \<Rightarrow> 's MergingIterator option" where
  "Merging_SeekToFirst it m =
     map_option (\<lambda>cs. (FindSmallest (m\<lparr>mi_children := cs\<rparr>))\<lparr>mi_direction := kForward\<rparr>)
       (for_children (\<lambda>_. IW_SeekToFirst it) 0 (mi_children m))"

definition Merging_SeekToLast :: "'s Iterator \<Rightarrow> 's MergingIterator \<Rightarrow> 's MergingIterator option" where
  "Merging_SeekToLast it m =
     map_option (\<lambda>cs. (FindLargest (m\<lparr>mi_children := cs\<rparr>))\<lparr>mi_direction := kReverse\<rparr>)
       (for_children (\<lambda>_. IW_SeekToLast it) 0 (mi_children m))"

definition Merging_Seek :: "'s Iterator \<Rightarrow> bytes \<Rightarrow> 's MergingIterator \<Rightarrow> 's MergingIterator option" where
  "Merging_Seek it target m =
     map_option (\<lambda>cs. (FindSmallest (m\<lparr>mi_children := cs\<rparr>))\<lparr>mi_direction := kForward\<rparr>)
       (for_children (\<lambda>_. IW_Seek it target) 0 (mi_children m))"

definition Merging_key :: "'s MergingIterator \<Rightarrow> bytes" where
  "Merging_key m = iw_key (mi_children m ! the (mi_current m))"

definition Merging_value :: "'s Iterator \<Rightarrow> 's MergingIterator \<Rightarrow> bytes" where
  "Merging_value it m = IW_value it (mi_children m ! the (mi_current m))"

definition position_after :: "'s Iterator \<Rightarrow> Comparator \<Rightarrow> nat \<Rightarrow> bytes \<Rightarrow> nat \<Rightarrow> 's IteratorWrapper \<Rightarrow> 's IteratorWrapper option" where
  "position_after it cmp cur key i child =
     (if i \<noteq> cur then
        Option.bind (IW_Seek it key child) (\<lambda>child.
          if iw_valid child \<and> Compare cmp key (iw_key child) = 0 then IW_Next it child else Some child)
      else Some child)"

definition Merging_Next :: "'s Iterator \<Rightarrow> 's MergingIterator \<Rightarrow> 's MergingIterator option" where
  "Merging_Next it m =
     (case mi_current m of
        None \<Rightarrow> None
      | Some cur \<Rightarrow>
          Option.bind
            (if mi_direction m \<noteq> kForward
             then map_option (\<lambda>cs. m\<lparr>mi_children := cs, mi_direction := kForward\<rparr>)
                    (for_children (position_after it (mi_comparator m) cur (Merging_key m)) 0 (mi_children m))
             else Some m)
            (\<lambda>m. map_option (\<lambda>w. FindSmallest (m\<lparr>mi_children := (mi_children m)[cur := w]\<rparr>)) (IW_Next it (mi_children m ! cur))))"

definition position_before :: "'s Iterator \<Rightarrow> nat \<Rightarrow> bytes \<Rightarrow> nat \<Rightarrow> 's IteratorWrapper \<Rightarrow> 's IteratorWrapper option" where
  "position_before it cur key i child =
     (if i \<noteq> cur then
        Option.bind (IW_Seek it key child) (\<lambda>child.
          if iw_valid child then IW_Prev it child else IW_SeekToLast it child)
      else Some child)"

definition Merging_Prev :: "'s Iterator \<Rightarrow> 's MergingIterator \<Rightarrow> 's MergingIterator option" where
  "Merging_Prev it m =
     (case mi_current m of
        None \<Rightarrow> None
      | Some cur \<Rightarrow>
          Option.bind
            (if mi_direction m \<noteq> kReverse
             then map_option (\<lambda>cs. m\<lparr>mi_children := cs, mi_direction := kReverse\<rparr>)
                    (for_children (position_before it cur (Merging_key m)) 0 (mi_children m))
             else Some m)
            (\<lambda>m. map_option (\<lambda>w. FindLargest (m\<lparr>mi_children := (mi_children m)[cur := w]\<rparr>)) (IW_Prev it (mi_children m ! cur))))"

fun status_loop :: "('a \<Rightarrow> Status) \<Rightarrow> 'a list \<Rightarrow> Status \<Rightarrow> Status" where
  "status_loop st [] s = s"
| "status_loop st (w # ws) s = (let s = st w in if s \<noteq> OK then s else status_loop st ws s)"

definition Merging_status :: "'s Iterator \<Rightarrow> 's MergingIterator \<Rightarrow> Status" where
  "Merging_status it m = status_loop (IW_status it) (mi_children m) OK"

definition MergingIterator_class :: "'s Iterator \<Rightarrow> 's MergingIterator Iterator" where
  "MergingIterator_class it =
     \<lparr>iter_Valid = (\<lambda>m. mi_current m \<noteq> None), iter_SeekToFirst = Merging_SeekToFirst it, iter_SeekToLast = Merging_SeekToLast it,
      iter_Seek = Merging_Seek it, iter_Next = Merging_Next it, iter_Prev = Merging_Prev it,
      iter_key = Merging_key, iter_value = Merging_value it, iter_status = Merging_status it\<rparr>"

text \<open>The iterators \<open>NewMergingIterator\<close> makes: over nothing, the only child itself, or a merging iterator.\<close>

type_synonym 's Merged = "Status + 's + 's MergingIterator"

definition Merged_class :: "'s Iterator \<Rightarrow> 's Merged Iterator" where
  "Merged_class it = Iterator_sum EmptyIterator (Iterator_sum it (MergingIterator_class it))"

definition NewMergingIterator :: "'s Iterator \<Rightarrow> Comparator \<Rightarrow> 's list \<Rightarrow> 's Merged" where
  "NewMergingIterator it cmp children =
     (if length children = 0 then Inl NewEmptyIterator
      else if length children = 1 then Inr (Inl (children ! 0))
      else Inr (Inr (MergingIterator_new it cmp children)))"

subsection \<open>Entries and their owners\<close>

text \<open>The union of the children as a list of entries, each with the index of the child it comes from.\<close>

type_synonym owned = "nat \<times> bytes \<times> bytes"

definition owned_by :: "nat \<Rightarrow> owned list \<Rightarrow> (bytes \<times> bytes) list" where
  "owned_by k tes = map snd (filter (\<lambda>x. fst x = k) tes)"

definition owned_pos :: "owned list \<Rightarrow> nat \<Rightarrow> nat \<Rightarrow> nat" where
  "owned_pos tes i k = length (owned_by k (take i tes))"

definition children_ok ::
  "Comparator \<Rightarrow> (bytes \<Rightarrow> bool) \<Rightarrow> 's Iterator \<Rightarrow> nat \<Rightarrow> owned list \<Rightarrow> (nat \<Rightarrow> 's IteratorWrapper \<Rightarrow> nat \<Rightarrow> bool) \<Rightarrow> bool" where
  "children_ok c valid it n tes cpos \<longleftrightarrow>
     (\<forall>x \<in> set tes. fst x < n \<and> valid (fst (snd x))) \<and> ascending c (map snd tes) \<and>
     (\<forall>k < n. sorted_iterator c valid (wrapped it) (owned_by k tes) (cpos k))"

definition merge_pos ::
  "Comparator \<Rightarrow> nat \<Rightarrow> owned list \<Rightarrow> (nat \<Rightarrow> 's IteratorWrapper \<Rightarrow> nat \<Rightarrow> bool) \<Rightarrow> 's MergingIterator \<Rightarrow> nat \<Rightarrow> bool" where
  "merge_pos c n tes cpos m i \<longleftrightarrow> mi_comparator m = c \<and> length (mi_children m) = n \<and>
     (if i < length tes then
        mi_current m = Some (fst (tes ! i)) \<and>
        (\<forall>k < n. cpos k (mi_children m ! k)
           (if mi_direction m = kForward then owned_pos tes i k else prev_pos (length (owned_by k tes)) (owned_pos tes (Suc i) k)))
      else i = length tes \<and> mi_current m = None \<and> (\<forall>k < n. \<exists>j. cpos k (mi_children m ! k) j))"

lemma owned_by_append: "owned_by k (xs @ ys) = owned_by k xs @ owned_by k ys"
  by (simp add: owned_by_def)

lemma owned_by_split: "owned_by k tes = owned_by k (take i tes) @ owned_by k (drop i tes)"
  by (simp flip: owned_by_append)

lemma owned_by_nth_drop:
  "owned_pos tes i k < length (owned_by k tes) \<longleftrightarrow> owned_by k (drop i tes) \<noteq> []"
  "owned_by k (drop i tes) = x # xs \<Longrightarrow> owned_by k tes ! owned_pos tes i k = x"
  using owned_by_split [of k tes i] by (auto simp: owned_pos_def nth_append)

lemma owned_by_nth_take:
  "owned_by k (take i tes) = xs @ [x] \<Longrightarrow> owned_by k tes ! (owned_pos tes i k - 1) = x"
  using owned_by_split [of k tes i] by (auto simp: owned_pos_def nth_append)

lemma owned_by_drop_Cons: "i < length tes \<Longrightarrow> owned_by (fst (tes ! i)) (drop i tes) = snd (tes ! i) # owned_by (fst (tes ! i)) (drop (Suc i) tes)"
  by (simp add: owned_by_def flip: Cons_nth_drop_Suc)

lemma owned_pos_Suc: "i < length tes \<Longrightarrow> owned_pos tes (Suc i) k = (if k = fst (tes ! i) then Suc (owned_pos tes i k) else owned_pos tes i k)"
  by (simp add: owned_pos_def owned_by_def take_Suc_conv_app_nth)

lemma owned_pos_le: "owned_pos tes i k \<le> length (owned_by k tes)"
  using owned_by_split [of k tes i] by (simp add: owned_pos_def)

lemma owned_pos_all: "length tes \<le> i \<Longrightarrow> owned_pos tes i k = length (owned_by k tes)"
  by (simp add: owned_pos_def)

lemma owned_pos_0: "owned_pos tes 0 k = 0"
  by (simp add: owned_pos_def owned_by_def)

lemma filter_owned: "filter P (owned_by k tes) = owned_by k (filter (\<lambda>x. P (snd x)) tes)"
  by (induction tes) (auto simp: owned_by_def)

subsection \<open>Loops over the children\<close>

lemma for_children_run:
  assumes "\<And>k. k < length xs \<Longrightarrow> \<exists>y. f (i + k) (xs ! k) = Some y \<and> P (i + k) y"
  shows "\<exists>ys. for_children f i xs = Some ys \<and> length ys = length xs \<and> (\<forall>k < length xs. P (i + k) (ys ! k))"
  using assms
proof (induction xs arbitrary: i)
  case (Cons x xs)
  obtain y where y: "f i x = Some y" "P i y" using Cons.prems [of 0] by auto
  obtain ys where ys: "for_children f (Suc i) xs = Some ys" "length ys = length xs" "\<forall>k < length xs. P (Suc i + k) (ys ! k)"
    using Cons.IH [of "Suc i"] Cons.prems [of "Suc _"] by fastforce
  have "\<forall>k < length (x # xs). P (i + k) ((y # ys) ! k)" using y(2) ys(3) by (auto simp: nth_Cons split: nat.splits)
  with y(1) ys(1,2) show ?case by simp
qed simp

text \<open>The best child is found whatever the order of the loop, when it is better than every other one.\<close>

lemma fold_pick_child:
  assumes "iw_valid (ws ! b)" and "\<not> better (iw_key (ws ! b)) (iw_key (ws ! b))"
    and "\<And>j. \<lbrakk>j \<in> S; j \<noteq> b; iw_valid (ws ! j)\<rbrakk> \<Longrightarrow> better (iw_key (ws ! b)) (iw_key (ws ! j)) \<and> \<not> better (iw_key (ws ! j)) (iw_key (ws ! b))"
    and "set is \<subseteq> S" and "case best of None \<Rightarrow> b \<in> set is | Some j \<Rightarrow> iw_valid (ws ! j) \<and> j \<in> S \<and> (j = b \<or> b \<in> set is)"
  shows "fold (pick_child better ws) is best = Some b"
  using assms(4,5)
proof (induction "is" arbitrary: best)
  case Nil
  then show ?case by (auto split: option.splits)
next
  case (Cons i "is")
  have "case pick_child better ws i best of None \<Rightarrow> b \<in> set is | Some j \<Rightarrow> iw_valid (ws ! j) \<and> j \<in> S \<and> (j = b \<or> b \<in> set is)"
    using Cons.prems assms(1,2) assms(3) [of i] assms(3) [of "the best"]
    by (cases best) (auto simp: pick_child_def)
  then show ?case using Cons by simp
qed

lemma fold_pick_none:
  "(\<And>j. j \<in> set is \<Longrightarrow> \<not> iw_valid (ws ! j)) \<Longrightarrow> fold (pick_child better ws) is None = None"
  by (induction "is") (simp_all add: pick_child_def)

lemma status_loop_OK: "(\<And>x. x \<in> set ws \<Longrightarrow> st x = OK) \<Longrightarrow> status_loop st ws OK = OK"
  by (induction ws) (simp_all add: Let_def)

subsection \<open>Merging sorted iterators\<close>

lemma children_child: "\<lbrakk>children_ok c valid it n tes cpos; k < n\<rbrakk> \<Longrightarrow> sorted_iterator c valid (wrapped it) (owned_by k tes) (cpos k)"
  by (simp add: children_ok_def)

lemma children_entries:
  assumes "children_ok c valid it n tes cpos"
  shows "ascending c (map snd tes)" and "\<And>e. e \<in> set (map snd tes) \<Longrightarrow> valid (fst e)"
  using assms by (auto simp: children_ok_def)

lemmas child_Valid = sorted_iterator.pos_Valid [OF children_child, simplified]
lemmas child_key = sorted_iterator.pos_key [OF children_child, simplified]
lemmas child_value = sorted_iterator.pos_value [OF children_child, simplified]
lemmas child_status = sorted_iterator.pos_status [OF children_child, simplified]
lemmas child_moves =
  sorted_iterator.pos_SeekToFirst [OF children_child, simplified] sorted_iterator.pos_SeekToLast [OF children_child, simplified]
  sorted_iterator.pos_Seek [OF children_child, simplified] sorted_iterator.pos_Next [OF children_child, simplified]
  sorted_iterator.pos_Prev [OF children_child, simplified]

lemma merge_pos_some: "\<lbrakk>merge_pos c n tes cpos m i; k < n\<rbrakk> \<Longrightarrow> \<exists>j. cpos k (mi_children m ! k) j"
  by (auto simp: merge_pos_def split: if_splits)

context comparator
begin

lemma owned_order:
  assumes "children_ok c valid it n tes cpos" and "i < length tes"
  shows "x \<in> set (owned_by k (drop (Suc i) tes)) \<Longrightarrow> Compare c (fst (snd (tes ! i))) (fst x) < 0"
    and "x \<in> set (owned_by k (take i tes)) \<Longrightarrow> Compare c (fst x) (fst (snd (tes ! i))) < 0"
proof -
  have "ascending c (map snd (take i tes) @ snd (tes ! i) # map snd (drop (Suc i) tes))"
    using assms by (simp add: children_ok_def flip: list.map(2) map_append id_take_nth_drop)
  then show "x \<in> set (owned_by k (drop (Suc i) tes)) \<Longrightarrow> Compare c (fst (snd (tes ! i))) (fst x) < 0"
    and "x \<in> set (owned_by k (take i tes)) \<Longrightarrow> Compare c (fst x) (fst (snd (tes ! i))) < 0"
    by (auto simp: ascending_append ascending_Cons owned_by_def)
qed

lemma owned_valid:
  assumes "children_ok c valid it n tes cpos" and "x \<in> set (owned_by k (drop i tes)) \<or> x \<in> set (owned_by k (take i tes))"
  shows "valid (fst x)"
  using assms by (auto simp: children_ok_def owned_by_def dest!: in_set_dropD in_set_takeD)

lemma FindSmallest_current:
  assumes ok: "children_ok c valid it n tes cpos" and m: "mi_comparator m = c" "length (mi_children m) = n"
    and at: "\<And>k. k < n \<Longrightarrow> cpos k (mi_children m ! k) (owned_pos tes i k)" and i: "i \<le> length tes"
  shows "mi_current (FindSmallest m) = (if i < length tes then Some (fst (tes ! i)) else None)"
proof (cases "i < length tes")
  case True
  let ?b = "fst (tes ! i)" and ?ws = "mi_children m"
  have b: "?b < n" "valid (fst (snd (tes ! i)))" using ok True by (auto simp: children_ok_def)
  have kb: "iw_valid (?ws ! ?b)" "iw_key (?ws ! ?b) = fst (snd (tes ! i))"
    using child_Valid [OF ok b(1) at [OF b(1)]] child_key [OF ok b(1) at [OF b(1)]] owned_by_nth_drop(1) [of tes i ?b] owned_by_nth_drop(2) [of ?b i tes]
      owned_by_drop_Cons [OF True] by auto
  have "fold (pick_child (\<lambda>a b. Compare c a b < 0) ?ws) [0..<n] None = Some ?b"
  proof (rule fold_pick_child [where S = "{0..<n}"])
    fix j assume j: "j \<in> {0..<n}" "j \<noteq> ?b" "iw_valid (?ws ! j)"
    then have "j < n" by simp
    note v = child_Valid [OF ok this at [OF this]] child_key [OF ok this at [OF this]]
    obtain x xs where x: "owned_by j (drop i tes) = x # xs" using v(1) j(3) owned_by_nth_drop(1) [of tes i j] by (cases "owned_by j (drop i tes)") auto
    have "owned_by j (drop i tes) = owned_by j (drop (Suc i) tes)" using True j(2) by (simp add: owned_by_def flip: Cons_nth_drop_Suc)
    then have "Compare c (fst (snd (tes ! i))) (fst x) < 0" using owned_order(1) [OF ok True, of x j] x by (metis list.set_intros(1))
    moreover have "iw_key (?ws ! j) = fst x" using v j(3) owned_by_nth_drop(2) [OF x] by simp
    moreover have "valid (fst x)" using owned_valid [OF ok, of x j i] x by simp
    ultimately show "Compare c (iw_key (?ws ! ?b)) (iw_key (?ws ! j)) < 0 \<and> \<not> Compare c (iw_key (?ws ! j)) (iw_key (?ws ! ?b)) < 0"
      using kb(2) cmp_neg_iff [OF b(2)] by simp
  qed (use b kb cmp_refl in auto)
  with True m show ?thesis by (simp add: FindSmallest_def)
next
  case False
  then have "\<not> iw_valid (mi_children m ! k)" if "k < n" for k
    using child_Valid [OF ok that at [OF that]] owned_by_nth_drop(1) [of tes i k] by (simp add: owned_by_def)
  with False m show ?thesis by (auto simp: FindSmallest_def intro!: fold_pick_none)
qed

lemma FindLargest_current:
  assumes ok: "children_ok c valid it n tes cpos" and m: "mi_comparator m = c" "length (mi_children m) = n"
    and at: "\<And>k. k < n \<Longrightarrow> cpos k (mi_children m ! k) (prev_pos (length (owned_by k tes)) (owned_pos tes i k))" and i: "i \<le> length tes"
  shows "mi_current (FindLargest m) = (if 0 < i then Some (fst (tes ! (i - 1))) else None)"
proof (cases i)
  case (Suc l)
  let ?b = "fst (tes ! l)" and ?ws = "mi_children m"
  have l: "l < length tes" using i Suc by simp
  have b: "?b < n" "valid (fst (snd (tes ! l)))" using ok l by (auto simp: children_ok_def)
  have valid_iff: "iw_valid (?ws ! k) \<longleftrightarrow> owned_pos tes i k \<noteq> 0" if "k < n" for k
    using child_Valid [OF ok that at [OF that]] owned_pos_le [of tes i k] by (auto simp: prev_pos_def)
  have key: "iw_key (?ws ! k) = fst (owned_by k tes ! (owned_pos tes i k - 1))" if "k < n" "owned_pos tes i k \<noteq> 0" for k
    using child_key [OF ok that(1) at [OF that(1)]] owned_pos_le [of tes i k] that(2) by (auto simp: prev_pos_def)
  have tk: "owned_by ?b (take i tes) = owned_by ?b (take l tes) @ [snd (tes ! l)]"
    using l Suc by (simp add: take_Suc_conv_app_nth owned_by_def)
  have kb: "iw_valid (?ws ! ?b)" "iw_key (?ws ! ?b) = fst (snd (tes ! l))"
    using valid_iff [OF b(1)] key [OF b(1)] owned_by_nth_take [OF tk] tk by (auto simp: owned_pos_def)
  have "fold (pick_child (\<lambda>a b. Compare c a b > 0) ?ws) (rev [0..<n]) None = Some ?b"
  proof (rule fold_pick_child [where S = "{0..<n}"])
    fix j assume j: "j \<in> {0..<n}" "j \<noteq> ?b" "iw_valid (?ws ! j)"
    then have jn: "j < n" "owned_pos tes i j \<noteq> 0" using valid_iff by auto
    then obtain xs x where x: "owned_by j (take i tes) = xs @ [x]" by (cases "owned_by j (take i tes)" rule: rev_cases) (auto simp: owned_pos_def)
    have "owned_by j (take i tes) = owned_by j (take l tes)" using l j(2) Suc by (simp add: take_Suc_conv_app_nth owned_by_def)
    then have "Compare c (fst x) (fst (snd (tes ! l))) < 0" using owned_order(2) [OF ok l, of x j] x by (metis in_set_conv_decomp)
    moreover have "iw_key (?ws ! j) = fst x" using key [OF jn] owned_by_nth_take [OF x] by simp
    moreover have "valid (fst x)" using owned_valid [OF ok, of x j i] x by simp
    ultimately show "Compare c (iw_key (?ws ! ?b)) (iw_key (?ws ! j)) > 0 \<and> \<not> Compare c (iw_key (?ws ! j)) (iw_key (?ws ! ?b)) > 0"
      using kb(2) cmp_neg_iff [OF _ b(2), of "fst x"] by auto
  qed (use b kb cmp_refl in auto)
  with Suc m show ?thesis by (simp add: FindLargest_def)
next
  case 0
  then have "\<not> iw_valid (mi_children m ! k)" if "k < n" for k
    using child_Valid [OF ok that at [OF that]] by (simp add: owned_pos_0 prev_pos_def)
  with 0 m show ?thesis by (auto simp: FindLargest_def intro!: fold_pick_none)
qed

lemma entries_below_owned:
  assumes ok: "children_ok c valid it n tes cpos" and t: "valid t"
  shows "entries_below c t (owned_by k tes) = owned_pos tes (entries_below c t (map snd tes)) k"
proof -
  let ?m = "entries_below c t (map snd tes)"
  have "Compare c (fst (snd (tes ! i))) t < 0 \<longleftrightarrow> i < ?m" if "i < length tes" for i
    using entries_below_nth [OF children_entries [OF ok] t, of i] that by simp
  then have "filter (\<lambda>x. Compare c (fst (snd x)) t < 0) tes = take ?m tes"
    using entries_below_le [of c t "map snd tes"] by (intro filter_take_iff) auto
  then show ?thesis by (simp add: entries_below_def filter_owned owned_pos_def)
qed

lemma Merging_SeekToFirst_pos:
  assumes ok: "children_ok c valid it n tes cpos" and m: "merge_pos c n tes cpos m i"
  shows "\<exists>m'. Merging_SeekToFirst it m = Some m' \<and> merge_pos c n tes cpos m' 0"
proof -
  have n: "length (mi_children m) = n" "mi_comparator m = c" using m by (auto simp: merge_pos_def)
  have "\<exists>y. IW_SeekToFirst it (mi_children m ! k) = Some y \<and> cpos k y 0" if "k < n" for k
    using merge_pos_some [OF m that] child_moves(1) [OF ok that] by blast
  then obtain cs where cs: "for_children (\<lambda>_. IW_SeekToFirst it) 0 (mi_children m) = Some cs" "length cs = n" "\<forall>k < n. cpos k (cs ! k) 0"
    using for_children_run [of "mi_children m" "\<lambda>_. IW_SeekToFirst it" 0 "\<lambda>k y. cpos k y 0"] n by auto
  then have "mi_current (FindSmallest (m\<lparr>mi_children := cs\<rparr>)) = (if 0 < length tes then Some (fst (tes ! 0)) else None)"
    using n by (intro FindSmallest_current [OF ok]) (auto simp: owned_pos_0)
  with cs n show ?thesis by (auto simp: Merging_SeekToFirst_def merge_pos_def owned_pos_0 FindSmallest_def)
qed

lemma Merging_SeekToLast_pos:
  assumes ok: "children_ok c valid it n tes cpos" and m: "merge_pos c n tes cpos m i"
  shows "\<exists>m'. Merging_SeekToLast it m = Some m' \<and> merge_pos c n tes cpos m' (prev_pos (length tes) (length tes))"
proof -
  let ?p = "\<lambda>k. prev_pos (length (owned_by k tes)) (length (owned_by k tes))"
  have n: "length (mi_children m) = n" "mi_comparator m = c" using m by (auto simp: merge_pos_def)
  have "\<exists>y. IW_SeekToLast it (mi_children m ! k) = Some y \<and> cpos k y (?p k)" if "k < n" for k
    using merge_pos_some [OF m that] child_moves(2) [OF ok that] by blast
  then obtain cs where cs: "for_children (\<lambda>_. IW_SeekToLast it) 0 (mi_children m) = Some cs" "length cs = n" "\<forall>k < n. cpos k (cs ! k) (?p k)"
    using for_children_run [of "mi_children m" "\<lambda>_. IW_SeekToLast it" 0 "\<lambda>k y. cpos k y (?p k)"] n by auto
  then have "mi_current (FindLargest (m\<lparr>mi_children := cs\<rparr>)) = (if 0 < length tes then Some (fst (tes ! (length tes - 1))) else None)"
    using n by (intro FindLargest_current [OF ok]) (auto simp: owned_pos_all)
  with cs n show ?thesis by (auto simp: Merging_SeekToLast_def merge_pos_def prev_pos_def owned_pos_all FindLargest_def)
qed

lemma Merging_Seek_pos:
  assumes ok: "children_ok c valid it n tes cpos" and m: "merge_pos c n tes cpos m i" and t: "valid t"
  shows "\<exists>m'. Merging_Seek it t m = Some m' \<and> merge_pos c n tes cpos m' (entries_below c t (map snd tes))"
proof -
  let ?j = "entries_below c t (map snd tes)"
  have j: "?j \<le> length tes" using entries_below_le [of c t "map snd tes"] by simp
  have n: "length (mi_children m) = n" "mi_comparator m = c" using m by (auto simp: merge_pos_def)
  have "\<exists>y. IW_Seek it t (mi_children m ! k) = Some y \<and> cpos k y (owned_pos tes ?j k)" if "k < n" for k
    using merge_pos_some [OF m that] child_moves(3) [OF ok that _ t] by (auto simp: entries_below_owned [OF ok t])
  then obtain cs where cs: "for_children (\<lambda>_. IW_Seek it t) 0 (mi_children m) = Some cs" "length cs = n" "\<forall>k < n. cpos k (cs ! k) (owned_pos tes ?j k)"
    using for_children_run [of "mi_children m" "\<lambda>_. IW_Seek it t" 0 "\<lambda>k y. cpos k y (owned_pos tes ?j k)"] n by auto
  then have "mi_current (FindSmallest (m\<lparr>mi_children := cs\<rparr>)) = (if ?j < length tes then Some (fst (tes ! ?j)) else None)"
    using n j by (intro FindSmallest_current [OF ok]) auto
  with cs n j show ?thesis by (auto simp: Merging_Seek_def merge_pos_def FindSmallest_def)
qed

text \<open>A step forward when every child is at its first entry from the current one on, and a step back when every child is at its last
  entry up to the current one.\<close>

lemma step_forward:
  assumes ok: "children_ok c valid it n tes cpos" and i: "i < length tes"
    and n: "mi_comparator m = c" "length (mi_children m) = n" "mi_direction m = kForward"
    and at: "\<And>k. k < n \<Longrightarrow> cpos k (mi_children m ! k) (owned_pos tes i k)"
  shows "\<exists>w. IW_Next it (mi_children m ! fst (tes ! i)) = Some w \<and>
    merge_pos c n tes cpos (FindSmallest (m\<lparr>mi_children := (mi_children m)[fst (tes ! i) := w]\<rparr>)) (Suc i)"
proof -
  let ?b = "fst (tes ! i)"
  have b: "?b < n" using ok i by (auto simp: children_ok_def)
  have "owned_pos tes i ?b < length (owned_by ?b tes)" using owned_by_nth_drop(1) owned_by_drop_Cons [OF i] by simp
  then obtain w where w: "IW_Next it (mi_children m ! ?b) = Some w" "cpos ?b w (Suc (owned_pos tes i ?b))"
    using child_moves(4) [OF ok b at [OF b]] by blast
  let ?m = "m\<lparr>mi_children := (mi_children m)[?b := w]\<rparr>"
  have at': "cpos k (mi_children ?m ! k) (owned_pos tes (Suc i) k)" if "k < n" for k
    using at [OF that] w(2) n(2) that i by (auto simp: owned_pos_Suc nth_list_update)
  then have "mi_current (FindSmallest ?m) = (if Suc i < length tes then Some (fst (tes ! Suc i)) else None)"
    using n i by (intro FindSmallest_current [OF ok]) auto
  then have "merge_pos c n tes cpos (FindSmallest ?m) (Suc i)"
    using at' n i by (auto simp: merge_pos_def FindSmallest_def)
  with w(1) show ?thesis by blast
qed

lemma step_back:
  assumes ok: "children_ok c valid it n tes cpos" and i: "i < length tes"
    and n: "mi_comparator m = c" "length (mi_children m) = n" "mi_direction m = kReverse"
    and at: "\<And>k. k < n \<Longrightarrow> cpos k (mi_children m ! k) (prev_pos (length (owned_by k tes)) (owned_pos tes (Suc i) k))"
  shows "\<exists>w. IW_Prev it (mi_children m ! fst (tes ! i)) = Some w \<and>
    merge_pos c n tes cpos (FindLargest (m\<lparr>mi_children := (mi_children m)[fst (tes ! i) := w]\<rparr>)) (prev_pos (length tes) i)"
proof -
  let ?b = "fst (tes ! i)"
  have b: "?b < n" using ok i by (auto simp: children_ok_def)
  have "prev_pos (length (owned_by ?b tes)) (owned_pos tes (Suc i) ?b) = owned_pos tes i ?b" using i by (simp add: owned_pos_Suc prev_pos_def)
  moreover have "owned_pos tes i ?b < length (owned_by ?b tes)" using owned_by_nth_drop(1) owned_by_drop_Cons [OF i] by simp
  ultimately obtain w where w: "IW_Prev it (mi_children m ! ?b) = Some w" "cpos ?b w (prev_pos (length (owned_by ?b tes)) (owned_pos tes i ?b))"
    using child_moves(5) [OF ok b at [OF b]] by auto
  let ?m = "m\<lparr>mi_children := (mi_children m)[?b := w]\<rparr>"
  have at': "cpos k (mi_children ?m ! k) (prev_pos (length (owned_by k tes)) (owned_pos tes i k))" if "k < n" for k
    using at [OF that] w(2) n(2) that i by (cases "k = ?b") (auto simp: owned_pos_Suc)
  then have "mi_current (FindLargest ?m) = (if 0 < i then Some (fst (tes ! (i - 1))) else None)"
    using n i by (intro FindLargest_current [OF ok]) auto
  then have "merge_pos c n tes cpos (FindLargest ?m) (prev_pos (length tes) i)"
    using at' n i by (cases i) (auto simp: merge_pos_def FindLargest_def prev_pos_def [of "length tes"])
  with w(1) show ?thesis by blast
qed

lemma Merging_Next_pos:
  assumes ok: "children_ok c valid it n tes cpos" and m: "merge_pos c n tes cpos m i" and i: "i < length tes"
  shows "\<exists>m'. Merging_Next it m = Some m' \<and> merge_pos c n tes cpos m' (Suc i)"
proof -
  let ?b = "fst (tes ! i)" and ?key = "fst (snd (tes ! i))"
  have n: "length (mi_children m) = n" "mi_comparator m = c" and cur: "mi_current m = Some ?b" using m i by (auto simp: merge_pos_def)
  have b: "?b < n" "valid ?key" using ok i by (auto simp: children_ok_def)
  show ?thesis
  proof (cases "mi_direction m = kForward")
    case True
    then have "cpos k (mi_children m ! k) (owned_pos tes i k)" if "k < n" for k using m i that by (simp add: merge_pos_def)
    from step_forward [OF ok i n(2,1) True this] cur True show ?thesis by (auto simp: Merging_Next_def)
  next
    case False
    then have at: "cpos k (mi_children m ! k) (prev_pos (length (owned_by k tes)) (owned_pos tes (Suc i) k))" if "k < n" for k
      using m i that by (simp add: merge_pos_def)
    have at_b: "cpos ?b (mi_children m ! ?b) (owned_pos tes i ?b)" using at [OF b(1)] i by (simp add: owned_pos_Suc prev_pos_def)
    have len_b: "owned_pos tes i ?b < length (owned_by ?b tes)" "owned_by ?b tes ! owned_pos tes i ?b = snd (tes ! i)"
      using owned_by_nth_drop(1) [of tes i ?b] owned_by_nth_drop(2) [of ?b i tes] owned_by_drop_Cons [OF i] by simp_all
    have key: "Merging_key m = ?key" using child_key [OF ok b(1) at_b len_b(1)] len_b(2) cur by (simp add: Merging_key_def)
    have below: "entries_below c ?key (map snd tes) = i" using entries_below_own [OF children_entries [OF ok], of i] i by simp
    have "\<exists>y. position_after it c ?b ?key k (mi_children m ! k) = Some y \<and> cpos k y (owned_pos tes i k)" if k: "k < n" for k
    proof (cases "k = ?b")
      case True
      then show ?thesis using at_b by (simp add: position_after_def)
    next
      case False
      obtain w where w: "IW_Seek it ?key (mi_children m ! k) = Some w" "cpos k w (owned_pos tes i k)"
        using child_moves(3) [OF ok k at [OF k] b(2)] entries_below_owned [OF ok b(2), of k] below by auto
      have "Compare c ?key (iw_key w) \<noteq> 0" if v: "iw_valid w"
      proof -
        have l: "owned_pos tes i k < length (owned_by k tes)" using child_Valid [OF ok k w(2)] v by simp
        then obtain x xs where x: "owned_by k (drop i tes) = x # xs" using owned_by_nth_drop(1) [of tes i k] by (cases "owned_by k (drop i tes)") auto
        have "owned_by k (drop i tes) = owned_by k (drop (Suc i) tes)" using i False by (simp add: owned_by_def flip: Cons_nth_drop_Suc)
        then have "Compare c ?key (fst x) < 0" using owned_order(1) [OF ok i, of x k] x by (metis list.set_intros(1))
        then show ?thesis using child_key [OF ok k w(2) l] owned_by_nth_drop(2) [OF x] by simp
      qed
      then show ?thesis using False w by (auto simp: position_after_def)
    qed
    then obtain cs where cs: "for_children (position_after it c ?b ?key) 0 (mi_children m) = Some cs" "length cs = n"
      "\<forall>k < n. cpos k (cs ! k) (owned_pos tes i k)"
      using for_children_run [of "mi_children m" "position_after it c ?b ?key" 0 "\<lambda>k y. cpos k y (owned_pos tes i k)"] n by auto
    from step_forward [OF ok i, of "m\<lparr>mi_children := cs, mi_direction := kForward\<rparr>"] cs n cur key False show ?thesis
      by (auto simp: Merging_Next_def)
  qed
qed

lemma Merging_Prev_pos:
  assumes ok: "children_ok c valid it n tes cpos" and m: "merge_pos c n tes cpos m i" and i: "i < length tes"
  shows "\<exists>m'. Merging_Prev it m = Some m' \<and> merge_pos c n tes cpos m' (prev_pos (length tes) i)"
proof -
  let ?b = "fst (tes ! i)" and ?key = "fst (snd (tes ! i))"
  let ?p = "\<lambda>k. prev_pos (length (owned_by k tes)) (owned_pos tes (Suc i) k)"
  have n: "length (mi_children m) = n" "mi_comparator m = c" and cur: "mi_current m = Some ?b" using m i by (auto simp: merge_pos_def)
  have b: "?b < n" "valid ?key" using ok i by (auto simp: children_ok_def)
  show ?thesis
  proof (cases "mi_direction m = kReverse")
    case True
    then have "cpos k (mi_children m ! k) (?p k)" if "k < n" for k using m i that by (simp add: merge_pos_def)
    from step_back [OF ok i n(2,1) True this] cur True show ?thesis by (auto simp: Merging_Prev_def)
  next
    case False
    then have "mi_direction m = kForward" by (cases "mi_direction m") simp_all
    then have at: "cpos k (mi_children m ! k) (owned_pos tes i k)" if "k < n" for k using m i that by (simp add: merge_pos_def)
    have len_b: "owned_pos tes i ?b < length (owned_by ?b tes)" "owned_by ?b tes ! owned_pos tes i ?b = snd (tes ! i)"
      using owned_by_nth_drop(1) [of tes i ?b] owned_by_nth_drop(2) [of ?b i tes] owned_by_drop_Cons [OF i] by simp_all
    have key: "Merging_key m = ?key" using child_key [OF ok b(1) at [OF b(1)] len_b(1)] len_b(2) cur by (simp add: Merging_key_def)
    have below: "entries_below c ?key (map snd tes) = i" using entries_below_own [OF children_entries [OF ok], of i] i by simp
    have "\<exists>y. position_before it ?b ?key k (mi_children m ! k) = Some y \<and> cpos k y (?p k)" if k: "k < n" for k
    proof (cases "k = ?b")
      case True
      then show ?thesis using at [OF k] i by (simp add: position_before_def owned_pos_Suc prev_pos_def)
    next
      case False
      obtain w where w: "IW_Seek it ?key (mi_children m ! k) = Some w" "cpos k w (owned_pos tes i k)"
        using child_moves(3) [OF ok k at [OF k] b(2)] entries_below_owned [OF ok b(2), of k] below by auto
      show ?thesis
      proof (cases "iw_valid w")
        case True
        then have "owned_pos tes i k < length (owned_by k tes)" using child_Valid [OF ok k w(2)] by simp
        from child_moves(5) [OF ok k w(2) this] show ?thesis using False w(1) True i by (auto simp: position_before_def owned_pos_Suc)
      next
        case not_valid: False
        then have "owned_pos tes i k = length (owned_by k tes)" using child_Valid [OF ok k w(2)] owned_pos_le [of tes i k] by simp
        with child_moves(2) [OF ok k w(2)] show ?thesis using False w(1) not_valid i by (auto simp: position_before_def owned_pos_Suc)
      qed
    qed
    then obtain cs where cs: "for_children (position_before it ?b ?key) 0 (mi_children m) = Some cs" "length cs = n" "\<forall>k < n. cpos k (cs ! k) (?p k)"
      using for_children_run [of "mi_children m" "position_before it ?b ?key" 0 "\<lambda>k y. cpos k y (?p k)"] n by auto
    from step_back [OF ok i, of "m\<lparr>mi_children := cs, mi_direction := kReverse\<rparr>"] cs n cur key False show ?thesis
      by (auto simp: Merging_Prev_def)
  qed
qed

lemma merge_pos_key:
  assumes ok: "children_ok c valid it n tes cpos" and m: "merge_pos c n tes cpos m i" and i: "i < length tes"
  shows "Merging_key m = fst (snd (tes ! i))" and "Merging_value it m = snd (snd (tes ! i))"
proof -
  let ?b = "fst (tes ! i)"
  have cur: "mi_current m = Some ?b" using m i by (auto simp: merge_pos_def)
  have b: "?b < n" using ok i by (auto simp: children_ok_def)
  have at: "cpos ?b (mi_children m ! ?b) (owned_pos tes i ?b)"
    using m i b by (auto simp: merge_pos_def owned_pos_Suc prev_pos_def split: if_splits)
  have "owned_pos tes i ?b < length (owned_by ?b tes)" "owned_by ?b tes ! owned_pos tes i ?b = snd (tes ! i)"
    using owned_by_nth_drop(1) [of tes i ?b] owned_by_nth_drop(2) [of ?b i tes] owned_by_drop_Cons [OF i] by simp_all
  with child_key [OF ok b at] child_value [OF ok b at] cur
  show "Merging_key m = fst (snd (tes ! i))" and "Merging_value it m = snd (snd (tes ! i))"
    by (simp_all add: Merging_key_def Merging_value_def)
qed

lemma merging_sorted:
  assumes ok: "children_ok c valid it n tes cpos"
  shows "sorted_iterator c valid (MergingIterator_class it) (map snd tes) (merge_pos c n tes cpos)"
proof (intro sorted_iterator.intro [OF comparator_axioms] sorted_iterator_axioms.intro)
  fix m i t
  assume m: "merge_pos c n tes cpos m i"
  show "i \<le> length (map snd tes)" "iter_Valid (MergingIterator_class it) m \<longleftrightarrow> i < length (map snd tes)"
    using m by (auto simp: merge_pos_def MergingIterator_class_def split: if_splits)
  have "IW_status it w = OK" if "w \<in> set (mi_children m)" for w
    using that merge_pos_some [OF m] child_status [OF ok] m by (metis in_set_conv_nth merge_pos_def)
  then show "iter_status (MergingIterator_class it) m = OK" by (simp add: MergingIterator_class_def Merging_status_def status_loop_OK)
  show "\<exists>m'. iter_SeekToFirst (MergingIterator_class it) m = Some m' \<and> merge_pos c n tes cpos m' 0"
    using Merging_SeekToFirst_pos [OF ok m] by (simp add: MergingIterator_class_def)
  show "\<exists>m'. iter_SeekToLast (MergingIterator_class it) m = Some m' \<and> merge_pos c n tes cpos m' (prev_pos (length (map snd tes)) (length (map snd tes)))"
    using Merging_SeekToLast_pos [OF ok m] by (simp add: MergingIterator_class_def)
  show "\<exists>m'. iter_Seek (MergingIterator_class it) t m = Some m' \<and> merge_pos c n tes cpos m' (entries_below c t (map snd tes))" if "valid t"
    using Merging_Seek_pos [OF ok m that] by (simp add: MergingIterator_class_def)
  assume "i < length (map snd tes)"
  then have i: "i < length tes" by simp
  show "iter_key (MergingIterator_class it) m = fst (map snd tes ! i)" "iter_value (MergingIterator_class it) m = snd (map snd tes ! i)"
    using merge_pos_key [OF ok m i] i by (simp_all add: MergingIterator_class_def)
  show "\<exists>m'. iter_Next (MergingIterator_class it) m = Some m' \<and> merge_pos c n tes cpos m' (Suc i)"
    using Merging_Next_pos [OF ok m i] by (simp add: MergingIterator_class_def)
  show "\<exists>m'. iter_Prev (MergingIterator_class it) m = Some m' \<and> merge_pos c n tes cpos m' (prev_pos (length (map snd tes)) i)"
    using Merging_Prev_pos [OF ok m i] by (simp add: MergingIterator_class_def)
qed (use children_entries [OF ok] in simp_all)

lemma ascending_unique:
  assumes "ascending c xs" and "ascending c ys" and "set xs = set ys" and "\<And>e. e \<in> set xs \<Longrightarrow> valid (fst e)"
  shows "xs = ys"
  using assms
proof (induction xs arbitrary: ys)
  case (Cons x xs)
  then obtain y ys' where ys: "ys = y # ys'" by (cases ys) auto
  have irr: "\<not> (Compare c (fst a) (fst b) < 0 \<and> Compare c (fst b) (fst a) < 0)" if "a \<in> set (x # xs)" "b \<in> set (x # xs)" for a b
    using Cons.prems(4) [OF that(1)] Cons.prems(4) [OF that(2)] cmp_neg_iff [of "fst a" "fst b"] by auto
  have "x = y"
  proof (rule ccontr)
    assume "x \<noteq> y"
    then have "x \<in> set ys'" "y \<in> set xs" using Cons.prems(3) ys by auto
    then show False using Cons.prems(1,2) ys irr [of x y] by (auto simp: ascending_Cons)
  qed
  moreover have "x \<notin> set xs" "y \<notin> set ys'"
    using Cons.prems(1,2) ys irr [of x x] irr [of y y] Cons.prems(3) by (auto simp: ascending_Cons)
  ultimately have "set xs = set ys'" using Cons.prems(3) ys by auto
  then have "xs = ys'" using Cons ys by (auto simp: ascending_Cons)
  with \<open>x = y\<close> ys show ?case by simp
qed simp

lemma owned_ex:
  assumes es: "ascending c es" "\<And>e. e \<in> set es \<Longrightarrow> valid (fst e)" and ess: "mset es = mset (concat ess)" "\<And>xs. xs \<in> set ess \<Longrightarrow> ascending c xs"
  shows "\<exists>tes. map snd tes = es \<and> (\<forall>x \<in> set tes. fst x < length ess) \<and> (\<forall>k < length ess. owned_by k tes = ess ! k)"
proof -
  have set: "set es = set (concat ess)" using ess(1) by (metis set_mset_mset)
  have dist: "distinct (concat ess)" using ascending_distinct [OF es] ess(1) mset_eq_imp_distinct_iff by blast
  have disj: "e \<notin> set (ess ! l)" if "e \<in> set (ess ! k)" "k < l" "l < length ess" for e k l
  proof -
    have "concat ess = concat (take l ess) @ ess ! l @ concat (drop (Suc l) ess)"
      using id_take_nth_drop [OF that(3)] by (metis concat.simps(2) concat_append)
    moreover have "ess ! k \<in> set (take l ess)" using that(2,3) by (auto simp: in_set_conv_nth)
    ultimately show ?thesis using dist that(1) by auto
  qed
  have "\<exists>k < length ess. e \<in> set (ess ! k)" if "e \<in> set es" for e using that set by (metis UN_E in_set_conv_nth set_concat)
  then obtain own where own: "\<And>e. e \<in> set es \<Longrightarrow> own e < length ess \<and> e \<in> set (ess ! own e)" by metis
  have own_eq: "own e = k" if "e \<in> set (ess ! k)" "k < length ess" for e k
  proof -
    have "e \<in> set es" using that set by auto
    then show ?thesis using own [of e] disj [of e k "own e"] disj [of e "own e" k] that by (metis nat_neq_iff)
  qed
  have "owned_by k (map (\<lambda>e. (own e, e)) es) = ess ! k" if k: "k < length ess" for k
  proof -
    have o: "owned_by k (map (\<lambda>e. (own e, e)) es) = filter (\<lambda>e. own e = k) es" by (simp add: owned_by_def filter_map o_def)
    have "filter (\<lambda>e. own e = k) es = ess ! k"
    proof (rule ascending_unique)
      show "set (filter (\<lambda>e. own e = k) es) = set (ess ! k)" using own own_eq [OF _ k] set k by auto
    qed (use es ess(2) k ascending_filter in auto)
    with o show ?thesis by simp
  qed
  then show ?thesis using own by (intro exI [of _ "map (\<lambda>e. (own e, e)) es"]) (auto simp: o_def)
qed

end

subsection \<open>Properties\<close>

text \<open>C2: A merging iterator over any number of sorted iterators is a sorted iterator over the union of their entries. For a comparator
  and children that are sorted iterators over the lists \<open>ess\<close>, each at some position, let \<open>es\<close> have the entries of all the lists in
  strictly ascending order of their keys. The iterator \<open>NewMergingIterator\<close> makes then meets the iterator contract for \<open>es\<close>: from
  every state that any sequence of movements reaches, also when the direction is reversed in between, \<open>SeekToFirst\<close>,
  \<open>SeekToLast\<close> and \<open>Seek\<close> stop at the first entry, the last one and the first one not below the target, \<open>Next\<close> and \<open>Prev\<close> move
  by exactly one entry of \<open>es\<close>, its key and value are read there, and the status is OK.\<close>

theorem merging_iterator_correct:
  assumes "comparator c valid" and "length children = length ess"
    and "\<forall>k < length ess. sorted_iterator c valid it (ess ! k) (cpos k) \<and> (\<exists>i. cpos k (children ! k) i)"
    and "ascending c es" and "mset es = mset (concat ess)"
  shows "\<exists>pos i. sorted_iterator c valid (Merged_class it) es pos \<and> pos (NewMergingIterator it c children) i"
proof -
  consider "length ess = 0" | "length ess = 1" | "length ess > 1" by linarith
  then show ?thesis
  proof cases
    case 1
    then have "es = []" "NewMergingIterator it c children = Inl OK"
      using assms(2,5) by (auto simp: NewMergingIterator_def NewEmptyIterator_def)
    with sorted_iterator.sum_sorted(1) [OF comparator.empty_sorted [OF assms(1)], of "Iterator_sum it (MergingIterator_class it)"]
    show ?thesis unfolding Merged_class_def by blast
  next
    case 2
    then obtain xs where xs: "ess = [xs]" by (metis One_nat_def length_0_conv length_Suc_conv)
    have child: "sorted_iterator c valid it xs (cpos 0)" and "\<exists>i. cpos 0 (children ! 0) i" using assms(3) xs by auto
    have "es = xs"
      using comparator.ascending_unique [OF assms(1,4) sorted_iterator.es_ascending [OF child]] sorted_iterator.es_valid [OF child]
        assms(5) xs by (metis concat.simps append_Nil2 set_mset_mset)
    moreover have "NewMergingIterator it c children = Inr (Inl (children ! 0))" using 2 assms(2) by (simp add: NewMergingIterator_def)
    ultimately show ?thesis
      using sorted_iterator.sum_sorted(2) [OF sorted_iterator.sum_sorted(1) [OF child], of EmptyIterator "MergingIterator_class it"]
        \<open>\<exists>i. cpos 0 (children ! 0) i\<close> unfolding Merged_class_def by blast
  next
    case 3
    have child: "sorted_iterator c valid it (ess ! k) (cpos k)" if "k < length ess" for k using assms(3) that by simp
    have "set es = set (concat ess)" using assms(5) by (metis set_mset_mset)
    then have "valid (fst e)" if "e \<in> set es" for e
      using that sorted_iterator.es_valid [OF child] by (metis UN_E in_set_conv_nth set_concat)
    moreover have "ascending c xs" if "xs \<in> set ess" for xs
      using that sorted_iterator.es_ascending [OF child] by (metis in_set_conv_nth)
    ultimately obtain tes where tes: "map snd tes = es" "\<forall>x \<in> set tes. fst x < length ess" "\<forall>k < length ess. owned_by k tes = ess ! k"
      using comparator.owned_ex [OF assms(1,4) _ assms(5)] by metis
    let ?cpos = "\<lambda>k. wrapper_pos it (cpos k)" and ?m = "MergingIterator_new it c children"
    have ok: "children_ok c valid it (length ess) tes ?cpos"
      unfolding children_ok_def
    proof (intro conjI ballI allI impI)
      show "fst x < length ess" if "x \<in> set tes" for x using tes(2) that by simp
      show "valid (fst (snd x))" if "x \<in> set tes" for x
        using \<open>\<And>e. e \<in> set es \<Longrightarrow> valid (fst e)\<close> [of "snd x"] that unfolding tes(1) [symmetric] by simp
      show "sorted_iterator c valid (wrapped it) (owned_by k tes) (wrapper_pos it (cpos k))" if "k < length ess" for k
        using tes(3) that sorted_iterator.wrapped_sorted [OF child [OF that]] by simp
    qed (simp add: tes(1) assms(4))
    have "wrapper_pos it (cpos k) (mi_children ?m ! k) j" if "k < length ess" "cpos k (children ! k) j" for k j
      using that assms(2) by (simp add: MergingIterator_new_def wrapper_pos_Set)
    then have "\<exists>j. wrapper_pos it (cpos k) (mi_children ?m ! k) j" if "k < length ess" for k using assms(3) that by blast
    then have "merge_pos c (length ess) tes ?cpos ?m (length tes)"
      using assms(2) by (simp add: merge_pos_def MergingIterator_new_def)
    moreover have "NewMergingIterator it c children = Inr (Inr ?m)" using 3 assms(2) by (auto simp: NewMergingIterator_def)
    ultimately show ?thesis
      using sorted_iterator.sum_sorted(2) [OF sorted_iterator.sum_sorted(2) [OF comparator.merging_sorted [OF assms(1) ok]], of EmptyIterator it] tes(1)
      unfolding Merged_class_def by blast
  qed
qed

theorem merging_iterator_correct_witness:
  "\<exists>s t pos i. Block_NewIterator BytewiseComparator (Block_new (build_block 16 [([1], [7])])) = Inr s \<and>
     Block_NewIterator BytewiseComparator (Block_new (build_block 16 [([2], [8])])) = Inr t \<and>
     sorted_iterator BytewiseComparator (\<lambda>_. True) (Merged_class BlockIter_class) [([1], [7]), ([2], [8])] pos \<and>
     pos (NewMergingIterator BlockIter_class BytewiseComparator [t, s]) i"
proof -
  let ?v = "(\<lambda>_. True) :: bytes \<Rightarrow> bool" and ?a = "[([1], [7])] :: (bytes \<times> bytes) list" and ?b = "[([2], [8])] :: (bytes \<times> bytes) list"
  obtain s where s: "Block_NewIterator BytewiseComparator (Block_new (build_block 16 ?a)) = Inr s" "block_pos BytewiseComparator 16 ?a s 1"
    using pair_block.NewIterator_pos [of 1 7] by auto
  obtain t where t: "Block_NewIterator BytewiseComparator (Block_new (build_block 16 ?b)) = Inr t" "block_pos BytewiseComparator 16 ?b t 1"
    using pair_block.NewIterator_pos [of 2 8] by auto
  have "\<forall>k < length [?b, ?a]. sorted_iterator BytewiseComparator ?v BlockIter_class ([?b, ?a] ! k)
      (block_pos BytewiseComparator 16 ([?b, ?a] ! k)) \<and> (\<exists>i. block_pos BytewiseComparator 16 ([?b, ?a] ! k) ([t, s] ! k) i)"
    using s(2) t(2) pair_block.block_sorted by (auto simp: less_Suc_eq)
  then have "\<exists>pos i. sorted_iterator BytewiseComparator ?v (Merged_class BlockIter_class) [([1], [7]), ([2], [8])] pos \<and>
      pos (NewMergingIterator BlockIter_class BytewiseComparator [t, s]) i"
    by (intro merging_iterator_correct [OF bytewise.comparator_axioms, of "[t, s]" "[?b, ?a]"])
      (simp_all add: ascending_def BytewiseComparator_def)
  with s(1) t(1) show ?thesis by blast
qed

end
