(* ===== verification/DBIter.thy ===== *)
theory DBIter
  imports DbFormat RandomGen Merger
begin

text \<open>
  \<open>db/db_iter.cc\<close>: the iterator users see. It reads an iterator over internal keys and shows, for every user key, the newest
  version at a sequence number unless that is a deletion. The calls of \<open>DBImpl::RecordReadSample\<close> are kept as the list of the keys
  they get; the capacity of the saved value, which only frees memory, is not modelled.
\<close>

subsection \<open>The iterator\<close>

record 's DBIter =
  di_user_comparator :: Comparator
  di_iter :: 's
  di_sequence :: SequenceNumber
  di_status :: Status
  di_saved_key :: bytes
  di_saved_value :: bytes
  di_direction :: Direction
  di_valid :: bool
  di_rnd :: u32
  di_bytes_until_read_sampling :: nat
  di_samples :: "bytes list"

definition kReadBytesPeriod :: nat where
  "kReadBytesPeriod = 1048576"

definition RandomCompactionPeriod :: "u32 \<Rightarrow> nat \<times> u32" where
  "RandomCompactionPeriod rnd = (let (v, rnd') = rnd_Uniform (word_of_nat (2 * kReadBytesPeriod)) rnd in (unat v, rnd'))"

definition DBIter_new :: "Comparator \<Rightarrow> 's \<Rightarrow> SequenceNumber \<Rightarrow> u32 \<Rightarrow> 's DBIter" where
  "DBIter_new cmp iter s seed =
     (let (period, rnd) = RandomCompactionPeriod (Random_new seed)
      in \<lparr>di_user_comparator = cmp, di_iter = iter, di_sequence = s, di_status = OK, di_saved_key = [], di_saved_value = [],
          di_direction = kForward, di_valid = False, di_rnd = rnd, di_bytes_until_read_sampling = period, di_samples = []\<rparr>)"

definition DBIter_key :: "'s Iterator \<Rightarrow> 's DBIter \<Rightarrow> bytes" where
  "DBIter_key it d = (if di_direction d = kForward then ExtractUserKey (iter_key it (di_iter d)) else di_saved_key d)"

definition DBIter_value :: "'s Iterator \<Rightarrow> 's DBIter \<Rightarrow> bytes" where
  "DBIter_value it d = (if di_direction d = kForward then iter_value it (di_iter d) else di_saved_value d)"

definition DBIter_status :: "'s Iterator \<Rightarrow> 's DBIter \<Rightarrow> Status" where
  "DBIter_status it d = (if di_status d = OK then iter_status it (di_iter d) else di_status d)"

definition ClearSavedValue :: "'s DBIter \<Rightarrow> 's DBIter" where
  "ClearSavedValue d = d\<lparr>di_saved_value := []\<rparr>"

text \<open>The loop that asks for samples ends as soon as enough bytes are granted.\<close>

partial_function (option) sample_loop :: "bytes \<Rightarrow> nat \<Rightarrow> 's DBIter \<Rightarrow> 's DBIter option" where
  "sample_loop k bytes_read d =
     (if di_bytes_until_read_sampling d < bytes_read
      then sample_loop k bytes_read
        (d\<lparr>di_bytes_until_read_sampling := di_bytes_until_read_sampling d + fst (RandomCompactionPeriod (di_rnd d)),
           di_rnd := snd (RandomCompactionPeriod (di_rnd d)), di_samples := di_samples d @ [k]\<rparr>)
      else Some d)"

definition ParseKey :: "'s Iterator \<Rightarrow> 's DBIter \<Rightarrow> (ParsedInternalKey option \<times> 's DBIter) option" where
  "ParseKey it d =
     (let k = iter_key it (di_iter d);
          bytes_read = length k + length (iter_value it (di_iter d))
      in map_option
           (\<lambda>d. let d = d\<lparr>di_bytes_until_read_sampling := di_bytes_until_read_sampling d - bytes_read\<rparr>
                in case ParseInternalKey k of
                     None \<Rightarrow> (None, d\<lparr>di_status := Corruption (str ''corrupted internal key in DBIter'') []\<rparr>)
                   | Some ikey \<Rightarrow> (Some ikey, d))
           (sample_loop k bytes_read d))"

text \<open>One turn of the loop of \<open>FindNextUserEntry\<close> up to its step: whether it returns, and the flag \<open>skipping\<close>. The string
  \<open>skip\<close> points to is always \<open>saved_key_\<close>.\<close>

definition find_next_turn :: "'s Iterator \<Rightarrow> bool \<Rightarrow> 's DBIter \<Rightarrow> (bool \<times> bool \<times> 's DBIter) option" where
  "find_next_turn it skipping d =
     map_option
       (\<lambda>(parsed, d).
          case parsed of
            None \<Rightarrow> (False, skipping, d)
          | Some ikey \<Rightarrow>
              if pik_sequence ikey \<le> di_sequence d then
                (case pik_type ikey of
                   kTypeDeletion \<Rightarrow> (False, True, d\<lparr>di_saved_key := pik_user_key ikey\<rparr>)
                 | kTypeValue \<Rightarrow>
                     if skipping \<and> Compare (di_user_comparator d) (pik_user_key ikey) (di_saved_key d) \<le> 0
                     then (False, skipping, d)
                     else (True, skipping, d\<lparr>di_valid := True, di_saved_key := []\<rparr>))
              else (False, skipping, d))
       (ParseKey it d)"

partial_function (option) FindNextUserEntry :: "'s Iterator \<Rightarrow> bool \<Rightarrow> 's DBIter \<Rightarrow> 's DBIter option" where
  "FindNextUserEntry it skipping d =
     (case find_next_turn it skipping d of
        None \<Rightarrow> None
      | Some r \<Rightarrow>
          if fst r then Some (snd (snd r))
          else
            (case iter_Next it (di_iter (snd (snd r))) of
               None \<Rightarrow> None
             | Some s \<Rightarrow>
                 if iter_Valid it s then FindNextUserEntry it (fst (snd r)) ((snd (snd r))\<lparr>di_iter := s\<rparr>)
                 else Some ((snd (snd r))\<lparr>di_iter := s, di_saved_key := [], di_valid := False\<rparr>)))"

definition DBIter_Next :: "'s Iterator \<Rightarrow> 's DBIter \<Rightarrow> 's DBIter option" where
  "DBIter_Next it d =
     (if \<not> di_valid d then None
      else
        Option.bind
          (if di_direction d = kReverse
           then map_option (\<lambda>s. d\<lparr>di_direction := kForward, di_iter := s\<rparr>)
                  (if \<not> iter_Valid it (di_iter d) then iter_SeekToFirst it (di_iter d) else iter_Next it (di_iter d))
           else map_option (\<lambda>s. d\<lparr>di_saved_key := ExtractUserKey (iter_key it (di_iter d)), di_iter := s\<rparr>) (iter_Next it (di_iter d)))
          (\<lambda>d. if \<not> iter_Valid it (di_iter d) then Some (d\<lparr>di_valid := False, di_saved_key := []\<rparr>)
               else FindNextUserEntry it True d))"

text \<open>One turn of the loop of \<open>FindPrevUserEntry\<close> up to its step: whether it breaks off, and the value type.\<close>

definition find_prev_turn :: "'s Iterator \<Rightarrow> ValueType \<Rightarrow> 's DBIter \<Rightarrow> (bool \<times> ValueType \<times> 's DBIter) option" where
  "find_prev_turn it value_type d =
     map_option
       (\<lambda>(parsed, d).
          case parsed of
            None \<Rightarrow> (False, value_type, d)
          | Some ikey \<Rightarrow>
              if pik_sequence ikey \<le> di_sequence d then
                if value_type \<noteq> kTypeDeletion \<and> Compare (di_user_comparator d) (pik_user_key ikey) (di_saved_key d) < 0
                then (True, value_type, d)
                else if pik_type ikey = kTypeDeletion
                then (False, pik_type ikey, ClearSavedValue (d\<lparr>di_saved_key := []\<rparr>))
                else (False, pik_type ikey, d\<lparr>di_saved_key := ExtractUserKey (iter_key it (di_iter d)), di_saved_value := iter_value it (di_iter d)\<rparr>)
              else (False, value_type, d))
       (ParseKey it d)"

partial_function (option) find_prev_loop :: "'s Iterator \<Rightarrow> ValueType \<Rightarrow> 's DBIter \<Rightarrow> (ValueType \<times> 's DBIter) option" where
  "find_prev_loop it value_type d =
     (case find_prev_turn it value_type d of
        None \<Rightarrow> None
      | Some r \<Rightarrow>
          if fst r then Some (snd r)
          else
            (case iter_Prev it (di_iter (snd (snd r))) of
               None \<Rightarrow> None
             | Some s \<Rightarrow>
                 if iter_Valid it s then find_prev_loop it (fst (snd r)) ((snd (snd r))\<lparr>di_iter := s\<rparr>)
                 else Some (fst (snd r), (snd (snd r))\<lparr>di_iter := s\<rparr>)))"

definition FindPrevUserEntry :: "'s Iterator \<Rightarrow> 's DBIter \<Rightarrow> 's DBIter option" where
  "FindPrevUserEntry it d =
     map_option
       (\<lambda>(value_type, d).
          if value_type = kTypeDeletion
          then (ClearSavedValue (d\<lparr>di_valid := False, di_saved_key := []\<rparr>))\<lparr>di_direction := kForward\<rparr>
          else d\<lparr>di_valid := True\<rparr>)
       (if iter_Valid it (di_iter d) then find_prev_loop it kTypeDeletion d else Some (kTypeDeletion, d))"

text \<open>The loop that leaves the entries of the saved key, or runs off the beginning.\<close>

partial_function (option) scan_back :: "'s Iterator \<Rightarrow> Comparator \<Rightarrow> bytes \<Rightarrow> 's \<Rightarrow> 's option" where
  "scan_back it cmp saved s =
     (case iter_Prev it s of
        None \<Rightarrow> None
      | Some s \<Rightarrow>
          if \<not> iter_Valid it s then Some s
          else if Compare cmp (ExtractUserKey (iter_key it s)) saved < 0 then Some s
          else scan_back it cmp saved s)"

definition DBIter_Prev :: "'s Iterator \<Rightarrow> 's DBIter \<Rightarrow> 's DBIter option" where
  "DBIter_Prev it d =
     (if \<not> di_valid d then None
      else if di_direction d = kForward then
        (let saved = ExtractUserKey (iter_key it (di_iter d))
         in Option.bind (scan_back it (di_user_comparator d) saved (di_iter d)) (\<lambda>s.
              let d = d\<lparr>di_saved_key := saved, di_iter := s\<rparr>
              in if \<not> iter_Valid it s then Some (ClearSavedValue (d\<lparr>di_valid := False, di_saved_key := []\<rparr>))
                 else FindPrevUserEntry it (d\<lparr>di_direction := kReverse\<rparr>)))
      else FindPrevUserEntry it d)"

definition DBIter_Seek :: "'s Iterator \<Rightarrow> bytes \<Rightarrow> 's DBIter \<Rightarrow> 's DBIter option" where
  "DBIter_Seek it target d =
     (let d = ClearSavedValue (d\<lparr>di_direction := kForward\<rparr>);
          d = d\<lparr>di_saved_key := AppendInternalKey [] \<lparr>pik_user_key = target, pik_sequence = di_sequence d, pik_type = kValueTypeForSeek\<rparr>\<rparr>
      in Option.bind (iter_Seek it (di_saved_key d) (di_iter d)) (\<lambda>s.
           if iter_Valid it s then FindNextUserEntry it False (d\<lparr>di_iter := s\<rparr>)
           else Some (d\<lparr>di_iter := s, di_valid := False\<rparr>)))"

definition DBIter_SeekToFirst :: "'s Iterator \<Rightarrow> 's DBIter \<Rightarrow> 's DBIter option" where
  "DBIter_SeekToFirst it d =
     (let d = ClearSavedValue (d\<lparr>di_direction := kForward\<rparr>)
      in Option.bind (iter_SeekToFirst it (di_iter d)) (\<lambda>s.
           if iter_Valid it s then FindNextUserEntry it False (d\<lparr>di_iter := s\<rparr>)
           else Some (d\<lparr>di_iter := s, di_valid := False\<rparr>)))"

definition DBIter_SeekToLast :: "'s Iterator \<Rightarrow> 's DBIter \<Rightarrow> 's DBIter option" where
  "DBIter_SeekToLast it d =
     (let d = ClearSavedValue (d\<lparr>di_direction := kReverse\<rparr>)
      in Option.bind (iter_SeekToLast it (di_iter d)) (\<lambda>s. FindPrevUserEntry it (d\<lparr>di_iter := s\<rparr>)))"

definition DBIter_class :: "'s Iterator \<Rightarrow> 's DBIter Iterator" where
  "DBIter_class it =
     \<lparr>iter_Valid = di_valid, iter_SeekToFirst = DBIter_SeekToFirst it, iter_SeekToLast = DBIter_SeekToLast it, iter_Seek = DBIter_Seek it,
      iter_Next = DBIter_Next it, iter_Prev = DBIter_Prev it, iter_key = DBIter_key it, iter_value = DBIter_value it,
      iter_status = DBIter_status it\<rparr>"

subsection \<open>The sampling loop ends\<close>

text \<open>Two consecutive random numbers are not both multiples of \<open>2 ^ 21\<close>.\<close>

lemma RandomCompactionPeriod_eq:
  assumes "seed_ok r"
  shows "snd (RandomCompactionPeriod r) = snd (rnd_Next r)" and "fst (RandomCompactionPeriod r) = unat r * 16807 mod 2147483647 mod 2097152"
    and "seed_ok (snd (RandomCompactionPeriod r))" and "unat (snd (RandomCompactionPeriod r)) = unat r * 16807 mod 2147483647"
  using rnd_Next_correct [OF assms]
  by (simp_all add: RandomCompactionPeriod_def rnd_Uniform_def split_beta kReadBytesPeriod_def unat_mod rnd_Next_def Let_def)

lemma no_two_multiples:
  fixes M q a b :: nat
  assumes "coprime M q" and "q * a mod M = q * b" and "b < a" and "a < M"
  shows False
proof -
  have "q * a mod M = q * b mod M" using assms(2) by (metis mod_mod_trivial)
  then have "M dvd q * a - q * b" using assms(3) by (metis mod_eq_dvd_iff_nat less_imp_le mult_le_mono2)
  then have "M dvd q * (a - b)" by (simp only: diff_mult_distrib2)
  then have "M dvd a - b" using assms(1) coprime_dvd_mult_right_iff by blast
  then have "M \<le> a - b" using assms(3) by (simp add: dvd_imp_le)
  then show False using assms(3,4) by linarith
qed

lemma period_pos:
  assumes "seed_ok r" and "fst (RandomCompactionPeriod r) = 0"
  shows "fst (RandomCompactionPeriod (snd (RandomCompactionPeriod r))) \<noteq> 0"
proof
  let ?r = "unat (snd (RandomCompactionPeriod r))" and ?M = "2147483647 :: nat"
  assume z: "fst (RandomCompactionPeriod (snd (RandomCompactionPeriod r))) = 0"
  have r: "seed_ok (snd (RandomCompactionPeriod r))" using RandomCompactionPeriod_eq(3) [OF assms(1)] .
  have "?r mod 2097152 = 0" using RandomCompactionPeriod_eq(2,4) [OF assms(1)] assms(2) by simp
  then obtain a where a: "?r = 2097152 * a" by auto
  then have a_b: "0 < a" "a < 1024" using r by (auto simp: seed_ok_def)
  have "?r * 16807 mod ?M mod 2097152 = 0" using RandomCompactionPeriod_eq(2) [OF r] z by simp
  then obtain b where b: "?r * 16807 mod ?M = 2097152 * b" by auto
  moreover have "?r * 16807 mod ?M < ?M" by simp
  ultimately have b_b: "b < 1024" by simp
  moreover have "gcd ?M 2097152 = 1" by (subst gcd_red_nat, simp)+
  then have "coprime ?M 2097152" by (simp only: coprime_iff_gcd_eq_1)
  moreover have "2097152 * (16807 * a) mod ?M = 2097152 * b" using b unfolding a by (simp only: ac_simps)
  moreover have "b < 16807 * a" "16807 * a < ?M" using a_b b_b by linarith+
  ultimately show False using no_two_multiples by blast
qed

text \<open>Two states that differ in what the sampling keeps.\<close>

definition sampled :: "'s DBIter \<Rightarrow> 's DBIter \<Rightarrow> bool" where
  "sampled d d' \<longleftrightarrow> di_user_comparator d' = di_user_comparator d \<and> di_iter d' = di_iter d \<and> di_sequence d' = di_sequence d \<and>
     di_status d' = di_status d \<and> di_saved_key d' = di_saved_key d \<and> di_saved_value d' = di_saved_value d \<and>
     di_direction d' = di_direction d \<and> di_valid d' = di_valid d \<and> seed_ok (di_rnd d')"

lemma sample_loop_run: "seed_ok (di_rnd d) \<Longrightarrow> \<exists>d'. sample_loop k n d = Some d' \<and> sampled d d'"
proof (induction "2 * (n - di_bytes_until_read_sampling d) + (if fst (RandomCompactionPeriod (di_rnd d)) = 0 then 1 else 0)"
    arbitrary: d rule: less_induct)
  case less
  let ?p = "RandomCompactionPeriod (di_rnd d)"
  let ?d = "d\<lparr>di_bytes_until_read_sampling := di_bytes_until_read_sampling d + fst ?p, di_rnd := snd ?p, di_samples := di_samples d @ [k]\<rparr>"
  show ?case
  proof (cases "di_bytes_until_read_sampling d < n")
    case True
    have "\<exists>d'. sample_loop k n ?d = Some d' \<and> sampled ?d d'"
    proof (rule less.hyps)
      show "seed_ok (di_rnd ?d)" using RandomCompactionPeriod_eq(3) [OF less.prems] by simp
      show "2 * (n - di_bytes_until_read_sampling ?d) + (if fst (RandomCompactionPeriod (di_rnd ?d)) = 0 then 1 else 0) <
        2 * (n - di_bytes_until_read_sampling d) + (if fst ?p = 0 then 1 else 0)"
        using True period_pos [OF less.prems] by (cases "fst ?p = 0") auto
    qed
    then show ?thesis using True by (subst sample_loop.simps) (auto simp: sampled_def)
  next
    case False
    then have "sample_loop k n d = Some d" by (subst sample_loop.simps) simp
    then show ?thesis using less.prems by (simp add: sampled_def)
  qed
qed

lemma ParseKey_run:
  assumes "seed_ok (di_rnd d)" and "ParseInternalKey (iter_key it (di_iter d)) = Some ikey"
  shows "\<exists>d'. ParseKey it d = Some (Some ikey, d') \<and> sampled d d'"
proof -
  obtain d' where "sample_loop (iter_key it (di_iter d)) (length (iter_key it (di_iter d)) + length (iter_value it (di_iter d))) d = Some d'"
    "sampled d d'" using sample_loop_run [OF assms(1)] by blast
  then show ?thesis using assms(2) by (auto simp: ParseKey_def Let_def sampled_def)
qed

end
