(* ===== verification/DBIterSpec.thy ===== *)
theory DBIterSpec
  imports DBIter
begin

text \<open>
  What the database iterator shows: over an iterator on internal keys it is a sorted iterator over the user's view at its sequence
  number.
\<close>

subsection \<open>The view at a sequence number\<close>

definition e_user :: "bytes \<times> bytes \<Rightarrow> bytes" where
  "e_user e = ExtractUserKey (fst e)"

definition e_seq :: "bytes \<times> bytes \<Rightarrow> SequenceNumber" where
  "e_seq e = pik_sequence (the (ParseInternalKey (fst e)))"

definition e_type :: "bytes \<times> bytes \<Rightarrow> ValueType" where
  "e_type e = pik_type (the (ParseInternalKey (fst e)))"

text \<open>Entry \<open>i\<close> is shown if it is a value the sequence number sees and no entry before it is a seen version of the same user key.\<close>

definition shown :: "Comparator \<Rightarrow> SequenceNumber \<Rightarrow> (bytes \<times> bytes) list \<Rightarrow> nat \<Rightarrow> bool" where
  "shown c seq es i \<longleftrightarrow> e_seq (es ! i) \<le> seq \<and> e_type (es ! i) = kTypeValue \<and>
     (\<forall>j < i. e_seq (es ! j) \<le> seq \<longrightarrow> Compare c (e_user (es ! j)) (e_user (es ! i)) \<noteq> 0)"

definition shown_list :: "Comparator \<Rightarrow> SequenceNumber \<Rightarrow> (bytes \<times> bytes) list \<Rightarrow> nat list" where
  "shown_list c seq es = filter (shown c seq es) [0..<length es]"

definition user_view :: "Comparator \<Rightarrow> SequenceNumber \<Rightarrow> (bytes \<times> bytes) list \<Rightarrow> (bytes \<times> bytes) list" where
  "user_view c seq es = map (\<lambda>i. (e_user (es ! i), snd (es ! i))) (shown_list c seq es)"

definition shown_rank :: "Comparator \<Rightarrow> SequenceNumber \<Rightarrow> (bytes \<times> bytes) list \<Rightarrow> nat \<Rightarrow> nat" where
  "shown_rank c seq es i = length (filter (shown c seq es) [0..<i])"

text \<open>Where the internal iterator stands while the iterator moves back and shows entry \<open>i\<close>: at the last seen entry before.\<close>

definition prev_seen :: "SequenceNumber \<Rightarrow> (bytes \<times> bytes) list \<Rightarrow> nat \<Rightarrow> nat" where
  "prev_seen seq es i =
     (let js = filter (\<lambda>j. e_seq (es ! j) \<le> seq) [0..<i] in if js = [] then length es else last js)"

definition db_base :: "Comparator \<Rightarrow> SequenceNumber \<Rightarrow> 's DBIter \<Rightarrow> bool" where
  "db_base c seq d \<longleftrightarrow> di_user_comparator d = c \<and> di_sequence d = seq \<and> di_status d = OK \<and> seed_ok (di_rnd d)"

definition db_pos ::
  "Comparator \<Rightarrow> SequenceNumber \<Rightarrow> (bytes \<times> bytes) list \<Rightarrow> ('s \<Rightarrow> nat \<Rightarrow> bool) \<Rightarrow> 's DBIter \<Rightarrow> nat \<Rightarrow> bool" where
  "db_pos c seq es pos d v \<longleftrightarrow> db_base c seq d \<and>
     (if v < length (shown_list c seq es) then
        di_valid d \<and>
        (if di_direction d = kForward then pos (di_iter d) (shown_list c seq es ! v)
         else di_saved_key d = e_user (es ! (shown_list c seq es ! v)) \<and> di_saved_value d = snd (es ! (shown_list c seq es ! v)) \<and>
           pos (di_iter d) (prev_seen seq es (shown_list c seq es ! v)))
      else v = length (shown_list c seq es) \<and> \<not> di_valid d \<and> (\<exists>j. pos (di_iter d) j))"

text \<open>The entries from \<open>i\<close> on that are hidden by a seen entry before \<open>i\<close> are those the forward loop skips.\<close>

definition next_hides :: "Comparator \<Rightarrow> SequenceNumber \<Rightarrow> (bytes \<times> bytes) list \<Rightarrow> nat \<Rightarrow> bool \<Rightarrow> bytes \<Rightarrow> bool" where
  "next_hides c seq es i skipping skip \<longleftrightarrow> (\<forall>k. i \<le> k \<longrightarrow> k < length es \<longrightarrow> e_seq (es ! k) \<le> seq \<longrightarrow>
     ((\<exists>j < i. e_seq (es ! j) \<le> seq \<and> Compare c (e_user (es ! j)) (e_user (es ! k)) = 0) \<longleftrightarrow>
      skipping \<and> Compare c (e_user (es ! k)) skip \<le> 0))"

text \<open>What the backward loop has found when it ends, if \<open>r\<close> entries are shown up to its start.\<close>

definition prev_result ::
  "Comparator \<Rightarrow> SequenceNumber \<Rightarrow> (bytes \<times> bytes) list \<Rightarrow> ('s \<Rightarrow> nat \<Rightarrow> bool) \<Rightarrow> nat \<Rightarrow> ValueType \<Rightarrow> 's DBIter \<Rightarrow> bool" where
  "prev_result c seq es pos r vt d \<longleftrightarrow> db_base c seq d \<and> di_direction d = kReverse \<and>
     (if r = 0 then vt = kTypeDeletion \<and> (\<exists>j. pos (di_iter d) j)
      else vt = kTypeValue \<and> di_saved_key d = e_user (es ! (shown_list c seq es ! (r - 1))) \<and>
        di_saved_value d = snd (es ! (shown_list c seq es ! (r - 1))) \<and>
        pos (di_iter d) (prev_seen seq es (shown_list c seq es ! (r - 1))))"

lemma shown_rank_0 [simp]: "shown_rank c seq es 0 = 0"
  by (simp add: shown_rank_def)

lemma shown_rank_Suc: "shown_rank c seq es (Suc i) = shown_rank c seq es i + (if shown c seq es i then 1 else 0)"
  by (simp add: shown_rank_def)

lemma shown_rank_all: "shown_rank c seq es (length es) = length (shown_list c seq es)"
  by (simp add: shown_rank_def shown_list_def)

lemma shown_rank_skip: "\<lbrakk>a \<le> b; \<And>k. \<lbrakk>a \<le> k; k < b\<rbrakk> \<Longrightarrow> \<not> shown c seq es k\<rbrakk> \<Longrightarrow> shown_rank c seq es b = shown_rank c seq es a"
proof (induction b)
  case (Suc b)
  then show ?case by (cases "a = Suc b") (auto simp: shown_rank_Suc le_Suc_eq)
qed simp

lemma upt_split: "i < n \<Longrightarrow> [0..<n] = [0..<i] @ i # [Suc i..<n]"
  using upt_add_eq_append [of 0 i "n - i"] by (simp add: upt_conv_Cons)

lemma shown_list_rank:
  assumes "shown c seq es i" and "i < length es"
  shows "shown_rank c seq es i < length (shown_list c seq es)" and "shown_list c seq es ! shown_rank c seq es i = i"
proof -
  have "[0..<length es] = [0..<i] @ i # [Suc i..<length es]"
    using assms(2) by (rule upt_split)
  then have "shown_list c seq es = filter (shown c seq es) [0..<i] @ i # filter (shown c seq es) [Suc i..<length es]"
    using assms(1) by (simp add: shown_list_def)
  then show "shown_rank c seq es i < length (shown_list c seq es)" and "shown_list c seq es ! shown_rank c seq es i = i"
    by (simp_all add: shown_rank_def nth_append)
qed

lemma shown_list_nth:
  assumes "v < length (shown_list c seq es)"
  shows "shown c seq es (shown_list c seq es ! v)" and "shown_list c seq es ! v < length es" and "shown_rank c seq es (shown_list c seq es ! v) = v"
proof -
  have "shown_list c seq es ! v \<in> set (shown_list c seq es)" using assms by simp
  then show s: "shown c seq es (shown_list c seq es ! v)" and l: "shown_list c seq es ! v < length es" by (auto simp: shown_list_def)
  have "distinct (shown_list c seq es)" by (simp add: shown_list_def)
  then show "shown_rank c seq es (shown_list c seq es ! v) = v"
    using shown_list_rank [OF s l] assms by (simp add: nth_eq_iff_index_eq)
qed

lemma prev_seen_none: "(\<And>k. k < i \<Longrightarrow> \<not> e_seq (es ! k) \<le> seq) \<Longrightarrow> prev_seen seq es i = length es"
  by (simp add: prev_seen_def Let_def filter_empty_conv)

lemma prev_seen_some:
  assumes "j < i" and "e_seq (es ! j) \<le> seq" and "\<And>k. \<lbrakk>j < k; k < i\<rbrakk> \<Longrightarrow> \<not> e_seq (es ! k) \<le> seq"
  shows "prev_seen seq es i = j"
proof -
  have "[0..<i] = [0..<j] @ j # [Suc j..<i]" using assms(1) by (rule upt_split)
  moreover have "filter (\<lambda>j. e_seq (es ! j) \<le> seq) [Suc j..<i] = []" using assms(3) by (auto simp: filter_empty_conv)
  ultimately show ?thesis using assms(2) by (simp add: prev_seen_def Let_def)
qed

lemma prev_seen_cases:
  obtains (none) "prev_seen seq es i = length es" "\<And>k. k < i \<Longrightarrow> \<not> e_seq (es ! k) \<le> seq"
  | (some) j where "prev_seen seq es i = j" "j < i" "e_seq (es ! j) \<le> seq" "\<And>k. \<lbrakk>j < k; k < i\<rbrakk> \<Longrightarrow> \<not> e_seq (es ! k) \<le> seq"
proof (cases "\<exists>k < i. e_seq (es ! k) \<le> seq")
  case True
  define j where "j = Max {k. k < i \<and> e_seq (es ! k) \<le> seq}"
  have fin: "finite {k. k < i \<and> e_seq (es ! k) \<le> seq}" by simp
  have "j \<in> {k. k < i \<and> e_seq (es ! k) \<le> seq}" unfolding j_def using True by (intro Max_in [OF fin]) auto
  moreover have "\<not> e_seq (es ! k) \<le> seq" if "j < k" "k < i" for k using Max_ge [OF fin, of k] that unfolding j_def by fastforce
  ultimately show ?thesis using some prev_seen_some [of j i es seq] by auto
next
  case False
  then show ?thesis using none prev_seen_none [of i es seq] by auto
qed

lemma parsed_tag:
  assumes "ParseInternalKey k = Some p"
  shows "internal_tag k = PackSequenceAndType (pik_sequence p) (pik_type p)" and "pik_sequence p \<le> kMaxSequenceNumber"
proof -
  let ?n = "internal_tag k"
  have p: "pik_sequence p = drop_bit 8 ?n" and c: "(ucast (?n AND 0xff) :: byte) = (if pik_type p = kTypeDeletion then 0 else 1)"
    using assms by (auto simp: ParseInternalKey_def internal_tag_def Let_def split: if_splits)
  have "?n AND 0xff = take_bit 8 ?n" by (simp add: take_bit_eq_mask mask_numeral)
  moreover have "(ucast (take_bit 8 ?n) :: byte) = ucast ?n" by (intro bit_word_eqI) (auto simp: bit_simps)
  ultimately have "take_bit 8 ?n = ucast (if pik_type p = kTypeDeletion then 0 else 1 :: byte)"
    using c ucast_byte_ucast [of ?n] by simp
  then have "take_bit 8 ?n = ValueType_code (pik_type p)" by (cases "pik_type p") simp_all
  then show "?n = PackSequenceAndType (pik_sequence p) (pik_type p)"
    using or_take_drop_bit [of 8 ?n] p by (simp add: PackSequenceAndType_def or.commute)
  have "unat ?n < 2 ^ 64" using unsigned_less [of ?n] by simp
  then show "pik_sequence p \<le> kMaxSequenceNumber"
    using p by (simp add: seq_le_max_iff unat_drop_bit_word less_mult_imp_div_less)
qed

subsection \<open>The internal iterator below\<close>

locale internal_iterator = user_comparator c valid +
  inner: sorted_iterator "InternalKeyComparator c" "valid_internal valid" it es pos
  for c valid and it :: "'s Iterator" and es pos +
  fixes seq :: SequenceNumber
  assumes parsed: "e \<in> set es \<Longrightarrow> ParseInternalKey (fst e) \<noteq> None" and seq_max: "seq \<le> kMaxSequenceNumber"
begin

abbreviation "u i \<equiv> e_user (es ! i)"
abbreviation "seen i \<equiv> e_seq (es ! i) \<le> seq"
abbreviation "sh \<equiv> shown c seq es"
abbreviation "rank \<equiv> shown_rank c seq es"
abbreviation "view \<equiv> shown_list c seq es"
abbreviation "next_inv \<equiv> next_hides c seq es"
abbreviation "prev_found m \<equiv> prev_result c seq es pos (rank m)"
abbreviation "dpos \<equiv> db_pos c seq es pos"

lemma u_valid: "i < length es \<Longrightarrow> valid (u i)"
  using inner.es_valid [of "es ! i"] by (simp add: valid_internal_def e_user_def)

lemma u_le: "\<lbrakk>i \<le> j; j < length es\<rbrakk> \<Longrightarrow> Compare c (u i) (u j) \<le> 0"
  using ascending_nth [OF inner.es_ascending, of i j] cmp_refl [OF u_valid, of j]
  by (cases "i = j") (auto simp: InternalKeyComparator_def internal_compare_iff e_user_def)

lemma u_between:
  assumes "i \<le> k" "k \<le> j" "j < length es" and "Compare c (u i) (u j) = 0"
  shows "Compare c (u i) (u k) = 0" and "Compare c (u k) (u j) = 0"
proof -
  have v: "valid (u i)" "valid (u k)" "valid (u j)" using assms u_valid by simp_all
  have le: "Compare c (u i) (u k) \<le> 0" "Compare c (u k) (u j) \<le> 0" using assms u_le by simp_all
  show "Compare c (u i) (u k) = 0" using cmp_less_trans [OF v _ le(2)] le(1) assms(4) by linarith
  show "Compare c (u k) (u j) = 0" using cmp_le_less_trans [OF v le(1)] le(2) assms(4) by linarith
qed

lemma u_same_iff: "\<lbrakk>i \<le> j; j < length es\<rbrakk> \<Longrightarrow> Compare c (u j) (u i) \<le> 0 \<longleftrightarrow> Compare c (u i) (u j) = 0"
  using u_le [of i j] cmp_le_iff [OF u_valid u_valid, of j i] by auto

lemma parse_nth:
  assumes "i < length es"
  shows "ParseInternalKey (fst (es ! i)) = Some \<lparr>pik_user_key = u i, pik_sequence = e_seq (es ! i), pik_type = e_type (es ! i)\<rparr>"
proof -
  obtain k where k: "ParseInternalKey (fst (es ! i)) = Some k" using parsed [of "es ! i"] assms by auto
  then have "pik_user_key k = u i" by (auto simp: ParseInternalKey_def Let_def e_user_def ExtractUserKey_def split: if_splits)
  with k show ?thesis by (cases k) (simp add: e_seq_def e_type_def)
qed

subsection \<open>Moving forward\<close>

lemma next_invD:
  "\<lbrakk>next_inv i skipping skip; i \<le> k; k < length es; seen k\<rbrakk> \<Longrightarrow>
   (\<exists>j < i. seen j \<and> Compare c (u j) (u k) = 0) \<longleftrightarrow> skipping \<and> Compare c (u k) skip \<le> 0"
  by (simp add: next_hides_def)

lemma next_inv_unseen:
  assumes "next_inv i skipping skip" and "\<not> seen i"
  shows "next_inv (Suc i) skipping skip"
  using next_invD [OF assms(1)] assms(2) by (simp add: next_hides_def Ex_less_Suc)

lemma next_inv_after:
  assumes "i < length es" and "seen i"
  shows "next_inv (Suc i) True (u i)"
  unfolding next_hides_def
proof (intro allI impI)
  fix k assume k: "Suc i \<le> k" "k < length es" "seen k"
  have "(\<exists>j < Suc i. seen j \<and> Compare c (u j) (u k) = 0) \<longleftrightarrow> Compare c (u i) (u k) = 0"
    using assms(2) u_between(2) [of _ i k] k by (auto simp: less_Suc_eq_le)
  then show "(\<exists>j < Suc i. seen j \<and> Compare c (u j) (u k) = 0) \<longleftrightarrow> True \<and> Compare c (u k) (u i) \<le> 0"
    using u_same_iff [of i k] k by simp
qed

lemma next_inv_hidden:
  assumes inv: "next_inv i skipping skip" and i: "i < length es" "seen i" and sk: "skipping" "Compare c (u i) skip \<le> 0"
  shows "next_inv (Suc i) skipping skip"
  unfolding next_hides_def
proof (intro allI impI)
  fix k assume k: "Suc i \<le> k" "k < length es" "seen k"
  obtain j where j: "j < i" "seen j" "Compare c (u j) (u i) = 0" using next_invD [OF inv, of i] i sk by auto
  have v: "valid (u j)" "valid (u i)" "valid (u k)" using j(1) i k u_valid by simp_all
  have "\<exists>j < i. seen j \<and> Compare c (u j) (u k) = 0" if "Compare c (u i) (u k) = 0"
  proof -
    have "Compare c (u j) (u k) \<le> 0" using cmp_trans [OF v] j(3) that by simp
    moreover have "\<not> Compare c (u j) (u k) < 0"
      using cmp_trans [of "u k" "u i" "u j"] v j(3) that cmp_zero_iff [of "u i" "u k"] cmp_zero_iff [of "u j" "u i"] cmp_le_iff [of "u k" "u j"] by simp
    ultimately show ?thesis using j(1,2) by auto
  qed
  then show "(\<exists>j < Suc i. seen j \<and> Compare c (u j) (u k) = 0) \<longleftrightarrow> skipping \<and> Compare c (u k) skip \<le> 0"
    using next_invD [OF inv, of k] k by (auto simp: Ex_less_Suc)
qed

lemma next_inv_shown:
  "\<lbrakk>next_inv i skipping skip; i < length es; seen i\<rbrakk> \<Longrightarrow> sh i \<longleftrightarrow> e_type (es ! i) = kTypeValue \<and> \<not> (skipping \<and> Compare c (u i) skip \<le> 0)"
  unfolding next_hides_def shown_def by blast

lemma find_next_turn_run:
  assumes d: "db_base c seq d" and i: "pos (di_iter d) i" "i < length es"
  shows "\<exists>d'. sampled d d' \<and> find_next_turn it skipping d = Some
    (if seen i then
       if e_type (es ! i) = kTypeDeletion then (False, True, d'\<lparr>di_saved_key := u i\<rparr>)
       else if skipping \<and> Compare c (u i) (di_saved_key d) \<le> 0 then (False, skipping, d')
       else (True, skipping, d'\<lparr>di_valid := True, di_saved_key := []\<rparr>)
     else (False, skipping, d'))"
proof -
  have "seed_ok (di_rnd d)" using d by (simp add: db_base_def)
  moreover have "ParseInternalKey (iter_key it (di_iter d)) = Some \<lparr>pik_user_key = u i, pik_sequence = e_seq (es ! i), pik_type = e_type (es ! i)\<rparr>"
    using inner.pos_key [OF i] parse_nth [OF i(2)] by simp
  ultimately obtain d' where "ParseKey it d = Some (Some \<lparr>pik_user_key = u i, pik_sequence = e_seq (es ! i), pik_type = e_type (es ! i)\<rparr>, d')"
    "sampled d d'" using ParseKey_run by blast
  then show ?thesis using d by (intro exI [of _ d']) (cases "e_type (es ! i)"; auto simp: find_next_turn_def db_base_def sampled_def)
qed

lemma db_base_sampled: "\<lbrakk>db_base c seq d; sampled d d'\<rbrakk> \<Longrightarrow> db_base c seq d'"
  by (simp add: db_base_def sampled_def)

lemma FindNext_run:
  assumes "db_base c seq d" and "di_direction d = kForward" and "pos (di_iter d) i" and "i < length es" and "next_inv i skipping (di_saved_key d)"
  shows "\<exists>d'. FindNextUserEntry it skipping d = Some d' \<and> dpos d' (rank i)"
  using assms
proof (induction "length es - i" arbitrary: i d skipping rule: less_induct)
  case less
  obtain d' where d': "sampled d d'" and turn: "find_next_turn it skipping d = Some
    (if seen i then
       if e_type (es ! i) = kTypeDeletion then (False, True, d'\<lparr>di_saved_key := u i\<rparr>)
       else if skipping \<and> Compare c (u i) (di_saved_key d) \<le> 0 then (False, skipping, d')
       else (True, skipping, d'\<lparr>di_valid := True, di_saved_key := []\<rparr>)
     else (False, skipping, d'))" using find_next_turn_run [OF less.prems(1,3,4)] by blast
  have same: "di_iter d' = di_iter d" "di_direction d' = kForward" "di_saved_key d' = di_saved_key d" "db_base c seq d'"
    using d' less.prems(2) db_base_sampled [OF less.prems(1) d'] by (simp_all add: sampled_def)
  show ?case
  proof (cases "sh i")
    case True
    then have "seen i" "e_type (es ! i) \<noteq> kTypeDeletion" by (auto simp: shown_def)
    moreover have "\<not> (skipping \<and> Compare c (u i) (di_saved_key d) \<le> 0)"
      using next_inv_shown [OF less.prems(5,4)] True \<open>seen i\<close> by simp
    ultimately have "FindNextUserEntry it skipping d = Some (d'\<lparr>di_valid := True, di_saved_key := []\<rparr>)"
      using turn by (subst FindNextUserEntry.simps) auto
    then show ?thesis
      using shown_list_rank [OF True less.prems(4)] same less.prems(3) by (simp add: db_pos_def db_base_def)
  next
    case False
    obtain skipping' d'' where t: "find_next_turn it skipping d = Some (False, skipping', d'')" "next_inv (Suc i) skipping' (di_saved_key d'')"
      and dd: "db_base c seq d''" "di_direction d'' = kForward" "di_iter d'' = di_iter d"
    proof (cases "seen i")
      case seen: True
      show ?thesis
      proof (cases "e_type (es ! i) = kTypeDeletion")
        case True
        then show ?thesis
          using that [of True "d'\<lparr>di_saved_key := u i\<rparr>"] turn seen next_inv_after [OF less.prems(4) seen] same by (simp add: db_base_def)
      next
        case type: False
        have ty: "e_type (es ! i) = kTypeValue" using type by (cases "e_type (es ! i)") simp_all
        have h: "skipping \<and> Compare c (u i) (di_saved_key d) \<le> 0"
          using next_inv_shown [OF less.prems(5,4) seen] False ty by blast
        then show ?thesis
          using that [of skipping d'] turn seen type next_inv_hidden [OF less.prems(5,4) seen] same by simp
      qed
    next
      case not_seen: False
      then show ?thesis using that [of skipping d'] turn next_inv_unseen [OF less.prems(5) not_seen] same by simp
    qed
    obtain s where s: "iter_Next it (di_iter d) = Some s" "pos s (Suc i)" using inner.pos_Next [OF less.prems(3,4)] by blast
    have rank: "rank (Suc i) = rank i" using False by (simp add: shown_rank_Suc)
    show ?thesis
    proof (cases "Suc i < length es")
      case True
      have "\<exists>d'. FindNextUserEntry it skipping' (d''\<lparr>di_iter := s\<rparr>) = Some d' \<and> dpos d' (rank (Suc i))"
        by (rule less.hyps) (use True s(2) dd t(2) in \<open>auto simp: db_base_def\<close>)
      then show ?thesis using t(1) dd(3) s inner.pos_Valid [OF s(2)] True rank by (subst FindNextUserEntry.simps) simp
    next
      case last: False
      then have "rank i = length view" using less.prems(4) rank shown_rank_all [of c seq es] by (metis Suc_leI le_less_linear le_antisym not_less)
      then show ?thesis
        using t(1) dd s inner.pos_Valid [OF s(2)] last by (subst FindNextUserEntry.simps) (auto simp: db_pos_def db_base_def)
    qed
  qed
qed

text \<open>Back to an entry that is shown from the seen entry before it, and past it.\<close>

lemma FindNext_past:
  assumes "db_base c seq d" and "di_direction d = kForward" and "pos (di_iter d) b" and "b \<le> i" and "i < length es" and "sh i"
    and "\<And>k. \<lbrakk>b \<le> k; k < i\<rbrakk> \<Longrightarrow> \<not> seen k" and "di_saved_key d = u i"
  shows "\<exists>d'. FindNextUserEntry it True d = Some d' \<and> dpos d' (rank (Suc i))"
  using assms(1,2,3,4,7,8)
proof (induction "i - b" arbitrary: b d)
  case 0
  then have b: "b = i" by simp
  have i: "seen i" "e_type (es ! i) \<noteq> kTypeDeletion" "Compare c (u i) (u i) = 0" using assms(6) cmp_refl [OF u_valid [OF assms(5)]] by (auto simp: shown_def)
  obtain d' where d': "sampled d d'" and turn: "find_next_turn it True d = Some (False, True, d')"
    using find_next_turn_run [OF 0(2) 0(4), of True] i 0(7) assms(5) by (auto simp: b)
  have same: "di_iter d' = di_iter d" "di_direction d' = kForward" "di_saved_key d' = u i" "db_base c seq d'"
    using d' 0(3,7) db_base_sampled [OF 0(2) d'] by (simp_all add: sampled_def)
  obtain s where s: "iter_Next it (di_iter d) = Some s" "pos s (Suc i)" using inner.pos_Next 0(4) assms(5) b by blast
  show ?case
  proof (cases "Suc i < length es")
    case True
    have "\<exists>d''. FindNextUserEntry it True (d'\<lparr>di_iter := s\<rparr>) = Some d'' \<and> dpos d'' (rank (Suc i))"
      by (rule FindNext_run) (use True s(2) same next_inv_after [OF assms(5) i(1)] in \<open>auto simp: db_base_def\<close>)
    then show ?thesis using turn same(1) s inner.pos_Valid [OF s(2)] True by (subst FindNextUserEntry.simps) simp
  next
    case False
    then have "rank (Suc i) = length view" using assms(5) shown_rank_all [of c seq es] by (metis Suc_leI le_less_linear le_antisym not_less)
    then show ?thesis using turn same s inner.pos_Valid [OF s(2)] False by (subst FindNextUserEntry.simps) (auto simp: db_pos_def db_base_def)
  qed
next
  case (Suc n)
  then have b: "b < i" "\<not> seen b" by auto
  obtain d' where d': "sampled d d'" and turn: "find_next_turn it True d = Some (False, True, d')"
    using find_next_turn_run [OF Suc(3,5), of True] b assms(5) by auto
  have same: "di_iter d' = di_iter d" "di_direction d' = kForward" "di_saved_key d' = u i" "db_base c seq d'"
    using d' Suc(4,8) db_base_sampled [OF Suc(3) d'] by (simp_all add: sampled_def)
  obtain s where s: "iter_Next it (di_iter d) = Some s" "pos s (Suc b)" using inner.pos_Next Suc(5) assms(5) b by (meson less_trans)
  have "\<exists>d''. FindNextUserEntry it True (d'\<lparr>di_iter := s\<rparr>) = Some d'' \<and> dpos d'' (rank (Suc i))"
    by (rule Suc.hyps(1)) (use Suc.hyps(2) Suc.prems(5) b s(2) same in \<open>auto simp: db_base_def\<close>)
  then show ?case using turn same(1) s inner.pos_Valid [OF s(2)] b assms(5) by (subst FindNextUserEntry.simps) simp
qed

subsection \<open>Moving back\<close>

lemma find_prev_turn_run:
  assumes d: "db_base c seq d" and i: "pos (di_iter d) i" "i < length es"
  shows "\<exists>d'. sampled d d' \<and> find_prev_turn it vt d = Some
    (if seen i then
       if vt \<noteq> kTypeDeletion \<and> Compare c (u i) (di_saved_key d) < 0 then (True, vt, d')
       else if e_type (es ! i) = kTypeDeletion then (False, kTypeDeletion, d'\<lparr>di_saved_key := [], di_saved_value := []\<rparr>)
       else (False, kTypeValue, d'\<lparr>di_saved_key := u i, di_saved_value := snd (es ! i)\<rparr>)
     else (False, vt, d'))"
proof -
  have "seed_ok (di_rnd d)" using d by (simp add: db_base_def)
  moreover have "ParseInternalKey (iter_key it (di_iter d)) = Some \<lparr>pik_user_key = u i, pik_sequence = e_seq (es ! i), pik_type = e_type (es ! i)\<rparr>"
    using inner.pos_key [OF i] parse_nth [OF i(2)] by simp
  ultimately obtain d' where "ParseKey it d = Some (Some \<lparr>pik_user_key = u i, pik_sequence = e_seq (es ! i), pik_type = e_type (es ! i)\<rparr>, d')"
    "sampled d d'" using ParseKey_run by blast
  moreover have "ExtractUserKey (iter_key it (di_iter d)) = u i" "iter_value it (di_iter d) = snd (es ! i)"
    using inner.pos_key [OF i] inner.pos_value [OF i] by (simp_all add: e_user_def)
  ultimately show ?thesis using d
    by (intro exI [of _ d']) (cases "e_type (es ! i)"; auto simp: find_prev_turn_def db_base_def sampled_def ClearSavedValue_def)
qed

text \<open>The entry the backward loop has saved at \<open>j\<close>: a seen value with nothing seen between.\<close>

abbreviation "candidate j i d \<equiv>
  j < i \<and> i < length es \<and> seen i \<and> e_type (es ! i) = kTypeValue \<and> (\<forall>k. j < k \<longrightarrow> k < i \<longrightarrow> \<not> seen k) \<and>
  di_saved_key d = u i \<and> di_saved_value d = snd (es ! i)"

lemma prev_found_candidate:
  assumes "db_base c seq d" and "di_direction d = kReverse" and "i < length es" and "sh i" and "di_saved_key d = u i"
    and "di_saved_value d = snd (es ! i)" and "pos (di_iter d) (prev_seen seq es i)"
  shows "prev_found (Suc i) kTypeValue d"
  using assms shown_list_rank [OF assms(4,3)] by (simp add: shown_rank_Suc prev_result_def)

lemma hidden_candidate:
  assumes "j < i" "i < length es" "seen j" "\<not> Compare c (u j) (u i) < 0" and "\<And>k. \<lbrakk>j < k; k < i\<rbrakk> \<Longrightarrow> \<not> seen k"
  shows "rank (Suc i) = rank (Suc j)"
proof -
  have "Compare c (u j) (u i) = 0" using u_le [of j i] assms(1,2,4) by simp
  then have "\<not> sh i" using assms(1,3) by (auto simp: shown_def)
  moreover have "\<not> sh k" if "j < k" "k < i" for k using assms(5) [OF that] by (simp add: shown_def)
  ultimately show ?thesis using assms(1) by (intro shown_rank_skip) (auto simp: less_Suc_eq Suc_le_eq)
qed

lemma find_prev_run:
  assumes "db_base c seq d" and "di_direction d = kReverse" and "pos (di_iter d) j" and "j < length es"
    and "if vt = kTypeDeletion then m = Suc j else \<exists>i. candidate j i d \<and> m = Suc i"
  shows "\<exists>vt' d'. find_prev_loop it vt d = Some (vt', d') \<and> prev_found m vt' d'"
  using assms
proof (induction j arbitrary: d vt m rule: less_induct)
  case (less j)
  let ?res = "\<lambda>d'. if seen j then
       if vt \<noteq> kTypeDeletion \<and> Compare c (u j) (di_saved_key d) < 0 then (True, vt, d')
       else if e_type (es ! j) = kTypeDeletion then (False, kTypeDeletion, d'\<lparr>di_saved_key := [], di_saved_value := []\<rparr>)
       else (False, kTypeValue, d'\<lparr>di_saved_key := u j, di_saved_value := snd (es ! j)\<rparr>)
     else (False, vt, d')"
  obtain d1 where d1: "sampled d d1" and turn: "find_prev_turn it vt d = Some (?res d1)" using find_prev_turn_run [OF less.prems(1,3,4)] by blast
  have same: "di_iter d1 = di_iter d" "di_direction d1 = kReverse" "di_saved_key d1 = di_saved_key d" "di_saved_value d1 = di_saved_value d"
    "db_base c seq d1" using d1 less.prems(2) db_base_sampled [OF less.prems(1) d1] by (simp_all add: sampled_def)
  have step: "\<exists>vt' d'. find_prev_loop it vt d = Some (vt', d') \<and> prev_found m vt' d'"
    if t: "find_prev_turn it vt d = Some (False, vt1, d2)" and d2: "di_iter d2 = di_iter d" "di_direction d2 = kReverse" "db_base c seq d2"
      and m: "vt1 = kTypeDeletion \<Longrightarrow> rank m = rank j"
        "vt1 \<noteq> kTypeDeletion \<Longrightarrow> \<exists>i \<ge> j. i < length es \<and> seen i \<and> e_type (es ! i) = kTypeValue \<and> (\<forall>k. j \<le> k \<longrightarrow> k < i \<longrightarrow> \<not> seen k) \<and>
           di_saved_key d2 = u i \<and> di_saved_value d2 = snd (es ! i) \<and> rank m = rank (Suc i)" for vt1 d2
  proof -
    obtain s where s: "iter_Prev it (di_iter d) = Some s" "pos s (prev_pos (length es) j)" using inner.pos_Prev [OF less.prems(3,4)] by blast
    show ?thesis
    proof (cases j)
      case 0
      then have "\<not> iter_Valid it s" using inner.pos_Valid [OF s(2)] by (simp add: prev_pos_def)
      then have loop: "find_prev_loop it vt d = Some (vt1, d2\<lparr>di_iter := s\<rparr>)" using t d2(1) s(1) by (subst find_prev_loop.simps) simp
      show ?thesis
      proof (cases "vt1 = kTypeDeletion")
        case True
        then show ?thesis using loop m(1) 0 s(2) d2 by (auto simp: db_base_def prev_result_def)
      next
        case False
        then obtain i where i: "i < length es" "seen i" "e_type (es ! i) = kTypeValue" "\<forall>k < i. \<not> seen k" "di_saved_key d2 = u i"
          "di_saved_value d2 = snd (es ! i)" "rank m = rank (Suc i)" using m(2) 0 by auto
        have "sh i" using i by (simp add: shown_def)
        moreover have "prev_seen seq es i = length es" using i(4) prev_seen_none by blast
        ultimately have "prev_found (Suc i) kTypeValue (d2\<lparr>di_iter := s\<rparr>)"
          using i d2 s(2) 0 by (intro prev_found_candidate) (auto simp: db_base_def prev_pos_def)
        moreover have "vt1 = kTypeValue" using False by (cases vt1) simp_all
        ultimately show ?thesis using loop i(7) by simp
      qed
    next
      case (Suc l)
      then have l: "l < j" "l < length es" "pos s l" "iter_Valid it s" using less.prems(4) s(2) inner.pos_Valid [OF s(2)] by (simp_all add: prev_pos_def)
      then have loop: "find_prev_loop it vt d = find_prev_loop it vt1 (d2\<lparr>di_iter := s\<rparr>)" using t d2(1) s(1) by (subst find_prev_loop.simps) simp
      show ?thesis
      proof (cases "vt1 = kTypeDeletion")
        case True
        have "\<exists>vt' d'. find_prev_loop it vt1 (d2\<lparr>di_iter := s\<rparr>) = Some (vt', d') \<and> prev_found (Suc l) vt' d'"
          by (rule less.IH [OF l(1)]) (use l d2 True in \<open>auto simp: db_base_def\<close>)
        then show ?thesis using loop m(1) [OF True] Suc by simp
      next
        case False
        then obtain i where i: "i \<ge> j" "i < length es" "seen i" "e_type (es ! i) = kTypeValue" "\<forall>k. j \<le> k \<longrightarrow> k < i \<longrightarrow> \<not> seen k" "di_saved_key d2 = u i"
          "di_saved_value d2 = snd (es ! i)" "rank m = rank (Suc i)" using m(2) by auto
        have "candidate l i (d2\<lparr>di_iter := s\<rparr>)" using i Suc by auto
        then have "\<exists>vt' d'. find_prev_loop it vt1 (d2\<lparr>di_iter := s\<rparr>) = Some (vt', d') \<and> prev_found (Suc i) vt' d'"
          by (intro less.IH [OF l(1)]) (use l d2 False in \<open>auto simp: db_base_def\<close>)
        then show ?thesis using loop i(8) by simp
      qed
    qed
  qed
  show ?case
  proof (cases "seen j")
    case False
    then have t: "find_prev_turn it vt d = Some (False, vt, d1)" using turn by simp
    show ?thesis
    proof (rule step [OF t same(1,2,5)])
      show "rank m = rank j" if "vt = kTypeDeletion" using less.prems(5) that False by (simp add: shown_rank_Suc shown_def)
      show "\<exists>i \<ge> j. i < length es \<and> seen i \<and> e_type (es ! i) = kTypeValue \<and> (\<forall>k. j \<le> k \<longrightarrow> k < i \<longrightarrow> \<not> seen k) \<and>
          di_saved_key d1 = u i \<and> di_saved_value d1 = snd (es ! i) \<and> rank m = rank (Suc i)" if vt: "vt \<noteq> kTypeDeletion"
      proof -
        obtain i where "candidate j i d" "m = Suc i" using less.prems(5) vt by auto
        then show ?thesis using False same(3,4) by (intro exI [of _ i]) (auto simp: le_less)
      qed
    qed
  next
    case seen: True
    show ?thesis
    proof (cases "vt \<noteq> kTypeDeletion \<and> Compare c (u j) (di_saved_key d) < 0")
      case True
      then obtain i where i: "candidate j i d" "m = Suc i" using less.prems(5) by auto
      have lt: "Compare c (u j) (u i) < 0" using True i by simp
      have "Compare c (u k) (u i) \<noteq> 0" if "k < i" "seen k" for k
      proof -
        have "k \<le> j" using i that by (meson not_le)
        then have "Compare c (u k) (u i) < 0" using cmp_le_less_trans [OF u_valid u_valid u_valid u_le lt] i less.prems(4) by simp
        then show ?thesis by simp
      qed
      then have "sh i" using i by (simp add: shown_def)
      moreover have "prev_seen seq es i = j" using i seen by (intro prev_seen_some) auto
      ultimately have "prev_found (Suc i) kTypeValue d1"
        using i same less.prems(3) by (intro prev_found_candidate) simp_all
      moreover have "find_prev_loop it vt d = Some (vt, d1)" using turn seen True by (subst find_prev_loop.simps) simp
      moreover have "vt = kTypeValue" using True by (cases vt) simp_all
      ultimately show ?thesis using i by simp
    next
      case go: False
      have m: "rank m = rank (Suc j)"
      proof (cases "vt = kTypeDeletion")
        case False
        then obtain i where i: "candidate j i d" "m = Suc i" using less.prems(5) by auto
        then show ?thesis using hidden_candidate [of j i] seen go False by simp
      qed (use less.prems(5) in simp)
      show ?thesis
      proof (cases "e_type (es ! j) = kTypeDeletion")
        case True
        then have "find_prev_turn it vt d = Some (False, kTypeDeletion, d1\<lparr>di_saved_key := [], di_saved_value := []\<rparr>)" using turn seen go by auto
        then show ?thesis by (rule step) (use same m True in \<open>auto simp: db_base_def shown_rank_Suc shown_def\<close>)
      next
        case False
        then have "find_prev_turn it vt d = Some (False, kTypeValue, d1\<lparr>di_saved_key := u j, di_saved_value := snd (es ! j)\<rparr>)" using turn seen go by auto
        moreover have "e_type (es ! j) = kTypeValue" using False by (cases "e_type (es ! j)") simp_all
        ultimately show ?thesis by (elim step) (use same m seen less.prems(4) in \<open>auto simp: db_base_def\<close>)
      qed
    qed
  qed
qed

lemma FindPrev_run:
  assumes "db_base c seq d" and "di_direction d = kReverse" and "pos (di_iter d) j"
    and "r = (if j < length es then rank (Suc j) else 0)"
  shows "\<exists>d'. FindPrevUserEntry it d = Some d' \<and> dpos d' (prev_pos (length view) r)"
proof (cases "j < length es")
  case True
  obtain vt d' where "find_prev_loop it kTypeDeletion d = Some (vt, d')" "prev_found (Suc j) vt d'"
    using find_prev_run [OF assms(1-3) True, of kTypeDeletion "Suc j"] by auto
  moreover have "rank (Suc j) \<le> length view"
    using True shown_rank_all [of c seq es] by (simp add: shown_rank_def shown_list_def upt_split [OF True])
  ultimately show ?thesis using True assms(4) inner.pos_Valid [OF assms(3)]
    by (auto simp: FindPrevUserEntry_def prev_result_def db_pos_def db_base_def ClearSavedValue_def prev_pos_def split: if_splits)
next
  case False
  then show ?thesis using assms inner.pos_Valid [OF assms(3)]
    by (auto simp: FindPrevUserEntry_def db_pos_def db_base_def ClearSavedValue_def prev_pos_def)
qed

lemma scan_back_run:
  assumes "pos s m" and "m \<le> i" and "i < length es" and "\<And>k. \<lbrakk>m \<le> k; k < i\<rbrakk> \<Longrightarrow> \<not> Compare c (u k) (u i) < 0"
  shows "\<exists>s' g. scan_back it c (u i) s = Some s' \<and> g \<le> i \<and> (\<forall>k. g \<le> k \<longrightarrow> k < i \<longrightarrow> \<not> Compare c (u k) (u i) < 0) \<and>
    pos s' (prev_pos (length es) g)"
  using assms(1,2,4)
proof (induction m arbitrary: s)
  case 0
  have "0 < length es" using assms(3) by linarith
  then obtain s' where s': "iter_Prev it s = Some s'" "pos s' (prev_pos (length es) 0)" using inner.pos_Prev [OF 0(1)] by blast
  then have "\<not> iter_Valid it s'" using inner.pos_Valid [OF s'(2)] by (simp add: prev_pos_def)
  then have "scan_back it c (u i) s = Some s'" using s'(1) by (subst scan_back.simps) simp
  with 0(3) s'(2) show ?case by (intro exI [of _ s'] exI [of _ 0]) simp
next
  case (Suc m)
  have m: "m < length es" "Suc m < length es" using Suc(3) assms(3) by simp_all
  obtain s' where s': "iter_Prev it s = Some s'" "pos s' m" using inner.pos_Prev [OF Suc(2) m(2)] by (auto simp: prev_pos_def)
  have key: "ExtractUserKey (iter_key it s') = u m" "iter_Valid it s'" using inner.pos_key [OF s'(2) m(1)] inner.pos_Valid [OF s'(2)] m(1) by (simp_all add: e_user_def)
  show ?case
  proof (cases "Compare c (u m) (u i) < 0")
    case True
    then have "scan_back it c (u i) s = Some s'" using s'(1) key by (subst scan_back.simps) simp
    with Suc(3,4) s'(2) show ?thesis by (intro exI [of _ s'] exI [of _ "Suc m"]) (simp add: prev_pos_def)
  next
    case False
    then have "scan_back it c (u i) s = scan_back it c (u i) s'" using s'(1) key by (subst scan_back.simps) simp
    moreover have "\<not> Compare c (u k) (u i) < 0" if "m \<le> k" "k < i" for k using Suc(4) [of k] that False by (cases "k = m") auto
    ultimately show ?thesis using Suc.IH [OF s'(2)] Suc(3) by simp
  qed
qed

subsection \<open>The movements of the iterator\<close>

lemma db_pos_some: "dpos d v \<Longrightarrow> \<exists>j. pos (di_iter d) j"
  by (auto simp: db_pos_def split: if_splits)

lemma db_pos_base: "dpos d v \<Longrightarrow> db_base c seq d"
  by (simp add: db_pos_def)

lemma db_pos_end: "\<lbrakk>db_base c seq d; pos (di_iter d) j; \<not> di_valid d\<rbrakk> \<Longrightarrow> dpos d (length view)"
  by (auto simp: db_pos_def)

lemma DBIter_SeekToFirst_pos:
  assumes "dpos d v"
  shows "\<exists>d'. DBIter_SeekToFirst it d = Some d' \<and> dpos d' 0"
proof -
  obtain j where "pos (di_iter d) j" using db_pos_some [OF assms] by blast
  then obtain s where s: "iter_SeekToFirst it (di_iter d) = Some s" "pos s 0" using inner.pos_SeekToFirst by blast
  let ?d = "d\<lparr>di_direction := kForward, di_saved_value := [], di_iter := s\<rparr>"
  have b: "db_base c seq ?d" using db_pos_base [OF assms] by (simp add: db_base_def)
  show ?thesis
  proof (cases "0 < length es")
    case True
    have "\<exists>d'. FindNextUserEntry it False ?d = Some d' \<and> dpos d' (rank 0)"
      by (rule FindNext_run [OF b]) (use s True in \<open>auto simp: next_hides_def\<close>)
    then show ?thesis using s inner.pos_Valid [OF s(2)] True by (simp add: DBIter_SeekToFirst_def ClearSavedValue_def)
  next
    case False
    then have "length view = 0" by (simp add: shown_list_def)
    then show ?thesis using s inner.pos_Valid [OF s(2)] False db_pos_end [of "?d\<lparr>di_valid := False\<rparr>" 0] b
      by (simp add: DBIter_SeekToFirst_def ClearSavedValue_def db_base_def)
  qed
qed

lemma DBIter_SeekToLast_pos:
  assumes "dpos d v"
  shows "\<exists>d'. DBIter_SeekToLast it d = Some d' \<and> dpos d' (prev_pos (length view) (length view))"
proof -
  obtain j where "pos (di_iter d) j" using db_pos_some [OF assms] by blast
  then obtain s where s: "iter_SeekToLast it (di_iter d) = Some s" "pos s (prev_pos (length es) (length es))" using inner.pos_SeekToLast by blast
  let ?d = "d\<lparr>di_direction := kReverse, di_saved_value := [], di_iter := s\<rparr>"
  have b: "db_base c seq ?d" using db_pos_base [OF assms] by (simp add: db_base_def)
  have "length view = (if prev_pos (length es) (length es) < length es then rank (Suc (prev_pos (length es) (length es))) else 0)"
    by (cases es) (simp_all add: prev_pos_def shown_list_def shown_rank_def)
  from FindPrev_run [OF b _ _ this] s show ?thesis by (simp add: DBIter_SeekToLast_def ClearSavedValue_def)
qed

lemma DBIter_Next_pos:
  assumes d: "dpos d v" and v: "v < length view"
  shows "\<exists>d'. DBIter_Next it d = Some d' \<and> dpos d' (Suc v)"
proof -
  let ?i = "view ! v"
  note i = shown_list_nth [OF v]
  have seen_i: "seen ?i" using i(1) by (simp add: shown_def)
  have val: "di_valid d" and b: "db_base c seq d" using d v by (simp_all add: db_pos_def)
  have rank: "rank (Suc ?i) = Suc v" using i by (simp add: shown_rank_Suc)
  show ?thesis
  proof (cases "di_direction d = kForward")
    case True
    then have p: "pos (di_iter d) ?i" using d v by (simp add: db_pos_def)
    obtain s where s: "iter_Next it (di_iter d) = Some s" "pos s (Suc ?i)" using inner.pos_Next [OF p i(2)] by blast
    let ?d = "d\<lparr>di_saved_key := u ?i, di_iter := s\<rparr>"
    have key: "ExtractUserKey (iter_key it (di_iter d)) = u ?i" using inner.pos_key [OF p i(2)] by (simp add: e_user_def)
    show ?thesis
    proof (cases "Suc ?i < length es")
      case more: True
      have "\<exists>d'. FindNextUserEntry it True ?d = Some d' \<and> dpos d' (rank (Suc ?i))"
        by (rule FindNext_run) (use b True s more next_inv_after [OF i(2) seen_i] in \<open>auto simp: db_base_def\<close>)
      then show ?thesis using s val True key inner.pos_Valid [OF s(2)] more rank by (simp add: DBIter_Next_def)
    next
      case last: False
      then have "Suc v = length view" using rank shown_rank_all [of c seq es] i(2) by (metis Suc_leI le_less_linear le_antisym not_less)
      then show ?thesis using s val True key inner.pos_Valid [OF s(2)] last b db_pos_end [of "?d\<lparr>di_valid := False, di_saved_key := []\<rparr>" "Suc ?i"]
        by (simp add: DBIter_Next_def db_base_def)
    qed
  next
    case False
    then have r: "di_direction d = kReverse" by (cases "di_direction d") simp_all
    have saved: "di_saved_key d = u ?i" and p: "pos (di_iter d) (prev_seen seq es ?i)" using d v False by (simp_all add: db_pos_def)
    obtain s k where s: "(if \<not> iter_Valid it (di_iter d) then iter_SeekToFirst it (di_iter d) else iter_Next it (di_iter d)) = Some s"
      "pos s k" "k \<le> ?i" "\<And>l. \<lbrakk>k \<le> l; l < ?i\<rbrakk> \<Longrightarrow> \<not> seen l"
    proof (cases rule: prev_seen_cases [of seq es ?i])
      case none
      then show ?thesis using that [of _ 0] p inner.pos_SeekToFirst [OF p] inner.pos_Valid [OF p] by auto
    next
      case (some l)
      have "l < length es" using some(2) i(2) by simp
      then show ?thesis using that [of _ "Suc l"] p inner.pos_Next [OF p] inner.pos_Valid [OF p] some by auto
    qed
    have "iter_Valid it s" using inner.pos_Valid [OF s(2)] s(3) i(2) by simp
    moreover have "\<exists>d'. FindNextUserEntry it True (d\<lparr>di_direction := kForward, di_iter := s\<rparr>) = Some d' \<and> dpos d' (rank (Suc ?i))"
      by (rule FindNext_past [of _ k]) (use b s i saved in \<open>auto simp: db_base_def\<close>)
    ultimately show ?thesis using val r s(1) rank by (simp add: DBIter_Next_def)
  qed
qed

lemma DBIter_Prev_pos:
  assumes d: "dpos d v" and v: "v < length view"
  shows "\<exists>d'. DBIter_Prev it d = Some d' \<and> dpos d' (prev_pos (length view) v)"
proof -
  let ?i = "view ! v"
  note i = shown_list_nth [OF v]
  have val: "di_valid d" and b: "db_base c seq d" using d v by (simp_all add: db_pos_def)
  show ?thesis
  proof (cases "di_direction d = kForward")
    case True
    then have p: "pos (di_iter d) ?i" using d v by (simp add: db_pos_def)
    have key: "ExtractUserKey (iter_key it (di_iter d)) = u ?i" using inner.pos_key [OF p i(2)] by (simp add: e_user_def)
    obtain s g where s: "scan_back it c (u ?i) (di_iter d) = Some s" "g \<le> ?i" "\<forall>k. g \<le> k \<longrightarrow> k < ?i \<longrightarrow> \<not> Compare c (u k) (u ?i) < 0"
      "pos s (prev_pos (length es) g)" using scan_back_run [OF p _ i(2)] by auto
    have "\<not> sh k" if "g \<le> k" "k < ?i" for k
    proof
      assume "sh k"
      moreover have "Compare c (u k) (u ?i) = 0" using u_le [of k ?i] s(3) that i(2) by fastforce
      ultimately show False using i(1) that by (auto simp: shown_def)
    qed
    then have rank: "rank g = v" using shown_rank_skip [OF s(2)] i(3) by metis
    let ?d = "d\<lparr>di_saved_key := u ?i, di_iter := s\<rparr>"
    show ?thesis
    proof (cases g)
      case 0
      then have "v = 0" "\<not> iter_Valid it s" using rank inner.pos_Valid [OF s(4)] by (simp_all add: prev_pos_def)
      then show ?thesis using val True key s(1,4) b db_pos_end [of "?d\<lparr>di_valid := False, di_saved_key := [], di_saved_value := []\<rparr>"]
        by (auto simp: DBIter_Prev_def Let_def ClearSavedValue_def db_base_def prev_pos_def)
    next
      case (Suc l)
      then have l: "pos s l" "l < length es" "iter_Valid it s" using s(2,4) i(2) inner.pos_Valid [OF s(4)] by (simp_all add: prev_pos_def)
      have "\<exists>d'. FindPrevUserEntry it (?d\<lparr>di_direction := kReverse\<rparr>) = Some d' \<and> dpos d' (prev_pos (length view) v)"
        by (rule FindPrev_run [of _ l]) (use b l rank Suc in \<open>auto simp: db_base_def\<close>)
      then show ?thesis using val True key s(1) l b by (simp add: DBIter_Prev_def Let_def db_base_def)
    qed
  next
    case False
    then have r: "di_direction d = kReverse" by (cases "di_direction d") simp_all
    have p: "pos (di_iter d) (prev_seen seq es ?i)" using d v False by (simp add: db_pos_def)
    have "v = (if prev_seen seq es ?i < length es then rank (Suc (prev_seen seq es ?i)) else 0)"
    proof (cases rule: prev_seen_cases [of seq es ?i])
      case none
      then have "\<not> sh k" if "k < ?i" for k using that by (simp add: shown_def)
      then show ?thesis using none(1) shown_rank_skip [of 0 ?i c seq es] i(3) by simp
    next
      case (some l)
      then have "\<not> sh k" if "Suc l \<le> k" "k < ?i" for k using that by (simp add: shown_def)
      then show ?thesis using some(1,2) shown_rank_skip [of "Suc l" ?i c seq es] i(2,3) by simp
    qed
    from FindPrev_run [OF b r p this] show ?thesis using val r by (simp add: DBIter_Prev_def)
  qed
qed

lemma below_seek_key:
  assumes "valid t" and "i < length es"
  shows "i < entries_below (InternalKeyComparator c) (NewInternalKey t seq kTypeValue) es \<longleftrightarrow>
    Compare c (u i) t < 0 \<or> Compare c (u i) t = 0 \<and> \<not> seen i"
proof -
  have v: "valid_internal valid (NewInternalKey t seq kTypeValue)" using assms(1) by (simp add: valid_internal_def)
  note tag = parsed_tag [OF parse_nth [OF assms(2)], simplified]
  have "PackSequenceAndType seq kTypeValue < internal_tag (fst (es ! i)) \<longleftrightarrow> \<not> seen i"
    using Pack_less_iff [OF seq_max tag(2), of kTypeValue "e_type (es ! i)"] tag(1) by (cases "e_type (es ! i)") auto
  moreover have "internal_compare c (fst (es ! i)) (NewInternalKey t seq kTypeValue) < 0 \<longleftrightarrow>
      i < entries_below (InternalKeyComparator c) (NewInternalKey t seq kTypeValue) es"
    using internal.entries_below_nth [OF inner.es_ascending _ v assms(2)] inner.es_valid by (simp add: InternalKeyComparator_def)
  ultimately show ?thesis by (simp add: internal_compare_iff e_user_def)
qed

lemma entries_below_view:
  assumes t: "valid t"
  shows "entries_below c t (user_view c seq es) = rank (entries_below (InternalKeyComparator c) (NewInternalKey t seq kTypeValue) es)"
proof -
  let ?j = "entries_below (InternalKeyComparator c) (NewInternalKey t seq kTypeValue) es"
  have j: "?j \<le> length es" by (rule entries_below_le)
  have "Compare c (u i) t < 0 \<longleftrightarrow> i < ?j" if "i < length es" "sh i" for i
    using below_seek_key [OF t that(1)] that(2) by (auto simp: shown_def)
  then have "filter (\<lambda>i. Compare c (u i) t < 0) view = filter (\<lambda>i. i < ?j) view" by (intro filter_cong) (auto simp: shown_list_def)
  also have "[0..<length es] = [0..<?j] @ [?j..<length es]" using j by (metis le_add_diff_inverse upt_add_eq_append zero_le)
  then have "filter (\<lambda>i. i < ?j) view = filter sh [0..<?j]"
    by (auto simp: shown_list_def filter_empty_conv intro!: filter_cong)
  finally show ?thesis by (simp add: entries_below_def user_view_def filter_map o_def shown_rank_def)
qed

lemma DBIter_Seek_pos:
  assumes d: "dpos d v" and t: "valid t"
  shows "\<exists>d'. DBIter_Seek it t d = Some d' \<and> dpos d' (entries_below c t (user_view c seq es))"
proof -
  let ?k = "NewInternalKey t seq kTypeValue" and ?j = "entries_below (InternalKeyComparator c) (NewInternalKey t seq kTypeValue) es"
  obtain j where "pos (di_iter d) j" using db_pos_some [OF d] by blast
  moreover have "valid_internal valid ?k" using t by (simp add: valid_internal_def)
  ultimately obtain s where s: "iter_Seek it ?k (di_iter d) = Some s" "pos s ?j" using inner.pos_Seek by blast
  let ?d = "d\<lparr>di_direction := kForward, di_saved_value := [], di_saved_key := ?k, di_iter := s\<rparr>"
  have b: "db_base c seq ?d" using db_pos_base [OF d] by (simp add: db_base_def)
  have key: "AppendInternalKey [] \<lparr>pik_user_key = t, pik_sequence = di_sequence d, pik_type = kValueTypeForSeek\<rparr> = ?k"
    using db_pos_base [OF d] by (simp add: NewInternalKey_def kValueTypeForSeek_def db_base_def)
  show ?thesis
  proof (cases "?j < length es")
    case True
    have "next_inv ?j False ?k"
      unfolding next_hides_def
    proof (intro allI impI)
      fix k assume k: "?j \<le> k" "k < length es" "seen k"
      have "Compare c (u l) (u k) \<noteq> 0" if l: "l < ?j" "seen l" for l
      proof -
        have "Compare c (u l) t < 0" using below_seek_key [OF t, of l] l k by simp
        moreover have "Compare c t (u k) \<le> 0" using below_seek_key [OF t k(2)] k cmp_le_iff [OF t u_valid [OF k(2)]] by simp
        ultimately have "Compare c (u l) (u k) < 0" using cmp_less_trans [of "u l" t "u k"] u_valid t l k by simp
        then show ?thesis by simp
      qed
      then show "(\<exists>l < ?j. seen l \<and> Compare c (u l) (u k) = 0) \<longleftrightarrow> False \<and> Compare c (u k) ?k \<le> 0" by blast
    qed
    then have "\<exists>d'. FindNextUserEntry it False ?d = Some d' \<and> dpos d' (rank ?j)" by (intro FindNext_run [OF b]) (use s True in auto)
    then show ?thesis using s inner.pos_Valid [OF s(2)] True key entries_below_view [OF t]
      by (simp add: DBIter_Seek_def Let_def ClearSavedValue_def)
  next
    case False
    then have "rank ?j = length view"
      using entries_below_le [of "InternalKeyComparator c" ?k es] shown_rank_all [of c seq es] by (metis le_antisym not_less)
    then show ?thesis using s inner.pos_Valid [OF s(2)] False key entries_below_view [OF t] b db_pos_end [of "?d\<lparr>di_valid := False\<rparr>" ?j]
      by (simp add: DBIter_Seek_def Let_def ClearSavedValue_def db_base_def)
  qed
qed

lemma view_ascending: "ascending c (user_view c seq es)"
proof -
  have lt: "Compare c (u i) (u j) < 0" if "i < j" "j < length es" "sh i" "sh j" for i j
    using u_le [of i j] that by (fastforce simp: shown_def)
  have "sorted_wrt (<) view" by (simp add: shown_list_def sorted_wrt_filter)
  then have "sorted_wrt (\<lambda>i j. Compare c (u i) (u j) < 0) view"
    by (rule sorted_wrt_mono_rel [rotated]) (auto simp: shown_list_def intro: lt)
  then show ?thesis by (simp add: ascending_def user_view_def sorted_wrt_map)
qed

lemma db_iterator_sorted: "sorted_iterator c valid (DBIter_class it) (user_view c seq es) dpos"
proof (intro sorted_iterator.intro [OF comparator_axioms] sorted_iterator_axioms.intro)
  have len: "length (user_view c seq es) = length view" by (simp add: user_view_def)
  fix d v t
  assume d: "dpos d v"
  show "v \<le> length (user_view c seq es)" "iter_Valid (DBIter_class it) d \<longleftrightarrow> v < length (user_view c seq es)"
    using d len by (auto simp: db_pos_def DBIter_class_def split: if_splits)
  show "iter_status (DBIter_class it) d = OK"
    using db_pos_some [OF d] db_pos_base [OF d] inner.pos_status by (auto simp: DBIter_class_def DBIter_status_def db_base_def)
  show "\<exists>d'. iter_SeekToFirst (DBIter_class it) d = Some d' \<and> dpos d' 0"
    using DBIter_SeekToFirst_pos [OF d] by (simp add: DBIter_class_def)
  show "\<exists>d'. iter_SeekToLast (DBIter_class it) d = Some d' \<and> dpos d' (prev_pos (length (user_view c seq es)) (length (user_view c seq es)))"
    using DBIter_SeekToLast_pos [OF d] len by (simp add: DBIter_class_def)
  show "\<exists>d'. iter_Seek (DBIter_class it) t d = Some d' \<and> dpos d' (entries_below c t (user_view c seq es))" if "valid t"
    using DBIter_Seek_pos [OF d that] by (simp add: DBIter_class_def)
  assume "v < length (user_view c seq es)"
  then have v: "v < length view" using len by simp
  note i = shown_list_nth [OF v]
  show "iter_key (DBIter_class it) d = fst (user_view c seq es ! v)" "iter_value (DBIter_class it) d = snd (user_view c seq es ! v)"
    using d v inner.pos_key [OF _ i(2)] inner.pos_value [OF _ i(2)]
    by (auto simp: DBIter_class_def DBIter_key_def DBIter_value_def db_pos_def user_view_def e_user_def)
  show "\<exists>d'. iter_Next (DBIter_class it) d = Some d' \<and> dpos d' (Suc v)" using DBIter_Next_pos [OF d v] by (simp add: DBIter_class_def)
  show "\<exists>d'. iter_Prev (DBIter_class it) d = Some d' \<and> dpos d' (prev_pos (length (user_view c seq es)) v)"
    using DBIter_Prev_pos [OF d v] len by (simp add: DBIter_class_def)
qed (use view_ascending u_valid in \<open>auto simp: user_view_def shown_list_def\<close>)

lemma DBIter_new_pos: "pos s j \<Longrightarrow> dpos (DBIter_new c s seq seed) (length view)"
  using RandomCompactionPeriod_eq(3) [OF seed_ok_new [of seed]]
  by (auto simp: db_pos_def db_base_def DBIter_new_def split_beta)

end

end
