(* ===== verification/MemTableIterator.thy ===== *)
theory MemTableIterator
  imports MemTable DBIterSpec
begin

text \<open>
  The iterator of a memtable gives the iterator contract, and what a database iterator on it shows is what \<open>Get\<close> finds.
\<close>

definition MemIter_class :: "MemTable \<Rightarrow> nat option Iterator" where
  "MemIter_class mem =
     \<lparr>iter_Valid = Iter_Valid, iter_SeekToFirst = (\<lambda>_. Some (MemIter_SeekToFirst mem)), iter_SeekToLast = (\<lambda>_. MemIter_SeekToLast mem),
      iter_Seek = (\<lambda>k _. MemIter_Seek k mem), iter_Next = (\<lambda>s. if Iter_Valid s then Some (MemIter_Next mem s) else None),
      iter_Prev = (\<lambda>s. if Iter_Valid s then MemIter_Prev mem s else None), iter_key = (\<lambda>s. the (MemIter_key mem s)),
      iter_value = (\<lambda>s. the (MemIter_value mem s)), iter_status = (\<lambda>_. OK)\<rparr>"

subsection \<open>The entries of a memtable\<close>

definition entry_pair :: "bytes \<Rightarrow> bytes \<times> bytes" where
  "entry_pair e = (fst (the (entry_slice e)), fst (the (entry_slice (snd (the (entry_slice e))))))"

definition add_pair :: "mem_add \<Rightarrow> bytes \<times> bytes" where
  "add_pair = (\<lambda>(s, t, key, value). (NewInternalKey key s t, value))"

text \<open>The pairs of a memtable after \<open>n\<close> additions.\<close>

definition mem_entries :: "MemTable \<Rightarrow> nat \<Rightarrow> (bytes \<times> bytes) list" where
  "mem_entries mem n = map entry_pair (walk_next (Suc n) (mt_table mem) (Iter_SeekToFirst (mt_table mem)))"

definition mem_pos :: "Comparator \<Rightarrow> (bytes \<Rightarrow> bool) \<Rightarrow> MemTable \<Rightarrow> mem_add list \<Rightarrow> nat option \<Rightarrow> nat \<Rightarrow> bool" where
  "mem_pos c valid mem adds s i \<longleftrightarrow> (\<exists>ns h. sl_inv (KeyComparator c) (valid_entry valid) (mt_table mem) ns h \<and>
     map (\<lambda>x. entry_pair (sl_key (mt_table mem) x)) ns = mem_entries mem (length adds) \<and>
     mset (map (sl_key (mt_table mem)) ns) = mset (map add_entry adds) \<and>
     i \<le> length ns \<and> s = (if i < length ns then Some (ns ! i) else None))"

lemma entry_pair_add: "add_ok valid a \<Longrightarrow> entry_pair (add_entry a) = add_pair a"
  by (cases a) (auto simp: entry_pair_def add_pair_def add_ok_def add_entry_def memtable_entry_slices)

lemma first_opt_drop: "first_opt (drop m ns) = (if m < length ns then Some (ns ! m) else None)"
  by (cases "drop m ns") (auto simp: hd_drop_conv_nth [symmetric] not_less)

lemma last_opt: "(if ns = [] then None else Some (last ns)) = (if prev_pos (length ns) (length ns) < length ns then Some (ns ! prev_pos (length ns) (length ns)) else None)"
  by (auto simp: prev_pos_def last_conv_nth)

lemma add_pair_fields:
  assumes "add_ok valid a"
  shows "e_user (add_pair a) = fst (snd (snd a))" and "e_seq (add_pair a) = fst a" and "e_type (add_pair a) = fst (snd a)"
    and "ParseInternalKey (fst (add_pair a)) \<noteq> None" and "snd (add_pair a) = snd (snd (snd a))"
proof -
  obtain q t key v where a: "a = (q, t, key, v)" by (cases a)
  show "e_user (add_pair a) = fst (snd (snd a))" "snd (add_pair a) = snd (snd (snd a))" by (simp_all add: a add_pair_def e_user_def)
  show "e_seq (add_pair a) = fst a" "e_type (add_pair a) = fst (snd a)" "ParseInternalKey (fst (add_pair a)) \<noteq> None"
    using assms by (simp_all add: a add_pair_def e_seq_def e_type_def add_ok_def NewInternalKey_def)
qed

locale memtable_contents = user_comparator c valid for c valid +
  fixes na :: new_array and mem :: MemTable and adds :: "mem_add list" and seq :: SequenceNumber
  assumes repr: "mt_repr c valid na mem adds" and short: "valid k \<Longrightarrow> length k + 8 < 2 ^ 32" and seq_ok: "seq \<le> kMaxSequenceNumber"
begin

lemma repr_nodes:
  "\<exists>ns h. sl_inv (KeyComparator c) (valid_entry valid) (mt_table mem) ns h \<and>
     map (\<lambda>x. entry_pair (sl_key (mt_table mem) x)) ns = mem_entries mem (length adds) \<and>
     mset (map (sl_key (mt_table mem)) ns) = mset (map add_entry adds)"
proof -
  obtain ks where r: "sl_repr (KeyComparator c) (valid_entry valid) (arena_used na) (mt_table mem) (mt_arena mem) ks" "mset ks = mset (map add_entry adds)"
    using repr by (auto simp: mt_repr_def)
  obtain ns h where inv: "sl_inv (KeyComparator c) (valid_entry valid) (mt_table mem) ns h" "ks = map (sl_key (mt_table mem)) ns"
    using r(1) by (auto simp: sl_repr_def)
  have "length ks = length adds" using r(2) by (metis length_map size_mset)
  then have "walk_next (Suc (length adds)) (mt_table mem) (Iter_SeekToFirst (mt_table mem)) = ks"
    using entries.arena_list.walk_repr [OF r(1)] by simp
  then show ?thesis using inv r(2) by (auto simp: mem_entries_def comp_def simp del: walk_next.simps)
qed

lemma entries_adds: "mset (mem_entries mem (length adds)) = mset (map add_pair adds)"
proof -
  obtain ns h where ns: "map (\<lambda>x. entry_pair (sl_key (mt_table mem) x)) ns = mem_entries mem (length adds)"
    "mset (map (sl_key (mt_table mem)) ns) = mset (map add_entry adds)" using repr_nodes by blast
  have "mset (mem_entries mem (length adds)) = image_mset entry_pair (mset (map (sl_key (mt_table mem)) ns))"
    unfolding ns(1) [symmetric] by (simp add: image_mset.compositionality comp_def flip: mset_map)
  also have "\<dots> = mset (map (\<lambda>a. entry_pair (add_entry a)) adds)" unfolding ns(2) by (simp add: image_mset.compositionality comp_def flip: mset_map)
  also have "map (\<lambda>a. entry_pair (add_entry a)) adds = map add_pair adds"
    using repr entry_pair_add by (auto simp: mt_repr_def list_all_iff)
  finally show ?thesis .
qed

lemma entries_set: "set (mem_entries mem (length adds)) = add_pair ` set adds"
  using entries_adds by (metis list.set_map mset_eq_setD)

lemma adds_ok: "a \<in> set adds \<Longrightarrow> add_ok valid a"
  using repr by (auto simp: mt_repr_def list_all_iff)

lemma seek_nodes:
  assumes inv: "sl_inv (KeyComparator c) (valid_entry valid) (mt_table mem) ns h"
    and es: "map (\<lambda>x. entry_pair (sl_key (mt_table mem) x)) ns = mem_entries mem (length adds)" and t: "valid_internal valid t"
  shows "MemIter_Seek t mem = Some (first_opt (drop (entries_below (InternalKeyComparator c) t (mem_entries mem (length adds))) ns))"
proof -
  let ?sl = "mt_table mem" and ?cmp = "KeyComparator c"
  have len: "length t < 2 ^ 32" using t short [of "ExtractUserKey t"] by (simp add: valid_internal_def ExtractUserKey_def)
  have slice: "entry_slice (EncodeKey t) = Some (t, [])"
    using entry_slice_prefixed [OF len, of "[]"] by (simp add: EncodeKey_def PutVarint32_def)
  then have v: "valid_entry valid (EncodeKey t)" using t by (simp add: valid_entry_def)
  have cmp: "?cmp (sl_key ?sl x) (EncodeKey t) = Compare (InternalKeyComparator c) (fst (entry_pair (sl_key ?sl x))) t" if "x \<in> set ns" for x
  proof -
    have "valid_entry valid (sl_key ?sl x)" using inv that by (simp add: sl_inv_def)
    then obtain k r where "entry_slice (sl_key ?sl x) = Some (k, r)" using valid_entry_slice by blast
    with slice show ?thesis by (simp add: KeyComparator_def entry_pair_def)
  qed
  let ?below = "filter (\<lambda>x. ?cmp (sl_key ?sl x) (EncodeKey t) < 0) ns"
  have "entries_below (InternalKeyComparator c) t (mem_entries mem (length adds)) = length ?below"
    unfolding es [symmetric] entries_below_def using cmp by (simp add: filter_map o_def cong: filter_cong)
  moreover have "ns = ?below @ sl_above ?cmp (EncodeKey t) ?sl ns"
    using entries.inv_split [OF inv v] by (simp add: sl_below_def)
  ultimately have "drop (entries_below (InternalKeyComparator c) t (mem_entries mem (length adds))) ns = sl_above ?cmp (EncodeKey t) ?sl ns"
    by (metis append_eq_conv_conj)
  moreover have "mt_comparator mem = c" using repr by (simp add: mt_repr_def)
  ultimately show ?thesis using entries.arena_list.Iter_run(3) [OF inv v] by (simp add: MemIter_Seek_def)
qed

lemma node_order:
  assumes inv: "sl_inv (KeyComparator c) (valid_entry valid) (mt_table mem) ns h"
    and es: "map (\<lambda>x. entry_pair (sl_key (mt_table mem) x)) ns = mem_entries mem (length adds)"
  shows "ascending (InternalKeyComparator c) (mem_entries mem (length adds))"
proof -
  have "sorted_wrt (\<lambda>x y. KeyComparator c (sl_key (mt_table mem) x) (sl_key (mt_table mem) y) < 0) ns" using inv by (simp add: sl_inv_def)
  then have "sorted_wrt (\<lambda>x y. Compare (InternalKeyComparator c) (fst (entry_pair (sl_key (mt_table mem) x))) (fst (entry_pair (sl_key (mt_table mem) y))) < 0) ns"
  proof (rule sorted_wrt_mono_rel [rotated])
    fix x y assume "x \<in> set ns" "y \<in> set ns" and lt: "KeyComparator c (sl_key (mt_table mem) x) (sl_key (mt_table mem) y) < 0"
    then have "valid_entry valid (sl_key (mt_table mem) x)" "valid_entry valid (sl_key (mt_table mem) y)" using inv by (simp_all add: sl_inv_def)
    then show "Compare (InternalKeyComparator c) (fst (entry_pair (sl_key (mt_table mem) x))) (fst (entry_pair (sl_key (mt_table mem) y))) < 0"
      using lt by (auto simp: KeyComparator_def entry_pair_def dest!: valid_entry_slice)
  qed
  then show ?thesis unfolding es [symmetric] by (simp add: ascending_def sorted_wrt_map)
qed

lemma mem_iterator_sorted:
  "sorted_iterator (InternalKeyComparator c) (valid_internal valid) (MemIter_class mem) (mem_entries mem (length adds)) (mem_pos c valid mem adds)"
proof (intro sorted_iterator.intro [OF internal.comparator_axioms] sorted_iterator_axioms.intro)
  let ?es = "mem_entries mem (length adds)" and ?pos = "mem_pos c valid mem adds"
  obtain ns0 h0 where ns0: "sl_inv (KeyComparator c) (valid_entry valid) (mt_table mem) ns0 h0"
    "map (\<lambda>x. entry_pair (sl_key (mt_table mem) x)) ns0 = ?es" using repr_nodes by blast
  show "ascending (InternalKeyComparator c) ?es" by (rule node_order [OF ns0])
  show "valid_internal valid (fst e)" if "e \<in> set ?es" for e
    using that adds_ok unfolding entries_set by (auto simp: add_pair_def add_ok_def valid_internal_def)
  have c: "mt_comparator mem = c" using repr by (simp add: mt_repr_def)
  fix s i t
  assume "?pos s i"
  then obtain ns h where inv: "sl_inv (KeyComparator c) (valid_entry valid) (mt_table mem) ns h"
    and es: "map (\<lambda>x. entry_pair (sl_key (mt_table mem) x)) ns = ?es" and ms: "mset (map (sl_key (mt_table mem)) ns) = mset (map add_entry adds)"
    and i: "i \<le> length ns" and s: "s = (if i < length ns then Some (ns ! i) else None)"
    by (auto simp: mem_pos_def)
  have len: "length ?es = length ns" using es by (metis length_map)
  have pos: "?pos (if j < length ns then Some (ns ! j) else None) j" if "j \<le> length ns" for j using inv es ms that by (auto simp: mem_pos_def)
  note run = entries.arena_list.Iter_run [OF inv]
  show "i \<le> length ?es" "iter_status (MemIter_class mem) s = OK" using i len by (simp_all add: MemIter_class_def)
  have val: "Iter_Valid s \<longleftrightarrow> i < length ns" using s by (simp add: Iter_Valid_def)
  then show "iter_Valid (MemIter_class mem) s \<longleftrightarrow> i < length ?es" using len by (simp add: MemIter_class_def)
  show "\<exists>s'. iter_SeekToFirst (MemIter_class mem) s = Some s' \<and> ?pos s' 0"
    using run(1) first_opt_drop [of 0 ns] pos [of 0] by (simp add: MemIter_class_def MemIter_SeekToFirst_def)
  show "\<exists>s'. iter_SeekToLast (MemIter_class mem) s = Some s' \<and> ?pos s' (prev_pos (length ?es) (length ?es))"
    using run(2) last_opt [of ns] pos [OF prev_pos_le, of "length ns"] len by (simp add: MemIter_class_def MemIter_SeekToLast_def)
  show "\<exists>s'. iter_Seek (MemIter_class mem) t s = Some s' \<and> ?pos s' (entries_below (InternalKeyComparator c) t ?es)" if "valid_internal valid t"
    using seek_nodes [OF inv es that] pos entries_below_le [of "InternalKeyComparator c" t ?es] len by (simp add: MemIter_class_def first_opt_drop)
  assume "i < length ?es"
  then have il: "i < length ns" using len by simp
  have nth: "?es ! i = entry_pair (sl_key (mt_table mem) (ns ! i))" using il unfolding es [symmetric] by simp
  have mem: "sl_key (mt_table mem) (ns ! i) \<in> add_entry ` set adds"
    using mset_eq_setD [OF ms] il by (metis imageI list.set_map nth_mem)
  then obtain q y key v where e: "sl_key (mt_table mem) (ns ! i) = memtable_entry q y key v" "(q, y, key, v) \<in> set adds"
    by (auto simp: add_entry_def)
  have "length key + 8 < 2 ^ 32" "length v < 2 ^ 32" using adds_ok [OF e(2)] by (simp_all add: add_ok_def)
  note slices = memtable_entry_slices(1) [OF this, of q y] memtable_entry_slices(2) [OF this]
  show "iter_key (MemIter_class mem) s = fst (?es ! i)" "iter_value (MemIter_class mem) s = snd (?es ! i)"
    using s il nth e(1) slices by (simp_all add: MemIter_class_def MemIter_key_def MemIter_value_def Iter_key_def entry_pair_def)
  have split: "ns = take i ns @ ns ! i # drop (Suc i) ns" using il by (rule id_take_nth_drop)
  show "\<exists>s'. iter_Next (MemIter_class mem) s = Some s' \<and> ?pos s' (Suc i)"
    using run(4) [OF split] first_opt_drop [of "Suc i" ns] pos [of "Suc i"] il s val by (simp add: MemIter_class_def MemIter_Next_def)
  have "(if take i ns = [] then None else Some (last (take i ns))) = (if prev_pos (length ns) i < length ns then Some (ns ! prev_pos (length ns) i) else None)"
    using il by (cases i) (auto simp: prev_pos_def last_conv_nth take_Suc_conv_app_nth)
  then show "\<exists>s'. iter_Prev (MemIter_class mem) s = Some s' \<and> ?pos s' (prev_pos (length ?es) i)"
    using run(5) [OF split] pos [OF prev_pos_le, of i] il s val c len by (simp add: MemIter_class_def MemIter_Prev_def)
qed

lemma MemIter_new_pos: "mem_pos c valid mem adds None (length (mem_entries mem (length adds)))"
  using repr_nodes unfolding mem_pos_def by (metis le_refl length_map less_irrefl)

end

context memtable_contents
begin

lemma entries_parsed: "e \<in> set (mem_entries mem (length adds)) \<Longrightarrow> ParseInternalKey (fst e) \<noteq> None"
  using entries_set add_pair_fields(4) [OF adds_ok] by (metis imageE)

end

sublocale memtable_contents \<subseteq> scan: internal_iterator c valid "MemIter_class mem" "mem_entries mem (length adds)" "mem_pos c valid mem adds" seq
  by (intro internal_iterator.intro user_comparator_axioms mem_iterator_sorted internal_iterator_axioms.intro)
    (simp_all add: seq_ok entries_parsed)

context memtable_contents
begin

lemma add_index:
  assumes "a \<in> set adds"
  obtains i where "i < length (mem_entries mem (length adds))" "mem_entries mem (length adds) ! i = add_pair a"
  using assms entries_set by (metis imageI in_set_conv_nth)

lemma add_pair_inj: "\<lbrakk>a \<in> set adds; b \<in> set adds; fst a = fst b\<rbrakk> \<Longrightarrow> a = b"
  using repr by (auto simp: mt_repr_def) (metis eq_key_imp_eq_value prod.collapse snd_conv fst_conv)

text \<open>Of two versions of a user key the newer one comes first.\<close>

lemma newer_first:
  assumes i: "i < length (mem_entries mem (length adds))" "mem_entries mem (length adds) ! i = add_pair a" "a \<in> set adds"
    and j: "j < length (mem_entries mem (length adds))" "mem_entries mem (length adds) ! j = add_pair b" "b \<in> set adds"
    and "Compare c (fst (snd (snd a))) (fst (snd (snd b))) = 0" and "i < j"
  shows "fst b < fst a"
proof -
  have ok: "add_ok valid a" "add_ok valid b" using i(3) j(3) adds_ok by simp_all
  obtain q t k v q' t' k' v' where ab: "a = (q, t, k, v)" "b = (q', t', k', v')" by (cases a; cases b) blast
  have "Compare (InternalKeyComparator c) (fst (add_pair a)) (fst (add_pair b)) < 0"
    using ascending_nth [OF scan.inner.es_ascending assms(8) j(1)] i(2) j(2) by simp
  then have "PackSequenceAndType q' t' < PackSequenceAndType q t"
    using assms(7) ab by (simp add: InternalKeyComparator_def internal_compare_iff add_pair_def)
  then have "q' \<le> q" using Pack_less_iff [of q' q t' t] ok ab by (auto simp: add_ok_def)
  moreover have "q' \<noteq> q"
  proof
    assume "q' = q"
    then have "a = b" using add_pair_inj [OF i(3) j(3)] ab by simp
    moreover have "distinct (mem_entries mem (length adds))"
      using internal.ascending_distinct [OF scan.inner.es_ascending] scan.inner.es_valid by blast
    ultimately show False using i j assms(8) by (metis less_irrefl nth_eq_iff_index_eq)
  qed
  ultimately show ?thesis using ab by simp
qed

lemma view_newest:
  assumes u: "valid u"
  shows "(\<exists>k. (k, v) \<in> set (user_view c seq (mem_entries mem (length adds))) \<and> Compare c k u = 0) \<longleftrightarrow>
    (\<exists>q k. newest_visible c u seq adds = Some (q, kTypeValue, k, v))"
proof
  let ?es = "mem_entries mem (length adds)"
  assume "\<exists>k. (k, v) \<in> set (user_view c seq ?es) \<and> Compare c k u = 0"
  then obtain i where i: "i < length ?es" "shown c seq ?es i" "Compare c (e_user (?es ! i)) u = 0" "snd (?es ! i) = v"
    by (auto simp: user_view_def shown_list_def)
  obtain a where a: "a \<in> set adds" "?es ! i = add_pair a" using nth_mem [OF i(1)] unfolding entries_set by blast
  obtain q t k w where a': "a = (q, t, k, w)" by (cases a)
  note f = add_pair_fields [OF adds_ok [OF a(1)]]
  have vk: "valid k" using adds_ok [OF a(1)] a' by (simp add: add_ok_def)
  have vis: "visible c u seq a" using i(2,3) a(2) f a' by (simp add: shown_def visible_def)
  have "fst b \<le> fst a" if b: "b \<in> set adds" "visible c u seq b" for b
  proof (rule ccontr)
    assume n: "\<not> fst b \<le> fst a"
    obtain j where j: "j < length ?es" "?es ! j = add_pair b" using add_index [OF b(1)] .
    obtain q' t' k' w' where b': "b = (q', t', k', w')" by (cases b)
    note g = add_pair_fields [OF adds_ok [OF b(1)]]
    have vk': "valid k'" using adds_ok [OF b(1)] b' by (simp add: add_ok_def)
    have ku: "Compare c k u = 0" "Compare c k' u = 0" using i(3) a(2) f a' b(2) b' by (simp_all add: visible_def)
    have same: "Compare c k k' = 0" "Compare c k' k = 0"
      using cmp_trans [OF vk u vk'] cmp_trans [OF vk' u vk] ku cmp_zero_iff [OF vk u] cmp_zero_iff [OF vk' u] cmp_le_iff [OF vk vk'] cmp_le_iff [OF vk' vk]
      by auto
    consider "i < j" | "j < i" | "i = j" by linarith
    then show False
    proof cases
      case 1
      from newer_first [OF i(1) a(2,1) j b(1) _ 1] same a' b' n show False by simp
    next
      case 2
      then have "Compare c k' k \<noteq> 0" using i(2) j(2) a(2) f g a' b' b(2) by (auto simp: shown_def visible_def)
      with same show False by simp
    next
      case 3
      then show False using j a f g n by (metis order_refl)
    qed
  qed
  then have "newest_visible c u seq adds = Some a" using newest_visibleI [OF a(1) vis] repr by (simp add: mt_repr_def)
  moreover have "t = kTypeValue" "w = v" using i(2,4) a(2) f a' by (simp_all add: shown_def)
  ultimately show "\<exists>q k. newest_visible c u seq adds = Some (q, kTypeValue, k, v)" using a' by simp
next
  let ?es = "mem_entries mem (length adds)"
  assume "\<exists>q k. newest_visible c u seq adds = Some (q, kTypeValue, k, v)"
  then obtain q k where n: "newest_visible c u seq adds = Some (q, kTypeValue, k, v)" by blast
  let ?a = "(q, kTypeValue, k, v)"
  have a: "?a \<in> set adds" "visible c u seq ?a" and new: "\<And>b. \<lbrakk>b \<in> set adds; visible c u seq b\<rbrakk> \<Longrightarrow> fst b \<le> q" using newest_visible_Some [OF n] by auto
  obtain i where i: "i < length ?es" "?es ! i = add_pair ?a" using add_index [OF a(1)] .
  note f = add_pair_fields [OF adds_ok [OF a(1)], simplified]
  have vk: "valid k" using adds_ok [OF a(1)] by (simp add: add_ok_def)
  have "Compare c (e_user (?es ! j)) k \<noteq> 0" if j: "j < i" "e_seq (?es ! j) \<le> seq" for j
  proof
    assume eq: "Compare c (e_user (?es ! j)) k = 0"
    have jl: "j < length ?es" using j(1) i(1) by simp
    obtain b where b: "b \<in> set adds" "?es ! j = add_pair b" using nth_mem [OF jl] unfolding entries_set by blast
    note g = add_pair_fields [OF adds_ok [OF b(1)]]
    have vb: "valid (fst (snd (snd b)))" using adds_ok [OF b(1)] by (auto simp: add_ok_def)
    have "Compare c (fst (snd (snd b))) k = 0" using eq b(2) g by simp
    moreover have "Compare c k u = 0" using a(2) by (simp add: visible_def)
    ultimately have "Compare c (fst (snd (snd b))) u = 0"
      using cmp_trans [OF vb vk u] cmp_trans [OF u vk vb] cmp_zero_iff [OF vb vk] cmp_zero_iff [OF vk u] cmp_le_iff [OF u vb] cmp_le_iff [OF vb u] by auto
    then have "visible c u seq b" using j(2) b(2) g by (simp add: visible_def split_beta)
    moreover have "q < fst b"
      using newer_first [OF jl b(2,1) i a(1) _ j(1)] \<open>Compare c (fst (snd (snd b))) k = 0\<close> by simp
    ultimately show False using new [OF b(1)] by simp
  qed
  then have "shown c seq ?es i" using i(2) f a(2) by (simp add: shown_def visible_def)
  then have "(k, v) \<in> set (user_view c seq ?es)" using i f by (force simp: user_view_def shown_list_def)
  then show "\<exists>k. (k, v) \<in> set (user_view c seq ?es) \<and> Compare c k u = 0" using a(2) by (auto simp: visible_def)
qed

end

subsection \<open>The bytewise comparator on short keys\<close>

interpretation bytewise_short: user_comparator BytewiseComparator "\<lambda>k. length k + 8 < 2 ^ 32"
proof unfold_locales
  fix a b d :: bytes
  show "length (FindShortestSeparator BytewiseComparator a b) + 8 < 2 ^ 32 \<and>
      Compare BytewiseComparator a (FindShortestSeparator BytewiseComparator a b) \<le> 0 \<and>
      Compare BytewiseComparator (FindShortestSeparator BytewiseComparator a b) b < 0"
    if "length a + 8 < 2 ^ 32" "Compare BytewiseComparator a b < 0"
    using bytewise.separator [of a b] that bytewise_separator_spec [of a b] by (simp add: BytewiseComparator_def)
  show "length (FindShortSuccessor BytewiseComparator a) + 8 < 2 ^ 32 \<and>
      Compare BytewiseComparator a (FindShortSuccessor BytewiseComparator a) \<le> 0" if "length a + 8 < 2 ^ 32"
    using bytewise.successor [of a] that
    by (auto simp: BytewiseComparator_def bytewise_successor_def dest: successor_loop_spec split: option.splits)
  show "Compare BytewiseComparator a a = 0" by (rule bytewise.cmp_refl) simp
  show "sgn (Compare BytewiseComparator b a) = - sgn (Compare BytewiseComparator a b)" by (rule bytewise.cmp_sym) simp_all
  show "Compare BytewiseComparator a d \<le> 0" if "Compare BytewiseComparator a b \<le> 0" "Compare BytewiseComparator b d \<le> 0"
    by (rule bytewise.cmp_trans [OF _ _ _ that]) simp_all
  show "FindShortestSeparator BytewiseComparator a b = a" if "\<not> Compare BytewiseComparator a b < 0"
    by (rule bytewise.separator_same [OF _ _ that]) simp_all
qed

interpretation new_memtable: memtable_contents BytewiseComparator "\<lambda>k. length k + 8 < 2 ^ 32" bump_new "MemTable_new bump_new BytewiseComparator junk" "[]" 0 for junk
  by (intro memtable_contents.intro bytewise_short.user_comparator_axioms memtable_contents_axioms.intro bytewise_short.mt_repr_new bump_new_ok)
    simp_all

subsection \<open>Properties\<close>

text \<open>C1: The database iterator shows the newest versions. Let the user comparator be a total preorder on the valid keys, and let the
  internal iterator be a sorted iterator over entries whose internal keys parse. A new database iterator on it, for a sequence
  number, is a sorted iterator over the user's view: for every user key the value of its newest entry that is not newer than the
  sequence number, unless that entry is a deletion, in ascending order of the user keys. This holds for every sequence of
  movements, with any change of direction; all of them return, the sampling of reads included, and the status stays OK.\<close>

theorem db_iterator_correct:
  assumes "user_comparator c valid" and "sorted_iterator (InternalKeyComparator c) (valid_internal valid) it es pos"
    and "\<forall>e \<in> set es. ParseInternalKey (fst e) \<noteq> None" and "s \<le> kMaxSequenceNumber" and "pos iter i"
  shows "\<exists>dpos. sorted_iterator c valid (DBIter_class it) (user_view c s es) dpos \<and>
    dpos (DBIter_new c iter s seed) (length (user_view c s es))"
proof -
  have "internal_iterator c valid it es pos s"
    using assms by (intro internal_iterator.intro internal_iterator_axioms.intro) auto
  from internal_iterator.db_iterator_sorted [OF this] internal_iterator.DBIter_new_pos [OF this assms(5), of seed]
  show ?thesis by (auto simp: user_view_def)
qed

text \<open>C11: Scans and lookups agree. After any additions with different sequence numbers to a new memtable, a database iterator on the
  memtable's iterator for a sequence number visits, forward from its first entry and backward from its last one, the same pairs in
  ascending order of their keys, with status OK; and a value is among them for a user key exactly when \<open>Get\<close> for that key at the same
  sequence number finds it.\<close>

theorem memtable_scan:
  assumes "user_comparator c valid" and "\<forall>k. valid k \<longrightarrow> length k + 8 < 2 ^ 32" and "new_array_ok na"
    and "list_all (add_ok valid) adds" and "distinct (map fst adds)" and "s \<le> kMaxSequenceNumber"
  shows "\<exists>mem kvs. MemTable_add_all na adds (MemTable_new na c junk) = Some mem \<and> ascending c kvs \<and>
    Option.bind (DBIter_SeekToFirst (MemIter_class mem) (DBIter_new c None s seed)) (iter_walk_next (DBIter_class (MemIter_class mem)) (Suc (length kvs))) = Some (kvs, OK) \<and>
    Option.bind (DBIter_SeekToLast (MemIter_class mem) (DBIter_new c None s seed)) (iter_walk_prev (DBIter_class (MemIter_class mem)) (Suc (length kvs))) = Some (rev kvs, OK) \<and>
    (\<forall>u v val. valid u \<longrightarrow> (\<exists>k. (k, v) \<in> set kvs \<and> Compare c k u = 0) = (MemTable_Get (NewLookupKey u s) val OK mem = Some (True, v, OK)))"
proof -
  have "mt_repr c valid na (MemTable_new na c junk) []" using user_comparator.mt_repr_new [OF assms(1,3)] .
  from user_comparator.add_all_run [OF assms(1) this assms(4,5)] obtain mem where
    m: "MemTable_add_all na adds (MemTable_new na c junk) = Some mem" "mt_repr c valid na mem (rev adds)" by auto
  have con: "memtable_contents c valid na mem (rev adds) s"
    using assms m(2) by (intro memtable_contents.intro memtable_contents_axioms.intro) auto
  let ?es = "mem_entries mem (length (rev adds))" and ?it = "DBIter_class (MemIter_class mem)"
  let ?kvs = "user_view c s ?es" and ?d = "DBIter_new c None s seed" and ?p = "db_pos c s ?es (mem_pos c valid mem (rev adds))"
  have it: "internal_iterator c valid (MemIter_class mem) ?es (mem_pos c valid mem (rev adds)) s"
    using con by (intro internal_iterator.intro assms(1) memtable_contents.mem_iterator_sorted internal_iterator_axioms.intro assms(6))
      (auto dest: memtable_contents.entries_parsed)
  note sorted = internal_iterator.db_iterator_sorted [OF it]
  have d: "?p ?d (length ?kvs)"
    using internal_iterator.DBIter_new_pos [OF it memtable_contents.MemIter_new_pos [OF con], of seed] by (simp add: user_view_def)
  note walks = sorted_iterator.walk_all(1,2) [OF sorted d]
  have get: "(\<exists>k. (k, v) \<in> set ?kvs \<and> Compare c k u = 0) = (MemTable_Get (NewLookupKey u s) val OK mem = Some (True, v, OK))" if u: "valid u" for u v val
  proof -
    have "MemTable_Get (NewLookupKey u s) val OK mem = Some (lookup_result val OK (newest_visible c u s (rev adds)))"
      using user_comparator.Get_run [OF assms(1) m(2) u _ assms(6)] assms(2) u by blast
    moreover have "lookup_result val OK r = (True, v, OK) \<longleftrightarrow> (\<exists>q k. r = Some (q, kTypeValue, k, v))" for r
      by (auto simp: lookup_result_def NotFound_def Status_new_def OK_def Let_def split: option.splits ValueType.splits prod.splits)
    ultimately show ?thesis using memtable_contents.view_newest [OF con u, of v] by simp
  qed
  show ?thesis
    using m(1) walks get internal_iterator.view_ascending [OF it]
    by (intro exI [of _ mem] exI [of _ ?kvs]) (simp add: DBIter_class_def del: iter_walk_next.simps iter_walk_prev.simps)
qed

theorem db_iterator_correct_witness:
  "\<exists>mem dpos. MemTable_add_all bump_new [(5, kTypeValue, [1], [10]), (7, kTypeDeletion, [1], [])]
      (MemTable_new bump_new BytewiseComparator (\<lambda>_ _. None)) = Some mem \<and>
    sorted_iterator BytewiseComparator (\<lambda>k. length k + 8 < 2 ^ 32) (DBIter_class (MemIter_class mem))
      (user_view BytewiseComparator 6 (mem_entries mem 2)) dpos \<and>
    dpos (DBIter_new BytewiseComparator None 6 301) (length (user_view BytewiseComparator 6 (mem_entries mem 2)))"
proof -
  let ?adds = "[(5, kTypeValue, [1], [10]), (7, kTypeDeletion, [1], [])] :: mem_add list" and ?v = "\<lambda>k :: bytes. length k + 8 < 2 ^ 32"
  have 1: "list_all (add_ok ?v) ?adds" by (simp add: add_ok_def kMaxSequenceNumber_def)
  have 2: "distinct (map fst ?adds)" by simp
  have 3: "(6 :: SequenceNumber) \<le> kMaxSequenceNumber" by (simp add: kMaxSequenceNumber_def)
  have "mt_repr BytewiseComparator ?v bump_new (MemTable_new bump_new BytewiseComparator (\<lambda>_ _. None)) []"
    by (rule bytewise_short.mt_repr_new [OF bump_new_ok])
  from bytewise_short.add_all_run [OF this 1 2] obtain mem where
    m: "MemTable_add_all bump_new ?adds (MemTable_new bump_new BytewiseComparator (\<lambda>_ _. None)) = Some mem" "mt_repr BytewiseComparator ?v bump_new mem (rev ?adds)"
    by auto
  have con: "memtable_contents BytewiseComparator ?v bump_new mem (rev ?adds) 6"
    using m(2) 3 by (intro memtable_contents.intro bytewise_short.user_comparator_axioms memtable_contents_axioms.intro) auto
  have "\<forall>e \<in> set (mem_entries mem (length (rev ?adds))). ParseInternalKey (fst e) \<noteq> None"
    using memtable_contents.entries_parsed [OF con] by blast
  from db_iterator_correct [OF bytewise_short.user_comparator_axioms memtable_contents.mem_iterator_sorted [OF con] this 3
    memtable_contents.MemIter_new_pos [OF con], of 301] m(1) show ?thesis by (auto simp: numeral_2_eq_2)
qed

theorem memtable_scan_witness:
  "\<exists>mem kvs. MemTable_add_all bump_new [(5, kTypeValue, [1], [10]), (7, kTypeDeletion, [1], []), (6, kTypeValue, [2], [20])]
      (MemTable_new bump_new BytewiseComparator (\<lambda>_ _. None)) = Some mem \<and> ascending BytewiseComparator kvs \<and>
    Option.bind (DBIter_SeekToFirst (MemIter_class mem) (DBIter_new BytewiseComparator None 6 301))
      (iter_walk_next (DBIter_class (MemIter_class mem)) (Suc (length kvs))) = Some (kvs, OK)"
proof -
  let ?adds = "[(5, kTypeValue, [1], [10]), (7, kTypeDeletion, [1], []), (6, kTypeValue, [2], [20])] :: mem_add list"
  have 1: "list_all (add_ok (\<lambda>k. length k + 8 < 2 ^ 32)) ?adds" by (simp add: add_ok_def kMaxSequenceNumber_def)
  have 2: "distinct (map fst ?adds)" by simp
  have 3: "(6 :: SequenceNumber) \<le> kMaxSequenceNumber" by (simp add: kMaxSequenceNumber_def)
  from memtable_scan [OF bytewise_short.user_comparator_axioms _ bump_new_ok 1 2 3, of "\<lambda>_ _. None" 301] show ?thesis by blast
qed

end
