(* ===== verification/TwoLevel.thy ===== *)
theory TwoLevel
  imports IterBase
begin

text \<open>
  \<open>table/two_level_iterator.cc\<close>: the iterator over the blocks an index lists. The class works on an index iterator, a class of
  data iterators and the block function, which turns an index value into a data iterator; what the block function needs
  besides the index value (its argument and the read options) is part of it, and it gives nothing when it does not return. Given an index that separates the blocks, the
  iterator is a sorted iterator over their concatenation.
\<close>

subsection \<open>The class\<close>

record ('a, 'b) TwoLevelIterator =
  tl_status :: Status
  tl_index_iter :: "'a IteratorWrapper"
  tl_data_iter :: "'b IteratorWrapper"
  tl_data_block_handle :: bytes

definition NewTwoLevelIterator :: "'a Iterator \<Rightarrow> 'a \<Rightarrow> ('a, 'b) TwoLevelIterator" where
  "NewTwoLevelIterator ii index_iter =
     \<lparr>tl_status = OK, tl_index_iter = IW_Set ii (Some index_iter) IteratorWrapper_new, tl_data_iter = IteratorWrapper_new,
      tl_data_block_handle = []\<rparr>"

definition TL_status :: "'a Iterator \<Rightarrow> 'b Iterator \<Rightarrow> ('a, 'b) TwoLevelIterator \<Rightarrow> Status" where
  "TL_status ii di t =
     (if \<not> ok (IW_status ii (tl_index_iter t)) then IW_status ii (tl_index_iter t)
      else if iw_iter (tl_data_iter t) \<noteq> None \<and> \<not> ok (IW_status di (tl_data_iter t)) then IW_status di (tl_data_iter t)
      else tl_status t)"

definition TL_SaveError :: "Status \<Rightarrow> ('a, 'b) TwoLevelIterator \<Rightarrow> ('a, 'b) TwoLevelIterator" where
  "TL_SaveError s t = (if ok (tl_status t) \<and> \<not> ok s then t\<lparr>tl_status := s\<rparr> else t)"

definition TL_SetDataIterator :: "'b Iterator \<Rightarrow> 'b option \<Rightarrow> ('a, 'b) TwoLevelIterator \<Rightarrow> ('a, 'b) TwoLevelIterator" where
  "TL_SetDataIterator di data_iter t =
     (let t = (if iw_iter (tl_data_iter t) \<noteq> None then TL_SaveError (IW_status di (tl_data_iter t)) t else t)
      in t\<lparr>tl_data_iter := IW_Set di data_iter (tl_data_iter t)\<rparr>)"

definition TL_InitDataBlock ::
  "'a Iterator \<Rightarrow> 'b Iterator \<Rightarrow> (bytes \<Rightarrow> 'b option) \<Rightarrow> ('a, 'b) TwoLevelIterator \<Rightarrow> ('a, 'b) TwoLevelIterator option" where
  "TL_InitDataBlock ii di block_function t =
     (if \<not> iw_valid (tl_index_iter t) then Some (TL_SetDataIterator di None t)
      else
        let handle = IW_value ii (tl_index_iter t)
        in if iw_iter (tl_data_iter t) \<noteq> None \<and> slice_compare handle (tl_data_block_handle t) = 0 then Some t
           else map_option (\<lambda>iter. TL_SetDataIterator di (Some iter) (t\<lparr>tl_data_block_handle := handle\<rparr>)) (block_function handle))"

text \<open>\<open>if (data_iter_.iter() != nullptr) data_iter_.op()\<close>.\<close>

definition TL_move_data ::
  "('b IteratorWrapper \<Rightarrow> 'b IteratorWrapper option) \<Rightarrow> ('a, 'b) TwoLevelIterator \<Rightarrow> ('a, 'b) TwoLevelIterator option" where
  "TL_move_data op t =
     (if iw_iter (tl_data_iter t) \<noteq> None then map_option (\<lambda>d. t\<lparr>tl_data_iter := d\<rparr>) (op (tl_data_iter t)) else Some t)"

definition TL_move_index ::
  "('a IteratorWrapper \<Rightarrow> 'a IteratorWrapper option) \<Rightarrow> ('a, 'b) TwoLevelIterator \<Rightarrow> ('a, 'b) TwoLevelIterator option" where
  "TL_move_index op t = map_option (\<lambda>i. t\<lparr>tl_index_iter := i\<rparr>) (op (tl_index_iter t))"

partial_function (option) SkipEmptyDataBlocksForward ::
  "'a Iterator \<Rightarrow> 'b Iterator \<Rightarrow> (bytes \<Rightarrow> 'b option) \<Rightarrow> ('a, 'b) TwoLevelIterator \<Rightarrow> ('a, 'b) TwoLevelIterator option" where
  "SkipEmptyDataBlocksForward ii di bf t =
     (if iw_iter (tl_data_iter t) = None \<or> \<not> iw_valid (tl_data_iter t) then
        (if \<not> iw_valid (tl_index_iter t) then Some (TL_SetDataIterator di None t)
         else Option.bind (TL_move_index (IW_Next ii) t) (\<lambda>t.
              Option.bind (TL_InitDataBlock ii di bf t) (\<lambda>t. Option.bind (TL_move_data (IW_SeekToFirst di) t) (\<lambda>t. SkipEmptyDataBlocksForward ii di bf t))))
      else Some t)"

partial_function (option) SkipEmptyDataBlocksBackward ::
  "'a Iterator \<Rightarrow> 'b Iterator \<Rightarrow> (bytes \<Rightarrow> 'b option) \<Rightarrow> ('a, 'b) TwoLevelIterator \<Rightarrow> ('a, 'b) TwoLevelIterator option" where
  "SkipEmptyDataBlocksBackward ii di bf t =
     (if iw_iter (tl_data_iter t) = None \<or> \<not> iw_valid (tl_data_iter t) then
        (if \<not> iw_valid (tl_index_iter t) then Some (TL_SetDataIterator di None t)
         else Option.bind (TL_move_index (IW_Prev ii) t) (\<lambda>t.
              Option.bind (TL_InitDataBlock ii di bf t) (\<lambda>t. Option.bind (TL_move_data (IW_SeekToLast di) t) (\<lambda>t. SkipEmptyDataBlocksBackward ii di bf t))))
      else Some t)"

definition TL_Seek ::
  "'a Iterator \<Rightarrow> 'b Iterator \<Rightarrow> (bytes \<Rightarrow> 'b option) \<Rightarrow> bytes \<Rightarrow> ('a, 'b) TwoLevelIterator \<Rightarrow> ('a, 'b) TwoLevelIterator option" where
  "TL_Seek ii di bf target t =
     Option.bind (TL_move_index (IW_Seek ii target) t) (\<lambda>t.
     Option.bind (TL_InitDataBlock ii di bf t) (\<lambda>t. Option.bind (TL_move_data (IW_Seek di target) t) (SkipEmptyDataBlocksForward ii di bf)))"

definition TL_SeekToFirst ::
  "'a Iterator \<Rightarrow> 'b Iterator \<Rightarrow> (bytes \<Rightarrow> 'b option) \<Rightarrow> ('a, 'b) TwoLevelIterator \<Rightarrow> ('a, 'b) TwoLevelIterator option" where
  "TL_SeekToFirst ii di bf t =
     Option.bind (TL_move_index (IW_SeekToFirst ii) t) (\<lambda>t.
     Option.bind (TL_InitDataBlock ii di bf t) (\<lambda>t. Option.bind (TL_move_data (IW_SeekToFirst di) t) (SkipEmptyDataBlocksForward ii di bf)))"

definition TL_SeekToLast ::
  "'a Iterator \<Rightarrow> 'b Iterator \<Rightarrow> (bytes \<Rightarrow> 'b option) \<Rightarrow> ('a, 'b) TwoLevelIterator \<Rightarrow> ('a, 'b) TwoLevelIterator option" where
  "TL_SeekToLast ii di bf t =
     Option.bind (TL_move_index (IW_SeekToLast ii) t) (\<lambda>t.
     Option.bind (TL_InitDataBlock ii di bf t) (\<lambda>t. Option.bind (TL_move_data (IW_SeekToLast di) t) (SkipEmptyDataBlocksBackward ii di bf)))"

definition TL_Next ::
  "'a Iterator \<Rightarrow> 'b Iterator \<Rightarrow> (bytes \<Rightarrow> 'b option) \<Rightarrow> ('a, 'b) TwoLevelIterator \<Rightarrow> ('a, 'b) TwoLevelIterator option" where
  "TL_Next ii di bf t =
     (if iw_valid (tl_data_iter t) then Option.bind (TL_move_data (IW_Next di) t) (SkipEmptyDataBlocksForward ii di bf) else None)"

definition TL_Prev ::
  "'a Iterator \<Rightarrow> 'b Iterator \<Rightarrow> (bytes \<Rightarrow> 'b option) \<Rightarrow> ('a, 'b) TwoLevelIterator \<Rightarrow> ('a, 'b) TwoLevelIterator option" where
  "TL_Prev ii di bf t =
     (if iw_valid (tl_data_iter t) then Option.bind (TL_move_data (IW_Prev di) t) (SkipEmptyDataBlocksBackward ii di bf) else None)"

definition TwoLevelIterator_class :: "'a Iterator \<Rightarrow> 'b Iterator \<Rightarrow> (bytes \<Rightarrow> 'b option) \<Rightarrow> ('a, 'b) TwoLevelIterator Iterator" where
  "TwoLevelIterator_class ii di bf =
     \<lparr>iter_Valid = (\<lambda>t. iw_valid (tl_data_iter t)), iter_SeekToFirst = TL_SeekToFirst ii di bf, iter_SeekToLast = TL_SeekToLast ii di bf,
      iter_Seek = TL_Seek ii di bf, iter_Next = TL_Next ii di bf, iter_Prev = TL_Prev ii di bf,
      iter_key = (\<lambda>t. iw_key (tl_data_iter t)), iter_value = (\<lambda>t. IW_value di (tl_data_iter t)), iter_status = TL_status ii di\<rparr>"

subsection \<open>The blocks of an index\<close>

text \<open>\<open>dpos j\<close> are the positions in block \<open>j\<close>. The key of an index entry is at least every key of its block and below every key
  of the blocks behind it; an index value names one block.\<close>

definition separates :: "Comparator \<Rightarrow> (bytes \<times> bytes) list \<Rightarrow> (bytes \<times> bytes) list list \<Rightarrow> bool" where
  "separates c idx blocks \<longleftrightarrow> length idx = length blocks \<and>
     (\<forall>j < length blocks. \<forall>e \<in> set (blocks ! j). Compare c (fst e) (fst (idx ! j)) \<le> 0) \<and>
     (\<forall>k < length blocks. \<forall>j < k. \<forall>e \<in> set (blocks ! k). Compare c (fst (idx ! j)) (fst e) < 0)"

locale two_level = index: sorted_iterator c valid ii idx ipos for c valid and ii :: "'a Iterator" and idx ipos +
  fixes di :: "'b Iterator" and bf :: "bytes \<Rightarrow> 'b option" and blocks :: "(bytes \<times> bytes) list list" and dpos :: "nat \<Rightarrow> 'b \<Rightarrow> nat \<Rightarrow> bool"
  assumes blocks_sorted: "j < length blocks \<Longrightarrow> sorted_iterator c valid di (blocks ! j) (dpos j)"
    and block_function: "j < length blocks \<Longrightarrow> \<exists>s i. bf (snd (idx ! j)) = Some s \<and> dpos j s i"
    and idx_separates: "separates c idx blocks"
    and handles_distinct: "distinct (map snd idx)"


definition block_start :: "(bytes \<times> bytes) list list \<Rightarrow> nat \<Rightarrow> nat" where
  "block_start blocks j = length (concat (take j blocks))"

text \<open>The index iterator at entry \<open>j\<close> and a data iterator, if there is one, over the block its handle names; the same with the
  data iterator at entry \<open>i\<close> of block \<open>j\<close>; no data iterator; and the positions of the two-level iterator.\<close>

definition tl_loose ::
  "'a Iterator \<Rightarrow> 'b Iterator \<Rightarrow> (bytes \<times> bytes) list \<Rightarrow> ('a \<Rightarrow> nat \<Rightarrow> bool) \<Rightarrow> (nat \<Rightarrow> 'b \<Rightarrow> nat \<Rightarrow> bool) \<Rightarrow>
   nat \<Rightarrow> ('a, 'b) TwoLevelIterator \<Rightarrow> bool" where
  "tl_loose ii di idx ipos dpos j t \<longleftrightarrow> tl_status t = OK \<and> wrapper_pos ii ipos (tl_index_iter t) j \<and>
     (iw_iter (tl_data_iter t) \<noteq> None \<longrightarrow>
      (\<exists>k i. k < length idx \<and> tl_data_block_handle t = snd (idx ! k) \<and> wrapper_pos di (dpos k) (tl_data_iter t) i))"

definition tl_at ::
  "'a Iterator \<Rightarrow> 'b Iterator \<Rightarrow> (bytes \<times> bytes) list \<Rightarrow> ('a \<Rightarrow> nat \<Rightarrow> bool) \<Rightarrow> (nat \<Rightarrow> 'b \<Rightarrow> nat \<Rightarrow> bool) \<Rightarrow>
   nat \<Rightarrow> nat \<Rightarrow> ('a, 'b) TwoLevelIterator \<Rightarrow> bool" where
  "tl_at ii di idx ipos dpos j i t \<longleftrightarrow> tl_status t = OK \<and> wrapper_pos ii ipos (tl_index_iter t) j \<and> j < length idx \<and>
     tl_data_block_handle t = snd (idx ! j) \<and> wrapper_pos di (dpos j) (tl_data_iter t) i"

definition tl_none :: "'a Iterator \<Rightarrow> ('a \<Rightarrow> nat \<Rightarrow> bool) \<Rightarrow> nat \<Rightarrow> ('a, 'b) TwoLevelIterator \<Rightarrow> bool" where
  "tl_none ii ipos j t \<longleftrightarrow> tl_status t = OK \<and> wrapper_pos ii ipos (tl_index_iter t) j \<and> iw_iter (tl_data_iter t) = None \<and>
     \<not> iw_valid (tl_data_iter t)"

definition tl_pos ::
  "'a Iterator \<Rightarrow> 'b Iterator \<Rightarrow> (bytes \<times> bytes) list \<Rightarrow> ('a \<Rightarrow> nat \<Rightarrow> bool) \<Rightarrow> (bytes \<times> bytes) list list \<Rightarrow>
   (nat \<Rightarrow> 'b \<Rightarrow> nat \<Rightarrow> bool) \<Rightarrow> ('a, 'b) TwoLevelIterator \<Rightarrow> nat \<Rightarrow> bool" where
  "tl_pos ii di idx ipos blocks dpos t n \<longleftrightarrow>
     (\<exists>j i. tl_at ii di idx ipos dpos j i t \<and> i < length (blocks ! j) \<and> n = block_start blocks j + i) \<or>
     (\<exists>j. tl_none ii ipos j t \<and> n = length (concat blocks))"

subsection \<open>Lemmas\<close>

lemma block_start_Suc: "j < length blocks \<Longrightarrow> block_start blocks (Suc j) = block_start blocks j + length (blocks ! j)"
  by (simp add: block_start_def take_Suc_conv_app_nth)

lemma block_start_all: "block_start blocks (length blocks) = length (concat blocks)"
  by (simp add: block_start_def)

lemma block_start_0 [simp]: "block_start blocks 0 = 0"
  by (simp add: block_start_def)

lemma concat_split: "j < length blocks \<Longrightarrow> concat blocks = concat (take j blocks) @ blocks ! j @ concat (drop (Suc j) blocks)"
  by (metis append.assoc concat.simps(2) concat_append id_take_nth_drop)

lemma concat_nth_start:
  assumes "j < length blocks" and "i < length (blocks ! j)"
  shows "concat blocks ! (block_start blocks j + i) = blocks ! j ! i" and "block_start blocks j + i < length (concat blocks)"
  using assms by (simp_all add: concat_split [OF assms(1)] block_start_def nth_append)

lemma in_concat_nth: "x \<in> set (concat blocks) \<longleftrightarrow> (\<exists>k < length blocks. x \<in> set (blocks ! k))"
  by (simp add: Bex_def) (metis in_set_conv_nth)

lemma entries_below_append: "entries_below c t (xs @ ys) = entries_below c t xs + entries_below c t ys"
  by (simp add: entries_below_def)

lemma entries_below_all: "(\<And>e. e \<in> set xs \<Longrightarrow> Compare c (fst e) t < 0) \<Longrightarrow> entries_below c t xs = length xs"
  by (simp add: entries_below_def)

lemma entries_below_none: "(\<And>e. e \<in> set xs \<Longrightarrow> \<not> Compare c (fst e) t < 0) \<Longrightarrow> entries_below c t xs = 0"
  by (simp add: entries_below_def)

lemma prev_pos_block: "i \<le> b \<Longrightarrow> (if prev_pos b i < b then s + prev_pos b i else prev_pos n s) = prev_pos n (s + i)"
  by (auto simp: prev_pos_def)

context two_level
begin

abbreviation "loose \<equiv> tl_loose ii di idx ipos dpos"
abbreviation "at \<equiv> tl_at ii di idx ipos dpos"
abbreviation "none \<equiv> tl_none ii ipos"
abbreviation "at_pos \<equiv> tl_pos ii di idx ipos blocks dpos"

lemma idx_length [simp]: "length idx = length blocks"
  using idx_separates by (simp add: separates_def)

lemmas index_wrapped = index.wrapped_sorted
lemmas data_wrapped = sorted_iterator.wrapped_sorted [OF blocks_sorted]

lemma block_valid: "\<lbrakk>j < length blocks; e \<in> set (blocks ! j)\<rbrakk> \<Longrightarrow> valid (fst e)"
  using sorted_iterator.es_valid [OF blocks_sorted] .

lemma idx_valid: "j < length blocks \<Longrightarrow> valid (fst (idx ! j))"
  using index.es_valid by simp

lemma below_or_at: "\<lbrakk>j < length blocks; e \<in> set (blocks ! j)\<rbrakk> \<Longrightarrow> Compare c (fst e) (fst (idx ! j)) \<le> 0"
  and above_earlier: "\<lbrakk>j < k; k < length blocks; e \<in> set (blocks ! k)\<rbrakk> \<Longrightarrow> Compare c (fst (idx ! j)) (fst e) < 0"
  using idx_separates by (auto simp: separates_def)

lemma concat_valid: "e \<in> set (concat blocks) \<Longrightarrow> valid (fst e)"
  unfolding in_concat_nth by (blast intro: block_valid)

lemma concat_ascending: "ascending c (concat blocks)"
proof -
  have "ascending c (concat (take j blocks))" if "j \<le> length blocks" for j
    using that
  proof (induction j)
    case (Suc j)
    then have j: "j < length blocks" by simp
    have "Compare c (fst x) (fst y) < 0" if x: "x \<in> set (concat (take j blocks))" and y: "y \<in> set (blocks ! j)" for x y
    proof -
      obtain k where k: "k < j" "x \<in> set (blocks ! k)" using x j by (auto simp: in_concat_nth simp del: set_concat)
      show ?thesis
        using index.cmp_le_less_trans [of "fst x" "fst (idx ! k)" "fst y"] below_or_at [of k x] above_earlier [OF k(1) j y]
          block_valid [of k x] block_valid [OF j y] idx_valid [of k] k j by simp
    qed
    then show ?case
      using Suc sorted_iterator.es_ascending [OF blocks_sorted [OF j]] j by (auto simp: take_Suc_conv_app_nth ascending_append)
  qed (simp add: ascending_def)
  from this [of "length blocks"] show ?thesis by simp
qed

lemma concat_below:
  assumes t: "valid t"
  defines "k \<equiv> entries_below c t idx"
  shows "k < length blocks \<Longrightarrow> entries_below c t (concat blocks) = block_start blocks k + entries_below c t (blocks ! k)"
    and "\<not> k < length blocks \<Longrightarrow> entries_below c t (concat blocks) = length (concat blocks)"
proof -
  have iff: "Compare c (fst (idx ! j)) t < 0 \<longleftrightarrow> j < k" if "j < length blocks" for j
    using index.entries_below_nth [OF index.es_ascending index.es_valid t, of j] that by (simp add: k_def)
  have below: "Compare c (fst e) t < 0" if "j < k" "j < length blocks" "e \<in> set (blocks ! j)" for j e
    using index.cmp_le_less_trans [of "fst e" "fst (idx ! j)" t] below_or_at [OF that(2,3)] block_valid [OF that(2,3)] idx_valid [OF that(2)]
      iff [OF that(2)] that(1) t by simp
  have above: "\<not> Compare c (fst e) t < 0" if "k < j" "j < length blocks" "e \<in> set (blocks ! j)" for j e
  proof
    assume "Compare c (fst e) t < 0"
    then have "Compare c (fst (idx ! k)) t < 0"
      using index.cmp_less_trans [of "fst (idx ! k)" "fst e" t] above_earlier [OF that] block_valid [OF that(2,3)] idx_valid [of k] that t by simp
    then show False using iff [of k] that by simp
  qed
  show "entries_below c t (concat blocks) = block_start blocks k + entries_below c t (blocks ! k)" if kl: "k < length blocks"
  proof -
    have "entries_below c t (concat (take k blocks)) = length (concat (take k blocks))"
      using kl by (intro entries_below_all) (use below in \<open>force simp: in_concat_nth simp del: set_concat\<close>)
    moreover have "entries_below c t (concat (drop (Suc k) blocks)) = 0"
    proof (rule entries_below_none)
      fix e assume "e \<in> set (concat (drop (Suc k) blocks))"
      then obtain m where "m < length blocks - Suc k" "e \<in> set (blocks ! (Suc k + m))"
        using kl by (auto simp: in_concat_nth simp del: set_concat)
      then show "\<not> Compare c (fst e) t < 0" using above [of "Suc k + m"] by simp
    qed
    ultimately show ?thesis using concat_split [OF kl] by (simp add: entries_below_append block_start_def)
  qed
  show "entries_below c t (concat blocks) = length (concat blocks)" if "\<not> k < length blocks"
    using that by (intro entries_below_all) (use below in \<open>force simp: in_concat_nth simp del: set_concat\<close>)
qed


lemma index_valid: "wrapper_pos ii ipos w j \<Longrightarrow> iw_valid w \<longleftrightarrow> j < length blocks"
  and index_value: "\<lbrakk>wrapper_pos ii ipos w j; j < length blocks\<rbrakk> \<Longrightarrow> IW_value ii w = snd (idx ! j)"
  and index_le: "wrapper_pos ii ipos w j \<Longrightarrow> j \<le> length blocks"
  and index_status: "wrapper_pos ii ipos w j \<Longrightarrow> IW_status ii w = OK"
  using sorted_iterator.pos_Valid [OF index_wrapped] sorted_iterator.pos_value [OF index_wrapped] sorted_iterator.pos_le [OF index_wrapped]
    sorted_iterator.pos_status [OF index_wrapped] by simp_all

lemma data_valid: "\<lbrakk>j < length blocks; wrapper_pos di (dpos j) w i\<rbrakk> \<Longrightarrow> iw_valid w \<longleftrightarrow> i < length (blocks ! j)"
  and data_le: "\<lbrakk>j < length blocks; wrapper_pos di (dpos j) w i\<rbrakk> \<Longrightarrow> i \<le> length (blocks ! j)"
  and data_status: "\<lbrakk>j < length blocks; wrapper_pos di (dpos j) w i\<rbrakk> \<Longrightarrow> IW_status di w = OK"
  using sorted_iterator.pos_Valid [OF data_wrapped] sorted_iterator.pos_le [OF data_wrapped] sorted_iterator.pos_status [OF data_wrapped]
  by simp_all

lemma wrapper_iter: "wrapper_pos it p w i \<Longrightarrow> iw_iter w \<noteq> None"
  by (auto simp: wrapper_pos_def)

lemma at_loose: "at j i t \<Longrightarrow> loose j t"
  by (auto simp: tl_at_def tl_loose_def)

lemma none_loose: "none j t \<Longrightarrow> loose j t"
  by (simp add: tl_none_def tl_loose_def)

lemma pos_loose: "at_pos t n \<Longrightarrow> \<exists>j. loose j t"
  by (auto simp: tl_pos_def dest: at_loose none_loose)

lemma loose_move_index:
  assumes "loose j t" and "\<exists>w'. op (tl_index_iter t) = Some w' \<and> wrapper_pos ii ipos w' j'"
  shows "\<exists>t'. TL_move_index op t = Some t' \<and> loose j' t'"
proof -
  obtain w' where "op (tl_index_iter t) = Some w'" "wrapper_pos ii ipos w' j'" using assms(2) by blast
  then show ?thesis using assms(1) by (simp add: TL_move_index_def tl_loose_def)
qed

lemma at_move_data:
  assumes "at j i t" and "\<exists>w'. op (tl_data_iter t) = Some w' \<and> wrapper_pos di (dpos j) w' i'"
  shows "\<exists>t'. TL_move_data op t = Some t' \<and> at j i' t'"
  using assms wrapper_iter by (fastforce simp: TL_move_data_def tl_at_def)

lemma none_move_data: "none j t \<Longrightarrow> TL_move_data op t = Some t"
  by (simp add: TL_move_data_def tl_none_def)

lemma SetDataIterator_OK:
  "(iw_iter (tl_data_iter t) \<noteq> None \<longrightarrow> IW_status di (tl_data_iter t) = OK) \<Longrightarrow>
   TL_SetDataIterator di d t = t\<lparr>tl_data_iter := IW_Set di d (tl_data_iter t)\<rparr>"
  by (simp add: TL_SetDataIterator_def TL_SaveError_def Let_def)

lemma loose_data_status: "loose j t \<Longrightarrow> iw_iter (tl_data_iter t) \<noteq> None \<longrightarrow> IW_status di (tl_data_iter t) = OK"
  using data_status by (auto simp: tl_loose_def)

lemma loose_drop_data: "loose j t \<Longrightarrow> none j (TL_SetDataIterator di None t)"
  by (simp add: SetDataIterator_OK loose_data_status) (simp add: tl_none_def tl_loose_def IW_Set_def)

lemma InitDataBlock_at:
  assumes "loose j t" and j: "j < length blocks"
  shows "\<exists>t' i. TL_InitDataBlock ii di bf t = Some t' \<and> at j i t'"
proof -
  have t: "tl_status t = OK" "wrapper_pos ii ipos (tl_index_iter t) j" using assms(1) by (auto simp: tl_loose_def)
  note ix = index_valid [OF t(2)] index_value [OF t(2) j]
  show ?thesis
  proof (cases "iw_iter (tl_data_iter t) \<noteq> None \<and> slice_compare (snd (idx ! j)) (tl_data_block_handle t) = 0")
    case True
    then obtain k i where k: "k < length blocks" "tl_data_block_handle t = snd (idx ! k)" "wrapper_pos di (dpos k) (tl_data_iter t) i"
      using assms(1) by (auto simp: tl_loose_def)
    have "map snd idx ! j = map snd idx ! k" using True k(1,2) j by (simp add: slice_compare_iff)
    then have "j = k" using nth_eq_iff_index_eq [OF handles_distinct, of j k] j k(1) by simp
    then show ?thesis using True t k ix j by (auto simp: TL_InitDataBlock_def tl_at_def Let_def)
  next
    case False
    obtain s i where "bf (snd (idx ! j)) = Some s" "dpos j s i" using block_function [OF j] by blast
    then show ?thesis
      using False t ix j loose_data_status [OF assms(1)]
      by (auto simp: TL_InitDataBlock_def tl_at_def Let_def SetDataIterator_OK intro: wrapper_pos_Set)
  qed
qed

lemma InitDataBlock_none: "\<lbrakk>loose j t; \<not> j < length blocks\<rbrakk> \<Longrightarrow> \<exists>t'. TL_InitDataBlock ii di bf t = Some t' \<and> none j t'"
  using loose_drop_data [of j t] index_valid [of "tl_index_iter t" j] by (auto simp: TL_InitDataBlock_def tl_loose_def)

text \<open>What every movement does: move the index, open its block, move there.\<close>

lemma enter_block:
  assumes "loose j t" and "\<exists>w'. mi (tl_index_iter t) = Some w' \<and> wrapper_pos ii ipos w' j'" and "j' < length blocks"
    and "\<And>w i. wrapper_pos di (dpos j') w i \<Longrightarrow> \<exists>w'. md w = Some w' \<and> wrapper_pos di (dpos j') w' i'"
  shows "\<exists>t'. Option.bind (TL_move_index mi t) (\<lambda>t. Option.bind (TL_InitDataBlock ii di bf t) (\<lambda>t. Option.bind (TL_move_data md t) f)) = f t' \<and> at j' i' t'"
proof -
  obtain t1 where t1: "TL_move_index mi t = Some t1" "loose j' t1" using loose_move_index [of j t mi j', OF assms(1,2)] by blast
  obtain t2 i where t2: "TL_InitDataBlock ii di bf t1 = Some t2" "at j' i t2" using InitDataBlock_at [OF t1(2) assms(3)] by blast
  have "\<exists>w'. md (tl_data_iter t2) = Some w' \<and> wrapper_pos di (dpos j') w' i'" using assms(4) t2(2) by (auto simp: tl_at_def)
  from at_move_data [where op = md, OF t2(2) this] t1(1) t2(1) show ?thesis by auto
qed

lemma enter_none:
  assumes "loose j t" and "\<exists>w'. mi (tl_index_iter t) = Some w' \<and> wrapper_pos ii ipos w' j'" and "\<not> j' < length blocks"
  shows "\<exists>t'. Option.bind (TL_move_index mi t) (\<lambda>t. Option.bind (TL_InitDataBlock ii di bf t) (\<lambda>t. Option.bind (TL_move_data md t) f)) = f t' \<and> none j' t'"
proof -
  obtain t1 where t1: "TL_move_index mi t = Some t1" "loose j' t1" using loose_move_index [of j t mi j', OF assms(1,2)] by blast
  obtain t2 where t2: "TL_InitDataBlock ii di bf t1 = Some t2" "none j' t2" using InitDataBlock_none [OF t1(2) assms(3)] by blast
  with none_move_data [OF t2(2)] t1(1) show ?thesis by auto
qed

lemma Skip_none:
  assumes "none j t" and "\<not> j < length blocks"
  shows "\<exists>t'. SkipEmptyDataBlocksForward ii di bf t = Some t' \<and> at_pos t' (length (concat blocks))"
    and "\<exists>t'. SkipEmptyDataBlocksBackward ii di bf t = Some t' \<and> at_pos t' (length (concat blocks))"
proof -
  have "none j (TL_SetDataIterator di None t)" using loose_drop_data [OF none_loose [OF assms(1)]] .
  then have "at_pos (TL_SetDataIterator di None t) (length (concat blocks))" by (auto simp: tl_pos_def)
  then show "\<exists>t'. SkipEmptyDataBlocksForward ii di bf t = Some t' \<and> at_pos t' (length (concat blocks))"
    "\<exists>t'. SkipEmptyDataBlocksBackward ii di bf t = Some t' \<and> at_pos t' (length (concat blocks))"
    using assms index_valid [of "tl_index_iter t" j]
    by (simp_all add: SkipEmptyDataBlocksForward.simps [of ii di bf t] SkipEmptyDataBlocksBackward.simps [of ii di bf t] tl_none_def)
qed

lemma Skip_at:
  assumes "at j i t" and "i < length (blocks ! j)"
  shows "SkipEmptyDataBlocksForward ii di bf t = Some t" and "SkipEmptyDataBlocksBackward ii di bf t = Some t"
    and "at_pos t (block_start blocks j + i)"
  using assms data_valid [of j "tl_data_iter t" i] wrapper_iter [of di "dpos j" "tl_data_iter t" i]
  by (auto simp: SkipEmptyDataBlocksForward.simps [of ii di bf t] SkipEmptyDataBlocksBackward.simps [of ii di bf t] tl_at_def tl_pos_def)

lemma Skip_step:
  assumes "at j i t" and "\<not> i < length (blocks ! j)"
  shows "SkipEmptyDataBlocksForward ii di bf t = Option.bind (TL_move_index (IW_Next ii) t) (\<lambda>t.
      Option.bind (TL_InitDataBlock ii di bf t) (\<lambda>t. Option.bind (TL_move_data (IW_SeekToFirst di) t) (SkipEmptyDataBlocksForward ii di bf)))"
    and "SkipEmptyDataBlocksBackward ii di bf t = Option.bind (TL_move_index (IW_Prev ii) t) (\<lambda>t.
      Option.bind (TL_InitDataBlock ii di bf t) (\<lambda>t. Option.bind (TL_move_data (IW_SeekToLast di) t) (SkipEmptyDataBlocksBackward ii di bf)))"
    and "i = length (blocks ! j)"
  using assms data_valid [of j "tl_data_iter t" i] data_le [of j "tl_data_iter t" i] index_valid [of "tl_index_iter t" j]
  by (auto simp: SkipEmptyDataBlocksForward.simps [of ii di bf t] SkipEmptyDataBlocksBackward.simps [of ii di bf t] tl_at_def)

lemma Skip_forward: "at j i t \<Longrightarrow> \<exists>t'. SkipEmptyDataBlocksForward ii di bf t = Some t' \<and> at_pos t' (block_start blocks j + i)"
proof (induction "length blocks - j" arbitrary: j i t rule: less_induct)
  case less
  show ?case
  proof (cases "i < length (blocks ! j)")
    case True
    then show ?thesis using Skip_at [OF less.prems] by blast
  next
    case False
    note step = Skip_step [OF less.prems False]
    have j: "j < length blocks" and w: "wrapper_pos ii ipos (tl_index_iter t) j" using less.prems by (simp_all add: tl_at_def)
    have nxt: "\<exists>w'. IW_Next ii (tl_index_iter t) = Some w' \<and> wrapper_pos ii ipos w' (Suc j)"
      using sorted_iterator.pos_Next [OF index_wrapped w] j by simp
    have start: "block_start blocks (Suc j) = block_start blocks j + i" using block_start_Suc [OF j] step(3) by simp
    show ?thesis
    proof (cases "Suc j < length blocks")
      case True
      obtain t' where "SkipEmptyDataBlocksForward ii di bf t = SkipEmptyDataBlocksForward ii di bf t'" "at (Suc j) 0 t'"
        using enter_block [where mi = "IW_Next ii" and md = "IW_SeekToFirst di" and i' = 0 and f = "SkipEmptyDataBlocksForward ii di bf", OF at_loose [OF less.prems] nxt True]
          sorted_iterator.pos_SeekToFirst [OF data_wrapped [OF True]] unfolding step(1) by fastforce
      then show ?thesis using less.hyps [of "Suc j" 0 t'] j start by auto
    next
      case False
      obtain t' where t': "SkipEmptyDataBlocksForward ii di bf t = SkipEmptyDataBlocksForward ii di bf t'" "none (Suc j) t'"
        using enter_none [where mi = "IW_Next ii" and md = "IW_SeekToFirst di" and f = "SkipEmptyDataBlocksForward ii di bf", OF at_loose [OF less.prems] nxt False] unfolding step(1) by fastforce
      have "Suc j = length blocks" using False j by simp
      then show ?thesis using Skip_none(1) [OF t'(2) False] t'(1) start block_start_all [of blocks] by simp
    qed
  qed
qed

lemma Skip_backward:
  "at j i t \<Longrightarrow> \<exists>t'. SkipEmptyDataBlocksBackward ii di bf t = Some t' \<and>
     at_pos t' (if i < length (blocks ! j) then block_start blocks j + i else prev_pos (length (concat blocks)) (block_start blocks j))"
proof (induction j arbitrary: i t rule: less_induct)
  case (less j)
  show ?case
  proof (cases "i < length (blocks ! j)")
    case True
    then show ?thesis using Skip_at [OF less.prems] by auto
  next
    case False
    note step = Skip_step [OF less.prems False]
    have j: "j < length blocks" and w: "wrapper_pos ii ipos (tl_index_iter t) j" using less.prems by (simp_all add: tl_at_def)
    have prv: "\<exists>w'. IW_Prev ii (tl_index_iter t) = Some w' \<and> wrapper_pos ii ipos w' (prev_pos (length blocks) j)"
      using sorted_iterator.pos_Prev [OF index_wrapped w] j by simp
    show ?thesis
    proof (cases j)
      case 0
      then have "\<not> prev_pos (length blocks) j < length blocks" by (simp add: prev_pos_def)
      from enter_none [where mi = "IW_Prev ii" and md = "IW_SeekToLast di" and f = "SkipEmptyDataBlocksBackward ii di bf", OF at_loose [OF less.prems] prv this]
      obtain t' where "SkipEmptyDataBlocksBackward ii di bf t = SkipEmptyDataBlocksBackward ii di bf t'" "none (prev_pos (length blocks) j) t'"
        unfolding step(2) by fastforce
      then show ?thesis using Skip_none(2) [of "prev_pos (length blocks) j" t'] 0 False by (auto simp: prev_pos_def)
    next
      case (Suc k)
      then have k: "k < length blocks" "prev_pos (length blocks) j = k" using j by (simp_all add: prev_pos_def)
      obtain t' where t': "SkipEmptyDataBlocksBackward ii di bf t = SkipEmptyDataBlocksBackward ii di bf t'"
        "at k (prev_pos (length (blocks ! k)) (length (blocks ! k))) t'"
        using enter_block [where mi = "IW_Prev ii" and md = "IW_SeekToLast di" and i' = "prev_pos (length (blocks ! k)) (length (blocks ! k))" and
              f = "SkipEmptyDataBlocksBackward ii di bf", OF at_loose [OF less.prems] prv] k
          sorted_iterator.pos_SeekToLast [OF data_wrapped [OF k(1)]] unfolding step(2) by fastforce
      have "block_start blocks j = block_start blocks k + length (blocks ! k)" using block_start_Suc [OF k(1)] Suc by simp
      then show ?thesis using less.IH [OF _ t'(2)] Suc t'(1) False by (auto simp: prev_pos_def split: if_splits)
    qed
  qed
qed

lemma two_level_status: "loose j t \<Longrightarrow> TL_status ii di t = OK"
  using loose_data_status [of j t] index_status [of "tl_index_iter t" j] by (auto simp: TL_status_def tl_loose_def)

lemma new_pos: "ipos s j \<Longrightarrow> at_pos (NewTwoLevelIterator ii s) (length (concat blocks))"
  by (auto simp: tl_pos_def tl_none_def NewTwoLevelIterator_def IteratorWrapper_new_def intro!: exI [of _ j] wrapper_pos_Set)

lemma Seek_run:
  assumes "loose j t" and "valid target"
  shows "\<exists>t'. TL_Seek ii di bf target t = Some t' \<and> at_pos t' (entries_below c target (concat blocks))"
proof -
  let ?k = "entries_below c target idx"
  have sk: "\<exists>w'. IW_Seek ii target (tl_index_iter t) = Some w' \<and> wrapper_pos ii ipos w' ?k"
    using sorted_iterator.pos_Seek [OF index_wrapped _ assms(2)] assms(1) by (auto simp: tl_loose_def)
  show ?thesis
  proof (cases "?k < length blocks")
    case True
    from enter_block [where mi = "IW_Seek ii target" and md = "IW_Seek di target" and f = "SkipEmptyDataBlocksForward ii di bf", OF assms(1) sk True]
    obtain t' where "TL_Seek ii di bf target t = SkipEmptyDataBlocksForward ii di bf t'" "at ?k (entries_below c target (blocks ! ?k)) t'"
      using sorted_iterator.pos_Seek [OF data_wrapped [OF True] _ assms(2)] unfolding TL_Seek_def by fastforce
    then show ?thesis using Skip_forward concat_below(1) [OF assms(2) True] by simp
  next
    case False
    from enter_none [where mi = "IW_Seek ii target" and md = "IW_Seek di target" and f = "SkipEmptyDataBlocksForward ii di bf", OF assms(1) sk False]
    obtain t' where "TL_Seek ii di bf target t = SkipEmptyDataBlocksForward ii di bf t'" "none ?k t'" unfolding TL_Seek_def by fastforce
    then show ?thesis using Skip_none(1) [OF _ False] concat_below(2) [OF assms(2) False] by simp
  qed
qed

lemma SeekToFirst_run:
  assumes "loose j t"
  shows "\<exists>t'. TL_SeekToFirst ii di bf t = Some t' \<and> at_pos t' 0"
proof -
  have sk: "\<exists>w'. IW_SeekToFirst ii (tl_index_iter t) = Some w' \<and> wrapper_pos ii ipos w' 0"
    using sorted_iterator.pos_SeekToFirst [OF index_wrapped] assms by (auto simp: tl_loose_def)
  show ?thesis
  proof (cases "0 < length blocks")
    case True
    from enter_block [where mi = "IW_SeekToFirst ii" and md = "IW_SeekToFirst di" and i' = 0 and f = "SkipEmptyDataBlocksForward ii di bf", OF assms(1) sk True]
    obtain t' where "TL_SeekToFirst ii di bf t = SkipEmptyDataBlocksForward ii di bf t'" "at 0 0 t'"
      using sorted_iterator.pos_SeekToFirst [OF data_wrapped [OF True]] unfolding TL_SeekToFirst_def by fastforce
    then show ?thesis using Skip_forward [of 0 0] by simp
  next
    case False
    from enter_none [where mi = "IW_SeekToFirst ii" and md = "IW_SeekToFirst di" and f = "SkipEmptyDataBlocksForward ii di bf", OF assms(1) sk False]
    obtain t' where "TL_SeekToFirst ii di bf t = SkipEmptyDataBlocksForward ii di bf t'" "none 0 t'" unfolding TL_SeekToFirst_def by fastforce
    then show ?thesis using Skip_none(1) [OF _ False] False by simp
  qed
qed

lemma SeekToLast_run:
  assumes "loose j t"
  shows "\<exists>t'. TL_SeekToLast ii di bf t = Some t' \<and> at_pos t' (prev_pos (length (concat blocks)) (length (concat blocks)))"
proof -
  let ?L = "length blocks"
  have sk: "\<exists>w'. IW_SeekToLast ii (tl_index_iter t) = Some w' \<and> wrapper_pos ii ipos w' (prev_pos ?L ?L)"
    using sorted_iterator.pos_SeekToLast [OF index_wrapped] assms by (auto simp: tl_loose_def)
  show ?thesis
  proof (cases "prev_pos ?L ?L < ?L")
    case True
    let ?j = "prev_pos ?L ?L" and ?B = "length (blocks ! prev_pos ?L ?L)"
    from enter_block [where mi = "IW_SeekToLast ii" and md = "IW_SeekToLast di" and i' = "prev_pos ?B ?B" and
      f = "SkipEmptyDataBlocksBackward ii di bf", OF assms(1) sk True]
    obtain t' where t': "TL_SeekToLast ii di bf t = SkipEmptyDataBlocksBackward ii di bf t'" "at ?j (prev_pos ?B ?B) t'"
      using sorted_iterator.pos_SeekToLast [OF data_wrapped [OF True]] unfolding TL_SeekToLast_def by fastforce
    have "Suc ?j = ?L" using True by (auto simp: prev_pos_def split: if_splits)
    then have "length (concat blocks) = block_start blocks ?j + ?B" using block_start_Suc [OF True] block_start_all [of blocks] by simp
    then show ?thesis using Skip_backward [OF t'(2)] t'(1) prev_pos_block [of ?B ?B] by simp
  next
    case False
    from enter_none [where mi = "IW_SeekToLast ii" and md = "IW_SeekToLast di" and f = "SkipEmptyDataBlocksBackward ii di bf", OF assms(1) sk False]
    obtain t' where "TL_SeekToLast ii di bf t = SkipEmptyDataBlocksBackward ii di bf t'" "none (prev_pos ?L ?L) t'"
      unfolding TL_SeekToLast_def by fastforce
    moreover have "blocks = []" using False by (auto simp: prev_pos_def split: if_splits)
    ultimately show ?thesis using Skip_none(2) [OF _ False] by (simp add: prev_pos_def)
  qed
qed

lemma Next_run:
  assumes "at j i t" and "i < length (blocks ! j)"
  shows "\<exists>t'. TL_Next ii di bf t = Some t' \<and> at_pos t' (Suc (block_start blocks j + i))"
proof -
  have d: "j < length blocks" "wrapper_pos di (dpos j) (tl_data_iter t) i" using assms(1) by (simp_all add: tl_at_def)
  have "\<exists>w'. IW_Next di (tl_data_iter t) = Some w' \<and> wrapper_pos di (dpos j) w' (Suc i)"
    using sorted_iterator.pos_Next [OF data_wrapped [OF d(1)] d(2) assms(2)] by simp
  from at_move_data [where op = "IW_Next di", OF assms(1) this] obtain t' where "TL_move_data (IW_Next di) t = Some t'" "at j (Suc i) t'" by blast
  then show ?thesis using Skip_forward [of j "Suc i" t'] data_valid [OF d] assms(2) by (auto simp: TL_Next_def)
qed

lemma Prev_run:
  assumes "at j i t" and "i < length (blocks ! j)"
  shows "\<exists>t'. TL_Prev ii di bf t = Some t' \<and> at_pos t' (prev_pos (length (concat blocks)) (block_start blocks j + i))"
proof -
  let ?i = "prev_pos (length (blocks ! j)) i"
  have d: "j < length blocks" "wrapper_pos di (dpos j) (tl_data_iter t) i" using assms(1) by (simp_all add: tl_at_def)
  have "\<exists>w'. IW_Prev di (tl_data_iter t) = Some w' \<and> wrapper_pos di (dpos j) w' ?i"
    using sorted_iterator.pos_Prev [OF data_wrapped [OF d(1)] d(2) assms(2)] by simp
  from at_move_data [where op = "IW_Prev di", OF assms(1) this] obtain t' where t': "TL_move_data (IW_Prev di) t = Some t'" "at j ?i t'" by blast
  then show ?thesis using Skip_backward [OF t'(2)] data_valid [OF d] assms(2) prev_pos_block [of i "length (blocks ! j)"] by (simp add: TL_Prev_def)
qed

end

sublocale two_level \<subseteq> two: sorted_iterator c valid "TwoLevelIterator_class ii di bf" "concat blocks" "tl_pos ii di idx ipos blocks dpos"
proof (intro sorted_iterator.intro [OF index.comparator_axioms] sorted_iterator_axioms.intro)
  fix t n target
  assume p: "at_pos t n"
  then obtain j0 where lo: "loose j0 t" using pos_loose by blast
  have at_or_end: "(\<exists>j i. at j i t \<and> i < length (blocks ! j) \<and> n = block_start blocks j + i \<and> n < length (concat blocks) \<and> j < length blocks) \<or>
      (\<exists>j. none j t \<and> n = length (concat blocks))"
    using p concat_nth_start(2) by (fastforce simp: tl_pos_def tl_at_def)
  then show "n \<le> length (concat blocks)" by auto
  show "iter_Valid (TwoLevelIterator_class ii di bf) t \<longleftrightarrow> n < length (concat blocks)"
    using at_or_end data_valid by (auto simp: TwoLevelIterator_class_def tl_at_def tl_none_def)
  show "iter_status (TwoLevelIterator_class ii di bf) t = OK" using two_level_status [OF lo] by (simp add: TwoLevelIterator_class_def)
  show "\<exists>t'. iter_SeekToFirst (TwoLevelIterator_class ii di bf) t = Some t' \<and> at_pos t' 0"
    using SeekToFirst_run [OF lo] by (simp add: TwoLevelIterator_class_def)
  show "\<exists>t'. iter_SeekToLast (TwoLevelIterator_class ii di bf) t = Some t' \<and> at_pos t' (prev_pos (length (concat blocks)) (length (concat blocks)))"
    using SeekToLast_run [OF lo] by (simp add: TwoLevelIterator_class_def)
  show "\<exists>t'. iter_Seek (TwoLevelIterator_class ii di bf) target t = Some t' \<and> at_pos t' (entries_below c target (concat blocks))" if "valid target"
    using Seek_run [OF lo that] by (simp add: TwoLevelIterator_class_def)
  assume n: "n < length (concat blocks)"
  then obtain j i where ji: "at j i t" "i < length (blocks ! j)" "n = block_start blocks j + i" and j: "j < length blocks" using at_or_end by blast
  then have d: "wrapper_pos di (dpos j) (tl_data_iter t) i" by (simp add: tl_at_def)
  show "iter_key (TwoLevelIterator_class ii di bf) t = fst (concat blocks ! n)"
    "iter_value (TwoLevelIterator_class ii di bf) t = snd (concat blocks ! n)"
    using sorted_iterator.pos_key [OF data_wrapped [OF j] d ji(2)] sorted_iterator.pos_value [OF data_wrapped [OF j] d ji(2)]
      concat_nth_start(1) [OF j ji(2)] ji(3) by (simp_all add: TwoLevelIterator_class_def)
  show "\<exists>t'. iter_Next (TwoLevelIterator_class ii di bf) t = Some t' \<and> at_pos t' (Suc n)"
    using Next_run [OF ji(1,2)] ji(3) by (simp add: TwoLevelIterator_class_def)
  show "\<exists>t'. iter_Prev (TwoLevelIterator_class ii di bf) t = Some t' \<and> at_pos t' (prev_pos (length (concat blocks)) n)"
    using Prev_run [OF ji(1,2)] ji(3) by (simp add: TwoLevelIterator_class_def)
qed (simp_all add: concat_ascending concat_valid del: set_concat)

context two_level
begin

lemma two_level_sorted: "sorted_iterator c valid (TwoLevelIterator_class ii di bf) (concat blocks) (tl_pos ii di idx ipos blocks dpos)"
  by unfold_locales

end

end
