(* ===== verification/Format.thy ===== *)
theory Format
  imports Crc32c MemEnv
begin

text \<open>
  \<open>table/format.h\<close> and \<open>table/format.cc\<close>: block handles, the footer of a table file and the reading of a stored block, with the
  compression routines of \<open>port/port_stdcxx.h\<close>. The Snappy and Zstandard libraries are not part of the program; they are
  parameters, absent when the build has none.
\<close>

subsection \<open>Compression\<close>

datatype CompressionType = kNoCompression | kSnappyCompression | kZstdCompression

fun CompressionType_code :: "CompressionType \<Rightarrow> byte" where
  "CompressionType_code kNoCompression = 0"
| "CompressionType_code kSnappyCompression = 1"
| "CompressionType_code kZstdCompression = 2"

record snappy_library =
  snappy_RawCompress :: "bytes \<Rightarrow> bytes"
  snappy_GetUncompressedLength :: "bytes \<Rightarrow> nat option"
  snappy_RawUncompress :: "bytes \<Rightarrow> bytes option"

text \<open>A failure \<open>ZSTD_isError\<close> reports is \<^term>\<open>None\<close>; the decompressor gets the size of its output buffer.\<close>

record zstd_library =
  ZSTD_compressBound :: "nat \<Rightarrow> nat option"
  ZSTD_compress2 :: "int \<Rightarrow> nat \<Rightarrow> bytes \<Rightarrow> bytes option"
  ZSTD_getFrameContentSize :: "bytes \<Rightarrow> nat"
  ZSTD_decompressDCtx :: "nat \<Rightarrow> bytes \<Rightarrow> bytes option"

record compression_port =
  port_snappy :: "snappy_library option"
  port_zstd :: "zstd_library option"

definition Snappy_Compress :: "compression_port \<Rightarrow> bytes \<Rightarrow> bytes option" where
  "Snappy_Compress port input = (case port_snappy port of None \<Rightarrow> None | Some lib \<Rightarrow> Some (snappy_RawCompress lib input))"

definition Snappy_GetUncompressedLength :: "compression_port \<Rightarrow> bytes \<Rightarrow> nat option" where
  "Snappy_GetUncompressedLength port input =
     (case port_snappy port of None \<Rightarrow> None | Some lib \<Rightarrow> snappy_GetUncompressedLength lib input)"

definition Snappy_Uncompress :: "compression_port \<Rightarrow> bytes \<Rightarrow> bytes option" where
  "Snappy_Uncompress port input = (case port_snappy port of None \<Rightarrow> None | Some lib \<Rightarrow> snappy_RawUncompress lib input)"

definition Zstd_Compress :: "compression_port \<Rightarrow> int \<Rightarrow> bytes \<Rightarrow> bytes option" where
  "Zstd_Compress port level input =
     (case port_zstd port of
        None \<Rightarrow> None
      | Some lib \<Rightarrow> (case ZSTD_compressBound lib (length input) of None \<Rightarrow> None | Some outlen \<Rightarrow> ZSTD_compress2 lib level outlen input))"

definition Zstd_GetUncompressedLength :: "compression_port \<Rightarrow> bytes \<Rightarrow> nat option" where
  "Zstd_GetUncompressedLength port input =
     (case port_zstd port of
        None \<Rightarrow> None
      | Some lib \<Rightarrow> (let sz = ZSTD_getFrameContentSize lib input in if sz = 0 then None else Some sz))"

definition Zstd_Uncompress :: "compression_port \<Rightarrow> bytes \<Rightarrow> bytes option" where
  "Zstd_Uncompress port input =
     (case port_zstd port of
        None \<Rightarrow> None
      | Some lib \<Rightarrow>
          (case Zstd_GetUncompressedLength port input of None \<Rightarrow> None | Some outlen \<Rightarrow> ZSTD_decompressDCtx lib outlen input))"

subsection \<open>Block handles\<close>

record BlockHandle =
  bh_offset :: u64
  bh_size :: u64

definition bh_kMaxEncodedLength :: nat where
  "bh_kMaxEncodedLength = 10 + 10"

definition BlockHandle_new :: BlockHandle where
  "BlockHandle_new = \<lparr>bh_offset = - 1, bh_size = - 1\<rparr>"

definition BlockHandle_EncodeTo :: "BlockHandle \<Rightarrow> bytes \<Rightarrow> bytes option" where
  "BlockHandle_EncodeTo h dst =
     (if bh_offset h = - 1 \<or> bh_size h = - 1 then None
      else Some (PutVarint64 (PutVarint64 dst (bh_offset h)) (bh_size h)))"

definition BlockHandle_DecodeFrom :: "bytes \<Rightarrow> BlockHandle \<Rightarrow> Status \<times> BlockHandle \<times> bytes" where
  "BlockHandle_DecodeFrom input h =
     (case GetVarint64 input of
        None \<Rightarrow> (Corruption (str ''bad block handle'') [], h, input)
      | Some (off, input1) \<Rightarrow>
          (case GetVarint64 input1 of
             None \<Rightarrow> (Corruption (str ''bad block handle'') [], h\<lparr>bh_offset := off\<rparr>, input1)
           | Some (sz, input2) \<Rightarrow> (OK, h\<lparr>bh_offset := off, bh_size := sz\<rparr>, input2)))"

subsection \<open>The footer\<close>

record Footer =
  ft_metaindex_handle :: BlockHandle
  ft_index_handle :: BlockHandle

definition ft_kEncodedLength :: nat where
  "ft_kEncodedLength = 2 * bh_kMaxEncodedLength + 8"

definition kTableMagicNumber :: u64 where
  "kTableMagicNumber = 0xdb4775248b80fb57"

definition kBlockTrailerSize :: nat where
  "kBlockTrailerSize = 5"

definition Footer_new :: Footer where
  "Footer_new = \<lparr>ft_metaindex_handle = BlockHandle_new, ft_index_handle = BlockHandle_new\<rparr>"

definition string_resize :: "nat \<Rightarrow> bytes \<Rightarrow> bytes" where
  "string_resize n s = take n s @ replicate (n - length s) 0"

definition Footer_EncodeTo :: "Footer \<Rightarrow> bytes \<Rightarrow> bytes option" where
  "Footer_EncodeTo ft dst =
     (let original_size = length dst
      in Option.bind (BlockHandle_EncodeTo (ft_metaindex_handle ft) dst) (\<lambda>dst.
         Option.bind (BlockHandle_EncodeTo (ft_index_handle ft) dst) (\<lambda>dst.
           let dst = string_resize (2 * bh_kMaxEncodedLength) dst;
               dst = PutFixed32 dst (ucast (kTableMagicNumber AND 0xffffffff));
               dst = PutFixed32 dst (ucast (drop_bit 32 kTableMagicNumber))
           in if length dst = original_size + ft_kEncodedLength then Some dst else None)))"

definition Footer_DecodeFrom :: "bytes \<Rightarrow> Footer \<Rightarrow> Status \<times> Footer \<times> bytes" where
  "Footer_DecodeFrom input ft =
     (if length input < ft_kEncodedLength then (Corruption (str ''not an sstable (footer too short)'') [], ft, input)
      else
        (let magic_ptr = drop (ft_kEncodedLength - 8) input;
             magic_lo = DecodeFixed32 magic_ptr;
             magic_hi = DecodeFixed32 (drop 4 magic_ptr);
             magic = push_bit 32 (ucast magic_hi) OR ucast magic_lo :: u64
         in if magic \<noteq> kTableMagicNumber then (Corruption (str ''not an sstable (bad magic number)'') [], ft, input)
            else
              (let (result, mh, input1) = BlockHandle_DecodeFrom input (ft_metaindex_handle ft);
                   ft = ft\<lparr>ft_metaindex_handle := mh\<rparr>
               in if \<not> ok result then (result, ft, input1)
                  else
                    (let (result, ih, input2) = BlockHandle_DecodeFrom input1 (ft_index_handle ft);
                         ft = ft\<lparr>ft_index_handle := ih\<rparr>
                     in if \<not> ok result then (result, ft, input2) else (result, ft, drop 8 magic_ptr)))))"

subsection \<open>Reading a block\<close>

record BlockContents =
  bc_data :: bytes
  bc_cachable :: bool
  bc_heap_allocated :: bool

record ReadOptions =
  ro_verify_checksums :: bool
  ro_fill_cache :: bool

definition ReadOptions_new :: ReadOptions where
  "ReadOptions_new = \<lparr>ro_verify_checksums = False, ro_fill_cache = True\<rparr>"

text \<open>\<open>scratch\<close> says whether the file puts what it reads into the buffer it is given or points to memory of its own. The size
  of the buffer is computed in 64 bits; \<^term>\<open>None\<close> is an access outside it. The decompressors fill the buffer whose length they
  announced.\<close>

definition ReadBlock ::
  "compression_port \<Rightarrow> bool \<Rightarrow> 'e RandomAccessFile \<Rightarrow> ReadOptions \<Rightarrow> BlockHandle \<Rightarrow> 'e \<Rightarrow> (Status \<times> BlockContents) option" where
  "ReadBlock port scratch file options handle e =
     (let none = \<lparr>bc_data = [], bc_cachable = False, bc_heap_allocated = False\<rparr>;
          n = unat (bh_size handle);
          len = unat (bh_size handle + of_nat kBlockTrailerSize);
          (s, contents) = rnd_Read file (unat (bh_offset handle)) len e
      in if \<not> ok s then Some (s, none)
         else if length contents \<noteq> len then Some (Corruption (str ''truncated block read'') [], none)
         else if length contents < n + kBlockTrailerSize then None
         else if ro_verify_checksums options \<and> crc_value (take (n + 1) contents) \<noteq> Unmask (DecodeFixed32 (drop (n + 1) contents))
         then Some (Corruption (str ''block checksum mismatch'') [], none)
         else if contents ! n = CompressionType_code kNoCompression
         then Some (OK, \<lparr>bc_data = take n contents, bc_cachable = scratch, bc_heap_allocated = scratch\<rparr>)
         else if contents ! n = CompressionType_code kSnappyCompression
         then
           (case Snappy_GetUncompressedLength port (take n contents) of
              None \<Rightarrow> Some (Corruption (str ''corrupted snappy compressed block length'') [], none)
            | Some ulength \<Rightarrow>
                (case Snappy_Uncompress port (take n contents) of
                   None \<Rightarrow> Some (Corruption (str ''corrupted snappy compressed block contents'') [], none)
                 | Some ubuf \<Rightarrow> Some (OK, \<lparr>bc_data = ubuf, bc_cachable = True, bc_heap_allocated = True\<rparr>)))
         else if contents ! n = CompressionType_code kZstdCompression
         then
           (case Zstd_GetUncompressedLength port (take n contents) of
              None \<Rightarrow> Some (Corruption (str ''corrupted zstd compressed block length'') [], none)
            | Some ulength \<Rightarrow>
                (case Zstd_Uncompress port (take n contents) of
                   None \<Rightarrow> Some (Corruption (str ''corrupted zstd compressed block contents'') [], none)
                 | Some ubuf \<Rightarrow> Some (OK, \<lparr>bc_data = ubuf, bc_cachable = True, bc_heap_allocated = True\<rparr>)))
         else Some (Corruption (str ''bad block type'') [], none))"


subsection \<open>The image of a stored block\<close>

definition handle_image :: "BlockHandle \<Rightarrow> bytes" where
  "handle_image h = EncodeVarint64 (bh_offset h) @ EncodeVarint64 (bh_size h)"

definition handle_set :: "BlockHandle \<Rightarrow> bool" where
  "handle_set h \<longleftrightarrow> bh_offset h \<noteq> - 1 \<and> bh_size h \<noteq> - 1"

definition block_record :: "bytes \<Rightarrow> CompressionType \<Rightarrow> bytes" where
  "block_record d t = d @ [CompressionType_code t] @ EncodeFixed32 (Mask (crc_extend (crc_value d) [CompressionType_code t]))"

text \<open>What the bytes of a stored block mean.\<close>

fun decompressed :: "compression_port \<Rightarrow> CompressionType \<Rightarrow> bytes \<Rightarrow> bytes option" where
  "decompressed port kNoCompression d = Some d"
| "decompressed port kSnappyCompression d = Option.bind (Snappy_GetUncompressedLength port d) (\<lambda>_. Snappy_Uncompress port d)"
| "decompressed port kZstdCompression d = Option.bind (Zstd_GetUncompressedLength port d) (\<lambda>_. Zstd_Uncompress port d)"

text \<open>The compression libraries return what was compressed, and a Zstandard frame knows its size.\<close>

locale lossless_port =
  fixes port :: compression_port
  assumes snappy_lossless: "port_snappy port = Some lib \<Longrightarrow>
      snappy_GetUncompressedLength lib (snappy_RawCompress lib x) = Some (length x) \<and>
      snappy_RawUncompress lib (snappy_RawCompress lib x) = Some x"
    and zstd_lossless: "\<lbrakk>port_zstd port = Some zlib; ZSTD_compress2 zlib level n x = Some y\<rbrakk> \<Longrightarrow>
      ZSTD_getFrameContentSize zlib y = length x \<and> ZSTD_decompressDCtx zlib (length x) y = Some x"
begin

lemma Snappy_lossless: "Snappy_Compress port x = Some y \<Longrightarrow> decompressed port kSnappyCompression y = Some x"
  using snappy_lossless
  by (auto simp: Snappy_Compress_def Snappy_GetUncompressedLength_def Snappy_Uncompress_def split: option.splits)

lemma Zstd_lossless: "\<lbrakk>Zstd_Compress port level x = Some y; x \<noteq> []\<rbrakk> \<Longrightarrow> decompressed port kZstdCompression y = Some x"
  using zstd_lossless
  by (fastforce simp: Zstd_Compress_def Zstd_GetUncompressedLength_def Zstd_Uncompress_def Let_def split: option.splits)

end

text \<open>A build without the libraries.\<close>

definition port_without_libraries :: compression_port where
  "port_without_libraries = \<lparr>port_snappy = None, port_zstd = None\<rparr>"

interpretation no_libraries: lossless_port port_without_libraries
  by unfold_locales (simp_all add: port_without_libraries_def)

subsection \<open>Lemmas\<close>

lemma BlockHandle_EncodeTo_image: "handle_set h \<Longrightarrow> BlockHandle_EncodeTo h dst = Some (dst @ handle_image h)"
  by (simp add: BlockHandle_EncodeTo_def handle_set_def handle_image_def PutVarint64_def)

lemma BlockHandle_DecodeFrom_image: "BlockHandle_DecodeFrom (handle_image h @ rest) h0 = (OK, h, rest)"
  by (simp add: BlockHandle_DecodeFrom_def handle_image_def)

lemma handle_image_inj: "handle_image h = handle_image h' \<longleftrightarrow> h = h'"
proof
  assume "handle_image h = handle_image h'"
  then show "h = h'" using BlockHandle_DecodeFrom_image [of h "[]" BlockHandle_new] BlockHandle_DecodeFrom_image [of h' "[]" BlockHandle_new] by simp
qed simp

lemma handle_image_length: "length (handle_image h) \<le> bh_kMaxEncodedLength"
  using length_EncodeVarint64_bounds(2) [of "bh_offset h"] length_EncodeVarint64_bounds(2) [of "bh_size h"]
  by (simp add: handle_image_def bh_kMaxEncodedLength_def)

lemma block_record_length: "length (block_record d t) = length d + kBlockTrailerSize"
  by (simp add: block_record_def kBlockTrailerSize_def)

lemma block_record_parts:
  shows "take (length d) (block_record d t) = d" and "block_record d t ! length d = CompressionType_code t"
    and "crc_value (take (length d + 1) (block_record d t)) = Unmask (DecodeFixed32 (drop (length d + 1) (block_record d t)))"
  by (simp_all add: block_record_def nth_append crc_value_def crc.extend_append)

lemma ReadBlock_record:
  assumes "rnd_Read file (unat (bh_offset h)) (length d + kBlockTrailerSize) e = (OK, block_record d t)"
    and "bh_size h = of_nat (length d)" and "length d + kBlockTrailerSize < 2 ^ 64" and "decompressed port t d = Some raw"
  shows "\<exists>cachable. ReadBlock port scratch file options h e =
    Some (OK, \<lparr>bc_data = raw, bc_cachable = cachable, bc_heap_allocated = cachable\<rparr>)"
proof -
  have n: "unat (bh_size h) = length d" using assms(2,3) by (simp add: word_of_nat_unat_less kBlockTrailerSize_def)
  have len: "unat (bh_size h + of_nat kBlockTrailerSize) = length d + kBlockTrailerSize"
    using assms(2,3) by (simp add: word_of_nat_unat_less flip: of_nat_add)
  show ?thesis
    using assms(1,4) n len block_record_length [of d t] block_record_parts [of d t]
    by (cases t) (auto simp: ReadBlock_def Let_def bind_eq_Some_conv)
qed

lemma footer_encoded:
  assumes "handle_set (ft_metaindex_handle ft)" and "handle_set (ft_index_handle ft)"
  shows "\<exists>s. Footer_EncodeTo ft [] = Some s \<and> length s = 48 \<and> (\<forall>rest ft0. Footer_DecodeFrom (s @ rest) ft0 = (OK, ft, rest))"
proof -
  let ?h = "handle_image (ft_metaindex_handle ft) @ handle_image (ft_index_handle ft)"
  let ?p = "?h @ replicate (40 - length ?h) 0"
  let ?m = "EncodeFixed32 0x8b80fb57 @ EncodeFixed32 0xdb477524"
  have "length ?h \<le> 40" using handle_image_length [of "ft_metaindex_handle ft"] handle_image_length [of "ft_index_handle ft"]
    by (simp add: bh_kMaxEncodedLength_def)
  then have p: "length ?p = 40" "string_resize 40 ?h = ?p" by (simp_all add: string_resize_def)
  have e: "Footer_EncodeTo ft [] = Some (?p @ ?m)"
    using p assms by (simp add: Footer_EncodeTo_def BlockHandle_EncodeTo_image bh_kMaxEncodedLength_def ft_kEncodedLength_def Let_def
        PutFixed32_def kTableMagicNumber_def)
  moreover have "Footer_DecodeFrom ((?p @ ?m) @ rest) ft0 = (OK, ft, rest)" for rest ft0
    using p by (simp add: Footer_DecodeFrom_def ft_kEncodedLength_def bh_kMaxEncodedLength_def Let_def kTableMagicNumber_def
        BlockHandle_DecodeFrom_image)
  ultimately show ?thesis using p(1) by (intro exI [of _ "?p @ ?m"]) simp
qed

text \<open>A handle whose size is almost \<open>2 ^ 64\<close> makes the length of the buffer wrap around: the size check passes and the type byte is
  looked for outside the buffer.\<close>

lemma ReadBlock_wraps:
  assumes "rnd_Read file (unat off) 4 e = (OK, contents)" and "length contents = 4"
  shows "ReadBlock port scratch file options \<lparr>bh_offset = off, bh_size = - 1\<rparr> e = None"
  using assms by (simp add: ReadBlock_def Let_def kBlockTrailerSize_def unsigned_minus_1_eq_mask mask_eq_exp_minus_1)

subsection \<open>Properties\<close>

text \<open>C40: The footer of a table file always takes exactly 48 bytes, whatever the two handles, and decoding it gives the handles
  back and leaves what follows.\<close>
theorem footer_roundtrip:
  assumes "handle_set (ft_metaindex_handle ft)" and "handle_set (ft_index_handle ft)"
  shows "\<exists>s. Footer_EncodeTo ft [] = Some s \<and> length s = 48 \<and> (\<forall>rest ft0. Footer_DecodeFrom (s @ rest) ft0 = (OK, ft, rest))"
  using footer_encoded [OF assms] .

theorem footer_roundtrip_witness:
  "\<exists>s. Footer_EncodeTo \<lparr>ft_metaindex_handle = \<lparr>bh_offset = 300, bh_size = 8\<rparr>, ft_index_handle = \<lparr>bh_offset = 313, bh_size = 70000\<rparr>\<rparr> [] = Some s \<and>
    length s = 48"
  using footer_roundtrip [of "\<lparr>ft_metaindex_handle = \<lparr>bh_offset = 300, bh_size = 8\<rparr>, ft_index_handle = \<lparr>bh_offset = 313, bh_size = 70000\<rparr>\<rparr>"]
  by (auto simp: handle_set_def)

end
