(* ===== verification/FilterBlock.thy ===== *)
theory FilterBlock
  imports Bloom DbFormat Logging
begin

text \<open>
  \<open>table/filter_block.h\<close> and \<open>table/filter_block.cc\<close>: the filters of a table, one for every 2 KB of file offsets, and their reader. The
  sizes the builder keeps in 32 bits are truncated to them; a failed assertion gives no result.
\<close>

subsection \<open>The policy\<close>

record FilterPolicy =
  fp_Name :: bytes
  fp_CreateFilter :: "bytes list \<Rightarrow> bytes \<Rightarrow> bytes"
  fp_KeyMayMatch :: "bytes \<Rightarrow> bytes \<Rightarrow> bool"

definition BloomPolicy :: "nat \<Rightarrow> FilterPolicy" where
  "BloomPolicy n =
     \<lparr>fp_Name = str ''leveldb.BuiltinBloomFilter2'', fp_CreateFilter = CreateFilter (NewBloomFilterPolicy n), fp_KeyMayMatch = KeyMayMatch\<rparr>"

definition InternalFilterPolicy :: "FilterPolicy \<Rightarrow> FilterPolicy" where
  "InternalFilterPolicy p =
     \<lparr>fp_Name = fp_Name p, fp_CreateFilter = internal_CreateFilter (fp_CreateFilter p),
      fp_KeyMayMatch = internal_KeyMayMatch (fp_KeyMayMatch p)\<rparr>"

subsection \<open>The builder\<close>

definition kFilterBaseLg :: nat where
  "kFilterBaseLg = 11"

definition kFilterBase :: nat where
  "kFilterBase = push_bit kFilterBaseLg 1"

record FilterBlockBuilder =
  fbb_keys :: bytes
  fbb_start :: "nat list"
  fbb_result :: bytes
  fbb_filter_offsets :: "u32 list"

definition FilterBlockBuilder_new :: FilterBlockBuilder where
  "FilterBlockBuilder_new = \<lparr>fbb_keys = [], fbb_start = [], fbb_result = [], fbb_filter_offsets = []\<rparr>"

definition GenerateFilter :: "FilterPolicy \<Rightarrow> FilterBlockBuilder \<Rightarrow> FilterBlockBuilder" where
  "GenerateFilter policy b =
     (let num_keys = length (fbb_start b)
      in if num_keys = 0 then b\<lparr>fbb_filter_offsets := fbb_filter_offsets b @ [of_nat (length (fbb_result b))]\<rparr>
         else
           (let start = fbb_start b @ [length (fbb_keys b)];
                tmp_keys = map (\<lambda>i. take (start ! (i + 1) - start ! i) (drop (start ! i) (fbb_keys b))) [0..<num_keys]
            in b\<lparr>fbb_filter_offsets := fbb_filter_offsets b @ [of_nat (length (fbb_result b))],
                 fbb_result := fp_CreateFilter policy tmp_keys (fbb_result b), fbb_keys := [], fbb_start := []\<rparr>))"

lemma GenerateFilter_offsets: "length (fbb_filter_offsets (GenerateFilter policy b)) = Suc (length (fbb_filter_offsets b))"
  by (simp add: GenerateFilter_def Let_def)

function generate_until :: "FilterPolicy \<Rightarrow> nat \<Rightarrow> FilterBlockBuilder \<Rightarrow> FilterBlockBuilder" where
  "generate_until policy filter_index b =
     (if filter_index > length (fbb_filter_offsets b) then generate_until policy filter_index (GenerateFilter policy b) else b)"
  by pat_completeness auto
termination
  by (relation "measure (\<lambda>(_, n, b). n - length (fbb_filter_offsets b))") (simp_all add: GenerateFilter_offsets)

declare generate_until.simps [simp del]

definition StartBlock :: "FilterPolicy \<Rightarrow> nat \<Rightarrow> FilterBlockBuilder \<Rightarrow> FilterBlockBuilder option" where
  "StartBlock policy block_offset b =
     (let filter_index = block_offset div kFilterBase
      in if filter_index \<ge> length (fbb_filter_offsets b) then Some (generate_until policy filter_index b) else None)"

definition AddKey :: "bytes \<Rightarrow> FilterBlockBuilder \<Rightarrow> FilterBlockBuilder" where
  "AddKey key b = b\<lparr>fbb_start := fbb_start b @ [length (fbb_keys b)], fbb_keys := fbb_keys b @ key\<rparr>"

definition FilterBlockBuilder_Finish :: "FilterPolicy \<Rightarrow> FilterBlockBuilder \<Rightarrow> bytes \<times> FilterBlockBuilder" where
  "FilterBlockBuilder_Finish policy b =
     (let b = (if fbb_start b \<noteq> [] then GenerateFilter policy b else b);
          array_offset = of_nat (length (fbb_result b));
          result = fold (\<lambda>off r. PutFixed32 r off) (fbb_filter_offsets b) (fbb_result b);
          result = PutFixed32 result array_offset @ [of_nat kFilterBaseLg]
      in (result, b\<lparr>fbb_result := result\<rparr>))"

subsection \<open>The reader\<close>

text \<open>\<open>data_\<close> is the block and \<open>offset_\<close> an offset in it. The shift by \<open>base_lg_\<close> has no result when it is not less than 64; the byte
  is a signed character.\<close>

record FilterBlockReader =
  fbr_data :: bytes
  fbr_offset :: nat
  fbr_num :: nat
  fbr_base_lg :: int

definition FilterBlockReader_new :: "bytes \<Rightarrow> FilterBlockReader" where
  "FilterBlockReader_new contents =
     (let n = length contents
      in if n < 5 then \<lparr>fbr_data = [], fbr_offset = 0, fbr_num = 0, fbr_base_lg = 0\<rparr>
         else
           (let base_lg = sint (contents ! (n - 1));
                last_word = unat (DecodeFixed32 (drop (n - 5) contents))
            in if last_word > n - 5 then \<lparr>fbr_data = [], fbr_offset = 0, fbr_num = 0, fbr_base_lg = base_lg\<rparr>
               else \<lparr>fbr_data = contents, fbr_offset = last_word, fbr_num = (n - 5 - last_word) div 4, fbr_base_lg = base_lg\<rparr>))"

definition FilterBlock_KeyMayMatch :: "FilterPolicy \<Rightarrow> FilterBlockReader \<Rightarrow> u64 \<Rightarrow> bytes \<Rightarrow> bool option" where
  "FilterBlock_KeyMayMatch policy r block_offset key =
     (if fbr_base_lg r < 0 \<or> 64 \<le> fbr_base_lg r then None
      else
        (let index = unat (drop_bit (nat (fbr_base_lg r)) block_offset)
         in if index < fbr_num r then
              (let start = unat (DecodeFixed32 (drop (fbr_offset r + index * 4) (fbr_data r)));
                   limit = unat (DecodeFixed32 (drop (fbr_offset r + index * 4 + 4) (fbr_data r)))
               in if start \<le> limit \<and> limit \<le> fbr_offset r
                  then Some (fp_KeyMayMatch policy key (take (limit - start) (drop start (fbr_data r))))
                  else if start = limit then Some False
                  else Some True)
            else Some True))"


subsection \<open>What the builder has done\<close>

text \<open>\<open>ks\<close> are the keys of the filters generated so far and \<open>pend\<close> the keys of the next one.\<close>

definition filter_bytes :: "FilterPolicy \<Rightarrow> bytes list \<Rightarrow> bytes" where
  "filter_bytes policy keys = (if keys = [] then [] else fp_CreateFilter policy keys [])"

definition filter_data :: "FilterPolicy \<Rightarrow> bytes list list \<Rightarrow> bytes" where
  "filter_data policy ks = concat (map (filter_bytes policy) ks)"

definition fbb_inv :: "FilterPolicy \<Rightarrow> FilterBlockBuilder \<Rightarrow> bytes list list \<Rightarrow> bytes list \<Rightarrow> bool" where
  "fbb_inv policy b ks pend \<longleftrightarrow>
     fbb_keys b = concat pend \<and> fbb_start b = map (\<lambda>i. length (concat (take i pend))) [0..<length pend] \<and>
     fbb_result b = filter_data policy ks \<and>
     fbb_filter_offsets b = map (\<lambda>i. of_nat (length (filter_data policy (take i ks)))) [0..<length ks]"

text \<open>The pairs of a filter index and a key that a lookup must not miss.\<close>

definition fbb_ok :: "FilterPolicy \<Rightarrow> FilterBlockBuilder \<Rightarrow> nat \<Rightarrow> (nat \<times> bytes) set \<Rightarrow> bool" where
  "fbb_ok policy b n cov \<longleftrightarrow> (\<exists>ks pend. fbb_inv policy b ks pend \<and> length ks = n \<and>
     (\<forall>(i, key) \<in> cov. i < n \<and> key \<in> set (ks ! i) \<or> i = n \<and> key \<in> set pend))"

lemma fixed32_array: "j < length xs \<Longrightarrow> DecodeFixed32 (drop (4 * j) (concat (map EncodeFixed32 xs) @ rest)) = xs ! j"
proof (induction xs arbitrary: j)
  case (Cons x xs)
  then show ?case by (cases j) simp_all
qed simp

lemma fold_fixed32_array: "fold (\<lambda>off r. PutFixed32 r off) xs r = r @ concat (map EncodeFixed32 xs)"
  by (induction xs arbitrary: r) (simp_all add: PutFixed32_def)

lemma filter_data_append: "filter_data policy (ks @ ks') = filter_data policy ks @ filter_data policy ks'"
  by (simp add: filter_data_def)

lemma filter_data_take: "length (filter_data policy (take i ks)) \<le> length (filter_data policy ks)"
  by (metis append_take_drop_id filter_data_append le_add1 length_append)

lemma fbb_inv_new: "fbb_inv policy FilterBlockBuilder_new [] []"
  by (simp add: fbb_inv_def FilterBlockBuilder_new_def filter_data_def)

lemma fbb_inv_AddKey: "fbb_inv policy b ks pend \<Longrightarrow> fbb_inv policy (AddKey key b) ks (pend @ [key])"
  by (simp add: fbb_inv_def AddKey_def)

lemma slice_of_concat:
  assumes "i < length xs"
  shows "take (length (concat (take (Suc i) xs)) - length (concat (take i xs))) (drop (length (concat (take i xs))) (concat xs)) = xs ! i"
proof -
  have "concat xs = concat (take i xs) @ xs ! i @ concat (drop (Suc i) xs)"
    using id_take_nth_drop [OF assms] by (metis append.assoc concat.simps(2) concat_append)
  then show ?thesis using assms by (simp add: take_Suc_conv_app_nth)
qed

lemma fbb_tmp_keys:
  assumes "fbb_inv policy b ks pend"
  defines "start \<equiv> fbb_start b @ [length (fbb_keys b)]"
  shows "map (\<lambda>i. take (start ! (i + 1) - start ! i) (drop (start ! i) (fbb_keys b))) [0..<length (fbb_start b)] = pend"
proof (rule nth_equalityI)
  have st: "start = map (\<lambda>i. length (concat (take i pend))) [0..<Suc (length pend)]" using assms by (simp add: fbb_inv_def)
  fix i
  assume "i < length (map (\<lambda>i. take (start ! (i + 1) - start ! i) (drop (start ! i) (fbb_keys b))) [0..<length (fbb_start b)])"
  then have i: "i < length pend" using assms by (simp add: fbb_inv_def)
  then have "start ! (i + 1) = length (concat (take (Suc i) pend))" "start ! i = length (concat (take i pend))"
    unfolding st by (simp_all add: nth_append del: upt_Suc)
  then show "map (\<lambda>i. take (start ! (i + 1) - start ! i) (drop (start ! i) (fbb_keys b))) [0..<length (fbb_start b)] ! i = pend ! i"
    using slice_of_concat [OF i] i assms by (simp add: fbb_inv_def)
qed (use assms in \<open>simp add: fbb_inv_def\<close>)

subsection \<open>No false negatives\<close>

text \<open>The calls of a builder: \<open>StartBlock\<close> with an offset and \<open>AddKey\<close> for the keys of the block, for every block.\<close>

fun add_blocks :: "FilterPolicy \<Rightarrow> (nat \<times> bytes list) list \<Rightarrow> FilterBlockBuilder \<Rightarrow> FilterBlockBuilder option" where
  "add_blocks policy [] b = Some b"
| "add_blocks policy ((off, keys) # blocks) b =
     Option.bind (StartBlock policy off b) (\<lambda>b. add_blocks policy blocks (fold AddKey keys b))"

locale filter_block = filter_policy "fp_CreateFilter policy" "fp_KeyMayMatch policy" for policy :: FilterPolicy
begin

lemma fbb_inv_Generate:
  assumes "fbb_inv policy b ks pend"
  shows "fbb_inv policy (GenerateFilter policy b) (ks @ [pend]) []"
proof (cases "pend = []")
  case True
  then show ?thesis using assms by (simp add: fbb_inv_def GenerateFilter_def filter_data_def filter_bytes_def)
next
  case False
  then have "length (fbb_start b) \<noteq> 0" using assms by (simp add: fbb_inv_def)
  then show ?thesis
    using fbb_tmp_keys [OF assms] assms False create_appends [of pend "filter_data policy ks"]
    by (simp add: fbb_inv_def GenerateFilter_def Let_def filter_data_def filter_bytes_def)
qed

lemma fbb_ok_Generate:
  assumes "fbb_ok policy b n cov"
  shows "fbb_ok policy (GenerateFilter policy b) (Suc n) cov"
proof -
  obtain ks pend where ks: "fbb_inv policy b ks pend" "length ks = n"
    and cov: "\<forall>(i, key) \<in> cov. i < n \<and> key \<in> set (ks ! i) \<or> i = n \<and> key \<in> set pend"
    using assms by (auto simp: fbb_ok_def)
  have "\<forall>(i, key) \<in> cov. i < Suc n \<and> key \<in> set ((ks @ [pend]) ! i) \<or> i = Suc n \<and> key \<in> set []"
    using cov ks(2) by (fastforce simp: nth_append)
  with fbb_inv_Generate [OF ks(1)] ks(2) show ?thesis unfolding fbb_ok_def by (intro exI [of _ "ks @ [pend]"] exI [of _ "[]"]) simp
qed

lemma fbb_ok_count: "fbb_ok policy b n cov \<Longrightarrow> length (fbb_filter_offsets b) = n"
  by (auto simp: fbb_ok_def fbb_inv_def)

lemma fbb_ok_generate_until: "\<lbrakk>fbb_ok policy b n cov; n \<le> m\<rbrakk> \<Longrightarrow> fbb_ok policy (generate_until policy m b) m cov"
proof (induction "m - n" arbitrary: b n)
  case 0
  then show ?case using fbb_ok_count [of b n cov] by (simp add: generate_until.simps)
next
  case (Suc d)
  then have "d = m - Suc n" "Suc n \<le> m" by simp_all
  then have "fbb_ok policy (generate_until policy m (GenerateFilter policy b)) m cov"
    using Suc.hyps(1) fbb_ok_Generate [OF Suc.prems(1)] by blast
  then show ?case using \<open>Suc n \<le> m\<close> fbb_ok_count [OF Suc.prems(1)] generate_until.simps [of policy m b] by simp
qed

lemma fbb_ok_new: "fbb_ok policy FilterBlockBuilder_new 0 {}"
  using fbb_inv_new by (auto simp: fbb_ok_def)

lemma fbb_ok_AddKey:
  assumes "fbb_ok policy b n cov"
  shows "fbb_ok policy (AddKey key b) n (insert (n, key) cov)"
proof -
  obtain ks pend where ks: "fbb_inv policy b ks pend" "length ks = n"
    and cov: "\<forall>(i, key) \<in> cov. i < n \<and> key \<in> set (ks ! i) \<or> i = n \<and> key \<in> set pend"
    using assms by (auto simp: fbb_ok_def)
  with fbb_inv_AddKey [OF ks(1), of key] show ?thesis
    unfolding fbb_ok_def by (intro exI [of _ ks] exI [of _ "pend @ [key]"]) auto
qed

lemma fbb_ok_AddKeys: "fbb_ok policy b n cov \<Longrightarrow> fbb_ok policy (fold AddKey keys b) n (cov \<union> {n} \<times> set keys)"
proof (induction keys arbitrary: b cov)
  case (Cons key keys)
  from Cons.IH [OF fbb_ok_AddKey [OF Cons.prems, of key]]
  have "fbb_ok policy (fold AddKey (key # keys) b) n (insert (n, key) cov \<union> {n} \<times> set keys)" by simp
  also have "insert (n, key) cov \<union> {n} \<times> set keys = cov \<union> {n} \<times> set (key # keys)" by auto
  finally show ?case .
qed simp

lemma fbb_ok_StartBlock:
  assumes "fbb_ok policy b n cov" and "n \<le> off div kFilterBase"
  shows "\<exists>b'. StartBlock policy off b = Some b' \<and> fbb_ok policy b' (off div kFilterBase) cov"
  using fbb_ok_generate_until [OF assms] fbb_ok_count [OF assms(1)] assms(2) by (simp add: StartBlock_def Let_def)

lemma kFilterBase_eq: "kFilterBase = 2 ^ kFilterBaseLg"
  by (simp add: kFilterBase_def push_bit_eq_mult)

lemma add_blocks_run:
  "\<lbrakk>fbb_ok policy b n cov; sorted (map fst blocks); \<forall>(off, keys) \<in> set blocks. n \<le> off div kFilterBase\<rbrakk> \<Longrightarrow>
   \<exists>b' m. add_blocks policy blocks b = Some b' \<and>
     fbb_ok policy b' m (cov \<union> {(off div kFilterBase, key) |off keys key. (off, keys) \<in> set blocks \<and> key \<in> set keys})"
proof (induction blocks arbitrary: b n cov)
  case (Cons blk blocks)
  obtain off keys where blk: "blk = (off, keys)" by fastforce
  obtain b1 where b1: "StartBlock policy off b = Some b1" "fbb_ok policy b1 (off div kFilterBase) cov"
    using fbb_ok_StartBlock [OF Cons.prems(1), of off] Cons.prems(3) blk by auto
  have "\<forall>(off', keys) \<in> set blocks. off div kFilterBase \<le> off' div kFilterBase"
    using Cons.prems(2) blk by (auto intro!: div_le_mono)
  from Cons.IH [OF fbb_ok_AddKeys [OF b1(2)] _ this, of keys] Cons.prems(2)
  obtain b' m where run: "add_blocks policy blocks (fold AddKey keys b1) = Some b'"
    and ok': "fbb_ok policy b' m (cov \<union> {off div kFilterBase} \<times> set keys \<union>
      {(off div kFilterBase, key) |off keys key. (off, keys) \<in> set blocks \<and> key \<in> set keys})" by auto
  moreover have "cov \<union> {off div kFilterBase} \<times> set keys \<union> {(off div kFilterBase, key) |off keys key. (off, keys) \<in> set blocks \<and> key \<in> set keys} =
      cov \<union> {(off div kFilterBase, key) |off keys key. (off, keys) \<in> set (blk # blocks) \<and> key \<in> set keys}" using blk by auto
  ultimately show ?case using b1(1) blk by (simp add: exI [of _ m])
qed auto

lemma fbb_finished:
  assumes "fbb_ok policy b n cov"
  shows "\<exists>ks. fst (FilterBlockBuilder_Finish policy b) =
      filter_data policy ks @ concat (map EncodeFixed32 (map (\<lambda>i. of_nat (length (filter_data policy (take i ks)))) [0..<Suc (length ks)])) @ [11] \<and>
    (\<forall>(i, key) \<in> cov. i < length ks \<and> key \<in> set (ks ! i))"
proof -
  obtain ks pend where ks: "fbb_inv policy b ks pend" "length ks = n"
    and cov: "\<forall>(i, key) \<in> cov. i < n \<and> key \<in> set (ks ! i) \<or> i = n \<and> key \<in> set pend"
    using assms by (auto simp: fbb_ok_def)
  have fin: "fst (FilterBlockBuilder_Finish policy b) =
      filter_data policy ks' @ concat (map EncodeFixed32 (map (\<lambda>i. of_nat (length (filter_data policy (take i ks')))) [0..<Suc (length ks')])) @ [11]"
    if "fbb_inv policy (if fbb_start b \<noteq> [] then GenerateFilter policy b else b) ks' []" for ks'
    using that by (simp add: FilterBlockBuilder_Finish_def Let_def fbb_inv_def fold_fixed32_array [unfolded PutFixed32_def] PutFixed32_def kFilterBaseLg_def)
  show ?thesis
  proof (cases "pend = []")
    case True
    then have "fbb_start b = []" using ks(1) by (simp add: fbb_inv_def)
    with fin [of ks] ks True cov show ?thesis by (intro exI [of _ ks]) auto
  next
    case False
    then have "fbb_start b \<noteq> []" using ks(1) by (simp add: fbb_inv_def)
    then have "fst (FilterBlockBuilder_Finish policy b) =
      filter_data policy (ks @ [pend]) @
      concat (map EncodeFixed32 (map (\<lambda>i. of_nat (length (filter_data policy (take i (ks @ [pend]))))) [0..<Suc (length (ks @ [pend]))])) @ [11]"
      using fin [of "ks @ [pend]"] fbb_inv_Generate [OF ks(1)] by simp
    moreover have "\<forall>(i, key) \<in> cov. i < length (ks @ [pend]) \<and> key \<in> set ((ks @ [pend]) ! i)"
      using cov ks(2) by (fastforce simp: nth_append)
    ultimately show ?thesis by blast
  qed
qed

lemma KeyMayMatch_image:
  assumes i: "i < length ks" "key \<in> set (ks ! i)" and off: "off div kFilterBase = i" "off < 2 ^ 64"
    and small: "length (filter_data policy ks) < 2 ^ 32"
  defines "offs \<equiv> map (\<lambda>i. of_nat (length (filter_data policy (take i ks)))) [0..<Suc (length ks)]"
  shows "FilterBlock_KeyMayMatch policy (FilterBlockReader_new (filter_data policy ks @ concat (map EncodeFixed32 offs) @ [11])) (of_nat off) key = Some True"
proof -
  let ?R = "filter_data policy ks" and ?A = "concat (map EncodeFixed32 offs)"
  let ?c = "?R @ ?A @ [11]"
  have lo: "length offs = Suc (length ks)" by (simp add: offs_def)
  have lA: "length ?A = 4 * Suc (length ks)" using lo by (simp add: length_concat comp_def sum_list_triv)
  have at: "unat (DecodeFixed32 (drop (length ?R + 4 * j) ?c)) = length (filter_data policy (take j ks))" if "j \<le> length ks" for j
  proof -
    have "drop (length ?R + 4 * j) ?c = drop (4 * j) (?A @ [11])" by simp
    moreover have "DecodeFixed32 (drop (4 * j) (?A @ [11])) = offs ! j" using fixed32_array [of j offs "[11]"] lo that by simp
    moreover have "offs ! j = of_nat (length (filter_data policy (take j ks)))" using that by (simp add: offs_def nth_append del: upt_Suc)
    moreover have "length (filter_data policy (take j ks)) < 2 ^ 32" using filter_data_take [of policy j ks] small by simp
    ultimately show ?thesis by (simp add: word_of_nat_unat_less)
  qed
  have n: "length ?c - 5 = length ?R + 4 * length ks" "length ?c - 1 = length ?R + length ?A" "\<not> length ?c < 5" using lA by simp_all
  have r: "FilterBlockReader_new ?c = \<lparr>fbr_data = ?c, fbr_offset = length ?R, fbr_num = length ks, fbr_base_lg = 11\<rparr>"
    unfolding FilterBlockReader_new_def Let_def n using n(3) at [of "length ks"] by (simp add: nth_append)
  have ix: "unat (drop_bit 11 (of_nat off :: u64)) = i"
    using off by (simp add: unat_drop_bit_word word_of_nat_unat_less kFilterBase_eq kFilterBaseLg_def)
  have st: "unat (DecodeFixed32 (drop (length ?R + i * 4) ?c)) = length (filter_data policy (take i ks))"
    and li: "unat (DecodeFixed32 (drop (length ?R + i * 4 + 4) ?c)) = length (filter_data policy (take (Suc i) ks))"
    using at [of i] at [of "Suc i"] i(1) by (simp_all add: mult.commute add.commute)
  have sl: "take (length (filter_data policy (take (Suc i) ks)) - length (filter_data policy (take i ks))) (drop (length (filter_data policy (take i ks))) ?c) =
      filter_bytes policy (ks ! i)"
    using slice_of_concat [of i "map (filter_bytes policy) ks"] i(1) filter_data_take [of policy "Suc i" ks] filter_data_take [of policy i ks]
    by (simp add: filter_data_def take_map drop_append)
  have le: "length (filter_data policy (take i ks)) \<le> length (filter_data policy (take (Suc i) ks))"
    using i(1) by (simp add: take_Suc_conv_app_nth filter_data_append)
  have "fp_KeyMayMatch policy key (filter_bytes policy (ks ! i))" using i(2) no_false_negative by (auto simp: filter_bytes_def)
  then show ?thesis
    unfolding r FilterBlock_KeyMayMatch_def FilterBlockReader.simps Let_def using i(1) ix st li sl le filter_data_take [of policy "Suc i" ks] by simp
qed

end

interpretation bloom_filter_block: filter_block "BloomPolicy n" for n
  unfolding filter_block_def by (simp add: BloomPolicy_def bloom.filter_policy_axioms)

interpretation internal_filter_block: filter_block "InternalFilterPolicy (BloomPolicy n)" for n
  unfolding filter_block_def by (simp add: BloomPolicy_def InternalFilterPolicy_def bloom_user.internal.filter_policy_axioms)

subsection \<open>Properties\<close>

text \<open>C39: The filter block of a table has no false negatives. For blocks at ascending offsets the builder returns, and the reader of what it
  built answers true for every key of a block at that block's offset, for every policy that has no false negatives.\<close>
theorem filter_block_no_false_negative:
  assumes "filter_policy (fp_CreateFilter policy) (fp_KeyMayMatch policy)" and "sorted (map fst blocks)"
  shows "\<exists>b. add_blocks policy blocks FilterBlockBuilder_new = Some b \<and>
    (length (fst (FilterBlockBuilder_Finish policy b)) < 2 ^ 32 \<longrightarrow> (\<forall>(off, keys) \<in> set blocks. \<forall>key \<in> set keys. off < 2 ^ 64 \<longrightarrow>
      FilterBlock_KeyMayMatch policy (FilterBlockReader_new (fst (FilterBlockBuilder_Finish policy b))) (of_nat off) key = Some True))"
proof -
  have fb: "filter_block policy" using assms(1) by (simp add: filter_block_def)
  obtain b m where run: "add_blocks policy blocks FilterBlockBuilder_new = Some b"
    and ok': "fbb_ok policy b m {(off div kFilterBase, key) |off keys key. (off, keys) \<in> set blocks \<and> key \<in> set keys}"
    using filter_block.add_blocks_run [OF fb filter_block.fbb_ok_new [OF fb] assms(2)] by auto
  obtain ks where fin: "fst (FilterBlockBuilder_Finish policy b) =
      filter_data policy ks @ concat (map EncodeFixed32 (map (\<lambda>i. of_nat (length (filter_data policy (take i ks)))) [0..<Suc (length ks)])) @ [11]"
    and cov: "\<forall>(i, key) \<in> {(off div kFilterBase, key) |off keys key. (off, keys) \<in> set blocks \<and> key \<in> set keys}. i < length ks \<and> key \<in> set (ks ! i)"
    using filter_block.fbb_finished [OF fb ok'] by blast
  show ?thesis
  proof (intro exI [of _ b] conjI impI, rule run, clarify)
    fix off keys key
    assume "length (fst (FilterBlockBuilder_Finish policy b)) < 2 ^ 32" "(off, keys) \<in> set blocks" "key \<in> set keys" "off < 2 ^ 64"
    moreover from this cov have "off div kFilterBase < length ks" "key \<in> set (ks ! (off div kFilterBase))" by blast+
    ultimately show "FilterBlock_KeyMayMatch policy (FilterBlockReader_new (fst (FilterBlockBuilder_Finish policy b))) (of_nat off) key = Some True"
      using filter_block.KeyMayMatch_image [OF fb _ _ refl, of off ks key] unfolding fin by simp
  qed
qed

text \<open>The builder after two blocks, the second of which starts in the range of the next filter.\<close>

definition two_blocks_builder :: FilterBlockBuilder where
  "two_blocks_builder =
     \<lparr>fbb_keys = [3], fbb_start = [0], fbb_result = CreateFilter (NewBloomFilterPolicy 10) [[1], [2]] [], fbb_filter_offsets = [0]\<rparr>"

lemma two_blocks_run:
  "add_blocks (BloomPolicy 10) [(0, [[1], [2]]), (3000, [[3]])] FilterBlockBuilder_new = Some two_blocks_builder"
  by (simp add: StartBlock_def Let_def kFilterBase_def kFilterBaseLg_def FilterBlockBuilder_new_def AddKey_def GenerateFilter_def BloomPolicy_def
      generate_until.simps push_bit_eq_mult upt_rec two_blocks_builder_def)

lemma two_blocks_length: "length (fst (FilterBlockBuilder_Finish (BloomPolicy 10) two_blocks_builder)) = 31"
  by (simp add: two_blocks_builder_def FilterBlockBuilder_Finish_def Let_def GenerateFilter_def BloomPolicy_def CreateFilter_def
      NewBloomFilterPolicy_def PutFixed32_def)

theorem filter_block_no_false_negative_witness:
  "\<exists>b. add_blocks (BloomPolicy 10) [(0, [[1], [2]]), (3000, [[3]])] FilterBlockBuilder_new = Some b \<and>
    FilterBlock_KeyMayMatch (BloomPolicy 10) (FilterBlockReader_new (fst (FilterBlockBuilder_Finish (BloomPolicy 10) b))) 3000 [3] = Some True"
proof -
  have fp: "filter_policy (fp_CreateFilter (BloomPolicy 10)) (fp_KeyMayMatch (BloomPolicy 10))"
    by (simp add: BloomPolicy_def bloom.filter_policy_axioms)
  show ?thesis
    using filter_block_no_false_negative [OF fp, of "[(0, [[1], [2]]), (3000, [[3]])]"] by (simp add: two_blocks_run two_blocks_length del: add_blocks.simps)
qed

end
