(* ===== verification/TableBuilder.thy ===== *)
theory TableBuilder
  imports BlockIterator Format FilterBlock
begin

text \<open>
  \<open>table/table_builder.cc\<close> and the options of \<open>include/leveldb/options.h\<close> it uses. A failed assertion gives no result. What a
  builder writes is compared with an image of the whole file: the pairs are cut into blocks, and every block is stored with its
  trailer, followed by the filter, metaindex and index blocks and the footer.
\<close>

subsection \<open>Options\<close>

record Options =
  opt_comparator :: Comparator
  opt_paranoid_checks :: bool
  opt_write_buffer_size :: nat
  opt_block_size :: nat
  opt_block_restart_interval :: nat
  opt_max_file_size :: nat
  opt_compression :: CompressionType
  opt_zstd_compression_level :: int
  opt_filter_policy :: "FilterPolicy option"

definition Options_new :: Options where
  "Options_new =
     \<lparr>opt_comparator = BytewiseComparator, opt_paranoid_checks = False, opt_write_buffer_size = 4 * 1024 * 1024, opt_block_size = 4 * 1024,
      opt_block_restart_interval = 16, opt_max_file_size = 2 * 1024 * 1024,
      opt_compression = kSnappyCompression, opt_zstd_compression_level = 1, opt_filter_policy = None\<rparr>"

subsection \<open>The builder\<close>

text \<open>A filter-block builder keeps its own pointer to the policy.\<close>

record 'e TableBuilder =
  tb_options :: Options
  tb_file :: "'e WritableFile"
  tb_offset :: nat
  tb_status :: Status
  tb_data_block :: BlockBuilder
  tb_index_block :: BlockBuilder
  tb_last_key :: bytes
  tb_num_entries :: nat
  tb_closed :: bool
  tb_filter_block :: "(FilterPolicy \<times> FilterBlockBuilder) option"
  tb_pending_index_entry :: bool
  tb_pending_handle :: BlockHandle

definition TableBuilder_StartBlock :: "nat \<Rightarrow> 'e TableBuilder \<Rightarrow> 'e TableBuilder option" where
  "TableBuilder_StartBlock off r =
     (case tb_filter_block r of
        None \<Rightarrow> Some r
      | Some (policy, fb) \<Rightarrow> map_option (\<lambda>fb. r\<lparr>tb_filter_block := Some (policy, fb)\<rparr>) (StartBlock policy off fb))"

definition TableBuilder_new :: "Options \<Rightarrow> 'e WritableFile \<Rightarrow> 'e TableBuilder option" where
  "TableBuilder_new opt f =
     TableBuilder_StartBlock 0
       \<lparr>tb_options = opt, tb_file = f, tb_offset = 0, tb_status = OK, tb_data_block = BlockBuilder_new (opt_block_restart_interval opt),
        tb_index_block = BlockBuilder_new 1, tb_last_key = [], tb_num_entries = 0, tb_closed = False,
        tb_filter_block = map_option (\<lambda>policy. (policy, FilterBlockBuilder_new)) (opt_filter_policy opt),
        tb_pending_index_entry = False, tb_pending_handle = BlockHandle_new\<rparr>"

text \<open>The comparators are compared as pointers: \<open>same\<close> is the result. The block builders read the interval through a pointer to the
  options.\<close>

definition ChangeOptions :: "bool \<Rightarrow> Options \<Rightarrow> 'e TableBuilder \<Rightarrow> Status \<times> 'e TableBuilder" where
  "ChangeOptions same options r =
     (if \<not> same then (InvalidArgument (str ''changing comparator while building table'') [], r)
      else (OK, r\<lparr>tb_options := options, tb_data_block := (tb_data_block r)\<lparr>bb_interval := opt_block_restart_interval options\<rparr>,
                  tb_index_block := (tb_index_block r)\<lparr>bb_interval := 1\<rparr>\<rparr>))"

definition compress_block :: "compression_port \<Rightarrow> Options \<Rightarrow> bytes \<Rightarrow> bytes \<times> CompressionType" where
  "compress_block port options raw =
     (case opt_compression options of
        kNoCompression \<Rightarrow> (raw, kNoCompression)
      | kSnappyCompression \<Rightarrow>
          (case Snappy_Compress port raw of
             Some compressed \<Rightarrow>
               if length compressed < length raw - length raw div 8 then (compressed, kSnappyCompression) else (raw, kNoCompression)
           | None \<Rightarrow> (raw, kNoCompression))
      | kZstdCompression \<Rightarrow>
          (case Zstd_Compress port (opt_zstd_compression_level options) raw of
             Some compressed \<Rightarrow>
               if length compressed < length raw - length raw div 8 then (compressed, kZstdCompression) else (raw, kNoCompression)
           | None \<Rightarrow> (raw, kNoCompression)))"

definition block_trailer :: "bytes \<Rightarrow> CompressionType \<Rightarrow> bytes" where
  "block_trailer block_contents type =
     (let crc = crc_value block_contents;
          crc = crc_extend crc [CompressionType_code type]
      in CompressionType_code type # EncodeFixed32 (Mask crc))"

definition WriteRawBlock ::
  "bytes \<Rightarrow> CompressionType \<Rightarrow> 'e TableBuilder \<Rightarrow> 'e \<Rightarrow> BlockHandle \<times> 'e TableBuilder \<times> 'e" where
  "WriteRawBlock block_contents type r e =
     (let handle = \<lparr>bh_offset = of_nat (tb_offset r), bh_size = of_nat (length block_contents)\<rparr>;
          (s, e) = file_Append (tb_file r) block_contents e;
          r = r\<lparr>tb_status := s\<rparr>
      in if \<not> ok s then (handle, r, e)
         else
           (let (s, e) = file_Append (tb_file r) (block_trailer block_contents type) e;
                r = r\<lparr>tb_status := s\<rparr>
            in (handle, if ok s then r\<lparr>tb_offset := tb_offset r + length block_contents + kBlockTrailerSize\<rparr> else r, e)))"

text \<open>The handle, and the block reset.\<close>

definition WriteBlock ::
  "compression_port \<Rightarrow> BlockBuilder \<Rightarrow> 'e TableBuilder \<Rightarrow> 'e \<Rightarrow> (BlockHandle \<times> BlockBuilder \<times> 'e TableBuilder \<times> 'e) option" where
  "WriteBlock port block r e =
     (if \<not> ok (tb_status r) then None
      else
        (let (raw, block) = BlockBuilder_Finish block;
             (block_contents, type) = compress_block port (tb_options r) raw;
             (handle, r, e) = WriteRawBlock block_contents type r e
         in Some (handle, BlockBuilder_Reset block, r, e)))"

definition TableBuilder_Flush :: "compression_port \<Rightarrow> 'e TableBuilder \<Rightarrow> 'e \<Rightarrow> ('e TableBuilder \<times> 'e) option" where
  "TableBuilder_Flush port r e =
     (if tb_closed r then None
      else if \<not> ok (tb_status r) then Some (r, e)
      else if BlockBuilder_empty (tb_data_block r) then Some (r, e)
      else if tb_pending_index_entry r then None
      else
        Option.bind (WriteBlock port (tb_data_block r) r e) (\<lambda>(handle, block, r, e).
          let r = r\<lparr>tb_data_block := block, tb_pending_handle := handle\<rparr>;
              (r, e) = (if ok (tb_status r)
                        then let (s, e) = file_Flush (tb_file r) e in (r\<lparr>tb_pending_index_entry := True, tb_status := s\<rparr>, e)
                        else (r, e))
          in map_option (\<lambda>r. (r, e)) (TableBuilder_StartBlock (tb_offset r) r)))"

text \<open>The index entry of the block before, with the given key.\<close>

definition add_index_entry :: "bytes \<Rightarrow> 'e TableBuilder \<Rightarrow> 'e TableBuilder option" where
  "add_index_entry key r =
     Option.bind (BlockHandle_EncodeTo (tb_pending_handle r) []) (\<lambda>handle_encoding.
       Some (r\<lparr>tb_last_key := key, tb_index_block := BlockBuilder_Add key handle_encoding (tb_index_block r),
               tb_pending_index_entry := False\<rparr>))"

definition TableBuilder_Add :: "compression_port \<Rightarrow> bytes \<Rightarrow> bytes \<Rightarrow> 'e TableBuilder \<Rightarrow> 'e \<Rightarrow> ('e TableBuilder \<times> 'e) option" where
  "TableBuilder_Add port key val r e =
     (if tb_closed r then None
      else if \<not> ok (tb_status r) then Some (r, e)
      else if tb_num_entries r > 0 \<and> \<not> Compare (opt_comparator (tb_options r)) key (tb_last_key r) > 0 then None
      else
        Option.bind
          (if tb_pending_index_entry r then
             (if \<not> BlockBuilder_empty (tb_data_block r) then None
              else add_index_entry (FindShortestSeparator (opt_comparator (tb_options r)) (tb_last_key r) key) r)
           else Some r) (\<lambda>r.
          let r = r\<lparr>tb_filter_block := map_option (\<lambda>(policy, fb). (policy, AddKey key fb)) (tb_filter_block r)\<rparr>;
              r = r\<lparr>tb_last_key := key, tb_num_entries := tb_num_entries r + 1, tb_data_block := BlockBuilder_Add key val (tb_data_block r)\<rparr>
          in if CurrentSizeEstimate (tb_data_block r) \<ge> opt_block_size (tb_options r) then TableBuilder_Flush port r e else Some (r, e)))"

text \<open>The four parts \<open>Finish\<close> writes after the last block; each does nothing when the status is not OK.\<close>

definition write_filter :: "'e TableBuilder \<Rightarrow> 'e \<Rightarrow> BlockHandle \<times> 'e TableBuilder \<times> 'e" where
  "write_filter r e =
     (if ok (tb_status r)
      then (case tb_filter_block r of
              None \<Rightarrow> (BlockHandle_new, r, e)
            | Some (policy, fb) \<Rightarrow>
                (let (contents, fb) = FilterBlockBuilder_Finish policy fb
                 in WriteRawBlock contents kNoCompression (r\<lparr>tb_filter_block := Some (policy, fb)\<rparr>) e))
      else (BlockHandle_new, r, e))"

definition write_metaindex ::
  "compression_port \<Rightarrow> BlockHandle \<Rightarrow> 'e TableBuilder \<Rightarrow> 'e \<Rightarrow> (BlockHandle \<times> 'e TableBuilder \<times> 'e) option" where
  "write_metaindex port filter_block_handle r e =
     (if ok (tb_status r)
      then
        Option.bind
          (let meta_index_block = BlockBuilder_new (opt_block_restart_interval (tb_options r))
           in case tb_filter_block r of
                None \<Rightarrow> Some meta_index_block
              | Some _ \<Rightarrow>
                  Option.bind (opt_filter_policy (tb_options r)) (\<lambda>policy.
                  Option.bind (BlockHandle_EncodeTo filter_block_handle []) (\<lambda>handle_encoding.
                    Some (BlockBuilder_Add (str ''filter.'' @ fp_Name policy) handle_encoding meta_index_block))))
          (\<lambda>meta_index_block. map_option (\<lambda>(handle, _, r, e). (handle, r, e)) (WriteBlock port meta_index_block r e))
      else Some (BlockHandle_new, r, e))"

definition write_index :: "compression_port \<Rightarrow> 'e TableBuilder \<Rightarrow> 'e \<Rightarrow> (BlockHandle \<times> 'e TableBuilder \<times> 'e) option" where
  "write_index port r e =
     (if ok (tb_status r)
      then
        Option.bind
          (if tb_pending_index_entry r then add_index_entry (FindShortSuccessor (opt_comparator (tb_options r)) (tb_last_key r)) r else Some r)
          (\<lambda>r. map_option (\<lambda>(handle, block, r, e). (handle, r\<lparr>tb_index_block := block\<rparr>, e)) (WriteBlock port (tb_index_block r) r e))
      else Some (BlockHandle_new, r, e))"

definition write_footer :: "BlockHandle \<Rightarrow> BlockHandle \<Rightarrow> 'e TableBuilder \<Rightarrow> 'e \<Rightarrow> ('e TableBuilder \<times> 'e) option" where
  "write_footer metaindex_block_handle index_block_handle r e =
     (if ok (tb_status r)
      then
        Option.bind (Footer_EncodeTo \<lparr>ft_metaindex_handle = metaindex_block_handle, ft_index_handle = index_block_handle\<rparr> []) (\<lambda>footer_encoding.
          let (s, e) = file_Append (tb_file r) footer_encoding e;
              r = r\<lparr>tb_status := s\<rparr>
          in Some (if ok s then r\<lparr>tb_offset := tb_offset r + length footer_encoding\<rparr> else r, e))
      else Some (r, e))"

definition TableBuilder_Finish :: "compression_port \<Rightarrow> 'e TableBuilder \<Rightarrow> 'e \<Rightarrow> (Status \<times> 'e TableBuilder \<times> 'e) option" where
  "TableBuilder_Finish port r e =
     Option.bind (TableBuilder_Flush port r e) (\<lambda>(r, e).
       if tb_closed r then None
       else
         (let (filter_block_handle, r, e) = write_filter (r\<lparr>tb_closed := True\<rparr>) e
          in Option.bind (write_metaindex port filter_block_handle r e) (\<lambda>(metaindex_block_handle, r, e).
             Option.bind (write_index port r e) (\<lambda>(index_block_handle, r, e).
             Option.bind (write_footer metaindex_block_handle index_block_handle r e) (\<lambda>(r, e).
               Some (tb_status r, r, e))))))"

definition TableBuilder_Abandon :: "'e TableBuilder \<Rightarrow> 'e TableBuilder option" where
  "TableBuilder_Abandon r = (if tb_closed r then None else Some (r\<lparr>tb_closed := True\<rparr>))"

definition TableBuilder_delete :: "'e TableBuilder \<Rightarrow> unit option" where
  "TableBuilder_delete r = (if tb_closed r then Some () else None)"

definition NumEntries :: "'e TableBuilder \<Rightarrow> nat" where
  "NumEntries r = tb_num_entries r"

definition FileSize :: "'e TableBuilder \<Rightarrow> nat" where
  "FileSize r = tb_offset r"

text \<open>A table of pairs, as \<open>BuildTable\<close> and the compaction write it.\<close>

fun add_pairs :: "compression_port \<Rightarrow> (bytes \<times> bytes) list \<Rightarrow> 'e TableBuilder \<Rightarrow> 'e \<Rightarrow> ('e TableBuilder \<times> 'e) option" where
  "add_pairs port [] r e = Some (r, e)"
| "add_pairs port ((k, v) # kvs) r e = Option.bind (TableBuilder_Add port k v r e) (\<lambda>(r, e). add_pairs port kvs r e)"

definition write_table ::
  "compression_port \<Rightarrow> Options \<Rightarrow> (bytes \<times> bytes) list \<Rightarrow> 'e WritableFile \<Rightarrow> 'e \<Rightarrow> (Status \<times> 'e TableBuilder \<times> 'e) option" where
  "write_table port options kvs file e =
     Option.bind (TableBuilder_new options file) (\<lambda>r.
     Option.bind (add_pairs port kvs r e) (\<lambda>(r, e). TableBuilder_Finish port r e))"

end
