(* ===== verification/Version.thy ===== *)
theory Version
  imports Complex_Main VersionEdit TwoLevel TableBuilder MemTable
begin

text \<open>
  The files of a version and the searches over them: the first half of \<open>db/version_set.cc\<close>. \<open>files_\<close> is a function from levels to lists.
  The class \<open>TableCache\<close> is an interface here: a lookup gives a status and the pair the callback is called with, if it is. An index of a
  file is a natural number. \<^term>\<open>None\<close> is code that does not return or fails an assertion.
\<close>

subsection \<open>Sizes\<close>

definition TargetFileSize :: "Options \<Rightarrow> nat" where
  "TargetFileSize options = opt_max_file_size options"

text \<open>These are \<open>int64_t\<close>, made from unsigned 64-bit values.\<close>

definition MaxGrandParentOverlapBytes :: "Options \<Rightarrow> int" where
  "MaxGrandParentOverlapBytes options = sint (of_nat (10 * TargetFileSize options) :: u64)"

definition ExpandedCompactionByteSizeLimit :: "Options \<Rightarrow> int" where
  "ExpandedCompactionByteSizeLimit options = sint (of_nat (25 * TargetFileSize options) :: u64)"

definition MaxFileSizeForLevel :: "Options \<Rightarrow> nat \<Rightarrow> nat" where
  "MaxFileSizeForLevel options level = TargetFileSize options"

definition TotalFileSize :: "FileMetaData list \<Rightarrow> int" where
  "TotalFileSize files = sint (fold (\<lambda>f sum. sum + fm_file_size f) files 0)"

subsection \<open>Searching a level\<close>

function FindFile_loop :: "Comparator \<Rightarrow> FileMetaData list \<Rightarrow> bytes \<Rightarrow> nat \<Rightarrow> nat \<Rightarrow> nat" where
  "FindFile_loop c files key left right =
     (if left < right then
        (let mid = (left + right) div 2
         in if internal_compare c (fm_largest (files ! mid)) key < 0 then FindFile_loop c files key (mid + 1) right
            else FindFile_loop c files key left mid)
      else right)"
  by pat_completeness auto

termination by (relation "measure (\<lambda>(c, files, key, left, right). right - left)") auto

declare FindFile_loop.simps [simp del]

definition FindFile :: "Comparator \<Rightarrow> FileMetaData list \<Rightarrow> bytes \<Rightarrow> nat" where
  "FindFile c files key = FindFile_loop c files key 0 (length files)"

definition AfterFile :: "Comparator \<Rightarrow> bytes option \<Rightarrow> FileMetaData \<Rightarrow> bool" where
  "AfterFile ucmp user_key f =
     (case user_key of None \<Rightarrow> False | Some k \<Rightarrow> Compare ucmp k (ExtractUserKey (fm_largest f)) > 0)"

definition BeforeFile :: "Comparator \<Rightarrow> bytes option \<Rightarrow> FileMetaData \<Rightarrow> bool" where
  "BeforeFile ucmp user_key f =
     (case user_key of None \<Rightarrow> False | Some k \<Rightarrow> Compare ucmp k (ExtractUserKey (fm_smallest f)) < 0)"

definition SomeFileOverlapsRange :: "Comparator \<Rightarrow> bool \<Rightarrow> FileMetaData list \<Rightarrow> bytes option \<Rightarrow> bytes option \<Rightarrow> bool" where
  "SomeFileOverlapsRange c disjoint_sorted_files files smallest_user_key largest_user_key =
     (if \<not> disjoint_sorted_files then
        list_ex (\<lambda>f. \<not> (AfterFile c smallest_user_key f \<or> BeforeFile c largest_user_key f)) files
      else
        (let index = (case smallest_user_key of
                        None \<Rightarrow> 0
                      | Some k \<Rightarrow> FindFile c files (NewInternalKey k kMaxSequenceNumber kValueTypeForSeek))
         in if index \<ge> length files then False else \<not> BeforeFile c largest_user_key (files ! index)))"

subsection \<open>Iterators over a level\<close>

text \<open>The state of a \<open>LevelFileNumIterator\<close> is its \<open>index_\<close>.\<close>

definition file_value :: "FileMetaData \<Rightarrow> bytes" where
  "file_value f = EncodeFixed64 (fm_number f) @ EncodeFixed64 (fm_file_size f)"

definition LevelFileNumIterator_new :: "FileMetaData list \<Rightarrow> nat" where
  "LevelFileNumIterator_new flist = length flist"

definition LevelFileNumIterator :: "Comparator \<Rightarrow> FileMetaData list \<Rightarrow> nat Iterator" where
  "LevelFileNumIterator c flist =
     \<lparr>iter_Valid = (\<lambda>index. index < length flist), iter_SeekToFirst = (\<lambda>_. Some 0),
      iter_SeekToLast = (\<lambda>_. Some (if flist = [] then 0 else length flist - 1)),
      iter_Seek = (\<lambda>target _. Some (FindFile c flist target)),
      iter_Next = (\<lambda>index. if index < length flist then Some (index + 1) else None),
      iter_Prev = (\<lambda>index. if index < length flist then Some (if index = 0 then length flist else index - 1) else None),
      iter_key = (\<lambda>index. fm_largest (flist ! index)), iter_value = (\<lambda>index. file_value (flist ! index)), iter_status = (\<lambda>_. OK)\<rparr>"

text \<open>\<open>open_table\<close> is \<open>TableCache::NewIterator\<close>, and \<open>err\<close> makes an error iterator of the same dynamic type.\<close>

definition GetFileIterator :: "(u64 \<Rightarrow> u64 \<Rightarrow> 't option) \<Rightarrow> (Status \<Rightarrow> 't) \<Rightarrow> bytes \<Rightarrow> 't option" where
  "GetFileIterator open_table err v =
     (if length v \<noteq> 16 then Some (err (NewErrorIterator (Corruption (str ''FileReader invoked with unexpected value'') [])))
      else open_table (DecodeFixed64 v) (DecodeFixed64 (drop 8 v)))"

type_synonym 't LevelIter = "(nat, 't) TwoLevelIterator"

definition ConcatenatingIterator_class ::
  "Comparator \<Rightarrow> 't Iterator \<Rightarrow> (u64 \<Rightarrow> u64 \<Rightarrow> 't option) \<Rightarrow> (Status \<Rightarrow> 't) \<Rightarrow> FileMetaData list \<Rightarrow> 't LevelIter Iterator" where
  "ConcatenatingIterator_class c ti open_table err files =
     TwoLevelIterator_class (LevelFileNumIterator c files) ti (GetFileIterator open_table err)"

definition NewConcatenatingIterator :: "Comparator \<Rightarrow> FileMetaData list \<Rightarrow> 't LevelIter" where
  "NewConcatenatingIterator c files =
     NewTwoLevelIterator (LevelFileNumIterator c files) (LevelFileNumIterator_new files)"

subsection \<open>Versions\<close>

record Version =
  v_files :: "nat \<Rightarrow> FileMetaData list"
  v_file_to_compact :: "FileMetaData option"
  v_file_to_compact_level :: int
  v_compaction_score :: rat
  v_compaction_level :: int

definition Version_new :: Version where
  "Version_new =
     \<lparr>v_files = (\<lambda>_. []), v_file_to_compact = None, v_file_to_compact_level = - 1, v_compaction_score = - 1, v_compaction_level = - 1\<rparr>"

text \<open>A version's iterators: one for every file of level 0, and one for every other level that has files.\<close>

definition AddIterators ::
  "Comparator \<Rightarrow> (u64 \<Rightarrow> u64 \<Rightarrow> 't option) \<Rightarrow> Version \<Rightarrow> ('t + nat \<times> 't LevelIter) list option" where
  "AddIterators c open_table v =
     Option.bind (those (map (\<lambda>f. open_table (fm_number f) (fm_file_size f)) (v_files v 0))) (\<lambda>tables.
       Some (map Inl tables @
         map (\<lambda>level. Inr (level, NewConcatenatingIterator c (v_files v level))) (filter (\<lambda>level. v_files v level \<noteq> []) [1..<kNumLevels])))"

subsection \<open>Overlapping files\<close>

definition NewestFirst :: "FileMetaData \<Rightarrow> FileMetaData \<Rightarrow> bool" where
  "NewestFirst a b \<longleftrightarrow> fm_number a > fm_number b"

text \<open>\<open>std::sort\<close> with a strict order: insertion puts an element behind those it does not precede.\<close>

primrec sort_insert :: "('a \<Rightarrow> 'a \<Rightarrow> bool) \<Rightarrow> 'a \<Rightarrow> 'a list \<Rightarrow> 'a list" where
  "sort_insert lt x [] = [x]"
| "sort_insert lt x (y # ys) = (if lt x y then x # y # ys else y # sort_insert lt x ys)"

definition std_sort :: "('a \<Rightarrow> 'a \<Rightarrow> bool) \<Rightarrow> 'a list \<Rightarrow> 'a list" where
  "std_sort lt xs = fold (sort_insert lt) xs []"

text \<open>The callback gives its new state and whether the search goes on.\<close>

primrec visit_files :: "('f \<Rightarrow> 'a \<Rightarrow> ('a \<times> bool) option) \<Rightarrow> 'f list \<Rightarrow> 'a \<Rightarrow> ('a \<times> bool) option" where
  "visit_files func [] a = Some (a, True)"
| "visit_files func (f # fs) a = Option.bind (func f a) (\<lambda>(a, go). if go then visit_files func fs a else Some (a, False))"

primrec visit_levels ::
  "Comparator \<Rightarrow> Version \<Rightarrow> bytes \<Rightarrow> bytes \<Rightarrow> (nat \<Rightarrow> FileMetaData \<Rightarrow> 'a \<Rightarrow> ('a \<times> bool) option) \<Rightarrow> nat list \<Rightarrow> 'a \<Rightarrow> 'a option" where
  "visit_levels c v user_key internal_key func [] a = Some a"
| "visit_levels c v user_key internal_key func (level # levels) a =
     (let num_files = length (v_files v level)
      in if num_files = 0 then visit_levels c v user_key internal_key func levels a
         else
           (let index = FindFile c (v_files v level) internal_key
            in if index < num_files then
                 (let f = v_files v level ! index
                  in if Compare c user_key (ExtractUserKey (fm_smallest f)) < 0
                     then visit_levels c v user_key internal_key func levels a
                     else Option.bind (func level f a) (\<lambda>(a, go).
                            if go then visit_levels c v user_key internal_key func levels a else Some a))
               else visit_levels c v user_key internal_key func levels a))"

definition ForEachOverlapping ::
  "Comparator \<Rightarrow> Version \<Rightarrow> bytes \<Rightarrow> bytes \<Rightarrow> (nat \<Rightarrow> FileMetaData \<Rightarrow> 'a \<Rightarrow> ('a \<times> bool) option) \<Rightarrow> 'a \<Rightarrow> 'a option" where
  "ForEachOverlapping c v user_key internal_key func a =
     (let tmp = filter (\<lambda>f. Compare c user_key (ExtractUserKey (fm_smallest f)) \<ge> 0 \<and>
                             Compare c user_key (ExtractUserKey (fm_largest f)) \<le> 0) (v_files v 0)
      in Option.bind (visit_files (func 0) (std_sort NewestFirst tmp) a) (\<lambda>(a, go).
           if go then visit_levels c v user_key internal_key func [1..<kNumLevels] a else Some a))"

subsection \<open>Lookups\<close>

datatype SaverState = sv_kNotFound | sv_kFound | sv_kDeleted | sv_kCorrupt

record Saver =
  sv_state :: SaverState
  sv_user_key :: bytes
  sv_value :: bytes

definition SaveValue :: "Comparator \<Rightarrow> bytes \<Rightarrow> bytes \<Rightarrow> Saver \<Rightarrow> Saver" where
  "SaveValue ucmp ikey v s =
     (case ParseInternalKey ikey of
        None \<Rightarrow> s\<lparr>sv_state := sv_kCorrupt\<rparr>
      | Some parsed_key \<Rightarrow>
          if Compare ucmp (pik_user_key parsed_key) (sv_user_key s) = 0 then
            if pik_type parsed_key = kTypeValue then s\<lparr>sv_state := sv_kFound, sv_value := v\<rparr> else s\<lparr>sv_state := sv_kDeleted\<rparr>
          else s)"

record GetStats =
  gs_seek_file :: "FileMetaData option"
  gs_seek_file_level :: int

record 'c GetState =
  ge_saver :: Saver
  ge_stats :: GetStats
  ge_last_file_read :: "FileMetaData option"
  ge_last_file_read_level :: int
  ge_s :: Status
  ge_found :: bool
  ge_cache :: 'c

text \<open>\<open>table_get\<close> is \<open>TableCache::Get\<close> on the state of the cache.\<close>

type_synonym 'c table_get = "u64 \<Rightarrow> u64 \<Rightarrow> bytes \<Rightarrow> 'c \<Rightarrow> (Status \<times> (bytes \<times> bytes) option \<times> 'c) option"

definition Get_Match :: "Comparator \<Rightarrow> 'c table_get \<Rightarrow> bytes \<Rightarrow> nat \<Rightarrow> FileMetaData \<Rightarrow> 'c GetState \<Rightarrow> ('c GetState \<times> bool) option" where
  "Get_Match c table_get ikey level f state =
     (let state = (if gs_seek_file (ge_stats state) = None \<and> ge_last_file_read state \<noteq> None
                   then state\<lparr>ge_stats := \<lparr>gs_seek_file = ge_last_file_read state, gs_seek_file_level = ge_last_file_read_level state\<rparr>\<rparr>
                   else state);
          state = state\<lparr>ge_last_file_read := Some f, ge_last_file_read_level := int level\<rparr>
      in Option.bind (table_get (fm_number f) (fm_file_size f) ikey (ge_cache state)) (\<lambda>(s, called, cache).
           let saver = (case called of None \<Rightarrow> ge_saver state | Some (k, v) \<Rightarrow> SaveValue c k v (ge_saver state));
               state = state\<lparr>ge_s := s, ge_saver := saver, ge_cache := cache\<rparr>
           in Some
                (if \<not> ok s then (state\<lparr>ge_found := True\<rparr>, False)
                 else
                   (case sv_state saver of
                      sv_kNotFound \<Rightarrow> (state, True)
                    | sv_kFound \<Rightarrow> (state\<lparr>ge_found := True\<rparr>, False)
                    | sv_kDeleted \<Rightarrow> (state, False)
                    | sv_kCorrupt \<Rightarrow>
                        (state\<lparr>ge_s := Corruption (str ''corrupted key for '') (sv_user_key saver), ge_found := True\<rparr>, False)))))"

definition Version_Get ::
  "Comparator \<Rightarrow> 'c table_get \<Rightarrow> LookupKey \<Rightarrow> bytes \<Rightarrow> Version \<Rightarrow> 'c \<Rightarrow> (Status \<times> bytes \<times> GetStats \<times> 'c) option" where
  "Version_Get c table_get k val v cache =
     (let ikey = lookup_internal_key k;
          saver = \<lparr>sv_state = sv_kNotFound, sv_user_key = lookup_user_key k, sv_value = val\<rparr>;
          state = \<lparr>ge_saver = saver, ge_stats = \<lparr>gs_seek_file = None, gs_seek_file_level = - 1\<rparr>, ge_last_file_read = None,
                   ge_last_file_read_level = - 1, ge_s = OK, ge_found = False, ge_cache = cache\<rparr>
      in Option.bind (ForEachOverlapping c v (sv_user_key saver) ikey (Get_Match c table_get ikey) state) (\<lambda>state.
           Some (if ge_found state then ge_s state else NotFound [] [], sv_value (ge_saver state), ge_stats state, ge_cache state)))"

subsection \<open>Overlaps\<close>

definition OverlapInLevel :: "Comparator \<Rightarrow> nat \<Rightarrow> bytes option \<Rightarrow> bytes option \<Rightarrow> Version \<Rightarrow> bool" where
  "OverlapInLevel c level smallest_user_key largest_user_key v =
     SomeFileOverlapsRange c (level > 0) (v_files v level) smallest_user_key largest_user_key"

partial_function (option) overlap_loop ::
  "Comparator \<Rightarrow> nat \<Rightarrow> FileMetaData list \<Rightarrow> nat \<Rightarrow> bytes option \<Rightarrow> bytes option \<Rightarrow> FileMetaData list \<Rightarrow> FileMetaData list option" where
  "overlap_loop user_cmp level files i user_begin user_end inputs =
     (if i < length files then
        (let f = files ! i;
             i = i + 1;
             file_start = ExtractUserKey (fm_smallest f);
             file_limit = ExtractUserKey (fm_largest f)
         in if (case user_begin of None \<Rightarrow> False | Some b \<Rightarrow> Compare user_cmp file_limit b < 0)
            then overlap_loop user_cmp level files i user_begin user_end inputs
            else if (case user_end of None \<Rightarrow> False | Some e \<Rightarrow> Compare user_cmp file_start e > 0)
            then overlap_loop user_cmp level files i user_begin user_end inputs
            else if level = 0 \<and> (case user_begin of None \<Rightarrow> False | Some b \<Rightarrow> Compare user_cmp file_start b < 0)
            then overlap_loop user_cmp level files 0 (Some file_start) user_end []
            else if level = 0 \<and> (case user_end of None \<Rightarrow> False | Some e \<Rightarrow> Compare user_cmp file_limit e > 0)
            then overlap_loop user_cmp level files 0 user_begin (Some file_limit) []
            else overlap_loop user_cmp level files i user_begin user_end (inputs @ [f]))
      else Some inputs)"

definition GetOverlappingInputs :: "Comparator \<Rightarrow> nat \<Rightarrow> bytes option \<Rightarrow> bytes option \<Rightarrow> Version \<Rightarrow> FileMetaData list option" where
  "GetOverlappingInputs c level begin' end' v =
     (if level < kNumLevels then
        overlap_loop c level (v_files v level) 0 (map_option ExtractUserKey begin') (map_option ExtractUserKey end') []
      else None)"

text \<open>The loop runs for as many levels as it has left.\<close>

fun pick_level_loop :: "Comparator \<Rightarrow> Options \<Rightarrow> bytes \<Rightarrow> bytes \<Rightarrow> Version \<Rightarrow> nat \<Rightarrow> nat \<Rightarrow> nat option" where
  "pick_level_loop c options smallest_user_key largest_user_key v 0 level = Some level"
| "pick_level_loop c options smallest_user_key largest_user_key v (Suc n) level =
     (if OverlapInLevel c (level + 1) (Some smallest_user_key) (Some largest_user_key) v then Some level
      else if level + 2 < kNumLevels then
        Option.bind (GetOverlappingInputs c (level + 2) (Some (NewInternalKey smallest_user_key kMaxSequenceNumber kValueTypeForSeek))
            (Some (NewInternalKey largest_user_key 0 kTypeDeletion)) v) (\<lambda>overlaps.
          if TotalFileSize overlaps > MaxGrandParentOverlapBytes options then Some level
          else pick_level_loop c options smallest_user_key largest_user_key v n (level + 1))
      else pick_level_loop c options smallest_user_key largest_user_key v n (level + 1))"

definition PickLevelForMemTableOutput :: "Comparator \<Rightarrow> Options \<Rightarrow> bytes \<Rightarrow> bytes \<Rightarrow> Version \<Rightarrow> nat option" where
  "PickLevelForMemTableOutput c options smallest_user_key largest_user_key v =
     (if \<not> OverlapInLevel c 0 (Some smallest_user_key) (Some largest_user_key) v
      then pick_level_loop c options smallest_user_key largest_user_key v kMaxMemCompactLevel 0
      else Some 0)"

end
