(* ===== verification/VersionSpec.thy ===== *)
theory VersionSpec
  imports Version
begin

text \<open>
  What the searches over the files of a version find. A level above 0 is sorted: its files are disjoint ranges of internal keys in
  ascending order.
\<close>

subsection \<open>Files and levels\<close>

definition ikey_ok :: "(bytes \<Rightarrow> bool) \<Rightarrow> bytes \<Rightarrow> bool" where
  "ikey_ok valid k \<longleftrightarrow> (\<exists>u s t. k = NewInternalKey u s t \<and> valid u \<and> s \<le> kMaxSequenceNumber)"

definition file_ok :: "Comparator \<Rightarrow> (bytes \<Rightarrow> bool) \<Rightarrow> FileMetaData \<Rightarrow> bool" where
  "file_ok c valid f \<longleftrightarrow> ikey_ok valid (fm_smallest f) \<and> ikey_ok valid (fm_largest f) \<and> internal_compare c (fm_smallest f) (fm_largest f) \<le> 0"

definition level_sorted :: "Comparator \<Rightarrow> FileMetaData list \<Rightarrow> bool" where
  "level_sorted c files \<longleftrightarrow> sorted_wrt (\<lambda>f g. internal_compare c (fm_largest f) (fm_smallest g) < 0) files"

definition file_index :: "FileMetaData list \<Rightarrow> (bytes \<times> bytes) list" where
  "file_index files = map (\<lambda>f. (fm_largest f, file_value f)) files"

abbreviation (input) file_first :: "FileMetaData \<Rightarrow> bytes" where
  "file_first f \<equiv> ExtractUserKey (fm_smallest f)"

abbreviation (input) file_last :: "FileMetaData \<Rightarrow> bytes" where
  "file_last f \<equiv> ExtractUserKey (fm_largest f)"

lemma ikey_ok_valid: "ikey_ok valid k \<Longrightarrow> valid_internal valid k" "ikey_ok valid k \<Longrightarrow> valid (ExtractUserKey k)"
  by (auto simp: ikey_ok_def valid_internal_def)

lemma ikey_ok_parse: "ikey_ok valid k \<Longrightarrow> ParseInternalKey k \<noteq> None"
  by (auto simp: ikey_ok_def NewInternalKey_def)

lemma ikey_ok_new [simp]: "\<lbrakk>valid u; s \<le> kMaxSequenceNumber\<rbrakk> \<Longrightarrow> ikey_ok valid (NewInternalKey u s t)"
  by (auto simp: ikey_ok_def)

lemma seek_tag_max: "ikey_ok valid k \<Longrightarrow> internal_tag k \<le> PackSequenceAndType kMaxSequenceNumber kValueTypeForSeek"
proof -
  assume "ikey_ok valid k"
  then obtain u s t where k: "k = NewInternalKey u s t" "s \<le> kMaxSequenceNumber" by (auto simp: ikey_ok_def)
  have "\<not> PackSequenceAndType kMaxSequenceNumber kValueTypeForSeek < PackSequenceAndType s t"
    using k(2) by (subst Pack_less_iff) (auto simp: kValueTypeForSeek_def, cases t, auto)
  then show ?thesis using k(1) by simp
qed

lemma file_okD:
  assumes "file_ok c valid f"
  shows "ikey_ok valid (fm_smallest f)" "ikey_ok valid (fm_largest f)" "internal_compare c (fm_smallest f) (fm_largest f) \<le> 0"
    "valid_internal valid (fm_smallest f)" "valid_internal valid (fm_largest f)" "valid (file_first f)" "valid (file_last f)"
  using assms by (auto simp: file_ok_def dest: ikey_ok_valid)

lemma file_index_nth [simp]: "i < length files \<Longrightarrow> file_index files ! i = (fm_largest (files ! i), file_value (files ! i))"
  and file_index_length [simp]: "length (file_index files) = length files"
  by (simp_all add: file_index_def)

context user_comparator
begin

lemma internal_le_user: "internal_compare c a b \<le> 0 \<Longrightarrow> Compare c (ExtractUserKey a) (ExtractUserKey b) \<le> 0"
  by (auto simp: internal_compare_iff)

lemma internal_less_user: "internal_compare c a b < 0 \<Longrightarrow> Compare c (ExtractUserKey a) (ExtractUserKey b) \<le> 0"
  by (auto simp: internal_compare_iff)

lemma icompare_class [simp]: "Compare (InternalKeyComparator c) = internal_compare c"
  by (simp add: InternalKeyComparator_def)

lemma file_range: "file_ok c valid f \<Longrightarrow> Compare c (file_first f) (file_last f) \<le> 0"
  by (rule internal_le_user) (rule file_okD)

lemma seek_key_less:
  assumes "ikey_ok valid k" and "valid u"
  shows "internal_compare c k (NewInternalKey u kMaxSequenceNumber kValueTypeForSeek) < 0 \<longleftrightarrow> Compare c (ExtractUserKey k) u < 0"
  using seek_tag_max [OF assms(1)] by (auto simp: internal_compare_iff)

lemma level_largest_less:
  assumes "list_all (file_ok c valid) files" and "level_sorted c files" and "i < j" and "j < length files"
  shows "internal_compare c (fm_largest (files ! i)) (fm_smallest (files ! j)) < 0"
    and "internal_compare c (fm_largest (files ! i)) (fm_largest (files ! j)) < 0"
    and "internal_compare c (fm_smallest (files ! i)) (fm_smallest (files ! j)) < 0"
proof -
  have ok: "file_ok c valid (files ! i)" "file_ok c valid (files ! j)" using assms by (simp_all add: list_all_length)
  note v = file_okD(4,5) [OF ok(1)] file_okD(4,5) [OF ok(2)]
  show 1: "internal_compare c (fm_largest (files ! i)) (fm_smallest (files ! j)) < 0"
    using assms by (simp add: level_sorted_def sorted_wrt_iff_nth_less)
  show "internal_compare c (fm_largest (files ! i)) (fm_largest (files ! j)) < 0"
    using internal.cmp_less_trans [OF v(2,3,4)] 1 file_okD(3) [OF ok(2)] by simp
  show "internal_compare c (fm_smallest (files ! i)) (fm_smallest (files ! j)) < 0"
    using internal.cmp_le_less_trans [OF v(1,2,3)] 1 file_okD(3) [OF ok(1)] by simp
qed

lemma file_index_ascending:
  assumes "list_all (file_ok c valid) files" and "level_sorted c files"
  shows "ascending (InternalKeyComparator c) (file_index files)" and "e \<in> set (file_index files) \<Longrightarrow> valid_internal valid (fst e)"
  using level_largest_less(2) [OF assms] assms(1) file_okD(5) [of c valid]
  by (auto simp: ascending_def sorted_wrt_iff_nth_less file_index_def list_all_iff)

lemma FindFile_loop_below:
  assumes "list_all (file_ok c valid) files" and "level_sorted c files" and "valid_internal valid key"
  defines "n \<equiv> entries_below (InternalKeyComparator c) key (file_index files)"
  shows "\<lbrakk>l \<le> n; n \<le> r; r \<le> length files\<rbrakk> \<Longrightarrow> FindFile_loop c files key l r = n"
proof (induction "r - l" arbitrary: l r rule: less_induct)
  case less
  let ?m = "(l + r) div 2"
  have "internal_compare c (fm_largest (files ! i)) key < 0 \<longleftrightarrow> i < n" if "i < length files" for i
    using internal.entries_below_nth [OF file_index_ascending [OF assms(1,2)] assms(3), of i] that by (simp add: n_def)
  from this [of ?m] less show ?case by (subst FindFile_loop.simps) (auto simp: Let_def)
qed

lemma FindFile_below:
  assumes "list_all (file_ok c valid) files" and "level_sorted c files" and "valid_internal valid key"
  shows "FindFile c files key = entries_below (InternalKeyComparator c) key (file_index files)"
  unfolding FindFile_def using entries_below_le [of "InternalKeyComparator c" key "file_index files"]
  by (intro FindFile_loop_below [OF assms]) auto

lemma FindFile_iff:
  assumes "list_all (file_ok c valid) files" and "level_sorted c files" and "valid_internal valid key" and "i < length files"
  shows "internal_compare c (fm_largest (files ! i)) key < 0 \<longleftrightarrow> i < FindFile c files key"
  using internal.entries_below_nth [OF file_index_ascending [OF assms(1,2)] assms(3), of i] assms(4) by (simp add: FindFile_below [OF assms(1-3)])

lemma overlaps_range:
  assumes "list_all (file_ok c valid) files" and "level_sorted c files"
    and "\<And>k. lo = Some k \<Longrightarrow> valid k" and "\<And>k. hi = Some k \<Longrightarrow> valid k"
  shows "SomeFileOverlapsRange c True files lo hi = SomeFileOverlapsRange c False files lo hi"
proof -
  define n where "n = (case lo of None \<Rightarrow> 0 | Some k \<Rightarrow> FindFile c files (NewInternalKey k kMaxSequenceNumber kValueTypeForSeek))"
  have after: "AfterFile c lo (files ! i) \<longleftrightarrow> i < n" if i: "i < length files" for i
  proof (cases lo)
    case (Some k)
    have ok: "file_ok c valid (files ! i)" using assms(1) i by (simp add: list_all_length)
    have k: "valid k" using assms(3) Some by simp
    have "i < n \<longleftrightarrow> internal_compare c (fm_largest (files ! i)) (NewInternalKey k kMaxSequenceNumber kValueTypeForSeek) < 0"
      using FindFile_iff [OF assms(1,2) _ i, of "NewInternalKey k kMaxSequenceNumber kValueTypeForSeek"] k Some
      by (simp add: n_def valid_internal_def)
    also have "\<dots> \<longleftrightarrow> Compare c (file_last (files ! i)) k < 0" by (rule seek_key_less [OF file_okD(2) [OF ok] k])
    finally show ?thesis using cmp_neg_iff [OF file_okD(7) [OF ok] k] by (simp add: AfterFile_def Some)
  qed (simp add: AfterFile_def n_def)
  have before: "BeforeFile c hi (files ! j)" if "BeforeFile c hi (files ! i)" "i \<le> j" "j < length files" for i j
  proof (cases "i = j")
    case False
    have "file_ok c valid (files ! i)" "file_ok c valid (files ! j)" using assms(1) that by (simp_all add: list_all_length)
    moreover have "Compare c (file_first (files ! i)) (file_first (files ! j)) \<le> 0"
      using level_largest_less(3) [OF assms(1,2)] that False by (intro internal_less_user) simp
    ultimately show ?thesis
      using that(1) assms(4) by (auto simp: BeforeFile_def intro: cmp_less_trans dest: file_okD split: option.splits)
  qed (use that in simp)
  have "SomeFileOverlapsRange c False files lo hi \<longleftrightarrow> (\<exists>i < length files. n \<le> i \<and> \<not> BeforeFile c hi (files ! i))"
    using after by (auto simp: SomeFileOverlapsRange_def list_ex_length not_less)
  also have "\<dots> \<longleftrightarrow> n < length files \<and> \<not> BeforeFile c hi (files ! n)" using before by (auto dest: le_less_trans)
  finally show ?thesis by (auto simp: SomeFileOverlapsRange_def n_def [symmetric] Let_def)
qed

end

subsection \<open>Overlapping inputs\<close>

text \<open>The files that meet a range of user keys, where a missing end is open. A range is closed if no file reaches out of it.\<close>

definition in_range :: "Comparator \<Rightarrow> bytes option \<Rightarrow> bytes option \<Rightarrow> FileMetaData \<Rightarrow> bool" where
  "in_range c lo hi f \<longleftrightarrow> (\<forall>b. lo = Some b \<longrightarrow> \<not> Compare c (file_last f) b < 0) \<and> (\<forall>e. hi = Some e \<longrightarrow> \<not> Compare c (file_first f) e > 0)"

definition below_range :: "Comparator \<Rightarrow> bytes option \<Rightarrow> FileMetaData \<Rightarrow> bool" where
  "below_range c lo f \<longleftrightarrow> (\<exists>b. lo = Some b \<and> Compare c (file_first f) b < 0)"

definition above_range :: "Comparator \<Rightarrow> bytes option \<Rightarrow> FileMetaData \<Rightarrow> bool" where
  "above_range c hi f \<longleftrightarrow> (\<exists>e. hi = Some e \<and> Compare c (file_last f) e > 0)"

definition closed_range :: "Comparator \<Rightarrow> FileMetaData list \<Rightarrow> bytes option \<Rightarrow> bytes option \<Rightarrow> bool" where
  "closed_range c files lo hi \<longleftrightarrow> (\<forall>f \<in> set files. in_range c lo hi f \<longrightarrow> \<not> below_range c lo f \<and> \<not> above_range c hi f)"

text \<open>The second range contains the first.\<close>

definition widens :: "Comparator \<Rightarrow> bytes option \<times> bytes option \<Rightarrow> bytes option \<times> bytes option \<Rightarrow> bool" where
  "widens c r r' \<longleftrightarrow> (\<forall>b'. fst r' = Some b' \<longrightarrow> (\<exists>b. fst r = Some b \<and> Compare c b' b \<le> 0)) \<and>
     (\<forall>e'. snd r' = Some e' \<longrightarrow> (\<exists>e. snd r = Some e \<and> Compare c e e' \<le> 0))"

lemma overlap_loop_step:
  "overlap_loop c level files i lo hi inputs =
     (if i < length files then
        if in_range c lo hi (files ! i) then
          if level = 0 \<and> below_range c lo (files ! i) then overlap_loop c level files 0 (Some (file_first (files ! i))) hi []
          else if level = 0 \<and> above_range c hi (files ! i) then overlap_loop c level files 0 lo (Some (file_last (files ! i))) []
          else overlap_loop c level files (Suc i) lo hi (inputs @ [files ! i])
        else overlap_loop c level files (Suc i) lo hi inputs
      else Some inputs)"
  by (subst overlap_loop.simps) (auto simp: in_range_def below_range_def above_range_def Let_def split: option.splits)

lemma overlap_loop_filter:
  assumes "level = 0 \<Longrightarrow> closed_range c files lo hi"
  shows "overlap_loop c level files i lo hi inputs = Some (inputs @ filter (in_range c lo hi) (drop i files))"
proof (induction "length files - i" arbitrary: i inputs)
  case (Suc n)
  then have i: "i < length files" by simp
  have "files ! i \<in> set files" using i by simp
  then show ?case using Suc.hyps(1) [of "Suc i"] Suc.hyps(2) assms i
    by (subst overlap_loop_step) (auto simp: Cons_nth_drop_Suc [symmetric] closed_range_def)
qed (subst overlap_loop_step, simp)

text \<open>The loop reaches the first file that makes it start again.\<close>

lemma overlap_loop_reach:
  assumes "k < length files" and "in_range c lo hi (files ! k)" and "below_range c lo (files ! k) \<or> above_range c hi (files ! k)"
    and "\<forall>j < k. in_range c lo hi (files ! j) \<longrightarrow> \<not> below_range c lo (files ! j) \<and> \<not> above_range c hi (files ! j)" and "i \<le> k"
  shows "overlap_loop c 0 files i lo hi inputs =
    (if below_range c lo (files ! k) then overlap_loop c 0 files 0 (Some (file_first (files ! k))) hi []
     else overlap_loop c 0 files 0 lo (Some (file_last (files ! k))) [])"
  using assms(5)
proof (induction "k - i" arbitrary: i inputs)
  case 0
  then have "i = k" by simp
  then show ?case using assms by (subst overlap_loop_step) auto
next
  case (Suc n)
  then show ?case using Suc.hyps(1) [of "Suc i"] assms by (subst overlap_loop_step) auto
qed

definition range_valid :: "(bytes \<Rightarrow> bool) \<Rightarrow> bytes option \<times> bytes option \<Rightarrow> bool" where
  "range_valid valid r \<longleftrightarrow> (\<forall>k. fst r = Some k \<or> snd r = Some k \<longrightarrow> valid k)"

text \<open>How many ends of files lie outside of a range on a side that is not open.\<close>

definition range_excess :: "Comparator \<Rightarrow> FileMetaData list \<Rightarrow> bytes option \<times> bytes option \<Rightarrow> nat" where
  "range_excess c files r = length (filter (below_range c (fst r)) files) + length (filter (above_range c (snd r)) files)"

lemma length_filter_shrink:
  assumes "\<And>x. x \<in> set xs \<Longrightarrow> P x \<Longrightarrow> Q x" and "y \<in> set xs" and "Q y" and "\<not> P y"
  shows "length (filter P xs) < length (filter Q xs)"
proof -
  have "filter P xs = filter P (filter Q xs)" using assms(1) by (induction xs) auto
  then show ?thesis using length_filter_less [of y "filter Q xs" P] assms(2-4) by simp
qed

context user_comparator
begin

lemma widens_refl: "range_valid valid r \<Longrightarrow> widens c r r"
  by (auto simp: widens_def range_valid_def cmp_refl)

lemma widens_trans:
  assumes "widens c r r'" "widens c r' r''" "range_valid valid r" "range_valid valid r'" "range_valid valid r''"
  shows "widens c r r''"
  using assms unfolding widens_def range_valid_def by (meson cmp_trans)

lemma in_range_widens:
  assumes "in_range c (fst r) (snd r) f" and "widens c r r'" and "file_ok c valid f" and "range_valid valid r" and "range_valid valid r'"
  shows "in_range c (fst r') (snd r') f"
  unfolding in_range_def
proof (intro conjI allI impI notI)
  fix b' assume b': "fst r' = Some b'" "Compare c (file_last f) b' < 0"
  obtain b where "fst r = Some b" "Compare c b' b \<le> 0" using assms(2) b'(1) by (auto simp: widens_def)
  then show False
    using b' assms cmp_less_trans [of "file_last f" b' b] file_okD(7) [OF assms(3)] by (auto simp: in_range_def range_valid_def)
next
  fix e' assume e': "snd r' = Some e'" "Compare c (file_first f) e' > 0"
  obtain e where e: "snd r = Some e" "Compare c e e' \<le> 0" using assms(2) e'(1) by (auto simp: widens_def)
  have v: "valid e" "valid e'" "valid (file_first f)" using e e' assms(4,5) file_okD(6) [OF assms(3)] by (auto simp: range_valid_def)
  have "Compare c e (file_first f) < 0" using cmp_le_less_trans [OF v] e(2) e'(2) cmp_neg_iff [OF v(2,3)] by blast
  then show False using assms(1) e(1) cmp_neg_iff [OF v(1,3)] by (simp add: in_range_def)
qed

lemma overlap_restart:
  assumes ok: "list_all (file_ok c valid) files" and rv: "range_valid valid r" and f: "f \<in> set files" "in_range c (fst r) (snd r) f"
    and out: "below_range c (fst r) f \<or> above_range c (snd r) f"
  defines "r1 \<equiv> (if below_range c (fst r) f then (Some (file_first f), snd r) else (fst r, Some (file_last f)))"
  shows "range_valid valid r1" and "widens c r r1" and "range_excess c files r1 < range_excess c files r"
    and "\<lbrakk>widens c r r'; range_valid valid r'; closed_range c files (fst r') (snd r')\<rbrakk> \<Longrightarrow> widens c r1 r'"
proof -
  have fo: "file_ok c valid f" using ok f(1) by (simp add: list_all_iff)
  show rv1: "range_valid valid r1" using rv file_okD(6,7) [OF fo] by (auto simp: range_valid_def r1_def)
  show w: "widens c r r1"
  proof (cases "below_range c (fst r) f")
    case True
    then show ?thesis using rv widens_refl [OF rv] by (auto simp: widens_def r1_def below_range_def)
  next
    case False
    then obtain e where "snd r = Some e" "Compare c (file_last f) e > 0" using out by (auto simp: above_range_def)
    then show ?thesis using False rv widens_refl [OF rv] cmp_neg_iff [of e "file_last f"] file_okD(7) [OF fo]
      by (auto simp: widens_def r1_def range_valid_def)
  qed
  show "range_excess c files r1 < range_excess c files r"
  proof (cases "below_range c (fst r) f")
    case True
    have "length (filter (below_range c (fst r1)) files) < length (filter (below_range c (fst r)) files)"
    proof (rule length_filter_shrink [OF _ f(1)])
      fix g assume "g \<in> set files" "below_range c (fst r1) g"
      then show "below_range c (fst r) g"
        using True ok rv file_okD(6) [OF fo] file_okD(6) [of c valid g] cmp_less_trans [of "file_first g" "file_first f"]
        by (auto simp: below_range_def r1_def list_all_iff range_valid_def)
    qed (use True cmp_refl file_okD(6) [OF fo] in \<open>auto simp: r1_def below_range_def\<close>)
    then show ?thesis using True by (simp add: range_excess_def r1_def)
  next
    case False
    have "length (filter (above_range c (snd r1)) files) < length (filter (above_range c (snd r)) files)"
    proof (rule length_filter_shrink [OF _ f(1)])
      fix g assume g: "g \<in> set files" "above_range c (snd r1) g"
      obtain e where e: "snd r = Some e" "Compare c (file_last f) e > 0" using out False by (auto simp: above_range_def)
      have v: "valid e" "valid (file_last f)" "valid (file_last g)"
        using e(1) rv g(1) ok file_okD(7) [OF fo] file_okD(7) [of c valid g] by (auto simp: range_valid_def list_all_iff)
      have "Compare c (file_last f) (file_last g) < 0" using g(2) False cmp_neg_iff [OF v(2,3)] by (simp add: above_range_def r1_def)
      moreover have "Compare c e (file_last f) < 0" using e(2) cmp_neg_iff [OF v(1,2)] by simp
      ultimately have "Compare c e (file_last g) < 0" using cmp_less_trans [OF v] by simp
      then show "above_range c (snd r) g" using e(1) cmp_neg_iff [OF v(1,3)] by (simp add: above_range_def)
    qed (use out False cmp_refl file_okD(7) [OF fo] in \<open>auto simp: r1_def above_range_def\<close>)
    then show ?thesis using False by (simp add: range_excess_def r1_def)
  qed
  assume r': "widens c r r'" "range_valid valid r'" "closed_range c files (fst r') (snd r')"
  have "\<not> below_range c (fst r') f" "\<not> above_range c (snd r') f"
    using in_range_widens [OF f(2) r'(1) fo rv r'(2)] r'(3) f(1) by (auto simp: closed_range_def)
  then show "widens c r1 r'"
    using r'(1,2) file_okD(6,7) [OF fo] cmp_le_iff [of _ "file_first f"] unfolding widens_def r1_def below_range_def above_range_def range_valid_def
    by (auto simp: not_less)
qed

lemma overlap_loop_closed:
  assumes "list_all (file_ok c valid) files" and "range_valid valid r"
  shows "\<exists>r'. overlap_loop c 0 files 0 (fst r) (snd r) [] = Some (filter (in_range c (fst r') (snd r')) files) \<and>
    range_valid valid r' \<and> widens c r r' \<and> closed_range c files (fst r') (snd r') \<and>
    (\<forall>s. widens c r s \<and> range_valid valid s \<and> closed_range c files (fst s) (snd s) \<longrightarrow> widens c r' s)"
  using assms(2)
proof (induction "range_excess c files r" arbitrary: r rule: less_induct)
  case less
  show ?case
  proof (cases "closed_range c files (fst r) (snd r)")
    case True
    then show ?thesis using overlap_loop_filter [of 0 c files "fst r" "snd r" 0 "[]"] widens_refl less.prems by (intro exI [of _ r]) auto
  next
    case False
    let ?P = "\<lambda>k. k < length files \<and> in_range c (fst r) (snd r) (files ! k) \<and> (below_range c (fst r) (files ! k) \<or> above_range c (snd r) (files ! k))"
    have "\<exists>k. ?P k" using False by (auto simp: closed_range_def in_set_conv_nth)
    then obtain k where k: "?P k" "\<forall>j < k. \<not> ?P j" using exists_least_iff [of ?P] by blast
    define r1 where "r1 = (if below_range c (fst r) (files ! k) then (Some (file_first (files ! k)), snd r) else (fst r, Some (file_last (files ! k))))"
    have run: "overlap_loop c 0 files 0 (fst r) (snd r) [] = overlap_loop c 0 files 0 (fst r1) (snd r1) []"
      using overlap_loop_reach [of k files c "fst r" "snd r" 0 "[]"] k by (auto simp: r1_def)
    have kf: "files ! k \<in> set files" using k(1) by simp
    note R = overlap_restart [OF assms(1) less.prems kf, folded r1_def]
    have R1: "range_valid valid r1" "widens c r r1" "range_excess c files r1 < range_excess c files r" using R(1-3) k(1) by blast+
    obtain r' where r': "overlap_loop c 0 files 0 (fst r1) (snd r1) [] = Some (filter (in_range c (fst r') (snd r')) files)" "range_valid valid r'"
      "widens c r1 r'" "closed_range c files (fst r') (snd r')"
      "\<And>s. widens c r1 s \<and> range_valid valid s \<and> closed_range c files (fst s) (snd s) \<longrightarrow> widens c r' s"
      using less.hyps [OF R1(3,1)] by blast
    then show ?thesis using run R(4) k(1) widens_trans [OF R1(2) r'(3) less.prems R1(1) r'(2)] by (intro exI [of _ r']) auto
  qed
qed

lemma GetOverlappingInputs_level:
  assumes "0 < level" and "level < kNumLevels"
  shows "GetOverlappingInputs c level b e v = Some (filter (in_range c (map_option ExtractUserKey b) (map_option ExtractUserKey e)) (v_files v level))"
  using assms overlap_loop_filter [of level] by (simp add: GetOverlappingInputs_def)

end

subsection \<open>Properties\<close>

text \<open>C19: \<open>GetOverlappingInputs\<close> returns for every range, also on level 0 where every file that reaches out of the range widens it and starts
  the search again. On a level above 0 it gives exactly the files that meet the range. On level 0 it gives the files that meet the smallest
  range that contains the given one and that no file it meets reaches out of, so that no older file overlapping a chosen one is left
  behind.\<close>
theorem overlapping_inputs_closed:
  assumes "user_comparator c valid" and "level < kNumLevels" and "list_all (file_ok c valid) (v_files v level)"
    and "range_valid valid (map_option ExtractUserKey b, map_option ExtractUserKey e)"
  shows "\<exists>r. GetOverlappingInputs c level b e v = Some (filter (in_range c (fst r) (snd r)) (v_files v level)) \<and>
    widens c (map_option ExtractUserKey b, map_option ExtractUserKey e) r \<and>
    (0 < level \<longrightarrow> r = (map_option ExtractUserKey b, map_option ExtractUserKey e)) \<and>
    (level = 0 \<longrightarrow> closed_range c (v_files v level) (fst r) (snd r) \<and>
       (\<forall>s. widens c (map_option ExtractUserKey b, map_option ExtractUserKey e) s \<and> range_valid valid s \<and> closed_range c (v_files v level) (fst s) (snd s) \<longrightarrow>
          widens c r s))"
proof (cases "level = 0")
  case True
  then show ?thesis
    using user_comparator.overlap_loop_closed [OF assms(1,3,4)] by (auto simp: GetOverlappingInputs_def kNumLevels_def)
next
  case False
  then show ?thesis
    using user_comparator.GetOverlappingInputs_level [OF assms(1) _ assms(2), of b e v] user_comparator.widens_refl [OF assms(1,4)]
    by (intro exI [of _ "(map_option ExtractUserKey b, map_option ExtractUserKey e)"]) simp
qed

text \<open>Three files, of which the second reaches from the first one's keys to those of the third.\<close>

definition sample_level0 :: Version where
  "sample_level0 = Version_new\<lparr>v_files := (\<lambda>_. [])(0 := map (\<lambda>(n, a, b). FileMetaData_new n 100 (NewInternalKey [a] 1 kTypeValue) (NewInternalKey [b] 1 kTypeValue))
     [(7, 1, 3), (8, 3, 5), (9, 8, 9)])\<rparr>"

theorem overlapping_inputs_closed_witness:
  "\<exists>r. GetOverlappingInputs BytewiseComparator 0 (Some (NewInternalKey [1] 9 kTypeValue)) (Some (NewInternalKey [2] 9 kTypeValue)) sample_level0 =
      Some (filter (in_range BytewiseComparator (fst r) (snd r)) (v_files sample_level0 0)) \<and>
    closed_range BytewiseComparator (v_files sample_level0 0) (fst r) (snd r)"
proof -
  have "list_all (file_ok BytewiseComparator (\<lambda>_. True)) (v_files sample_level0 0)"
    by (simp add: sample_level0_def file_ok_def FileMetaData_new_def kMaxSequenceNumber_def internal_compare_iff BytewiseComparator_def)
  from overlapping_inputs_closed [OF bytewise_user.user_comparator_axioms _ this, where b = "Some (NewInternalKey [1] 9 kTypeValue)" and e = "Some (NewInternalKey [2] 9 kTypeValue)"]
  show ?thesis by (auto simp: kNumLevels_def range_valid_def)
qed

end
