(* ===== verification/VersionGet.thy ===== *)
theory VersionGet
  imports VersionSpec MemTableIterator
begin

text \<open>
  A lookup in a version answers by the newest entry for the user key that its sequence number sees, whichever file holds it. What this
  relies on is the order in which entries move down the levels: of two entries of one user key, the newer one is in the file that is
  searched first.
\<close>

subsection \<open>What files hold\<close>

definition holds_file :: "Comparator \<Rightarrow> (bytes \<Rightarrow> bool) \<Rightarrow> mem_add list \<Rightarrow> FileMetaData \<Rightarrow> bool" where
  "holds_file c valid adds f \<longleftrightarrow> file_ok c valid f \<and> list_all (add_ok valid) adds \<and>
     list_all (\<lambda>a. internal_compare c (fm_smallest f) (add_ikey a) \<le> 0 \<and> internal_compare c (add_ikey a) (fm_largest f) \<le> 0) adds \<and>
     list_ex (\<lambda>a. add_ikey a = fm_largest f) adds"

definition newer_adds :: "Comparator \<Rightarrow> mem_add list \<Rightarrow> mem_add list \<Rightarrow> bool" where
  "newer_adds c xs ys \<longleftrightarrow> (\<forall>a \<in> set xs. \<forall>b \<in> set ys. Compare c (ExtractUserKey (add_ikey a)) (ExtractUserKey (add_ikey b)) = 0 \<longrightarrow> fst b < fst a)"

definition version_files :: "Version \<Rightarrow> FileMetaData list" where
  "version_files v = concat (map (v_files v) [0..<kNumLevels])"

definition version_adds :: "(u64 \<Rightarrow> mem_add list) \<Rightarrow> Version \<Rightarrow> mem_add list" where
  "version_adds contents v = concat (map (\<lambda>f. contents (fm_number f)) (version_files v))"

text \<open>A version: levels above 0 are sorted, files have their own numbers and entries their own sequence numbers, and entries of one user
  key are newer in files with larger numbers on level 0 and on lower levels.\<close>

definition version_ok :: "Comparator \<Rightarrow> (u64 \<Rightarrow> mem_add list) \<Rightarrow> Version \<Rightarrow> bool" where
  "version_ok c contents v \<longleftrightarrow>
     (\<forall>level. 0 < level \<and> level < kNumLevels \<longrightarrow> level_sorted c (v_files v level)) \<and>
     distinct (map fm_number (version_files v)) \<and> distinct (map fst (version_adds contents v)) \<and>
     (\<forall>f \<in> set (v_files v 0). \<forall>g \<in> set (v_files v 0). fm_number g < fm_number f \<longrightarrow> newer_adds c (contents (fm_number f)) (contents (fm_number g))) \<and>
     (\<forall>l l'. l < l' \<and> l' < kNumLevels \<longrightarrow> (\<forall>f \<in> set (v_files v l). \<forall>g \<in> set (v_files v l'). newer_adds c (contents (fm_number f)) (contents (fm_number g))))"

lemma newest_visible_append:
  "newest_visible c u s (xs @ ys) =
     (case newest_visible c u s xs of
        None \<Rightarrow> newest_visible c u s ys
      | Some a \<Rightarrow> (case newest_visible c u s ys of None \<Rightarrow> Some a | Some b \<Rightarrow> if fst b < fst a then Some a else Some b))"
  by (induction xs) (auto split: option.splits)

lemma std_sort_insert:
  "sorted_wrt (\<lambda>a b. fm_number b \<le> fm_number a) xs \<Longrightarrow> sorted_wrt (\<lambda>a b. fm_number b \<le> fm_number a) (sort_insert NewestFirst x xs)"
  "mset (sort_insert lt x xs) = add_mset x (mset xs)"
proof -
  show m: "mset (sort_insert lt x xs) = add_mset x (mset xs)" for lt and x :: 'a and xs by (induction xs) auto
  have "set (sort_insert NewestFirst x ys) = insert x (set ys)" for ys using m [of NewestFirst x ys] by (metis set_mset_add_mset_insert set_mset_mset)
  then show "sorted_wrt (\<lambda>a b. fm_number b \<le> fm_number a) xs \<Longrightarrow> sorted_wrt (\<lambda>a b. fm_number b \<le> fm_number a) (sort_insert NewestFirst x xs)"
    by (induction xs) (auto simp: NewestFirst_def)
qed

lemma std_sort_newest:
  "sorted_wrt (\<lambda>a b. fm_number b \<le> fm_number a) (std_sort NewestFirst xs)" "mset (std_sort NewestFirst xs) = mset xs"
proof -
  have "sorted_wrt (\<lambda>a b. fm_number b \<le> fm_number a) ys \<Longrightarrow>
      sorted_wrt (\<lambda>a b. fm_number b \<le> fm_number a) (fold (sort_insert NewestFirst) xs ys) \<and>
      mset (fold (sort_insert NewestFirst) xs ys) = mset xs + mset ys" for ys
    by (induction xs arbitrary: ys) (auto simp: std_sort_insert)
  from this [of "[]"] show "sorted_wrt (\<lambda>a b. fm_number b \<le> fm_number a) (std_sort NewestFirst xs)" "mset (std_sort NewestFirst xs) = mset xs"
    by (simp_all add: std_sort_def)
qed

lemma std_sort_set [simp]: "set (std_sort NewestFirst xs) = set xs"
  using std_sort_newest(2) by (rule mset_eq_setD)

subsection \<open>The files that are searched\<close>

definition level_candidate :: "Comparator \<Rightarrow> Version \<Rightarrow> bytes \<Rightarrow> bytes \<Rightarrow> nat \<Rightarrow> (nat \<times> FileMetaData) list" where
  "level_candidate c v user_key internal_key level =
     (let i = FindFile c (v_files v level) internal_key
      in if i < length (v_files v level) \<and> \<not> Compare c user_key (file_first (v_files v level ! i)) < 0 then [(level, v_files v level ! i)] else [])"

definition level0_candidates :: "Comparator \<Rightarrow> Version \<Rightarrow> bytes \<Rightarrow> FileMetaData list" where
  "level0_candidates c v user_key =
     std_sort NewestFirst (filter (\<lambda>f. Compare c user_key (file_first f) \<ge> 0 \<and> Compare c user_key (file_last f) \<le> 0) (v_files v 0))"

definition search_files :: "Comparator \<Rightarrow> Version \<Rightarrow> bytes \<Rightarrow> bytes \<Rightarrow> (nat \<times> FileMetaData) list" where
  "search_files c v user_key internal_key =
     map (Pair 0) (level0_candidates c v user_key) @ concat (map (level_candidate c v user_key internal_key) [1..<kNumLevels])"

lemma visit_files_map: "visit_files func (map g xs) a = visit_files (\<lambda>x. func (g x)) xs a"
  by (induction xs arbitrary: a) (auto split: bind_splits)

lemma visit_files_append:
  "visit_files func (xs @ ys) a = Option.bind (visit_files func xs a) (\<lambda>(a, go). if go then visit_files func ys a else Some (a, False))"
  by (induction xs arbitrary: a) (auto split: bind_splits)

lemma visit_levels_files:
  "visit_levels c v u ik func levels a = map_option fst (visit_files (\<lambda>(l, f). func l f) (concat (map (level_candidate c v u ik) levels)) a)"
  by (induction levels arbitrary: a)
    (auto simp: level_candidate_def Let_def split: bind_splits)

lemma ForEachOverlapping_files:
  "ForEachOverlapping c v u ik func a = map_option fst (visit_files (\<lambda>(l, f). func l f) (search_files c v u ik) a)"
  unfolding ForEachOverlapping_def search_files_def level0_candidates_def Let_def visit_files_append visit_files_map visit_levels_files
  by (auto split: bind_splits)

lemma search_files_in:
  assumes "x \<in> set (search_files c v u ik)"
  shows "fst x < kNumLevels" and "snd x \<in> set (v_files v (fst x))" and "snd x \<in> set (version_files v)"
proof -
  have s: "set (level0_candidates c v u) \<subseteq> set (v_files v 0)" by (auto simp: level0_candidates_def)
  show "fst x < kNumLevels" "snd x \<in> set (v_files v (fst x))"
    using assms s by (auto simp: search_files_def level_candidate_def Let_def kNumLevels_def split: if_splits)
  then show "snd x \<in> set (version_files v)" by (auto simp: version_files_def)
qed

lemma level0_sorted:
  assumes "distinct (map fm_number (version_files v))"
  shows "sorted_wrt (\<lambda>f g. fm_number g < fm_number f) (level0_candidates c v u)"
proof -
  let ?xs = "filter (\<lambda>f. Compare c u (file_first f) \<ge> 0 \<and> Compare c u (file_last f) \<le> 0) (v_files v 0)"
  have "distinct (map fm_number (v_files v 0))" using assms by (simp add: version_files_def upt_conv_Cons kNumLevels_def)
  then have "distinct (map fm_number ?xs)" by (simp add: distinct_map_filter)
  then have "distinct (map fm_number (std_sort NewestFirst ?xs))"
    using mset_eq_imp_distinct_iff [of "map fm_number (std_sort NewestFirst ?xs)" "map fm_number ?xs"] by (simp add: std_sort_newest(2))
  then show ?thesis
    using std_sort_newest(1) [of ?xs] by (auto simp: level0_candidates_def sorted_wrt_iff_nth_less distinct_conv_nth order.strict_iff_order)
qed

lemma search_sorted:
  assumes "version_ok c contents v"
  shows "sorted_wrt (\<lambda>x y. newer_adds c (contents (fm_number (snd x))) (contents (fm_number (snd y)))) (search_files c v u ik)"
proof -
  let ?newer = "\<lambda>x y. newer_adds c (contents (fm_number (snd x))) (contents (fm_number (snd y)))"
  have lev: "newer_adds c (contents (fm_number f)) (contents (fm_number g))"
    if "l < l'" "l' < kNumLevels" "f \<in> set (v_files v l)" "g \<in> set (v_files v l')" for l l' f g
    using assms that by (auto simp: version_ok_def)
  have cand: "x \<in> set (level_candidate c v u ik l) \<Longrightarrow> fst x = l \<and> snd x \<in> set (v_files v l)" for x l
    by (auto simp: level_candidate_def Let_def split: if_splits)
  have set0: "set (level0_candidates c v u) \<subseteq> set (v_files v 0)" by (auto simp: level0_candidates_def)
  have "sorted_wrt ?newer (concat (map (level_candidate c v u ik) ls))" if "sorted_wrt (<) ls" "\<forall>l \<in> set ls. l < kNumLevels" for ls
    using that
  proof (induction ls)
    case (Cons l ls)
    have "sorted_wrt ?newer (level_candidate c v u ik l)" by (simp add: level_candidate_def Let_def)
    moreover have "?newer x y" if x: "x \<in> set (level_candidate c v u ik l)" and y: "y \<in> set (concat (map (level_candidate c v u ik) ls))" for x y
    proof -
      obtain l' where l': "l' \<in> set ls" "y \<in> set (level_candidate c v u ik l')" using y by auto
      then show ?thesis using lev [of l l' "snd x" "snd y"] cand [OF x] cand [OF l'(2)] Cons.prems by simp
    qed
    ultimately show ?case using Cons by (simp add: sorted_wrt_append)
  qed simp
  from this [of "[1..<kNumLevels]"] have "sorted_wrt ?newer (concat (map (level_candidate c v u ik) [1..<kNumLevels]))" by simp
  moreover have "sorted_wrt ?newer (map (Pair (0 :: nat)) (level0_candidates c v u))"
  proof -
    have "sorted_wrt (\<lambda>f g. newer_adds c (contents (fm_number f)) (contents (fm_number g))) (level0_candidates c v u)"
    proof (rule sorted_wrt_mono_rel [OF _ level0_sorted])
      show "distinct (map fm_number (version_files v))" using assms by (simp add: version_ok_def)
      show "newer_adds c (contents (fm_number f)) (contents (fm_number g))"
        if "f \<in> set (level0_candidates c v u)" "g \<in> set (level0_candidates c v u)" "fm_number g < fm_number f" for f g
        using assms set0 that unfolding version_ok_def by blast
    qed
    then show ?thesis by (simp add: sorted_wrt_map)
  qed
  moreover have "?newer x y" if "x \<in> set (map (Pair (0 :: nat)) (level0_candidates c v u))" "y \<in> set (concat (map (level_candidate c v u ik) [1..<kNumLevels]))" for x y
    using that set0 lev [of 0 "fst y" "snd x" "snd y"] cand by fastforce
  ultimately show ?thesis by (simp add: search_files_def sorted_wrt_append)
qed

subsection \<open>Entries of one user key\<close>

lemma add_pair_fst [simp]: "fst (add_pair a) = add_ikey a"
  by (cases a) (simp add: add_pair_def add_ikey_def)

lemma add_ok_fields: "add_ok valid a \<Longrightarrow> fst a \<le> kMaxSequenceNumber" "add_ok valid a \<Longrightarrow> valid (ExtractUserKey (add_ikey a))"
  "add_ok valid a \<Longrightarrow> ikey_ok valid (add_ikey a)"
  by (cases a; auto simp: add_ok_def ikey_ok_def add_ikey_def)+

lemma visible_user: "visible c u s a \<longleftrightarrow> Compare c (ExtractUserKey (add_ikey a)) u = 0 \<and> fst a \<le> s"
  by (cases a) (simp add: visible_def)

lemma add_tag: "internal_tag (add_ikey a) = PackSequenceAndType (fst a) (fst (snd a))"
  by (cases a) simp

lemma add_tag_seek:
  assumes "add_ok valid a" and "s \<le> kMaxSequenceNumber"
  shows "PackSequenceAndType s kValueTypeForSeek < internal_tag (add_ikey a) \<longleftrightarrow> s < fst a"
  unfolding add_tag using Pack_less_iff [OF assms(2) add_ok_fields(1) [OF assms(1)], of kValueTypeForSeek "fst (snd a)"]
  by (cases "fst (snd a)") (auto simp: kValueTypeForSeek_def)

lemma add_tag_less:
  assumes "add_ok valid a" and "add_ok valid b" and "internal_tag (add_ikey a) < internal_tag (add_ikey b)"
  shows "fst a \<le> fst b"
  using assms Pack_less_iff [OF add_ok_fields(1) [OF assms(1)] add_ok_fields(1) [OF assms(2)]] unfolding add_tag by auto

lemma SaveValue_add:
  assumes "add_ok valid a"
  shows "SaveValue c (add_ikey a) v sv =
    (if Compare c (ExtractUserKey (add_ikey a)) (sv_user_key sv) = 0 then
       if fst (snd a) = kTypeValue then sv\<lparr>sv_state := sv_kFound, sv_value := v\<rparr> else sv\<lparr>sv_state := sv_kDeleted\<rparr>
     else sv)"
proof -
  have "ParseInternalKey (add_ikey a) = Some \<lparr>pik_user_key = ExtractUserKey (add_ikey a), pik_sequence = fst a, pik_type = fst (snd a)\<rparr>"
    using assms by (cases a) (simp add: add_ikey_def add_ok_def NewInternalKey_simps(1) [unfolded NewInternalKey_def] NewInternalKey_def)
  then show ?thesis by (simp add: SaveValue_def)
qed

lemma holds_fileD:
  assumes "holds_file c valid adds f"
  shows "file_ok c valid f" and "a \<in> set adds \<Longrightarrow> add_ok valid a"
    and "a \<in> set adds \<Longrightarrow> internal_compare c (fm_smallest f) (add_ikey a) \<le> 0"
    and "a \<in> set adds \<Longrightarrow> internal_compare c (add_ikey a) (fm_largest f) \<le> 0"
    and "\<exists>a \<in> set adds. add_ikey a = fm_largest f"
  using assms by (auto simp: holds_file_def list_all_iff list_ex_iff)

context user_comparator
begin

lemma same_user: "\<lbrakk>valid a; valid b; valid u; Compare c a u = 0; Compare c b u = 0\<rbrakk> \<Longrightarrow> Compare c a b = 0"
  using cmp_trans [of a u b] cmp_trans [of b u a] cmp_zero_iff [of a u] cmp_zero_iff [of b u] cmp_le_iff [of b a] by force

lemma same_user_adds:
  assumes "add_ok valid a" "add_ok valid b" "valid u" "visible c u s a" "visible c u s b"
  shows "Compare c (ExtractUserKey (add_ikey a)) (ExtractUserKey (add_ikey b)) = 0"
  using same_user [OF add_ok_fields(2) [OF assms(1)] add_ok_fields(2) [OF assms(2)] assms(3)] assms(4,5) by (simp add: visible_user)

lemma below_lookup:
  assumes "add_ok valid a" and "s \<le> kMaxSequenceNumber"
  shows "\<not> internal_compare c (add_ikey a) (NewInternalKey u s kValueTypeForSeek) < 0 \<longleftrightarrow>
    0 < Compare c (ExtractUserKey (add_ikey a)) u \<or> visible c u s a"
  using add_tag_seek [OF assms] by (auto simp: internal_compare_iff visible_user)

lemma level0_finds:
  assumes "holds_file c valid adds f" and "a \<in> set adds" and "visible c u s a" and "valid u"
  shows "Compare c u (file_first f) \<ge> 0 \<and> Compare c u (file_last f) \<le> 0"
proof -
  note h = holds_fileD [OF assms(1)]
  have a: "valid (ExtractUserKey (add_ikey a))" "Compare c (ExtractUserKey (add_ikey a)) u = 0"
    using add_ok_fields(2) [OF h(2) [OF assms(2)]] assms(3) by (simp_all add: visible_user)
  have "Compare c (file_first f) u \<le> 0"
    using cmp_trans [OF file_okD(6) [OF h(1)] a(1) assms(4) internal_le_user [OF h(3) [OF assms(2)]]] a(2) by simp
  moreover have "Compare c u (ExtractUserKey (add_ikey a)) = 0" using a cmp_zero_iff assms(4) by simp
  then have "Compare c u (file_last f) \<le> 0"
    using cmp_trans [OF assms(4) a(1) file_okD(7) [OF h(1)] _ internal_le_user [OF h(4) [OF assms(2)]]] by simp
  ultimately show ?thesis using cmp_le_iff [OF file_okD(6) [OF h(1)] assms(4)] by simp
qed

text \<open>An entry a lookup sees is in the file the binary search finds, or a newer one that it sees is.\<close>

lemma level_finds:
  assumes files: "\<And>f. f \<in> set files \<Longrightarrow> holds_file c valid (contents (fm_number f)) f" and sorted: "level_sorted c files"
    and g: "g \<in> set files" and a: "a \<in> set (contents (fm_number g))" "visible c u s a" and u: "valid u" "s \<le> kMaxSequenceNumber"
  defines "i \<equiv> FindFile c files (NewInternalKey u s kValueTypeForSeek)"
  shows "i < length files \<and> \<not> Compare c u (file_first (files ! i)) < 0 \<and> (\<exists>b \<in> set (contents (fm_number (files ! i))). visible c u s b \<and> fst a \<le> fst b)"
proof -
  let ?k = "NewInternalKey u s kValueTypeForSeek"
  have ok: "list_all (file_ok c valid) files" using holds_fileD(1) [OF files] by (simp add: list_all_iff)
  have vk: "valid_internal valid ?k" using u(1) by (simp add: valid_internal_def)
  obtain j where j: "j < length files" "g = files ! j" using g by (auto simp: in_set_conv_nth)
  note hg = holds_fileD [OF files [OF g]]
  have ao: "add_ok valid a" using hg(2) a(1) .
  have va: "valid_internal valid (add_ikey a)" "valid (ExtractUserKey (add_ikey a))" using ikey_ok_valid add_ok_fields(3) [OF ao] by blast+
  have "\<not> internal_compare c (add_ikey a) ?k < 0" using below_lookup [OF ao u(2)] a(2) by simp
  then have "\<not> internal_compare c (fm_largest g) ?k < 0"
    using internal.cmp_le_less_trans [OF va(1) file_okD(5) [OF hg(1)] vk] hg(4) [OF a(1)] by auto
  then have ij: "i \<le> j" using FindFile_iff [OF ok sorted vk j(1)] j(2) by (simp add: i_def)
  then have i: "i < length files" using j(1) by simp
  show ?thesis
  proof (cases "i = j")
    case True
    then show ?thesis using j a level0_finds [OF files [OF g] a u(1)] by (auto intro!: bexI [of _ a])
  next
    case False
    then have lt: "i < j" using ij by simp
    have fi: "files ! i \<in> set files" using i by simp
    note hi = holds_fileD [OF files [OF fi]]
    obtain b where b: "b \<in> set (contents (fm_number (files ! i)))" "add_ikey b = fm_largest (files ! i)" using hi(5) by blast
    have bo: "add_ok valid b" using hi(2) b(1) .
    have vb: "valid_internal valid (add_ikey b)" "valid (ExtractUserKey (add_ikey b))" using ikey_ok_valid add_ok_fields(3) [OF bo] by blast+
    have "\<not> internal_compare c (add_ikey b) ?k < 0" using FindFile_iff [OF ok sorted vk i] b(2) by (simp add: i_def)
    then have bk: "0 < Compare c (ExtractUserKey (add_ikey b)) u \<or> visible c u s b" by (simp only: below_lookup [OF bo u(2)])
    have ba: "internal_compare c (add_ikey b) (add_ikey a) < 0"
      using internal.cmp_less_trans [OF vb(1) file_okD(4) [OF hg(1)] va(1)] level_largest_less(1) [OF ok sorted lt j(1)] hg(3) [OF a(1)] b(2) j(2) by simp
    have "Compare c (ExtractUserKey (add_ikey b)) u \<le> 0"
      using cmp_trans [OF vb(2) va(2) u(1) internal_less_user [OF ba]] a(2) by (simp add: visible_user)
    then have vis: "visible c u s b" using bk by simp
    have "Compare c (ExtractUserKey (add_ikey b)) (ExtractUserKey (add_ikey a)) = 0"
    proof -
      have "Compare c u (ExtractUserKey (add_ikey b)) \<le> 0" using vis cmp_zero_iff [OF vb(2) u(1)] by (simp add: visible_user)
      then have "Compare c (ExtractUserKey (add_ikey a)) (ExtractUserKey (add_ikey b)) \<le> 0"
        using cmp_trans [OF va(2) u(1) vb(2)] a(2) by (simp add: visible_user)
      then show ?thesis using internal_less_user [OF ba] cmp_le_iff [OF va(2) vb(2)] by simp
    qed
    then have "internal_tag (add_ikey a) < internal_tag (add_ikey b)" using ba by (simp add: internal_compare_iff)
    then have "fst a \<le> fst b" by (rule add_tag_less [OF ao bo])
    then show ?thesis using i vis b(1) level0_finds [OF files [OF fi] b(1) vis u(1)] by auto
  qed
qed

end

subsection \<open>The interface to the tables\<close>

text \<open>The status and the value of a lookup that should answer by an entry.\<close>

definition get_result :: "bytes \<Rightarrow> mem_add option \<Rightarrow> Status \<times> bytes" where
  "get_result val r =
     (case r of
        Some a \<Rightarrow> if fst (snd a) = kTypeValue then (OK, snd (snd (snd a))) else (NotFound [] [], val)
      | None \<Rightarrow> (NotFound [] [], val))"

text \<open>What a search has recorded when it should answer by an entry, or has not found one yet.\<close>

definition answered :: "('c \<Rightarrow> bool) \<Rightarrow> bytes \<Rightarrow> mem_add option \<Rightarrow> 'c GetState \<Rightarrow> bool" where
  "answered cache_ok val r st \<longleftrightarrow> cache_ok (ge_cache st) \<and>
     (case r of
        None \<Rightarrow> \<not> ge_found st \<and> sv_state (ge_saver st) = sv_kNotFound \<and> sv_value (ge_saver st) = val
      | Some a \<Rightarrow>
          if fst (snd a) = kTypeValue then ge_found st \<and> ge_s st = OK \<and> sv_value (ge_saver st) = snd (snd (snd a))
          else \<not> ge_found st \<and> sv_value (ge_saver st) = val)"

text \<open>What a version relies on: a lookup in the table of a live file returns OK, calls back with an entry that is not below the key if at
  all, and with the newest entry it should see if there is one.\<close>

locale table_lookups = user_comparator c valid for c valid +
  fixes table_get :: "'c table_get" and contents :: "u64 \<Rightarrow> mem_add list" and live :: "FileMetaData \<Rightarrow> bool" and cache_ok :: "'c \<Rightarrow> bool"
  assumes live_holds: "live f \<Longrightarrow> holds_file c valid (contents (fm_number f)) f"
    and get_entry: "\<lbrakk>live f; valid u; s \<le> kMaxSequenceNumber; cache_ok x\<rbrakk> \<Longrightarrow>
      \<exists>found x'. table_get (fm_number f) (fm_file_size f) (NewInternalKey u s kValueTypeForSeek) x = Some (OK, found, x') \<and> cache_ok x' \<and>
        (\<forall>kv. found = Some kv \<longrightarrow> (\<exists>a \<in> set (contents (fm_number f)). kv = add_pair a \<and>
           \<not> internal_compare c (add_ikey a) (NewInternalKey u s kValueTypeForSeek) < 0)) \<and>
        (\<forall>a. newest_visible c u s (contents (fm_number f)) = Some a \<longrightarrow> found = Some (add_pair a))"
begin

text \<open>One file: the search goes on exactly when the file has no entry that the lookup sees.\<close>

lemma Match_run:
  assumes f: "live f" and u: "valid u" "s \<le> kMaxSequenceNumber" and st: "answered cache_ok val None st" "sv_user_key (ge_saver st) = u"
  shows "\<exists>st'. Get_Match c table_get (NewInternalKey u s kValueTypeForSeek) level f st =
      Some (st', newest_visible c u s (contents (fm_number f)) = None) \<and>
    answered cache_ok val (newest_visible c u s (contents (fm_number f))) st' \<and> sv_user_key (ge_saver st') = u"
proof -
  let ?r = "newest_visible c u s (contents (fm_number f))"
  have x: "cache_ok (ge_cache st)" using st(1) by (simp add: answered_def)
  obtain found x' where get: "table_get (fm_number f) (fm_file_size f) (NewInternalKey u s kValueTypeForSeek) (ge_cache st) = Some (OK, found, x')"
    and x': "cache_ok x'" and fnd: "\<And>kv. found = Some kv \<Longrightarrow> \<exists>a \<in> set (contents (fm_number f)). kv = add_pair a \<and>
         \<not> internal_compare c (add_ikey a) (NewInternalKey u s kValueTypeForSeek) < 0" "\<And>a. ?r = Some a \<Longrightarrow> found = Some (add_pair a)"
    using get_entry [OF f u x] by blast
  show ?thesis
  proof (cases ?r)
    case None
    have other: "Compare c (ExtractUserKey (fst kv)) u \<noteq> 0 \<and> (\<exists>a. kv = add_pair a \<and> add_ok valid a)" if kv: "found = Some kv" for kv
    proof -
      obtain a where a: "a \<in> set (contents (fm_number f))" "kv = add_pair a" "\<not> internal_compare c (add_ikey a) (NewInternalKey u s kValueTypeForSeek) < 0"
        using fnd(1) [OF kv] by blast
      have ao: "add_ok valid a" using holds_fileD(2) [OF live_holds [OF f] a(1)] .
      moreover have "\<not> visible c u s a" using None a(1) by (simp add: newest_visible_None)
      ultimately have "0 < Compare c (ExtractUserKey (add_ikey a)) u" using below_lookup [OF ao u(2), of u] a(3) by blast
      then show ?thesis using ao a(2) by (intro conjI exI [of _ a]) simp_all
    qed
    show ?thesis
    proof (cases found)
      case None
      then show ?thesis using get x' st \<open>?r = None\<close> by (auto simp: Get_Match_def answered_def Let_def ok_def OK_def)
    next
      case (Some kv)
      then obtain a where "kv = add_pair a" "add_ok valid a" "Compare c (ExtractUserKey (add_ikey a)) u \<noteq> 0" using other by fastforce
      then show ?thesis using Some get x' st \<open>?r = None\<close> SaveValue_add [of valid a c]
        by (auto simp: Get_Match_def answered_def Let_def ok_def OK_def case_prod_beta)
    qed
  next
    case (Some a)
    have found: "found = Some (add_pair a)" using fnd(2) Some by blast
    have a: "a \<in> set (contents (fm_number f))" "visible c u s a" using newest_visible_Some [OF Some] by blast+
    have ao: "add_ok valid a" using holds_fileD(2) [OF live_holds [OF f] a(1)] .
    have "snd (add_pair a) = snd (snd (snd a))" by (cases a) (simp add: add_pair_def)
    then show ?thesis using found Some get x' st SaveValue_add [OF ao, of c] a(2)
      by (cases "fst (snd a)") (auto simp: Get_Match_def answered_def Let_def ok_def OK_def visible_user case_prod_beta)
  qed
qed

lemma Get_visit:
  assumes "\<forall>x \<in> set fs. live (snd x)" and "sorted_wrt (\<lambda>x y. newer_adds c (contents (fm_number (snd x))) (contents (fm_number (snd y)))) fs"
    and u: "valid u" "s \<le> kMaxSequenceNumber" and st: "answered cache_ok val None st" "sv_user_key (ge_saver st) = u"
  shows "\<exists>st' go. visit_files (\<lambda>(l, f). Get_Match c table_get (NewInternalKey u s kValueTypeForSeek) l f) fs st = Some (st', go) \<and>
    answered cache_ok val (newest_visible c u s (concat (map (\<lambda>x. contents (fm_number (snd x))) fs))) st'"
  using assms(1,2) st
proof (induction fs arbitrary: st)
  case (Cons x fs)
  let ?r = "newest_visible c u s (contents (fm_number (snd x)))" and ?rest = "concat (map (\<lambda>x. contents (fm_number (snd x))) fs)"
  obtain st' where st': "Get_Match c table_get (NewInternalKey u s kValueTypeForSeek) (fst x) (snd x) st = Some (st', ?r = None)"
    "answered cache_ok val ?r st'" "sv_user_key (ge_saver st') = u"
    using Match_run [OF _ u Cons.prems(3,4), of "snd x" "fst x"] Cons.prems(1) by auto
  show ?case
  proof (cases ?r)
    case None
    then show ?thesis using Cons.IH [OF _ _ _ st'(3)] Cons.prems st' by (auto simp: case_prod_beta newest_visible_append)
  next
    case (Some a)
    have "fst b < fst a" if b: "newest_visible c u s ?rest = Some b" for b
    proof -
      have a: "a \<in> set (contents (fm_number (snd x)))" "visible c u s a" and "b \<in> set ?rest" and bv: "visible c u s b"
        using newest_visible_Some [OF Some] newest_visible_Some [OF b] by blast+
      then obtain y where y: "y \<in> set fs" "b \<in> set (contents (fm_number (snd y)))" by auto
      have "add_ok valid a" "add_ok valid b"
        using holds_fileD(2) [OF live_holds a(1)] holds_fileD(2) [OF live_holds y(2)] Cons.prems(1) y(1) by simp_all
      then have "Compare c (ExtractUserKey (add_ikey a)) (ExtractUserKey (add_ikey b)) = 0"
        using same_user_adds [OF _ _ u(1) a(2) bv] by blast
      then show ?thesis using Cons.prems(2) a(1) y by (auto simp: newer_adds_def)
    qed
    then have "newest_visible c u s (contents (fm_number (snd x)) @ ?rest) = Some a" using Some by (auto simp: newest_visible_append split: option.split)
    then show ?thesis using st' Some by (auto simp: case_prod_beta)
  qed
qed auto

lemma search_dominates:
  assumes v: "version_ok c contents v" "list_all live (version_files v)" and u: "valid u" "s \<le> kMaxSequenceNumber"
    and a: "a \<in> set (version_adds contents v)" "visible c u s a"
  shows "\<exists>x \<in> set (search_files c v u (NewInternalKey u s kValueTypeForSeek)). \<exists>b \<in> set (contents (fm_number (snd x))). visible c u s b \<and> fst a \<le> fst b"
proof -
  obtain l f where f: "l < kNumLevels" "f \<in> set (v_files v l)" "a \<in> set (contents (fm_number f))"
    using a(1) by (auto simp: version_adds_def version_files_def)
  have holds: "holds_file c valid (contents (fm_number g)) g" if "g \<in> set (v_files v l)" for g
    using live_holds v(2) that f(1) by (auto simp: list_all_iff version_files_def)
  show ?thesis
  proof (cases "l = 0")
    case True
    have "f \<in> set (level0_candidates c v u)"
      using level0_finds [OF holds [OF f(2)] f(3) a(2) u(1)] f(2) True by (simp add: level0_candidates_def)
    then show ?thesis using f(3) a(2) by (intro bexI [of _ "(0, f)"] bexI [of _ a]) (auto simp: search_files_def)
  next
    case False
    have "level_sorted c (v_files v l)" using v(1) False f(1) by (simp add: version_ok_def)
    from level_finds [where files = "v_files v l", OF holds this f(2,3) a(2) u] obtain b
      where b: "FindFile c (v_files v l) (NewInternalKey u s kValueTypeForSeek) < length (v_files v l)"
        "\<not> Compare c u (file_first (v_files v l ! FindFile c (v_files v l) (NewInternalKey u s kValueTypeForSeek))) < 0"
        "b \<in> set (contents (fm_number (v_files v l ! FindFile c (v_files v l) (NewInternalKey u s kValueTypeForSeek))))" "visible c u s b" "fst a \<le> fst b" by blast
    then have "(l, v_files v l ! FindFile c (v_files v l) (NewInternalKey u s kValueTypeForSeek)) \<in> set (search_files c v u (NewInternalKey u s kValueTypeForSeek))"
      using False f(1) by (auto simp: search_files_def level_candidate_def Let_def intro!: bexI [of _ l])
    then show ?thesis using b(3-5) by force
  qed
qed

lemma search_newest:
  assumes v: "version_ok c contents v" "list_all live (version_files v)" and u: "valid u" "s \<le> kMaxSequenceNumber"
  shows "newest_visible c u s (concat (map (\<lambda>x. contents (fm_number (snd x))) (search_files c v u (NewInternalKey u s kValueTypeForSeek)))) =
    newest_visible c u s (version_adds contents v)" (is "newest_visible c u s ?S = _")
proof -
  have sub: "set ?S \<subseteq> set (version_adds contents v)" using search_files_in(3) by (force simp: version_adds_def)
  have dom: "\<exists>b \<in> set ?S. visible c u s b \<and> fst a \<le> fst b" if "a \<in> set (version_adds contents v)" "visible c u s a" for a
    using search_dominates [OF v u that] by auto
  show ?thesis
  proof (cases "newest_visible c u s (version_adds contents v)")
    case None
    then have "newest_visible c u s ?S = None" using sub unfolding newest_visible_None by blast
    then show ?thesis using None by simp
  next
    case (Some a)
    note a = newest_visible_Some [OF Some]
    obtain b where b: "b \<in> set ?S" "visible c u s b" "fst a \<le> fst b" using dom a by blast
    have "newest_visible c u s ?S \<noteq> None" unfolding newest_visible_None using b by blast
    then obtain a' where a': "newest_visible c u s ?S = Some a'" by blast
    note n = newest_visible_Some [OF a']
    have in_v: "a' \<in> set (version_adds contents v)" using n sub by blast
    have "fst a' = fst a"
    proof (rule order_antisym)
      show "fst a' \<le> fst a" using a n in_v by blast
      show "fst a \<le> fst a'" using order_trans [OF b(3)] n b(1,2) by blast
    qed
    moreover have "distinct (map fst (version_adds contents v))" using v(1) by (simp add: version_ok_def)
    ultimately have "a' = a" using a in_v by (metis eq_key_imp_eq_value prod.collapse)
    then show ?thesis using a' Some by simp
  qed
qed

lemma Version_Get_run:
  assumes v: "version_ok c contents v" "list_all live (version_files v)" and u: "valid u" "s \<le> kMaxSequenceNumber" and x: "cache_ok x"
  shows "\<exists>st value stats x'. Version_Get c table_get (NewLookupKey u s) val v x = Some (st, value, stats, x') \<and> cache_ok x' \<and>
    (st, value) = get_result val (newest_visible c u s (version_adds contents v))"
proof -
  let ?ik = "NewInternalKey u s kValueTypeForSeek" and ?st = "\<lparr>ge_saver = \<lparr>sv_state = sv_kNotFound, sv_user_key = u, sv_value = val\<rparr>,
    ge_stats = \<lparr>gs_seek_file = None, gs_seek_file_level = - 1\<rparr>, ge_last_file_read = None, ge_last_file_read_level = - 1, ge_s = OK, ge_found = False, ge_cache = x\<rparr>"
  have "\<forall>y \<in> set (search_files c v u ?ik). live (snd y)" using search_files_in(3) v(2) by (metis list_all_iff)
  from Get_visit [OF this search_sorted [OF v(1)] u, of val ?st] obtain st' go where
    "visit_files (\<lambda>(l, f). Get_Match c table_get ?ik l f) (search_files c v u ?ik) ?st = Some (st', go)"
    "answered cache_ok val (newest_visible c u s (version_adds contents v)) st'"
    using x unfolding search_newest [OF v u] by (auto simp: answered_def)
  moreover have "lookup_user_key (NewLookupKey u s) = u" "lookup_internal_key (NewLookupKey u s) = ?ik"
    by (simp add: lookup_user_key_def NewLookupKey_def) (rule lookup_internal_key_eq)
  ultimately have "Version_Get c table_get (NewLookupKey u s) val v x =
      Some (if ge_found st' then ge_s st' else NotFound [] [], sv_value (ge_saver st'), ge_stats st', ge_cache st')"
    by (simp add: Version_Get_def Let_def ForEachOverlapping_files)
  with \<open>answered _ _ _ st'\<close> show ?thesis by (auto simp: answered_def get_result_def split: option.splits if_splits)
qed

end

end
