(* ===== verification/TableImage.thy ===== *)
theory TableImage
  imports TableBuilder
begin

text \<open>
  The image of a table file as a function of the pairs, and the proof that \<open>TableBuilder\<close> writes it on a file that does not fail.
\<close>

subsection \<open>The image\<close>

text \<open>The pairs of the blocks: a block ends when its size estimate reaches the block size.\<close>

definition block_of :: "Options \<Rightarrow> (bytes \<times> bytes) list \<Rightarrow> BlockBuilder" where
  "block_of o' kvs = fold (\<lambda>(k, v). BlockBuilder_Add k v) kvs (BlockBuilder_new (opt_block_restart_interval o'))"

fun cut_blocks :: "Options \<Rightarrow> (bytes \<times> bytes) list \<Rightarrow> (bytes \<times> bytes) list \<Rightarrow> (bytes \<times> bytes) list list" where
  "cut_blocks o' cur [] = (if cur = [] then [] else [cur])"
| "cut_blocks o' cur (kv # kvs) =
     (if CurrentSizeEstimate (block_of o' (cur @ [kv])) \<ge> opt_block_size o' then (cur @ [kv]) # cut_blocks o' [] kvs
      else cut_blocks o' (cur @ [kv]) kvs)"

definition stored_record :: "compression_port \<Rightarrow> Options \<Rightarrow> bytes \<Rightarrow> bytes" where
  "stored_record port o' raw = (case compress_block port o' raw of (d, t) \<Rightarrow> block_record d t)"

definition stored_size :: "compression_port \<Rightarrow> Options \<Rightarrow> bytes \<Rightarrow> nat" where
  "stored_size port o' raw = length (fst (compress_block port o' raw))"

definition data_raw :: "Options \<Rightarrow> (bytes \<times> bytes) list \<Rightarrow> bytes" where
  "data_raw o' = build_block (opt_block_restart_interval o')"

definition data_image :: "compression_port \<Rightarrow> Options \<Rightarrow> (bytes \<times> bytes) list list \<Rightarrow> bytes" where
  "data_image port o' bs = concat (map (stored_record port o' \<circ> data_raw o') bs)"

definition data_start :: "compression_port \<Rightarrow> Options \<Rightarrow> (bytes \<times> bytes) list list \<Rightarrow> nat \<Rightarrow> nat" where
  "data_start port o' bs j = length (data_image port o' (take j bs))"

definition data_handle :: "compression_port \<Rightarrow> Options \<Rightarrow> (bytes \<times> bytes) list list \<Rightarrow> nat \<Rightarrow> BlockHandle" where
  "data_handle port o' bs j = \<lparr>bh_offset = of_nat (data_start port o' bs j), bh_size = of_nat (stored_size port o' (data_raw o' (bs ! j)))\<rparr>"

definition separator_key :: "Options \<Rightarrow> (bytes \<times> bytes) list list \<Rightarrow> nat \<Rightarrow> bytes" where
  "separator_key o' bs j =
     (if Suc j < length bs then FindShortestSeparator (opt_comparator o') (fst (last (bs ! j))) (fst (hd (bs ! Suc j)))
      else FindShortSuccessor (opt_comparator o') (fst (last (bs ! j))))"

definition index_entries :: "compression_port \<Rightarrow> Options \<Rightarrow> (bytes \<times> bytes) list list \<Rightarrow> nat \<Rightarrow> (bytes \<times> bytes) list" where
  "index_entries port o' bs n = map (\<lambda>j. (separator_key o' bs j, handle_image (data_handle port o' bs j))) [0..<n]"

definition filter_calls :: "compression_port \<Rightarrow> Options \<Rightarrow> (bytes \<times> bytes) list list \<Rightarrow> nat \<Rightarrow> (nat \<times> bytes list) list" where
  "filter_calls port o' bs n = map (\<lambda>j. (data_start port o' bs j, map fst (bs ! j))) [0..<n]"

definition filter_builder :: "compression_port \<Rightarrow> Options \<Rightarrow> FilterPolicy \<Rightarrow> (bytes \<times> bytes) list list \<Rightarrow> FilterBlockBuilder option" where
  "filter_builder port o' policy bs =
     add_blocks policy (filter_calls port o' bs (length bs) @ [(data_start port o' bs (length bs), [])]) FilterBlockBuilder_new"

definition filter_contents :: "compression_port \<Rightarrow> Options \<Rightarrow> FilterPolicy \<Rightarrow> (bytes \<times> bytes) list list \<Rightarrow> bytes" where
  "filter_contents port o' policy bs = fst (FilterBlockBuilder_Finish policy (the (filter_builder port o' policy bs)))"

text \<open>The parts behind the blocks: their offsets follow from the lengths of what is before them.\<close>

definition filter_record :: "compression_port \<Rightarrow> Options \<Rightarrow> (bytes \<times> bytes) list list \<Rightarrow> bytes" where
  "filter_record port o' bs =
     (case opt_filter_policy o' of None \<Rightarrow> [] | Some policy \<Rightarrow> block_record (filter_contents port o' policy bs) kNoCompression)"

definition filter_handle :: "compression_port \<Rightarrow> Options \<Rightarrow> FilterPolicy \<Rightarrow> (bytes \<times> bytes) list list \<Rightarrow> BlockHandle" where
  "filter_handle port o' policy bs =
     \<lparr>bh_offset = of_nat (length (data_image port o' bs)), bh_size = of_nat (length (filter_contents port o' policy bs))\<rparr>"

definition metaindex_raw :: "compression_port \<Rightarrow> Options \<Rightarrow> (bytes \<times> bytes) list list \<Rightarrow> bytes" where
  "metaindex_raw port o' bs =
     build_block (opt_block_restart_interval o')
       (case opt_filter_policy o' of
          None \<Rightarrow> []
        | Some policy \<Rightarrow> [(str ''filter.'' @ fp_Name policy, handle_image (filter_handle port o' policy bs))])"

definition metaindex_start :: "compression_port \<Rightarrow> Options \<Rightarrow> (bytes \<times> bytes) list list \<Rightarrow> nat" where
  "metaindex_start port o' bs = length (data_image port o' bs) + length (filter_record port o' bs)"

definition metaindex_handle :: "compression_port \<Rightarrow> Options \<Rightarrow> (bytes \<times> bytes) list list \<Rightarrow> BlockHandle" where
  "metaindex_handle port o' bs =
     \<lparr>bh_offset = of_nat (metaindex_start port o' bs), bh_size = of_nat (stored_size port o' (metaindex_raw port o' bs))\<rparr>"

definition index_raw :: "compression_port \<Rightarrow> Options \<Rightarrow> (bytes \<times> bytes) list list \<Rightarrow> bytes" where
  "index_raw port o' bs = build_block 1 (index_entries port o' bs (length bs))"

definition index_start :: "compression_port \<Rightarrow> Options \<Rightarrow> (bytes \<times> bytes) list list \<Rightarrow> nat" where
  "index_start port o' bs = metaindex_start port o' bs + length (stored_record port o' (metaindex_raw port o' bs))"

definition index_handle :: "compression_port \<Rightarrow> Options \<Rightarrow> (bytes \<times> bytes) list list \<Rightarrow> BlockHandle" where
  "index_handle port o' bs =
     \<lparr>bh_offset = of_nat (index_start port o' bs), bh_size = of_nat (stored_size port o' (index_raw port o' bs))\<rparr>"

definition blocks_image :: "compression_port \<Rightarrow> Options \<Rightarrow> (bytes \<times> bytes) list list \<Rightarrow> bytes" where
  "blocks_image port o' bs =
     data_image port o' bs @ filter_record port o' bs @ stored_record port o' (metaindex_raw port o' bs) @ stored_record port o' (index_raw port o' bs)"

definition table_image :: "compression_port \<Rightarrow> Options \<Rightarrow> (bytes \<times> bytes) list \<Rightarrow> bytes" where
  "table_image port o' kvs =
     (let bs = cut_blocks o' [] kvs
      in blocks_image port o' bs @
         the (Footer_EncodeTo \<lparr>ft_metaindex_handle = metaindex_handle port o' bs, ft_index_handle = index_handle port o' bs\<rparr> []))"


subsection \<open>Lemmas on the image\<close>

lemma bb_interval_Add [simp]: "bb_interval (BlockBuilder_Add k v b) = bb_interval b"
  by (simp add: BlockBuilder_Add_def Let_def split: prod.splits)

lemma bb_interval_block_of [simp]: "bb_interval (block_of o' kvs) = opt_block_restart_interval o'"
proof -
  have "bb_interval (fold (\<lambda>(k, v). BlockBuilder_Add k v) kvs b) = bb_interval b" for b
    by (induction kvs arbitrary: b) auto
  then show ?thesis by (simp add: block_of_def BlockBuilder_new_def)
qed

lemma block_of_snoc: "block_of o' (kvs @ [(k, v)]) = BlockBuilder_Add k v (block_of o' kvs)"
  by (simp add: block_of_def)

lemma block_of_Nil: "block_of o' [] = BlockBuilder_new (opt_block_restart_interval o')"
  by (simp add: block_of_def)

lemma block_of_empty [simp]: "BlockBuilder_empty (block_of o' kvs) \<longleftrightarrow> kvs = []"
proof (cases kvs rule: rev_cases)
  case Nil
  then show ?thesis by (simp add: block_of_def BlockBuilder_empty_def BlockBuilder_new_def)
next
  case (snoc ys y)
  then show ?thesis
    by (cases y) (simp add: block_of_snoc BlockBuilder_empty_def BlockBuilder_Add_def Let_def PutVarint32_def EncodeVarint32_nonempty split: prod.splits)
qed

lemma Finish_block_of: "BlockBuilder_Finish (block_of o' kvs) = (data_raw o' kvs, snd (BlockBuilder_Finish (block_of o' kvs)))"
  by (simp add: prod_eq_iff data_raw_def build_block_def block_of_def)

lemma Reset_Finish: "BlockBuilder_Reset (snd (BlockBuilder_Finish b)) = BlockBuilder_new (bb_interval b)"
  by (simp add: BlockBuilder_Finish_def BlockBuilder_Reset_def BlockBuilder_new_def Let_def)

lemma data_image_append: "data_image port o' (bs @ bs') = data_image port o' bs @ data_image port o' bs'"
  by (simp add: data_image_def)

lemma data_start_mono: "data_start port o' bs j \<le> length (data_image port o' bs)"
  by (metis append_take_drop_id data_image_append data_start_def le_add1 length_append)

lemma data_start_append [simp]: "j \<le> length bs \<Longrightarrow> data_start port o' (bs @ bs') j = data_start port o' bs j"
  by (simp add: data_start_def)

lemma data_start_all [simp]: "data_start port o' bs (length bs) = length (data_image port o' bs)"
  by (simp add: data_start_def)

lemma data_handle_append [simp]: "j < length bs \<Longrightarrow> data_handle port o' (bs @ bs') j = data_handle port o' bs j"
  by (simp add: data_handle_def nth_append)

lemma stored_record_length: "length (stored_record port o' raw) = stored_size port o' raw + kBlockTrailerSize"
  by (simp add: stored_record_def stored_size_def block_record_length split: prod.splits)

lemma data_start_Suc:
  "j < length bs \<Longrightarrow> data_start port o' bs (Suc j) = data_start port o' bs j + stored_size port o' (data_raw o' (bs ! j)) + kBlockTrailerSize"
  by (simp add: data_start_def take_Suc_conv_app_nth data_image_append) (simp add: data_image_def stored_record_length)

lemma of_nat_set: "n < 2 ^ 64 - 1 \<Longrightarrow> (of_nat n :: u64) \<noteq> - 1"
proof
  assume "n < 2 ^ 64 - 1" and "(of_nat n :: u64) = - 1"
  then have "unat (of_nat n :: u64) = unat (- 1 :: u64)" by simp
  with \<open>n < 2 ^ 64 - 1\<close> show False by (simp add: word_of_nat_unat_less unsigned_minus_1_eq_mask mask_eq_exp_minus_1)
qed

lemma data_handle_set:
  assumes "length (data_image port o' bs) < 2 ^ 64 - 1" and "j < length bs"
  shows "handle_set (data_handle port o' bs j)"
proof -
  have "data_start port o' bs j + stored_size port o' (data_raw o' (bs ! j)) + kBlockTrailerSize \<le> length (data_image port o' bs)"
    using data_start_mono [of port o' bs "Suc j"] data_start_Suc [OF assms(2)] by simp
  then show ?thesis using assms(1) unfolding handle_set_def data_handle_def
    by (auto intro!: of_nat_set simp del: of_nat_eq_iff)
qed

lemma index_entries_cong:
  assumes "\<And>j. j < n \<Longrightarrow> Suc j < length bs \<and> Suc j < length bs' \<and> take (Suc j) bs = take (Suc j) bs' \<and> hd (bs ! Suc j) = hd (bs' ! Suc j)"
  shows "index_entries port o' bs n = index_entries port o' bs' n"
proof -
  have "separator_key o' bs j = separator_key o' bs' j \<and> data_handle port o' bs j = data_handle port o' bs' j" if "j < n" for j
  proof -
    note a = assms [OF that]
    then have "bs ! j = bs' ! j" "take j bs = take j bs'"
      by (metis lessI nth_take, metis le_add2 min.absorb1 plus_1_eq_Suc take_take)
    then show ?thesis using a by (simp add: separator_key_def data_handle_def data_start_def)
  qed
  then show ?thesis by (simp add: index_entries_def)
qed

lemma filter_calls_append: "n \<le> length bs \<Longrightarrow> filter_calls port o' (bs @ bs') n = filter_calls port o' bs n"
  by (simp add: filter_calls_def nth_append)

lemma add_blocks_append:
  "add_blocks policy (xs @ ys) b = Option.bind (add_blocks policy xs b) (add_blocks policy ys)"
  by (induction policy xs b rule: add_blocks.induct) (auto split: option.split bind_split)

lemma cut_blocks_concat: "concat (cut_blocks o' cur kvs) = cur @ kvs"
  by (induction o' cur kvs rule: cut_blocks.induct) auto

lemma cut_blocks_nonempty: "[] \<notin> set (cut_blocks o' cur kvs)"
  by (induction o' cur kvs rule: cut_blocks.induct) auto

subsection \<open>The builder writes the image\<close>

text \<open>The builder has written \<open>bs\<close>, and \<open>cur\<close> is in the data block.\<close>

definition with_cur :: "(bytes \<times> bytes) list list \<Rightarrow> (bytes \<times> bytes) list \<Rightarrow> (bytes \<times> bytes) list list" where
  "with_cur bs cur = bs @ (if cur = [] then [] else [cur])"

definition filter_state ::
  "compression_port \<Rightarrow> Options \<Rightarrow> (bytes \<times> bytes) list list \<Rightarrow> bytes list \<Rightarrow> (FilterPolicy \<times> FilterBlockBuilder) option \<Rightarrow> bool" where
  "filter_state port o' bs keys f \<longleftrightarrow>
     (case opt_filter_policy o' of
        None \<Rightarrow> f = None
      | Some policy \<Rightarrow> \<exists>fb. f = Some (policy, fb) \<and>
          add_blocks policy (filter_calls port o' bs (length bs) @ [(length (data_image port o' bs), keys)]) FilterBlockBuilder_new = Some fb)"

definition builder_inv ::
  "compression_port \<Rightarrow> Options \<Rightarrow> (bytes \<times> bytes) list list \<Rightarrow> (bytes \<times> bytes) list \<Rightarrow> 'e TableBuilder \<Rightarrow> bool" where
  "builder_inv port o' bs cur r \<longleftrightarrow>
     tb_options r = o' \<and> tb_offset r = length (data_image port o' bs) \<and> tb_status r = OK \<and> tb_data_block r = block_of o' cur \<and>
     tb_index_block r = fold (\<lambda>(k, v). BlockBuilder_Add k v) (index_entries port o' (with_cur bs cur) (length (with_cur bs cur) - 1)) (BlockBuilder_new 1) \<and>
     \<not> tb_closed r \<and> tb_num_entries r = length (concat bs @ cur) \<and> (concat bs @ cur \<noteq> [] \<longrightarrow> tb_last_key r = fst (last (concat bs @ cur))) \<and>
     tb_pending_index_entry r = (cur = [] \<and> bs \<noteq> []) \<and> (cur = [] \<and> bs \<noteq> [] \<longrightarrow> tb_pending_handle r = data_handle port o' bs (length bs - 1)) \<and>
     filter_state port o' bs (map fst cur) (tb_filter_block r) \<and> [] \<notin> set bs"

text \<open>Every filter policy in the options has no false negatives.\<close>

definition policy_ok :: "Options \<Rightarrow> bool" where
  "policy_ok o' \<longleftrightarrow> (\<forall>policy. opt_filter_policy o' = Some policy \<longrightarrow> filter_policy (fp_CreateFilter policy) (fp_KeyMayMatch policy))"

lemma filter_state_AddKey:
  "filter_state port o' bs keys f \<Longrightarrow> filter_state port o' bs (keys @ [key]) (map_option (\<lambda>(policy, fb). (policy, AddKey key fb)) f)"
  by (auto simp: filter_state_def add_blocks_append bind_eq_Some_conv split: option.splits)

lemma data_starts_sorted: "sorted (map fst (filter_calls port o' bs (length bs) @ [(length (data_image port o' bs), keys)]))"
proof -
  have "data_start port o' bs i \<le> data_start port o' bs j" if "i \<le> j" for i j
  proof -
    have "data_start port o' bs i = data_start port o' (take j bs) i" using that by (simp add: data_start_def)
    then show ?thesis using data_start_mono [of port o' "take j bs" i] by (simp add: data_start_def)
  qed
  then have "sorted (map fst (filter_calls port o' bs (length bs)))"
    by (simp add: filter_calls_def comp_def sorted_iff_nth_mono)
  moreover have "\<forall>x \<in> set (map fst (filter_calls port o' bs (length bs))). x \<le> length (data_image port o' bs)"
    by (auto simp: filter_calls_def data_start_mono)
  ultimately show ?thesis by (simp add: sorted_append)
qed

lemma filter_calls_run:
  assumes "policy_ok o'" and "opt_filter_policy o' = Some policy"
  shows "\<exists>fb. add_blocks policy (filter_calls port o' bs (length bs) @ [(length (data_image port o' bs), keys)]) FilterBlockBuilder_new = Some fb"
proof -
  have fb: "filter_block policy" using assms by (simp add: filter_block_def policy_ok_def)
  show ?thesis
    using filter_block.add_blocks_run [OF fb filter_block.fbb_ok_new [OF fb] data_starts_sorted] by force
qed

lemma filter_state_StartBlock:
  assumes "policy_ok o'" and "filter_state port o' bs (map fst cur) (tb_filter_block r)"
  shows "\<exists>f. TableBuilder_StartBlock (length (data_image port o' (bs @ [cur]))) r = Some (r\<lparr>tb_filter_block := f\<rparr>) \<and>
    filter_state port o' (bs @ [cur]) [] f"
proof (cases "opt_filter_policy o'")
  case None
  then show ?thesis using assms(2)
    by (intro exI [of _ "tb_filter_block r"]) (simp add: filter_state_def TableBuilder_StartBlock_def)
next
  case (Some policy)
  then obtain fb where fb: "tb_filter_block r = Some (policy, fb)"
    "add_blocks policy (filter_calls port o' bs (length bs) @ [(length (data_image port o' bs), map fst cur)]) FilterBlockBuilder_new = Some fb"
    using assms(2) by (auto simp: filter_state_def)
  have calls: "filter_calls port o' (bs @ [cur]) (length (bs @ [cur])) = filter_calls port o' bs (length bs) @ [(length (data_image port o' bs), map fst cur)]"
    by (simp add: filter_calls_def nth_append data_start_def)
  obtain fb' where run: "add_blocks policy (filter_calls port o' (bs @ [cur]) (length (bs @ [cur])) @ [(length (data_image port o' (bs @ [cur])), [])])
      FilterBlockBuilder_new = Some fb'"
    using filter_calls_run [OF assms(1) Some, of port "bs @ [cur]" "[]"] by blast
  then have st: "StartBlock policy (length (data_image port o' (bs @ [cur]))) fb = Some fb'"
    unfolding calls by (simp only: add_blocks_append [of _ "_ @ _" "[_]"] fb(2)) (auto simp: bind_eq_Some_conv)
  show ?thesis
    using st run fb(1) Some by (intro exI [of _ "Some (policy, fb')"]) (simp add: filter_state_def TableBuilder_StartBlock_def)
qed

lemma filter_state_new:
  assumes "policy_ok o'" and "tb_filter_block r = map_option (\<lambda>policy. (policy, FilterBlockBuilder_new)) (opt_filter_policy o')"
  shows "\<exists>f. TableBuilder_StartBlock 0 r = Some (r\<lparr>tb_filter_block := f\<rparr>) \<and> filter_state port o' [] [] f"
proof (cases "opt_filter_policy o'")
  case None
  then show ?thesis using assms(2)
    by (intro exI [of _ None]) (simp add: filter_state_def TableBuilder_StartBlock_def)
next
  case (Some policy)
  obtain fb where "add_blocks policy [(0, [])] FilterBlockBuilder_new = Some fb"
    using filter_calls_run [OF assms(1) Some, of port "[]" "[]"] by (auto simp: filter_calls_def data_image_def)
  then show ?thesis using Some assms(2)
    by (intro exI [of _ "Some (policy, fb)"])
      (auto simp: filter_state_def TableBuilder_StartBlock_def filter_calls_def data_image_def bind_eq_Some_conv)
qed

lemma with_cur_simps [simp]: "with_cur bs [] = bs" "cur \<noteq> [] \<Longrightarrow> with_cur bs cur = bs @ [cur]"
  by (simp_all add: with_cur_def)

lemma block_trailer_record: "d @ block_trailer d t = block_record d t"
  by (simp add: block_trailer_def block_record_def Let_def)

lemma length_block_trailer: "length (block_trailer d t) = kBlockTrailerSize"
  by (simp add: block_trailer_def Let_def kBlockTrailerSize_def)

lemma last_concat_block: "\<lbrakk>bs \<noteq> []; [] \<notin> set bs\<rbrakk> \<Longrightarrow> last (concat bs) = last (bs ! (length bs - 1))"
  by (cases bs rule: rev_cases) (auto simp: nth_append)

lemma index_entries_next:
  assumes "bs \<noteq> []"
  shows "index_entries port o' (bs @ [[kv]]) (length bs) = index_entries port o' bs (length bs - 1) @
    [(FindShortestSeparator (opt_comparator o') (fst (last (bs ! (length bs - 1)))) (fst kv), handle_image (data_handle port o' bs (length bs - 1)))]"
proof -
  obtain n where n: "length bs = Suc n" using assms by (cases bs) auto
  have "index_entries port o' (bs @ [[kv]]) n = index_entries port o' bs n"
    by (rule index_entries_cong) (auto simp: n nth_append)
  moreover have "index_entries port o' (bs @ [[kv]]) (Suc n) = index_entries port o' (bs @ [[kv]]) n @
      [(separator_key o' (bs @ [[kv]]) n, handle_image (data_handle port o' (bs @ [[kv]]) n))]" by (simp add: index_entries_def)
  moreover have "separator_key o' (bs @ [[kv]]) n = FindShortestSeparator (opt_comparator o') (fst (last (bs ! n))) (fst kv)"
    using n by (simp add: separator_key_def nth_append)
  ultimately show ?thesis by (simp add: n)
qed

lemma index_entries_grow:
  assumes "cur \<noteq> []"
  shows "index_entries port o' (bs @ [cur @ [kv]]) (length bs) = index_entries port o' (bs @ [cur]) (length bs)"
  using assms by (intro index_entries_cong) (auto simp: nth_append)

text \<open>Everything \<open>Add\<close> does before it may flush.\<close>

lemma Add_core:
  assumes inv: "builder_inv port o' bs cur r" and small: "length (data_image port o' bs) < 2 ^ 64 - 1"
    and ord: "concat bs @ cur \<noteq> [] \<Longrightarrow> Compare (opt_comparator o') k (fst (last (concat bs @ cur))) > 0"
  shows "\<exists>r'. TableBuilder_Add port k v r e =
      (if CurrentSizeEstimate (block_of o' (cur @ [(k, v)])) \<ge> opt_block_size o' then TableBuilder_Flush port r' e else Some (r', e)) \<and>
    builder_inv port o' bs (cur @ [(k, v)]) r' \<and> tb_file r' = tb_file r"
proof -
  note i = inv [unfolded builder_inv_def]
  have fs: "filter_state port o' bs (map fst (cur @ [(k, v)])) (map_option (\<lambda>(policy, fb). (policy, AddKey k fb)) (tb_filter_block r))"
    using filter_state_AddKey i by simp
  have guard: "\<not> (tb_num_entries r > 0 \<and> \<not> Compare (opt_comparator (tb_options r)) k (tb_last_key r) > 0)"
    using i ord by (metis length_greater_0_conv)
  define fin where "fin = (\<lambda>r1 :: 'a TableBuilder. r1\<lparr>tb_filter_block := map_option (\<lambda>(policy, fb). (policy, AddKey k fb)) (tb_filter_block r1),
      tb_last_key := k, tb_num_entries := tb_num_entries r1 + 1, tb_data_block := BlockBuilder_Add k v (tb_data_block r1)\<rparr>)"
  have run: "TableBuilder_Add port k v r e =
      (if CurrentSizeEstimate (block_of o' (cur @ [(k, v)])) \<ge> opt_block_size o' then TableBuilder_Flush port (fin r1) e else Some (fin r1, e))"
    if "(if tb_pending_index_entry r then
             (if \<not> BlockBuilder_empty (tb_data_block r) then None
              else add_index_entry (FindShortestSeparator (opt_comparator (tb_options r)) (tb_last_key r) k) r)
           else Some r) = Some r1" and "tb_options r1 = o'" and "tb_data_block r1 = block_of o' cur" for r1
  proof -
    have c: "tb_closed r = False" "ok (tb_status r) = True" using i by simp_all
    show ?thesis
      using that(2,3) by (simp only: TableBuilder_Add_def c guard that(1) if_False not_True_eq_False bind.bind_lunit) (simp add: Let_def fin_def block_of_snoc)
  qed
  show ?thesis
  proof (cases "cur = [] \<and> bs \<noteq> []")
    case True
    then have "concat bs \<noteq> []" using i by (cases bs) auto
    then have "tb_last_key r = fst (last (concat bs))" using i True by simp
    with True have p: "tb_pending_index_entry r" "tb_pending_handle r = data_handle port o' bs (length bs - 1)" "tb_data_block r = block_of o' []"
      "tb_last_key r = fst (last (bs ! (length bs - 1)))" "[] \<notin> set bs"
      using i last_concat_block [of bs] by simp_all
    have hs: "handle_set (data_handle port o' bs (length bs - 1))" using data_handle_set [OF small] True by simp
    let ?k = "FindShortestSeparator (opt_comparator o') (fst (last (bs ! (length bs - 1)))) k"
    let ?r1 = "r\<lparr>tb_last_key := ?k, tb_index_block := BlockBuilder_Add ?k (handle_image (data_handle port o' bs (length bs - 1))) (tb_index_block r),
      tb_pending_index_entry := False\<rparr>"
    have "builder_inv port o' bs (cur @ [(k, v)]) (fin ?r1)"
      using i True fs p by (simp add: builder_inv_def fin_def block_of_snoc [of o' "[]", simplified] index_entries_next)
    then show ?thesis
      using run [of ?r1] i True p hs
      by (intro exI [of _ "fin ?r1"]) (simp add: add_index_entry_def BlockHandle_EncodeTo_image fin_def)
  next
    case False
    have "index_entries port o' (with_cur bs (cur @ [(k, v)])) (length bs) = index_entries port o' (with_cur bs cur) (length (with_cur bs cur) - 1)"
      using False index_entries_grow [of cur port o' bs "(k, v)"] by (cases "cur = []") (auto simp: index_entries_def)
    then have "builder_inv port o' bs (cur @ [(k, v)]) (fin r)"
      using i False fs by (simp add: builder_inv_def fin_def block_of_snoc)
    then show ?thesis using run [of r] i False by (intro exI [of _ "fin r"]) (auto simp: fin_def)
  qed
qed

lemma index_entries_last:
  assumes "bs \<noteq> []"
  shows "index_entries port o' bs (length bs) = index_entries port o' bs (length bs - 1) @
    [(FindShortSuccessor (opt_comparator o') (fst (last (bs ! (length bs - 1)))), handle_image (data_handle port o' bs (length bs - 1)))]"
proof -
  obtain n where "length bs = Suc n" using assms by (cases bs) auto
  then show ?thesis by (simp add: index_entries_def separator_key_def)
qed

lemma Finish_build: "BlockBuilder_Finish (fold (\<lambda>(k, v). BlockBuilder_Add k v) kvs (BlockBuilder_new n)) =
    (build_block n kvs, snd (BlockBuilder_Finish (fold (\<lambda>(k, v). BlockBuilder_Add k v) kvs (BlockBuilder_new n))))"
  by (simp add: prod_eq_iff build_block_def)

lemma image_handles_set:
  assumes "length (blocks_image port o' bs) < 2 ^ 64 - 1"
  shows "opt_filter_policy o' = Some policy \<Longrightarrow> handle_set (filter_handle port o' policy bs)"
    and "handle_set (metaindex_handle port o' bs)" and "handle_set (index_handle port o' bs)"
    and "length (data_image port o' bs) < 2 ^ 64 - 1"
proof -
  have len: "length (blocks_image port o' bs) = index_start port o' bs + stored_size port o' (index_raw port o' bs) + kBlockTrailerSize"
    "index_start port o' bs = metaindex_start port o' bs + stored_size port o' (metaindex_raw port o' bs) + kBlockTrailerSize"
    "metaindex_start port o' bs = length (data_image port o' bs) + length (filter_record port o' bs)"
    by (simp_all add: blocks_image_def index_start_def metaindex_start_def stored_record_length)
  have h: "handle_set \<lparr>bh_offset = of_nat a, bh_size = of_nat b\<rparr>" if "a + b \<le> length (blocks_image port o' bs)" for a b
    using assms that of_nat_set [of a] of_nat_set [of b] by (simp add: handle_set_def)
  show "handle_set (filter_handle port o' policy bs)" if "opt_filter_policy o' = Some policy"
    unfolding filter_handle_def by (rule h) (use len that in \<open>simp add: filter_record_def block_record_length\<close>)
  show "handle_set (metaindex_handle port o' bs)" unfolding metaindex_handle_def by (rule h) (use len in simp)
  show "handle_set (index_handle port o' bs)" unfolding index_handle_def by (rule h) (use len in simp)
  show "length (data_image port o' bs) < 2 ^ 64 - 1" using assms len by linarith
qed

definition footer_image :: "compression_port \<Rightarrow> Options \<Rightarrow> (bytes \<times> bytes) list list \<Rightarrow> bytes" where
  "footer_image port o' bs = the (Footer_EncodeTo \<lparr>ft_metaindex_handle = metaindex_handle port o' bs, ft_index_handle = index_handle port o' bs\<rparr> [])"

lemma footer_image_run:
  assumes "length (blocks_image port o' bs) < 2 ^ 64 - 1"
  shows "Footer_EncodeTo \<lparr>ft_metaindex_handle = metaindex_handle port o' bs, ft_index_handle = index_handle port o' bs\<rparr> [] = Some (footer_image port o' bs)"
    and "length (footer_image port o' bs) = ft_kEncodedLength"
    and "Footer_DecodeFrom (footer_image port o' bs) ft0 =
      (OK, \<lparr>ft_metaindex_handle = metaindex_handle port o' bs, ft_index_handle = index_handle port o' bs\<rparr>, [])"
  using footer_encoded [of "\<lparr>ft_metaindex_handle = metaindex_handle port o' bs, ft_index_handle = index_handle port o' bs\<rparr>"] image_handles_set [OF assms]
  by (auto simp: footer_image_def ft_kEncodedLength_def bh_kMaxEncodedLength_def dest: spec [of _ "[]"])

lemma table_image_parts: "table_image port o' kvs = blocks_image port o' (cut_blocks o' [] kvs) @ footer_image port o' (cut_blocks o' [] kvs)"
  by (simp add: table_image_def footer_image_def Let_def)

context reliable_writable
begin

lemma WriteRawBlock_run:
  assumes "good e" and "tb_file r = wf"
  shows "\<exists>e'. WriteRawBlock d t r e = (\<lparr>bh_offset = of_nat (tb_offset r), bh_size = of_nat (length d)\<rparr>,
      r\<lparr>tb_status := OK, tb_offset := tb_offset r + length (block_record d t)\<rparr>, e') \<and>
    good e' \<and> contents e' = contents e @ block_record d t"
proof -
  obtain e1 where e1: "file_Append wf d e = (OK, e1)" "good e1" "contents e1 = contents e @ d" using append_contents [OF assms(1)] by blast
  obtain e2 where e2: "file_Append wf (block_trailer d t) e1 = (OK, e2)" "good e2" "contents e2 = contents e1 @ block_trailer d t"
    using append_contents [OF e1(2)] by blast
  have "contents e2 = contents e @ block_record d t" using e1(3) e2(3) block_trailer_record [of d t] by simp
  with e1(1,2) e2(1,2) assms(2) show ?thesis by (simp add: WriteRawBlock_def Let_def block_record_length add.assoc)
qed

lemma WriteBlock_run:
  assumes "good e" and "tb_file r = wf" and "tb_status r = OK" and "BlockBuilder_Finish b = (raw, b')"
  shows "\<exists>e'. WriteBlock port b r e = Some (\<lparr>bh_offset = of_nat (tb_offset r), bh_size = of_nat (stored_size port (tb_options r) raw)\<rparr>,
      BlockBuilder_new (bb_interval b), r\<lparr>tb_offset := tb_offset r + length (stored_record port (tb_options r) raw)\<rparr>, e') \<and>
    good e' \<and> contents e' = contents e @ stored_record port (tb_options r) raw"
proof -
  obtain d t where dt: "compress_block port (tb_options r) raw = (d, t)" by fastforce
  have "BlockBuilder_Reset b' = BlockBuilder_new (bb_interval b)" using Reset_Finish [of b] assms(4) by simp
  moreover have "r\<lparr>tb_status := OK\<rparr> = r" using assms(3) by simp
  ultimately show ?thesis using WriteRawBlock_run [OF assms(1,2), of d t] assms(3,4) dt
    by (auto simp: WriteBlock_def stored_size_def stored_record_def Let_def)
qed

lemma Flush_run:
  assumes "builder_inv port o' bs cur r" and "good e" and "contents e = data_image port o' bs" and "tb_file r = wf" and "policy_ok o'"
  shows "\<exists>r' e'. TableBuilder_Flush port r e = Some (r', e') \<and> builder_inv port o' (with_cur bs cur) [] r' \<and> good e' \<and>
    contents e' = data_image port o' (with_cur bs cur) \<and> tb_file r' = wf"
proof (cases "cur = []")
  case True
  then show ?thesis using assms by (simp add: TableBuilder_Flush_def builder_inv_def)
next
  case False
  note inv = assms(1) [unfolded builder_inv_def]
  have opts: "tb_options r = o'" "tb_status r = OK" "tb_data_block r = block_of o' cur" using inv by simp_all
  let ?h = "\<lparr>bh_offset = of_nat (tb_offset r), bh_size = of_nat (stored_size port o' (data_raw o' cur))\<rparr>"
  let ?r1 = "r\<lparr>tb_offset := tb_offset r + length (stored_record port o' (data_raw o' cur))\<rparr>"
  obtain e1 where e1: "WriteBlock port (block_of o' cur) r e = Some (?h, block_of o' [], ?r1, e1)" "good e1"
    "contents e1 = contents e @ stored_record port o' (data_raw o' cur)"
    using WriteBlock_run [OF assms(2,4) opts(2) Finish_block_of [of o' cur]] opts(1) by (auto simp: block_of_Nil)
  obtain e2 where e2: "file_Flush wf e1 = (OK, e2)" "good e2" "contents e2 = contents e1" using flush_same [OF e1(2)] by blast
  let ?r2 = "?r1\<lparr>tb_data_block := block_of o' [], tb_pending_handle := ?h, tb_pending_index_entry := True, tb_status := OK\<rparr>"
  have im: "data_image port o' (bs @ [cur]) = data_image port o' bs @ stored_record port o' (data_raw o' cur)"
    by (simp add: data_image_append) (simp add: data_image_def)
  have off: "tb_offset ?r2 = length (data_image port o' (bs @ [cur]))" using inv im by simp
  obtain f where f: "TableBuilder_StartBlock (tb_offset ?r2) ?r2 = Some (?r2\<lparr>tb_filter_block := f\<rparr>)" "filter_state port o' (bs @ [cur]) [] f"
    using filter_state_StartBlock [OF assms(5), of port bs cur ?r2] inv unfolding off by auto
  have h: "?h = data_handle port o' (bs @ [cur]) (length bs)" using inv by (simp add: data_handle_def data_start_def)
  have run: "TableBuilder_Flush port r e = Some (?r2\<lparr>tb_filter_block := f\<rparr>, e2)"
    using inv False e1(1) e2(1) f(1) assms(4) by (simp add: TableBuilder_Flush_def opts Let_def)
  have "builder_inv port o' (bs @ [cur]) [] (?r2\<lparr>tb_filter_block := f\<rparr>)"
    using inv False f(2) h im off by (simp add: builder_inv_def)
  then show ?thesis using run False e1(3) e2(2,3) assms(3,4) im by simp
qed

lemma add_pairs_run:
  assumes "builder_inv port o' bs cur r" and "good e" and "contents e = data_image port o' bs" and "tb_file r = wf" and "policy_ok o'"
    and "length (data_image port o' (bs @ cut_blocks o' cur kvs)) < 2 ^ 64 - 1"
    and "sorted_wrt (\<lambda>a b. Compare (opt_comparator o') (fst b) (fst a) > 0) (concat bs @ cur @ kvs)"
  shows "\<exists>r' e' bs' cur'. add_pairs port kvs r e = Some (r', e') \<and> builder_inv port o' bs' cur' r' \<and> good e' \<and>
    contents e' = data_image port o' bs' \<and> tb_file r' = wf \<and> with_cur bs' cur' = bs @ cut_blocks o' cur kvs"
  using assms
proof (induction kvs arbitrary: bs cur r e)
  case Nil
  then show ?case by (intro exI [of _ r] exI [of _ e] exI [of _ bs] exI [of _ cur]) (simp add: with_cur_def)
next
  case (Cons kv kvs)
  obtain k v where kv: "kv = (k, v)" by fastforce
  have "Compare (opt_comparator o') k (fst (last (concat bs @ cur))) > 0" if "concat bs @ cur \<noteq> []"
    using Cons.prems(7) last_in_set [OF that] by (auto simp: sorted_wrt_append kv)
  moreover have "length (data_image port o' bs) < 2 ^ 64 - 1" using Cons.prems(6) by (simp add: data_image_append)
  ultimately obtain r1 where r1: "TableBuilder_Add port k v r e =
      (if CurrentSizeEstimate (block_of o' (cur @ [(k, v)])) \<ge> opt_block_size o' then TableBuilder_Flush port r1 e else Some (r1, e))"
    "builder_inv port o' bs (cur @ [(k, v)]) r1" "tb_file r1 = wf"
    using Add_core [OF Cons.prems(1), of k v e] Cons.prems(4) by auto
  show ?case
  proof (cases "CurrentSizeEstimate (block_of o' (cur @ [(k, v)])) \<ge> opt_block_size o'")
    case True
    obtain r2 e2 where r2: "TableBuilder_Flush port r1 e = Some (r2, e2)" "builder_inv port o' (bs @ [cur @ [(k, v)]]) [] r2" "good e2"
      "contents e2 = data_image port o' (bs @ [cur @ [(k, v)]])" "tb_file r2 = wf"
      using Flush_run [OF r1(2) Cons.prems(2,3) r1(3) Cons.prems(5)] by auto
    show ?thesis
      using Cons.IH [OF r2(2-5) Cons.prems(5)] Cons.prems(6,7) True r1(1) r2(1) kv by simp
  next
    case False
    then show ?thesis
      using Cons.IH [OF r1(2) Cons.prems(2,3) r1(3) Cons.prems(5)] Cons.prems(6,7) r1(1) kv by simp
  qed
qed

text \<open>The parts of \<open>Finish\<close>, each appending its record.\<close>

abbreviation "written o' x r e \<equiv> good e \<and> contents e = x \<and> tb_file r = wf \<and> tb_status r = OK \<and> tb_options r = o' \<and> tb_offset r = length x"

lemma write_filter_run:
  assumes "written o' (data_image port o' bs) r e" and "filter_state port o' bs [] (tb_filter_block r)"
  shows "\<exists>h f e'. write_filter r e = (h, r\<lparr>tb_filter_block := f, tb_offset := tb_offset r + length (filter_record port o' bs)\<rparr>, e') \<and> good e' \<and>
    contents e' = contents e @ filter_record port o' bs \<and> (f = None \<longleftrightarrow> opt_filter_policy o' = None) \<and>
    (\<forall>policy. opt_filter_policy o' = Some policy \<longrightarrow> h = filter_handle port o' policy bs)"
proof (cases "opt_filter_policy o'")
  case None
  then show ?thesis using assms
    by (intro exI [of _ BlockHandle_new] exI [of _ None] exI [of _ e]) (simp add: write_filter_def filter_state_def filter_record_def)
next
  case (Some policy)
  then obtain fb where fb: "tb_filter_block r = Some (policy, fb)" "filter_builder port o' policy bs = Some fb"
    using assms(2) by (auto simp: filter_state_def filter_builder_def)
  obtain fb' where fin: "FilterBlockBuilder_Finish policy fb = (filter_contents port o' policy bs, fb')"
    using fb(2) by (cases "FilterBlockBuilder_Finish policy fb") (simp add: filter_contents_def)
  have g: "good e" "tb_file (r\<lparr>tb_filter_block := Some (policy, fb')\<rparr>) = wf" using assms(1) by simp_all
  show ?thesis
    using WriteRawBlock_run [OF g, of "filter_contents port o' policy bs" kNoCompression] assms(1) Some fb(1) fin
    by (auto simp: write_filter_def filter_record_def filter_handle_def intro!: exI [of _ "Some (policy, fb')"])
qed

lemma write_metaindex_run:
  assumes "written o' (data_image port o' bs @ filter_record port o' bs) r e" and "tb_filter_block r = None \<longleftrightarrow> opt_filter_policy o' = None"
    and "\<forall>policy. opt_filter_policy o' = Some policy \<longrightarrow> h = filter_handle port o' policy bs \<and> handle_set h"
  shows "\<exists>e'. write_metaindex port h r e = Some (metaindex_handle port o' bs,
      r\<lparr>tb_offset := tb_offset r + length (stored_record port o' (metaindex_raw port o' bs))\<rparr>, e') \<and> good e' \<and>
    contents e' = contents e @ stored_record port o' (metaindex_raw port o' bs)"
proof -
  let ?kvs = "case opt_filter_policy o' of None \<Rightarrow> [] | Some policy \<Rightarrow> [(str ''filter.'' @ fp_Name policy, handle_image (filter_handle port o' policy bs))]"
  let ?b = "fold (\<lambda>(k, v). BlockBuilder_Add k v) ?kvs (BlockBuilder_new (opt_block_restart_interval o'))"
  have w: "good e" "tb_file r = wf" "tb_status r = OK" using assms(1) by simp_all
  have "write_metaindex port h r e = map_option (\<lambda>(handle, _, r, e). (handle, r, e)) (WriteBlock port ?b r e)"
    using assms by (auto simp: write_metaindex_def Let_def BlockHandle_EncodeTo_image split: option.splits)
  with WriteBlock_run [OF w Finish_build, of port ?kvs "opt_block_restart_interval o'"] assms(1) show ?thesis
    by (auto simp: metaindex_handle_def metaindex_start_def metaindex_raw_def)
qed

lemma write_index_run:
  assumes "written o' (data_image port o' bs @ filter_record port o' bs @ stored_record port o' (metaindex_raw port o' bs)) r e"
    and "tb_pending_index_entry r = (bs \<noteq> [])" and "bs \<noteq> [] \<longrightarrow> tb_pending_handle r = data_handle port o' bs (length bs - 1)"
    and "bs \<noteq> [] \<longrightarrow> tb_last_key r = fst (last (bs ! (length bs - 1)))" and "length (data_image port o' bs) < 2 ^ 64 - 1"
    and "tb_index_block r = fold (\<lambda>(k, v). BlockBuilder_Add k v) (index_entries port o' bs (length bs - 1)) (BlockBuilder_new 1)"
  shows "\<exists>r' e'. write_index port r e = Some (index_handle port o' bs, r', e') \<and> written o' (blocks_image port o' bs) r' e' \<and>
    tb_num_entries r' = tb_num_entries r \<and> tb_closed r' = tb_closed r"
proof -
  let ?b = "fold (\<lambda>(k, v). BlockBuilder_Add k v) (index_entries port o' bs (length bs)) (BlockBuilder_new 1)"
  obtain r1 where r1: "(if tb_pending_index_entry r then add_index_entry (FindShortSuccessor (opt_comparator (tb_options r)) (tb_last_key r)) r else Some r) = Some r1"
    "tb_index_block r1 = ?b" "written o' (data_image port o' bs @ filter_record port o' bs @ stored_record port o' (metaindex_raw port o' bs)) r1 e"
    "tb_num_entries r1 = tb_num_entries r" "tb_closed r1 = tb_closed r"
  proof (cases "bs = []")
    case True
    then show ?thesis using that [of r] assms by (simp add: index_entries_def)
  next
    case False
    then show ?thesis
      using that [of "the (add_index_entry (FindShortSuccessor (opt_comparator (tb_options r)) (tb_last_key r)) r)"] assms
        data_handle_set [OF assms(5), of "length bs - 1"]
      by (simp add: add_index_entry_def BlockHandle_EncodeTo_image index_entries_last)
  qed
  then have w: "good e" "tb_file r1 = wf" "tb_status r1 = OK" by simp_all
  from WriteBlock_run [OF w Finish_build, of port "index_entries port o' bs (length bs)" 1] r1 assms(1)
  show ?thesis by (auto simp: write_index_def index_handle_def index_start_def metaindex_start_def index_raw_def blocks_image_def)
qed

lemma Finish_run:
  assumes "builder_inv port o' bs [] r" and "good e" and "contents e = data_image port o' bs" and "tb_file r = wf"
    and small: "length (blocks_image port o' bs) < 2 ^ 64 - 1"
  shows "\<exists>r' e'. TableBuilder_Finish port r e = Some (OK, r', e') \<and> good e' \<and> contents e' = blocks_image port o' bs @ footer_image port o' bs \<and>
    tb_offset r' = length (contents e') \<and> tb_num_entries r' = length (concat bs) \<and> tb_closed r'"
proof -
  note inv = assms(1) [unfolded builder_inv_def]
  note hs = image_handles_set [OF small]
  have fl: "TableBuilder_Flush port r e = Some (r, e)" using inv by (simp add: TableBuilder_Flush_def)
  let ?r0 = "r\<lparr>tb_closed := True\<rparr>"
  have w0: "written o' (data_image port o' bs) ?r0 e" "filter_state port o' bs [] (tb_filter_block ?r0)" using inv assms(2-4) by simp_all
  obtain h f e1 where f: "write_filter ?r0 e = (h, ?r0\<lparr>tb_filter_block := f, tb_offset := tb_offset ?r0 + length (filter_record port o' bs)\<rparr>, e1)"
    "good e1" "contents e1 = contents e @ filter_record port o' bs" "f = None \<longleftrightarrow> opt_filter_policy o' = None"
    "\<forall>policy. opt_filter_policy o' = Some policy \<longrightarrow> h = filter_handle port o' policy bs"
    using write_filter_run [OF w0] apply (elim exE conjE) subgoal for h f e1 by (rule that [of h f e1]) assumption+ done
  define r1 where "r1 = ?r0\<lparr>tb_filter_block := f, tb_offset := tb_offset ?r0 + length (filter_record port o' bs)\<rparr>"
  have w1: "written o' (data_image port o' bs @ filter_record port o' bs) r1 e1" "tb_filter_block r1 = None \<longleftrightarrow> opt_filter_policy o' = None"
    "\<forall>policy. opt_filter_policy o' = Some policy \<longrightarrow> h = filter_handle port o' policy bs \<and> handle_set h"
    using w0(1) f(2-5) hs(1) by (simp_all add: r1_def)
  obtain e2 where m: "write_metaindex port h r1 e1 = Some (metaindex_handle port o' bs,
      r1\<lparr>tb_offset := tb_offset r1 + length (stored_record port o' (metaindex_raw port o' bs))\<rparr>, e2)" "good e2"
    "contents e2 = contents e1 @ stored_record port o' (metaindex_raw port o' bs)"
    using write_metaindex_run [OF w1] apply (elim exE conjE) subgoal for e2 by (rule that [of e2]) assumption+ done
  define r2 where "r2 = r1\<lparr>tb_offset := tb_offset r1 + length (stored_record port o' (metaindex_raw port o' bs))\<rparr>"
  have lk: "bs \<noteq> [] \<longrightarrow> tb_last_key r = fst (last (bs ! (length bs - 1)))"
    using inv last_concat_block [of bs] by (cases bs) (auto simp del: nth_Cons_Suc)
  have w2: "written o' (data_image port o' bs @ filter_record port o' bs @ stored_record port o' (metaindex_raw port o' bs)) r2 e2"
    "tb_pending_index_entry r2 = (bs \<noteq> [])" "bs \<noteq> [] \<longrightarrow> tb_pending_handle r2 = data_handle port o' bs (length bs - 1)"
    "bs \<noteq> [] \<longrightarrow> tb_last_key r2 = fst (last (bs ! (length bs - 1)))"
    "tb_index_block r2 = fold (\<lambda>(k, v). BlockBuilder_Add k v) (index_entries port o' bs (length bs - 1)) (BlockBuilder_new 1)"
    using w1(1) m(2,3) inv lk by (simp_all add: r2_def r1_def)
  obtain r3 e3 where x: "write_index port r2 e2 = Some (index_handle port o' bs, r3, e3)" "written o' (blocks_image port o' bs) r3 e3"
    "tb_num_entries r3 = tb_num_entries r2" "tb_closed r3 = tb_closed r2"
    using write_index_run [OF w2(1-4) hs(4) w2(5)] apply (elim exE conjE) subgoal for r3 e3 by (rule that [of r3 e3]) (assumption | intro conjI)+ done
  obtain e4 where e4: "file_Append wf (footer_image port o' bs) e3 = (OK, e4)" "good e4" "contents e4 = contents e3 @ footer_image port o' bs"
    using append_contents x(2) by blast
  have ft: "write_footer (metaindex_handle port o' bs) (index_handle port o' bs) r3 e3 =
      Some (r3\<lparr>tb_status := OK, tb_offset := tb_offset r3 + length (footer_image port o' bs)\<rparr>, e4)"
    using x(2) e4(1) footer_image_run(1) [OF small] by (simp add: write_footer_def)
  have "TableBuilder_Finish port r e = Some (OK, r3\<lparr>tb_status := OK, tb_offset := tb_offset r3 + length (footer_image port o' bs)\<rparr>, e4)"
    using inv f(1) [folded r1_def] m(1) [folded r2_def] by (simp only: TableBuilder_Finish_def fl) (simp add: x(1) ft)
  then show ?thesis using e4 x inv by (simp add: r2_def r1_def)
qed

text \<open>What is written, from the first call to the last.\<close>

lemma write_table_run:
  assumes "good e" and "contents e = []" and "policy_ok o'" and "sorted_wrt (\<lambda>a b. Compare (opt_comparator o') (fst b) (fst a) > 0) kvs"
    and small: "length (table_image port o' kvs) < 2 ^ 64 - 1"
  shows "\<exists>r e'. write_table port o' kvs wf e = Some (OK, r, e') \<and> good e' \<and> contents e' = table_image port o' kvs \<and>
    FileSize r = length (table_image port o' kvs) \<and> NumEntries r = length kvs"
proof -
  let ?r0 = "\<lparr>tb_options = o', tb_file = wf, tb_offset = 0, tb_status = OK, tb_data_block = BlockBuilder_new (opt_block_restart_interval o'),
        tb_index_block = BlockBuilder_new 1, tb_last_key = [], tb_num_entries = 0, tb_closed = False,
        tb_filter_block = map_option (\<lambda>policy. (policy, FilterBlockBuilder_new)) (opt_filter_policy o'),
        tb_pending_index_entry = False, tb_pending_handle = BlockHandle_new\<rparr>"
  let ?bs = "cut_blocks o' [] kvs"
  have sm: "length (blocks_image port o' ?bs) < 2 ^ 64 - 1" using small by (simp add: table_image_parts)
  obtain f where f: "TableBuilder_new o' wf = Some (?r0\<lparr>tb_filter_block := f\<rparr>)" "filter_state port o' [] [] f"
    using filter_state_new [OF assms(3), of ?r0 port] by (auto simp: TableBuilder_new_def)
  have inv: "builder_inv port o' [] [] (?r0\<lparr>tb_filter_block := f\<rparr>)"
    using f(2) by (simp add: builder_inv_def data_image_def block_of_def index_entries_def)
  have c0: "contents e = data_image port o' []" "tb_file (?r0\<lparr>tb_filter_block := f\<rparr>) = wf" using assms(2) by (simp_all add: data_image_def)
  obtain r1 e1 bs cur where r1: "add_pairs port kvs (?r0\<lparr>tb_filter_block := f\<rparr>) e = Some (r1, e1)" "builder_inv port o' bs cur r1" "good e1"
    "contents e1 = data_image port o' bs" "tb_file r1 = wf" "with_cur bs cur = ?bs"
    using add_pairs_run [OF inv assms(1) c0 assms(3), of kvs] assms(4) image_handles_set(4) [OF sm] by auto
  obtain r2 e2 where r2: "TableBuilder_Flush port r1 e1 = Some (r2, e2)" "builder_inv port o' ?bs [] r2" "good e2" "contents e2 = data_image port o' ?bs"
    "tb_file r2 = wf" using Flush_run [OF r1(2-5) assms(3)] r1(6) by auto
  have "TableBuilder_Flush port r2 e2 = Some (r2, e2)" using r2(2) by (simp add: TableBuilder_Flush_def builder_inv_def)
  then have "TableBuilder_Finish port r1 e1 = TableBuilder_Finish port r2 e2" using r2(1) by (simp add: TableBuilder_Finish_def)
  with Finish_run [OF r2(2-5) sm] f(1) r1(1) show ?thesis
    by (auto simp: write_table_def table_image_parts FileSize_def NumEntries_def cut_blocks_concat)
qed

end

end
