(* ===== verification/Table.thy ===== *)
theory Table
  imports TableBuilder TwoLevel
begin

text \<open>
  \<open>table/table.cc\<close>: opening a table file, its filter, the block function and the iterator, lookups and approximate offsets. The block
  cache is an interface (\<open>include/leveldb/cache.h\<close>) over a state of its own; \<^term>\<open>None\<close> is an access outside a buffer or a failed
  assertion.
\<close>

subsection \<open>The cache interface\<close>

text \<open>A handle is a number; the deleter of an entry belongs to the cache's state.\<close>

record ('c, 'v) Cache =
  cache_Insert :: "bytes \<Rightarrow> 'v \<Rightarrow> nat \<Rightarrow> 'c \<Rightarrow> nat \<times> 'c"
  cache_Lookup :: "bytes \<Rightarrow> 'c \<Rightarrow> nat option \<times> 'c"
  cache_Release :: "nat \<Rightarrow> 'c \<Rightarrow> 'c"
  cache_Value :: "nat \<Rightarrow> 'c \<Rightarrow> 'v"
  cache_Erase :: "bytes \<Rightarrow> 'c \<Rightarrow> 'c"
  cache_NewId :: "'c \<Rightarrow> u64 \<times> 'c"

subsection \<open>The table\<close>

record 'e Table =
  tbl_options :: Options
  tbl_file :: "'e RandomAccessFile"
  tbl_cache_id :: u64
  tbl_filter :: "FilterBlockReader option"
  tbl_metaindex_handle :: BlockHandle
  tbl_index_block :: Block

definition meta_read_options :: "Options \<Rightarrow> ReadOptions" where
  "meta_read_options options =
     (if opt_paranoid_checks options then ReadOptions_new\<lparr>ro_verify_checksums := True\<rparr> else ReadOptions_new)"

definition ReadFilter :: "compression_port \<Rightarrow> bool \<Rightarrow> bytes \<Rightarrow> 'e Table \<Rightarrow> 'e \<Rightarrow> 'e Table option" where
  "ReadFilter port scratch filter_handle_value t e =
     (case BlockHandle_DecodeFrom filter_handle_value BlockHandle_new of
        (s, filter_handle, _) \<Rightarrow>
          if \<not> ok s then Some t
          else
            Option.bind (ReadBlock port scratch (tbl_file t) (meta_read_options (tbl_options t)) filter_handle e) (\<lambda>(s, block).
              if \<not> ok s then Some t else Some (t\<lparr>tbl_filter := Some (FilterBlockReader_new (bc_data block))\<rparr>)))"

definition ReadMeta :: "compression_port \<Rightarrow> bool \<Rightarrow> Footer \<Rightarrow> 'e Table \<Rightarrow> 'e \<Rightarrow> 'e Table option" where
  "ReadMeta port scratch footer t e =
     (case opt_filter_policy (tbl_options t) of
        None \<Rightarrow> Some t
      | Some policy \<Rightarrow>
          Option.bind (ReadBlock port scratch (tbl_file t) (meta_read_options (tbl_options t)) (ft_metaindex_handle footer) e) (\<lambda>(s, contents).
            if \<not> ok s then Some t
            else
              (let iter = Block_NewIterator BytewiseComparator (Block_new (bc_data contents));
                   key = str ''filter.'' @ fp_Name policy
               in Option.bind (iter_Seek AnyBlockIter_class key iter) (\<lambda>iter.
                    if iter_Valid AnyBlockIter_class iter \<and> slice_eq (iter_key AnyBlockIter_class iter) key
                    then ReadFilter port scratch (iter_value AnyBlockIter_class iter) t e
                    else Some t))))"

definition Table_Open ::
  "compression_port \<Rightarrow> bool \<Rightarrow> ('c, Block) Cache option \<Rightarrow> Options \<Rightarrow> 'e RandomAccessFile \<Rightarrow> nat \<Rightarrow> 'e \<Rightarrow> 'c \<Rightarrow>
   (Status \<times> 'e Table option \<times> 'c) option" where
  "Table_Open port scratch block_cache options file sz e c =
     (if sz < ft_kEncodedLength then Some (Corruption (str ''file is too short to be an sstable'') [], None, c)
      else
        (case rnd_Read file (sz - ft_kEncodedLength) ft_kEncodedLength e of
           (s, footer_input) \<Rightarrow>
             if \<not> ok s then Some (s, None, c)
             else
               (case Footer_DecodeFrom footer_input Footer_new of
                  (s, footer, _) \<Rightarrow>
                    if \<not> ok s then Some (s, None, c)
                    else
                      Option.bind (ReadBlock port scratch file (meta_read_options options) (ft_index_handle footer) e) (\<lambda>(s, index_block_contents).
                        if \<not> ok s then Some (s, None, c)
                        else
                          (let (cache_id, c) = (case block_cache of None \<Rightarrow> (0, c) | Some cache \<Rightarrow> cache_NewId cache c);
                               rep = \<lparr>tbl_options = options, tbl_file = file, tbl_cache_id = cache_id, tbl_filter = None,
                                      tbl_metaindex_handle = ft_metaindex_handle footer,
                                      tbl_index_block = Block_new (bc_data index_block_contents)\<rparr>
                           in map_option (\<lambda>t. (s, Some t, c)) (ReadMeta port scratch footer rep e))))))"

subsection \<open>Blocks\<close>

text \<open>What the iterator over a block does when it is destroyed: delete the block or release its cache handle.\<close>

datatype block_cleanup = NoCleanup | DeleteBlock | ReleaseBlock nat

definition block_cache_key :: "u64 \<Rightarrow> u64 \<Rightarrow> bytes" where
  "block_cache_key cache_id off = EncodeFixed64 cache_id @ EncodeFixed64 off"

text \<open>The block of a handle, from the cache or the file, with its cache handle.\<close>

definition fetch_block ::
  "compression_port \<Rightarrow> bool \<Rightarrow> ('c, Block) Cache option \<Rightarrow> 'e Table \<Rightarrow> ReadOptions \<Rightarrow> BlockHandle \<Rightarrow> 'e \<Rightarrow> 'c \<Rightarrow>
   (Status \<times> Block option \<times> nat option \<times> 'c) option" where
  "fetch_block port scratch block_cache t options handle e c =
     (case block_cache of
        None \<Rightarrow>
          Option.bind (ReadBlock port scratch (tbl_file t) options handle e) (\<lambda>(s, contents).
            Some (s, if ok s then Some (Block_new (bc_data contents)) else None, None, c))
      | Some cache \<Rightarrow>
          (let key = block_cache_key (tbl_cache_id t) (bh_offset handle)
           in case cache_Lookup cache key c of
                (Some h, c) \<Rightarrow> Some (OK, Some (cache_Value cache h c), Some h, c)
              | (None, c) \<Rightarrow>
                  Option.bind (ReadBlock port scratch (tbl_file t) options handle e) (\<lambda>(s, contents).
                    if \<not> ok s then Some (s, None, None, c)
                    else
                      (let block = Block_new (bc_data contents)
                       in if bc_cachable contents \<and> ro_fill_cache options
                          then (case cache_Insert cache key block (bl_size block) c of (h, c) \<Rightarrow> Some (s, Some block, Some h, c))
                          else Some (s, Some block, None, c)))))"

definition BlockReader ::
  "compression_port \<Rightarrow> bool \<Rightarrow> ('c, Block) Cache option \<Rightarrow> 'e Table \<Rightarrow> ReadOptions \<Rightarrow> bytes \<Rightarrow> 'e \<Rightarrow> 'c \<Rightarrow>
   ((Status + BlockIter) \<times> block_cleanup \<times> 'c) option" where
  "BlockReader port scratch block_cache t options index_value e c =
     (case BlockHandle_DecodeFrom index_value BlockHandle_new of
        (s, handle, _) \<Rightarrow>
          if \<not> ok s then Some (Inl (NewErrorIterator s), NoCleanup, c)
          else
            Option.bind (fetch_block port scratch block_cache t options handle e c) (\<lambda>(s, block, cache_handle, c).
              case block of
                None \<Rightarrow> Some (Inl (NewErrorIterator s), NoCleanup, c)
              | Some b \<Rightarrow>
                  Some (Block_NewIterator (opt_comparator (tbl_options t)) b,
                        case cache_handle of None \<Rightarrow> DeleteBlock | Some h \<Rightarrow> ReleaseBlock h, c)))"

subsection \<open>The iterator\<close>

text \<open>The class and the new iterator of a table without a block cache.\<close>

type_synonym TableIter = "(Status + BlockIter, Status + BlockIter) TwoLevelIterator"

definition table_block_function ::
  "compression_port \<Rightarrow> bool \<Rightarrow> 'e Table \<Rightarrow> ReadOptions \<Rightarrow> 'e \<Rightarrow> bytes \<Rightarrow> (Status + BlockIter) option" where
  "table_block_function port scratch t options e index_value =
     map_option fst (BlockReader port scratch (None :: (unit, Block) Cache option) t options index_value e ())"

definition TableIter_class :: "compression_port \<Rightarrow> bool \<Rightarrow> 'e Table \<Rightarrow> ReadOptions \<Rightarrow> 'e \<Rightarrow> TableIter Iterator" where
  "TableIter_class port scratch t options e =
     TwoLevelIterator_class AnyBlockIter_class AnyBlockIter_class (table_block_function port scratch t options e)"

definition Table_NewIterator :: "'e Table \<Rightarrow> TableIter" where
  "Table_NewIterator t =
     NewTwoLevelIterator AnyBlockIter_class (Block_NewIterator (opt_comparator (tbl_options t)) (tbl_index_block t))"

subsection \<open>Lookups\<close>

text \<open>Whether the filter excludes the key; the tests are made in this order, and the first that fails ends them.\<close>

definition filter_excludes :: "'e Table \<Rightarrow> bytes \<Rightarrow> bytes \<Rightarrow> bool option" where
  "filter_excludes t handle_value k =
     (case tbl_filter t of
        None \<Rightarrow> Some False
      | Some fr \<Rightarrow>
          (case BlockHandle_DecodeFrom handle_value BlockHandle_new of
             (s, handle, _) \<Rightarrow>
               if \<not> ok s then Some False
               else Option.bind (opt_filter_policy (tbl_options t)) (\<lambda>policy.
                      map_option Not (FilterBlock_KeyMayMatch policy fr (bh_offset handle) k))))"

text \<open>The status and the pair that \<open>handle_result\<close> is called with, if it is.\<close>

definition InternalGet ::
  "compression_port \<Rightarrow> bool \<Rightarrow> ('c, Block) Cache option \<Rightarrow> 'e Table \<Rightarrow> ReadOptions \<Rightarrow> bytes \<Rightarrow> 'e \<Rightarrow> 'c \<Rightarrow>
   (Status \<times> (bytes \<times> bytes) option \<times> 'c) option" where
  "InternalGet port scratch block_cache t options k e c =
     (let it = AnyBlockIter_class
      in Option.bind (iter_Seek it k (Block_NewIterator (opt_comparator (tbl_options t)) (tbl_index_block t))) (\<lambda>iiter.
         Option.bind
           (if iter_Valid it iiter then
              Option.bind (filter_excludes t (iter_value it iiter) k) (\<lambda>excluded.
                if excluded then Some (OK, None, c)
                else
                  Option.bind (BlockReader port scratch block_cache t options (iter_value it iiter) e c) (\<lambda>(block_iter, cleanup, c).
                  Option.bind (iter_Seek it k block_iter) (\<lambda>block_iter.
                    let found = (if iter_Valid it block_iter then Some (iter_key it block_iter, iter_value it block_iter) else None);
                        s = iter_status it block_iter;
                        c = (case (cleanup, block_cache) of (ReleaseBlock h, Some cache) \<Rightarrow> cache_Release cache h c | _ \<Rightarrow> c)
                    in Some (s, found, c))))
            else Some (OK, None, c)) (\<lambda>(s, found, c).
           Some (if ok s then iter_status it iiter else s, found, c))))"

definition ApproximateOffsetOf :: "'e Table \<Rightarrow> bytes \<Rightarrow> u64 option" where
  "ApproximateOffsetOf t key =
     (let it = AnyBlockIter_class
      in Option.bind (iter_Seek it key (Block_NewIterator (opt_comparator (tbl_options t)) (tbl_index_block t))) (\<lambda>index_iter.
         if iter_Valid it index_iter then
           (case BlockHandle_DecodeFrom (iter_value it index_iter) BlockHandle_new of
              (s, handle, _) \<Rightarrow> if ok s then Some (bh_offset handle) else Some (bh_offset (tbl_metaindex_handle t)))
         else Some (bh_offset (tbl_metaindex_handle t))))"

end
