(* ===== verification/TableSpec.thy ===== *)
theory TableSpec
  imports TableImage Table
begin

text \<open>
  A table file that holds the image of ascending pairs opens, and its iterator and lookups see exactly these pairs.
\<close>

subsection \<open>Sizes\<close>

text \<open>The file is addressed with 64 bits, and the offsets in a block, the index and the filters take 32.\<close>

definition table_small :: "compression_port \<Rightarrow> Options \<Rightarrow> (bytes \<times> bytes) list \<Rightarrow> bool" where
  "table_small port o' kvs \<longleftrightarrow>
     length (table_image port o' kvs) < 2 ^ 64 - 1 \<and>
     (let bs = cut_blocks o' [] kvs
      in (\<forall>b \<in> set bs. length (data_raw o' b) < 2 ^ 32) \<and> length (index_raw port o' bs) < 2 ^ 32 \<and> length (metaindex_raw port o' bs) < 2 ^ 32 \<and>
         (\<forall>policy. opt_filter_policy o' = Some policy \<longrightarrow> length (filter_contents port o' policy bs) < 2 ^ 32))"

lemma filter_shift_defined: "FilterBlock_KeyMayMatch policy (FilterBlockReader_new (xs @ [11])) off key \<noteq> None"
proof -
  have "fbr_base_lg (FilterBlockReader_new (xs @ [11])) \<in> {0, 11}" by (simp add: FilterBlockReader_new_def Let_def nth_append)
  then show ?thesis by (auto simp: FilterBlock_KeyMayMatch_def Let_def)
qed

text \<open>Keys the filter of a table cannot tell apart.\<close>

definition filter_alike :: "Options \<Rightarrow> bytes \<Rightarrow> bytes \<Rightarrow> bool" where
  "filter_alike o' k k' \<longleftrightarrow>
     (\<forall>policy data. opt_filter_policy o' = Some policy \<longrightarrow> fp_KeyMayMatch policy k data = fp_KeyMayMatch policy k' data)"

lemma filter_alike_refl [simp]: "filter_alike o' k k"
  by (simp add: filter_alike_def)

lemma filter_alike_match:
  "\<lbrakk>filter_alike o' k k'; opt_filter_policy o' = Some policy\<rbrakk> \<Longrightarrow>
    FilterBlock_KeyMayMatch policy fr off k = FilterBlock_KeyMayMatch policy fr off k'"
  by (simp add: FilterBlock_KeyMayMatch_def filter_alike_def Let_def)

lemma build_block_nonempty: "build_block n kvs \<noteq> []"
  by (simp add: build_block_def BlockBuilder_Finish_def Let_def PutFixed32_def EncodeFixed32_def)

context lossless_port
begin

lemma compress_lossless:
  "\<lbrakk>compress_block port o' raw = (d, t); raw \<noteq> []\<rbrakk> \<Longrightarrow> decompressed port t d = Some raw"
  using Snappy_lossless Zstd_lossless
  by (auto simp: compress_block_def split: CompressionType.splits option.splits if_splits simp del: decompressed.simps(2,3))

end

lemma AnyBlockIter_sorted:
  "built_block c valid n xs \<Longrightarrow> sorted_iterator c valid AnyBlockIter_class xs (\<lambda>s i. \<exists>x. s = Inr x \<and> block_pos c n xs x i)"
  unfolding AnyBlockIter_class_def by (rule sorted_iterator.sum_sorted(2) [OF built_block.block_sorted])

subsection \<open>The opened table\<close>

definition opened_table :: "compression_port \<Rightarrow> Options \<Rightarrow> 'e RandomAccessFile \<Rightarrow> (bytes \<times> bytes) list \<Rightarrow> u64 \<Rightarrow> 'e Table" where
  "opened_table port o' file kvs cache_id =
     (let bs = cut_blocks o' [] kvs
      in \<lparr>tbl_options = o', tbl_file = file, tbl_cache_id = cache_id,
          tbl_filter = map_option (\<lambda>policy. FilterBlockReader_new (filter_contents port o' policy bs)) (opt_filter_policy o'),
          tbl_metaindex_handle = metaindex_handle port o' bs, tbl_index_block = Block_new (index_raw port o' bs)\<rparr>)"

subsection \<open>The contract\<close>

locale table_file = comparator c valid + lossless_port port + random_access_file rf contents good
  for c valid and port and rf :: "'e RandomAccessFile" and contents good +
  fixes o' :: Options and kvs :: "(bytes \<times> bytes) list" and e :: 'e and scratch :: bool
  assumes file_good: "good e" and file_contents: "contents e = table_image port o' kvs"
    and opt_cmp: "opt_comparator o' = c" and opt_interval: "1 \<le> opt_block_restart_interval o'" and opt_policy: "policy_ok o'"
    and kvs_ascending: "ascending c kvs" and kvs_valid: "kv \<in> set kvs \<Longrightarrow> valid (fst kv)"
    and small: "table_small port o' kvs"
begin

abbreviation "bs \<equiv> cut_blocks o' [] kvs"
abbreviation "idx \<equiv> index_entries port o' bs (length bs)"

lemma blocks_image_small: "length (blocks_image port o' bs) < 2 ^ 64 - 1"
  using small by (simp add: table_small_def table_image_parts)

lemma read_record:
  assumes "contents e = a @ block_record d t @ b" and "decompressed port t d = Some raw"
  shows "\<exists>x. ReadBlock port scratch rf options \<lparr>bh_offset = of_nat (length a), bh_size = of_nat (length d)\<rparr> e =
    Some (OK, \<lparr>bc_data = raw, bc_cachable = x, bc_heap_allocated = x\<rparr>)"
proof (rule ReadBlock_record [OF _ _ _ assms(2)])
  have len: "length a + length d + kBlockTrailerSize < 2 ^ 64"
    using small assms(1) file_contents by (simp add: table_small_def block_record_length)
  then have "unat (of_nat (length a) :: u64) = length a" by (simp add: word_of_nat_unat_less)
  moreover have "rnd_Read rf (length a) (length d + kBlockTrailerSize) e = (OK, take (length d + kBlockTrailerSize) (drop (length a) (contents e)))"
    using rnd_read [OF file_good, of "length a" "length d + kBlockTrailerSize"] assms(1) by (simp add: block_record_length)
  ultimately show "rnd_Read rf (unat (bh_offset \<lparr>bh_offset = of_nat (length a), bh_size = of_nat (length d)\<rparr>)) (length d + kBlockTrailerSize) e =
      (OK, block_record d t)" using assms(1) by (simp add: block_record_length)
  show "length d + kBlockTrailerSize < 2 ^ 64" using len by simp
qed simp

lemma read_stored:
  assumes "contents e = a @ stored_record port o' raw @ b" and "raw \<noteq> []"
  shows "\<exists>x. ReadBlock port scratch rf options \<lparr>bh_offset = of_nat (length a), bh_size = of_nat (stored_size port o' raw)\<rparr> e =
    Some (OK, \<lparr>bc_data = raw, bc_cachable = x, bc_heap_allocated = x\<rparr>)"
proof -
  obtain d t where dt: "compress_block port o' raw = (d, t)" by fastforce
  then show ?thesis
    using read_record [of a d t b raw options] assms compress_lossless [OF dt assms(2)] by (simp add: stored_record_def stored_size_def)
qed

lemma read_index: "\<exists>x. ReadBlock port scratch rf options (index_handle port o' bs) e =
    Some (OK, \<lparr>bc_data = index_raw port o' bs, bc_cachable = x, bc_heap_allocated = x\<rparr>)"
proof -
  let ?a = "data_image port o' bs @ filter_record port o' bs @ stored_record port o' (metaindex_raw port o' bs)"
  have "contents e = ?a @ stored_record port o' (index_raw port o' bs) @ footer_image port o' bs"
    by (simp add: file_contents table_image_parts blocks_image_def)
  from read_stored [OF this] show ?thesis
    by (simp add: index_handle_def index_start_def metaindex_start_def add.assoc index_raw_def build_block_nonempty)
qed

lemma read_metaindex: "\<exists>x. ReadBlock port scratch rf options (metaindex_handle port o' bs) e =
    Some (OK, \<lparr>bc_data = metaindex_raw port o' bs, bc_cachable = x, bc_heap_allocated = x\<rparr>)"
proof -
  have "contents e = (data_image port o' bs @ filter_record port o' bs) @ stored_record port o' (metaindex_raw port o' bs) @
      stored_record port o' (index_raw port o' bs) @ footer_image port o' bs"
    by (simp add: file_contents table_image_parts blocks_image_def)
  from read_stored [OF this] show ?thesis
    by (simp add: metaindex_handle_def metaindex_start_def metaindex_raw_def build_block_nonempty)
qed

lemma read_filter:
  assumes "opt_filter_policy o' = Some policy"
  shows "\<exists>x. ReadBlock port scratch rf options (filter_handle port o' policy bs) e =
    Some (OK, \<lparr>bc_data = filter_contents port o' policy bs, bc_cachable = x, bc_heap_allocated = x\<rparr>)"
proof -
  have "contents e = data_image port o' bs @ block_record (filter_contents port o' policy bs) kNoCompression @
      stored_record port o' (metaindex_raw port o' bs) @ stored_record port o' (index_raw port o' bs) @ footer_image port o' bs"
    using assms by (simp add: file_contents table_image_parts blocks_image_def filter_record_def)
  from read_record [OF this] show ?thesis by (simp add: filter_handle_def)
qed

lemma read_data:
  assumes "j < length bs"
  shows "\<exists>x. ReadBlock port scratch rf options (data_handle port o' bs j) e =
    Some (OK, \<lparr>bc_data = data_raw o' (bs ! j), bc_cachable = x, bc_heap_allocated = x\<rparr>)"
proof -
  have "data_image port o' bs = data_image port o' (take j bs) @ stored_record port o' (data_raw o' (bs ! j)) @ data_image port o' (drop (Suc j) bs)"
    using concat_split [of j "map (stored_record port o' \<circ> data_raw o') bs"] assms by (simp add: data_image_def take_map drop_map)
  then have "contents e = data_image port o' (take j bs) @ stored_record port o' (data_raw o' (bs ! j)) @ data_image port o' (drop (Suc j) bs) @
      filter_record port o' bs @ stored_record port o' (metaindex_raw port o' bs) @ stored_record port o' (index_raw port o' bs) @ footer_image port o' bs"
    by (simp add: file_contents table_image_parts blocks_image_def)
  from read_stored [OF this] show ?thesis
    by (simp add: data_handle_def data_start_def data_raw_def build_block_nonempty)
qed

text \<open>The blocks and the index.\<close>

lemma bs_concat: "concat bs = kvs"
  using cut_blocks_concat [of o' "[]" kvs] by simp

lemma block_props:
  assumes "j < length bs"
  shows "bs ! j \<noteq> []" and "ascending c (bs ! j)" and "x \<in> set (bs ! j) \<Longrightarrow> valid (fst x)" and "hd (bs ! j) \<in> set (bs ! j)" and "last (bs ! j) \<in> set (bs ! j)"
proof -
  show ne: "bs ! j \<noteq> []" using cut_blocks_nonempty [of o' "[]" kvs] assms nth_mem by fastforce
  then show "hd (bs ! j) \<in> set (bs ! j)" "last (bs ! j) \<in> set (bs ! j)" by simp_all
  have "ascending c (concat (take j bs) @ bs ! j @ concat (drop (Suc j) bs))" using kvs_ascending concat_split [OF assms] by (simp only: bs_concat)
  then show "ascending c (bs ! j)" by (simp only: ascending_append)
  have "set (bs ! j) \<subseteq> set (concat bs)" using nth_mem [OF assms] by auto
  then show "x \<in> set (bs ! j) \<Longrightarrow> valid (fst x)" using kvs_valid [of x] unfolding bs_concat by blast
qed

lemma block_before:
  assumes "j < k" "k < length bs" "x \<in> set (bs ! j)" "y \<in> set (bs ! k)"
  shows "Compare c (fst x) (fst y) < 0"
proof -
  have "ascending c (concat (take k bs) @ bs ! k @ concat (drop (Suc k) bs))" using kvs_ascending concat_split [OF assms(2)] by (simp only: bs_concat)
  moreover have "x \<in> set (concat (take k bs))" unfolding in_concat_nth using assms by (intro exI [of _ j]) simp
  ultimately show ?thesis using assms(4) unfolding ascending_append by (metis UnCI set_append)
qed

lemma block_last: "\<lbrakk>j < length bs; x \<in> set (bs ! j)\<rbrakk> \<Longrightarrow> Compare c (fst x) (fst (last (bs ! j))) \<le> 0"
proof -
  assume j: "j < length bs" and x: "x \<in> set (bs ! j)"
  obtain ys y where ys: "bs ! j = ys @ [y]" using block_props(1) [OF j] by (cases "bs ! j" rule: rev_cases) auto
  then show "Compare c (fst x) (fst (last (bs ! j))) \<le> 0"
    using block_props(2) [OF j] block_props(3) [OF j x] x cmp_refl [of "fst x"] by (fastforce simp: ascending_append)
qed

lemma separator_props:
  assumes "j < length bs"
  shows "valid (separator_key o' bs j)" and "Compare c (fst (last (bs ! j))) (separator_key o' bs j) \<le> 0"
    and "Suc j < length bs \<Longrightarrow> Compare c (separator_key o' bs j) (fst (hd (bs ! Suc j))) < 0"
proof -
  have l: "valid (fst (last (bs ! j)))" using block_props [OF assms] by blast
  have n: "valid (fst (hd (bs ! Suc j)))" "Compare c (fst (last (bs ! j))) (fst (hd (bs ! Suc j))) < 0" if "Suc j < length bs"
    using block_props [OF that] block_props [OF assms] block_before [of j "Suc j"] that by simp_all
  show "valid (separator_key o' bs j)" "Compare c (fst (last (bs ! j))) (separator_key o' bs j) \<le> 0"
    using separator [OF l n] successor [OF l] by (auto simp: separator_key_def opt_cmp)
  show "Compare c (separator_key o' bs j) (fst (hd (bs ! Suc j))) < 0" if "Suc j < length bs"
    using separator [OF l n [OF that]] that by (simp add: separator_key_def opt_cmp)
qed

lemma block_first: "\<lbrakk>j < length bs; x \<in> set (bs ! j)\<rbrakk> \<Longrightarrow> Compare c (fst (hd (bs ! j))) (fst x) \<le> 0"
proof -
  assume j: "j < length bs" and x: "x \<in> set (bs ! j)"
  obtain y ys where ys: "bs ! j = y # ys" using block_props(1) [OF j] by (cases "bs ! j") auto
  then show "Compare c (fst (hd (bs ! j))) (fst x) \<le> 0"
    using block_props(2) [OF j] block_props(3) [OF j x] x cmp_refl [of "fst x"] by (fastforce simp: ascending_Cons)
qed

lemma separator_before:
  assumes "j < k" "k < length bs" "x \<in> set (bs ! k)"
  shows "Compare c (separator_key o' bs j) (fst x) < 0"
proof -
  have j: "j < length bs" "Suc j < length bs" using assms by simp_all
  let ?h = "fst (hd (bs ! Suc j))"
  have "Compare c ?h (fst x) \<le> 0"
    using block_first [of k x] block_before [of "Suc j" k "hd (bs ! Suc j)" x] block_props(4) [OF j(2)] assms by (cases "Suc j = k") auto
  then show ?thesis
    using cmp_less_trans [OF separator_props(1) [OF j(1)] _ _ separator_props(3) [OF j(1,2)], of "fst x"] block_props(3,4) [OF j(2)] block_props(3) [OF assms(2,3)]
    by blast
qed

lemma idx_nth: "j < length bs \<Longrightarrow> idx ! j = (separator_key o' bs j, handle_image (data_handle port o' bs j))"
  by (simp add: index_entries_def)

lemma idx_length: "length idx = length bs"
  by (simp add: index_entries_def)

lemma idx_separates: "separates c idx bs"
proof -
  have "Compare c (fst x) (fst (idx ! j)) \<le> 0" if "j < length bs" "x \<in> set (bs ! j)" for j x
    using cmp_trans [of "fst x" "fst (last (bs ! j))" "separator_key o' bs j"] block_last [OF that] separator_props(1,2) [OF that(1)]
      block_props(3) [OF that] block_props(3) [OF that(1) block_props(5) [OF that(1)]] that(1) by (simp add: idx_nth)
  moreover have "Compare c (fst (idx ! j)) (fst x) < 0" if "j < k" "k < length bs" "x \<in> set (bs ! k)" for j k x
    using separator_before [OF that] that by (simp add: idx_nth)
  ultimately show ?thesis by (simp add: separates_def idx_length)
qed

lemma idx_ascending: "ascending c idx"
  unfolding ascending_def
proof (rule sorted_wrt_iff_nth_less [THEN iffD2], intro allI impI)
  fix i j
  assume ij: "i < j" "j < length idx"
  then have j: "j < length bs" "i < length bs" by (simp_all add: idx_length)
  note l = block_props(5) [OF j(1)]
  have "Compare c (separator_key o' bs i) (fst (last (bs ! j))) < 0" using separator_before [OF ij(1) j(1) l] .
  then show "Compare c (fst (idx ! i)) (fst (idx ! j)) < 0"
    using cmp_less_trans [of "separator_key o' bs i" "fst (last (bs ! j))" "separator_key o' bs j"] separator_props(1,2) [OF j(1)]
      separator_props(1) [OF j(2)] block_props(3) [OF j(1) l] j by (simp add: idx_nth)
qed

lemma idx_valid: "x \<in> set idx \<Longrightarrow> valid (fst x)"
  using separator_props(1) by (auto simp: index_entries_def)

lemma idx_distinct: "distinct (map snd idx)"
proof -
  have "data_handle port o' bs i \<noteq> data_handle port o' bs j" if "i < j" "j < length bs" for i j
  proof -
    have "data_start port o' bs j \<le> length (data_image port o' bs)" by (rule data_start_mono)
    then have jl: "data_start port o' bs j < 2 ^ 64" using image_handles_set(4) [OF blocks_image_small] by simp
    have "data_start port o' bs (Suc i) \<le> data_start port o' bs j"
      using data_start_mono [of port o' "take j bs" "Suc i"] that by (simp add: data_start_def min_def)
    then have "data_start port o' bs i < data_start port o' bs j" using data_start_Suc [of i bs port o'] that by (simp add: kBlockTrailerSize_def)
    then have "(of_nat (data_start port o' bs i) :: u64) \<noteq> of_nat (data_start port o' bs j)"
      using jl word_of_nat_unat_less [of "data_start port o' bs i", where 'a = 64] word_of_nat_unat_less [of "data_start port o' bs j", where 'a = 64]
      by (auto dest: arg_cong [where f = unat])
    then show ?thesis by (simp add: data_handle_def)
  qed
  then have "data_handle port o' bs i \<noteq> data_handle port o' bs j" if "i < length bs" "j < length bs" "i \<noteq> j" for i j
    using that by (metis linorder_neqE_nat)
  then have "map snd idx ! i \<noteq> map snd idx ! j" if "i < length bs" "j < length bs" "i \<noteq> j" for i j
    using that by (simp add: idx_length idx_nth handle_image_inj)
  then show ?thesis unfolding distinct_conv_nth by (simp only: length_map idx_length) blast
qed

text \<open>The two levels.\<close>

lemma index_block: "built_block c valid 1 idx"
proof unfold_locales
  show "length (build_block 1 idx) < 2 ^ 32" using small by (simp add: table_small_def Let_def index_raw_def)
qed (auto simp: idx_ascending intro: idx_valid)

lemma data_block: "j < length bs \<Longrightarrow> built_block c valid (opt_block_restart_interval o') (bs ! j)"
proof unfold_locales
  assume j: "j < length bs"
  show "ascending c (bs ! j)" "x \<in> set (bs ! j) \<Longrightarrow> valid (fst x)" for x using block_props [OF j] by blast+
  show "length (build_block (opt_block_restart_interval o') (bs ! j)) < 2 ^ 32"
    using small nth_mem [OF j] by (simp add: table_small_def Let_def data_raw_def)
qed (rule opt_interval)

abbreviation "ipos \<equiv> \<lambda>s i. \<exists>x. s = Inr x \<and> block_pos c 1 idx x i"
abbreviation "dpos \<equiv> \<lambda>j s i. \<exists>x. s = Inr x \<and> block_pos c (opt_block_restart_interval o') (bs ! j) x i"

abbreviation "the_table \<equiv> opened_table port o' rf kvs"

lemma index_iter: "\<exists>x. Block_NewIterator c (Block_new (index_raw port o' bs)) = Inr x \<and> block_pos c 1 idx x (length idx)"
  using built_block.NewIterator_pos [OF index_block] by (simp add: index_raw_def)

lemma metaindex_seek:
  assumes "opt_filter_policy o' = Some policy"
  defines "key \<equiv> str ''filter.'' @ fp_Name policy"
  shows "\<exists>iter. iter_Seek AnyBlockIter_class key (Block_NewIterator BytewiseComparator (Block_new (metaindex_raw port o' bs))) = Some iter \<and>
    iter_Valid AnyBlockIter_class iter \<and> iter_key AnyBlockIter_class iter = key \<and>
    iter_value AnyBlockIter_class iter = handle_image (filter_handle port o' policy bs)"
proof -
  let ?es = "[(key, handle_image (filter_handle port o' policy bs))]"
  let ?n = "opt_block_restart_interval o'"
  have raw: "metaindex_raw port o' bs = build_block ?n ?es" using assms by (simp add: metaindex_raw_def)
  have bb: "built_block BytewiseComparator (\<lambda>_. True) ?n ?es"
    using small opt_interval raw by unfold_locales (simp_all add: ascending_def table_small_def Let_def)
  note so = AnyBlockIter_sorted [OF bb]
  obtain x where x: "Block_NewIterator BytewiseComparator (Block_new (metaindex_raw port o' bs)) = Inr x" "block_pos BytewiseComparator ?n ?es x (length ?es)"
    using built_block.NewIterator_pos [OF bb] raw by auto
  have below: "entries_below BytewiseComparator key ?es = 0" using bytewise.cmp_refl [of key] by (simp add: entries_below_def)
  obtain iter where it: "iter_Seek AnyBlockIter_class key (Inr x) = Some iter" "\<exists>y. iter = Inr y \<and> block_pos BytewiseComparator ?n ?es y 0"
    using sorted_iterator.pos_Seek [OF so, of "Inr x" "length ?es" key] x(2) below by auto
  then show ?thesis
    using sorted_iterator.pos_Valid [OF so it(2)] sorted_iterator.pos_key [OF so it(2)] sorted_iterator.pos_value [OF so it(2)] x(1) by simp
qed

lemma ReadMeta_run:
  assumes "t = the_table cache_id"
  shows "ReadMeta port scratch \<lparr>ft_metaindex_handle = metaindex_handle port o' bs, ft_index_handle = index_handle port o' bs\<rparr> (t\<lparr>tbl_filter := None\<rparr>) e = Some t"
proof (cases "opt_filter_policy o'")
  case None
  then show ?thesis using assms by (simp add: ReadMeta_def opened_table_def Let_def)
next
  case (Some policy)
  let ?ro = "meta_read_options o'"
  obtain x where m: "ReadBlock port scratch rf ?ro (metaindex_handle port o' bs) e =
      Some (OK, \<lparr>bc_data = metaindex_raw port o' bs, bc_cachable = x, bc_heap_allocated = x\<rparr>)" using read_metaindex by blast
  obtain y where f: "ReadBlock port scratch rf ?ro (filter_handle port o' policy bs) e =
      Some (OK, \<lparr>bc_data = filter_contents port o' policy bs, bc_cachable = y, bc_heap_allocated = y\<rparr>)" using read_filter [OF Some] by blast
  have d: "BlockHandle_DecodeFrom (handle_image (filter_handle port o' policy bs)) BlockHandle_new = (OK, filter_handle port o' policy bs, [])"
    using BlockHandle_DecodeFrom_image [of _ "[]"] by simp
  show ?thesis
    using metaindex_seek [OF Some] m f d Some assms
    by (auto simp: ReadMeta_def ReadFilter_def opened_table_def Let_def slice_eq_iff)
qed

lemma Open_run:
  "\<exists>cache_id c'. Table_Open port scratch block_cache o' rf (length (contents e)) e c0 = Some (OK, Some (the_table cache_id), c')"
proof -
  let ?n = "length (contents e) - ft_kEncodedLength"
  note fi = footer_image_run [OF blocks_image_small]
  have le: "ft_kEncodedLength \<le> length (contents e)" "?n = length (blocks_image port o' bs)"
    using fi(2) by (simp_all add: file_contents table_image_parts)
  have rd: "rnd_Read rf ?n ft_kEncodedLength e = (OK, footer_image port o' bs)"
    using rnd_read [OF file_good, of ?n ft_kEncodedLength] le fi(2) unfolding le(2) by (simp add: file_contents table_image_parts)
  obtain x where ix: "ReadBlock port scratch rf (meta_read_options o') (index_handle port o' bs) e =
      Some (OK, \<lparr>bc_data = index_raw port o' bs, bc_cachable = x, bc_heap_allocated = x\<rparr>)" using read_index by blast
  obtain cache_id c' where id: "(case block_cache of None \<Rightarrow> (0, c0) | Some cache \<Rightarrow> cache_NewId cache c0) = (cache_id, c')" by fastforce
  have "\<lparr>tbl_options = o', tbl_file = rf, tbl_cache_id = cache_id, tbl_filter = None, tbl_metaindex_handle = metaindex_handle port o' bs,
      tbl_index_block = Block_new (index_raw port o' bs)\<rparr> = (the_table cache_id)\<lparr>tbl_filter := None\<rparr>" by (simp add: opened_table_def Let_def)
  then have "Table_Open port scratch block_cache o' rf (length (contents e)) e c0 = Some (OK, Some (the_table cache_id), c')"
    using le(1) rd fi(3) [of Footer_new] ix id ReadMeta_run [OF refl, of cache_id] by (simp add: Table_Open_def)
  then show ?thesis by blast
qed

lemma BlockReader_run:
  assumes "j < length bs"
  shows "\<exists>x cl. BlockReader port scratch (None :: ('c, Block) Cache option) (the_table cache_id) ro (snd (idx ! j)) e c0 = Some (Inr x, cl, c0) \<and>
    block_pos c (opt_block_restart_interval o') (bs ! j) x (length (bs ! j))"
proof -
  obtain x where "ReadBlock port scratch rf ro (data_handle port o' bs j) e =
      Some (OK, \<lparr>bc_data = data_raw o' (bs ! j), bc_cachable = x, bc_heap_allocated = x\<rparr>)" using read_data [OF assms] by blast
  moreover have "BlockHandle_DecodeFrom (snd (idx ! j)) BlockHandle_new = (OK, data_handle port o' bs j, [])"
    using BlockHandle_DecodeFrom_image [of _ "[]"] assms by (simp add: idx_nth)
  moreover obtain y where "Block_NewIterator c (Block_new (data_raw o' (bs ! j))) = Inr y"
    "block_pos c (opt_block_restart_interval o') (bs ! j) y (length (bs ! j))"
    using built_block.NewIterator_pos [OF data_block [OF assms]] by (auto simp: data_raw_def)
  ultimately show ?thesis by (simp add: BlockReader_def fetch_block_def opened_table_def Let_def opt_cmp)
qed

lemma table_two_level: "two_level c valid AnyBlockIter_class idx ipos AnyBlockIter_class (table_block_function port scratch (the_table cache_id) ro e) bs dpos"
proof (intro two_level.intro two_level_axioms.intro)
  show "sorted_iterator c valid AnyBlockIter_class idx ipos" by (rule AnyBlockIter_sorted [OF index_block])
  show "sorted_iterator c valid AnyBlockIter_class (bs ! j) (dpos j)" if "j < length bs" for j by (rule AnyBlockIter_sorted [OF data_block [OF that]])
  show "\<exists>s i. table_block_function port scratch (the_table cache_id) ro e (snd (idx ! j)) = Some s \<and> dpos j s i" if j: "j < length bs" for j
  proof -
    obtain x cl where "BlockReader port scratch (None :: (unit, Block) Cache option) (the_table cache_id) ro (snd (idx ! j)) e () = Some (Inr x, cl, ())"
      "block_pos c (opt_block_restart_interval o') (bs ! j) x (length (bs ! j))" using BlockReader_run [OF j, of cache_id ro "()"] by blast
    then show ?thesis by (auto simp: table_block_function_def)
  qed
qed (rule idx_separates, rule idx_distinct)

abbreviation "tpos \<equiv> tl_pos AnyBlockIter_class AnyBlockIter_class idx ipos bs dpos"

lemma table_iterator_sorted: "sorted_iterator c valid (TableIter_class port scratch (the_table cache_id) ro e) kvs tpos"
  using two_level.two_level_sorted [OF table_two_level] unfolding TableIter_class_def bs_concat .

lemma table_iterator_new: "tpos (Table_NewIterator (the_table cache_id)) (length kvs)"
proof -
  obtain x where x: "Block_NewIterator c (Block_new (index_raw port o' bs)) = Inr x" "block_pos c 1 idx x (length idx)" using index_iter by blast
  then have "ipos (Inr x) (length idx)" by blast
  from two_level.new_pos [OF table_two_level this] x(1) show ?thesis
    unfolding bs_concat by (simp add: Table_NewIterator_def opened_table_def Let_def opt_cmp)
qed

text \<open>Lookups.\<close>

lemma filter_keeps:
  assumes "j < length bs" and "kv \<in> set (bs ! j)" and "opt_filter_policy o' = Some policy"
  shows "FilterBlock_KeyMayMatch policy (FilterBlockReader_new (filter_contents port o' policy bs)) (bh_offset (data_handle port o' bs j)) (fst kv) = Some True"
proof -
  have fb: "filter_block policy" using opt_policy assms(3) by (simp add: filter_block_def policy_ok_def)
  let ?calls = "filter_calls port o' bs (length bs) @ [(length (data_image port o' bs), [])]"
  obtain b m where run: "add_blocks policy ?calls FilterBlockBuilder_new = Some b"
    and ok': "fbb_ok policy b m {(off div kFilterBase, key) |off keys key. (off, keys) \<in> set ?calls \<and> key \<in> set keys}"
    using filter_block.add_blocks_run [OF fb filter_block.fbb_ok_new [OF fb] data_starts_sorted, of port o' bs "[]"] by auto
  obtain ks where fin: "fst (FilterBlockBuilder_Finish policy b) =
      filter_data policy ks @ concat (map EncodeFixed32 (map (\<lambda>i. of_nat (length (filter_data policy (take i ks)))) [0..<Suc (length ks)])) @ [11]"
    and cov: "\<forall>(i, key) \<in> {(off div kFilterBase, key) |off keys key. (off, keys) \<in> set ?calls \<and> key \<in> set keys}. i < length ks \<and> key \<in> set (ks ! i)"
    using filter_block.fbb_finished [OF fb ok'] by blast
  have fc: "filter_contents port o' policy bs = fst (FilterBlockBuilder_Finish policy b)" using run by (simp add: filter_contents_def filter_builder_def)
  have "(data_start port o' bs j, map fst (bs ! j)) \<in> set ?calls" using assms(1) by (simp add: filter_calls_def)
  with cov assms(2) have i: "data_start port o' bs j div kFilterBase < length ks" "fst kv \<in> set (ks ! (data_start port o' bs j div kFilterBase))" by fastforce+
  have "data_start port o' bs j < 2 ^ 64" using data_start_mono [of port o' bs j] image_handles_set(4) [OF blocks_image_small] by simp
  moreover have "length (filter_data policy ks) < 2 ^ 32" using small assms(3) fc fin by (simp add: table_small_def Let_def)
  ultimately show ?thesis using filter_block.KeyMayMatch_image [OF fb i refl] unfolding fc fin by (simp add: data_handle_def)
qed

lemma filter_excludes_run:
  assumes "j < length bs"
  shows "\<exists>x. filter_excludes (the_table cache_id) (snd (idx ! j)) k = Some x \<and> ((\<exists>k' \<in> fst ` set (bs ! j). filter_alike o' k k') \<longrightarrow> \<not> x)"
proof (cases "opt_filter_policy o'")
  case None
  then show ?thesis by (intro exI [of _ False]) (simp add: filter_excludes_def opened_table_def Let_def)
next
  case (Some policy)
  have d: "BlockHandle_DecodeFrom (snd (idx ! j)) BlockHandle_new = (OK, data_handle port o' bs j, [])"
    using BlockHandle_DecodeFrom_image [of _ "[]"] assms by (simp add: idx_nth)
  have "\<exists>xs. filter_contents port o' policy bs = xs @ [11]"
    by (simp add: filter_contents_def FilterBlockBuilder_Finish_def Let_def kFilterBaseLg_def)
  then obtain y where y: "FilterBlock_KeyMayMatch policy (FilterBlockReader_new (filter_contents port o' policy bs)) (bh_offset (data_handle port o' bs j)) k = Some y"
    using filter_shift_defined by fastforce
  moreover have "y" if "\<exists>k' \<in> fst ` set (bs ! j). filter_alike o' k k'"
    using filter_keeps [OF assms _ Some] y that filter_alike_match [OF _ Some] by fastforce
  ultimately show ?thesis using Some d by (simp add: filter_excludes_def opened_table_def Let_def)
qed

lemma InternalGet_run:
  assumes "valid k"
  defines "j \<equiv> entries_below c k idx"
  shows "\<exists>found. InternalGet port scratch (None :: ('c, Block) Cache option) (the_table cache_id) ro k e c0 = Some (OK, found, c0) \<and>
    (\<forall>kv. found = Some kv \<longrightarrow> j < length bs \<and> entries_below c k (bs ! j) < length (bs ! j) \<and> kv = bs ! j ! entries_below c k (bs ! j)) \<and>
    (j < length bs \<and> entries_below c k (bs ! j) < length (bs ! j) \<and> (\<exists>k' \<in> fst ` set (bs ! j). filter_alike o' k k') \<longrightarrow> found \<noteq> None)"
proof -
  let ?it = AnyBlockIter_class
  note so = AnyBlockIter_sorted [OF index_block]
  obtain x where x: "Block_NewIterator c (Block_new (index_raw port o' bs)) = Inr x" "block_pos c 1 idx x (length idx)" using index_iter by blast
  then have p0: "ipos (Inr x) (length idx)" by blast
  obtain ii where ii: "iter_Seek ?it k (Inr x) = Some ii" "ipos ii j"
    using sorted_iterator.pos_Seek [OF so p0 assms(1)] unfolding j_def by blast
  have st: "iter_status ?it ii = OK" using sorted_iterator.pos_status [OF so ii(2)] .
  have vl: "iter_Valid ?it ii \<longleftrightarrow> j < length bs" using sorted_iterator.pos_Valid [OF so ii(2)] idx_length by simp
  have tbl: "opt_comparator (tbl_options (the_table cache_id)) = c" "tbl_index_block (the_table cache_id) = Block_new (index_raw port o' bs)"
    by (simp_all add: opened_table_def Let_def opt_cmp)
  show ?thesis
  proof (cases "j < length bs")
    case False
    then show ?thesis using ii(1) st vl x(1) tbl by (simp add: InternalGet_def Let_def)
  next
    case True
    have val: "iter_value ?it ii = snd (idx ! j)" using sorted_iterator.pos_value [OF so ii(2)] True idx_length by simp
    obtain ex where ex: "filter_excludes (the_table cache_id) (snd (idx ! j)) k = Some ex" "(\<exists>k' \<in> fst ` set (bs ! j). filter_alike o' k k') \<longrightarrow> \<not> ex"
      using filter_excludes_run [OF True] by blast
    obtain y cl where br: "BlockReader port scratch (None :: ('c, Block) Cache option) (the_table cache_id) ro (snd (idx ! j)) e c0 = Some (Inr y, cl, c0)"
      "block_pos c (opt_block_restart_interval o') (bs ! j) y (length (bs ! j))" using BlockReader_run [OF True, of cache_id ro c0] by blast
    note sd = AnyBlockIter_sorted [OF data_block [OF True]]
    have dp: "dpos j (Inr y) (length (bs ! j))" using br(2) by blast
    obtain di where di: "iter_Seek ?it k (Inr y) = Some di" "dpos j di (entries_below c k (bs ! j))"
      using sorted_iterator.pos_Seek [OF sd dp assms(1)] by blast
    have d: "iter_status ?it di = OK" "iter_Valid ?it di \<longleftrightarrow> entries_below c k (bs ! j) < length (bs ! j)"
      "entries_below c k (bs ! j) < length (bs ! j) \<Longrightarrow> (iter_key ?it di, iter_value ?it di) = bs ! j ! entries_below c k (bs ! j)"
      using sorted_iterator.pos_status [OF sd di(2)] sorted_iterator.pos_Valid [OF sd di(2)] sorted_iterator.pos_key [OF sd di(2)]
        sorted_iterator.pos_value [OF sd di(2)] by (simp_all add: prod_eq_iff)
    show ?thesis
      using True ii(1) st vl x(1) tbl val ex br(1) di(1) d by (cases ex) (auto simp: InternalGet_def Let_def split: block_cleanup.split)
  qed
qed

text \<open>What a lookup calls its client with is the first pair that is not below the key, and a key of the table is found.\<close>

lemma table_get_alike:
  assumes "valid k"
  defines "n \<equiv> entries_below c k kvs"
  shows "\<exists>found. InternalGet port scratch (None :: ('c, Block) Cache option) (the_table cache_id) ro k e c0 = Some (OK, found, c0) \<and>
    (\<forall>kv. found = Some kv \<longrightarrow> n < length kvs \<and> kv = kvs ! n) \<and>
    (n < length kvs \<and> filter_alike o' k (fst (kvs ! n)) \<and>
     (\<forall>i < length bs. Compare c (separator_key o' bs i) (fst (kvs ! n)) < 0 \<longrightarrow> Compare c (separator_key o' bs i) k < 0) \<longrightarrow> found \<noteq> None)"
proof -
  note tw = table_two_level [of 0 ro]
  let ?j = "entries_below c k idx"
  obtain found where run: "InternalGet port scratch (None :: ('c, Block) Cache option) (the_table cache_id) ro k e c0 = Some (OK, found, c0)"
    and f: "\<And>kv. found = Some kv \<Longrightarrow> ?j < length bs \<and> entries_below c k (bs ! ?j) < length (bs ! ?j) \<and> kv = bs ! ?j ! entries_below c k (bs ! ?j)"
    and g: "\<lbrakk>?j < length bs; entries_below c k (bs ! ?j) < length (bs ! ?j); \<exists>k' \<in> fst ` set (bs ! ?j). filter_alike o' k k'\<rbrakk> \<Longrightarrow> found \<noteq> None"
    using InternalGet_run [OF assms(1), of cache_id ro c0] by blast
  have first: "n < length kvs \<and> kv = kvs ! n" if "found = Some kv" for kv
    using two_level.concat_below(1) [OF tw assms(1)] concat_nth_start [of ?j bs "entries_below c k (bs ! ?j)"] f [OF that] unfolding bs_concat n_def by simp
  have "found \<noteq> None" if n: "n < length kvs" and alike: "filter_alike o' k (fst (kvs ! n))"
    and sep: "\<And>i. i < length bs \<Longrightarrow> Compare c (separator_key o' bs i) (fst (kvs ! n)) < 0 \<Longrightarrow> Compare c (separator_key o' bs i) k < 0"
  proof -
    let ?kv = "kvs ! n"
    have v: "valid (fst ?kv)" using kvs_valid n by simp
    have le: "\<not> Compare c (fst ?kv) k < 0" using entries_below_nth [OF kvs_ascending kvs_valid assms(1) n] by (simp add: n_def)
    obtain i where i: "i < length bs" "?kv \<in> set (bs ! i)" using n in_concat_nth [of ?kv bs] unfolding bs_concat by auto
    have j: "?j < length bs" using two_level.concat_below(2) [OF tw assms(1)] n unfolding bs_concat n_def by fastforce
    have "\<not> i < ?j"
    proof
      assume "i < ?j"
      then have "Compare c (separator_key o' bs i) k < 0"
        using entries_below_nth [OF idx_ascending idx_valid assms(1), of i] i(1) by (simp add: idx_length idx_nth)
      moreover have "Compare c (fst ?kv) (separator_key o' bs i) \<le> 0" using idx_separates i by (force simp: separates_def idx_nth)
      ultimately show False using cmp_le_less_trans [OF v separator_props(1) [OF i(1)] assms(1)] le by simp
    qed
    moreover have "\<not> ?j < i"
    proof
      assume a: "?j < i"
      then have "Compare c (separator_key o' bs ?j) k < 0" using separator_before [OF a i] sep [OF j] by simp
      then show False using entries_below_nth [OF idx_ascending idx_valid assms(1), of ?j] j by (simp add: idx_length idx_nth)
    qed
    ultimately have ij: "i = ?j" by simp
    obtain m where m: "m < length (bs ! ?j)" "bs ! ?j ! m = ?kv" using i(2) ij by (auto simp: in_set_conv_nth)
    have "\<not> m < entries_below c k (bs ! ?j)"
      using entries_below_nth [OF block_props(2) [OF j] block_props(3) [OF j] assms(1) m(1)] le m(2) by simp
    then show "found \<noteq> None" using g [OF j] m(1) i(2) ij alike by force
  qed
  with run first show ?thesis by blast
qed

lemma table_get:
  assumes "valid k"
  shows "\<exists>found. InternalGet port scratch (None :: ('c, Block) Cache option) (the_table cache_id) ro k e c0 = Some (OK, found, c0) \<and>
    (\<forall>kv. found = Some kv \<longrightarrow> entries_below c k kvs < length kvs \<and> kv = kvs ! entries_below c k kvs) \<and>
    (\<forall>v. (k, v) \<in> set kvs \<longrightarrow> found = Some (k, v))"
proof -
  have own: "entries_below c k kvs < length kvs \<and> kvs ! entries_below c k kvs = (k, v)" if kv: "(k, v) \<in> set kvs" for v
  proof -
    obtain n where "n < length kvs" "kvs ! n = (k, v)" using kv by (auto simp: in_set_conv_nth)
    then show ?thesis using entries_below_own [OF kvs_ascending kvs_valid, of n] by simp
  qed
  obtain found where "InternalGet port scratch (None :: ('c, Block) Cache option) (the_table cache_id) ro k e c0 = Some (OK, found, c0)"
    and f: "\<And>kv. found = Some kv \<Longrightarrow> entries_below c k kvs < length kvs \<and> kv = kvs ! entries_below c k kvs"
    and g: "entries_below c k kvs < length kvs \<and> filter_alike o' k (fst (kvs ! entries_below c k kvs)) \<and>
      (\<forall>i < length bs. Compare c (separator_key o' bs i) (fst (kvs ! entries_below c k kvs)) < 0 \<longrightarrow> Compare c (separator_key o' bs i) k < 0) \<longrightarrow> found \<noteq> None"
    using table_get_alike [OF assms, of cache_id ro c0] by blast
  moreover have "found = Some (k, v)" if "(k, v) \<in> set kvs" for v using own [OF that] f g by force
  ultimately show ?thesis by blast
qed

end

subsection \<open>Tables in the in-memory environment\<close>

lemma mem_table_file:
  assumes "comparator c valid" and "lossless_port port" and "opt_comparator o' = c" and "1 \<le> opt_block_restart_interval o'" and "policy_ok o'"
    and "ascending c kvs" and "\<forall>kv \<in> set kvs. valid (fst kv)" and "table_small port o' kvs"
    and e: "mem_inv e" "mem_heap e a \<noteq> None" "mem_contents a e = []"
  shows "\<exists>r e'. write_table port o' kvs (WritableFileImpl (Some a)) e = Some (OK, r, e') \<and> FileSize r = length (mem_contents a e') \<and>
    table_file c valid port (RandomAccessFileImpl (Some a)) (mem_contents a) (\<lambda>e. \<exists>fs. mem_heap e a = Some fs \<and> fs_inv fs) o' kvs e'"
proof -
  have "sorted_wrt (\<lambda>a b. Compare c (fst b) (fst a) > 0) kvs"
    by (rule sorted_wrt_mono_rel [OF _ assms(6) [unfolded ascending_def]]) (use comparator.cmp_neg_iff [OF assms(1)] assms(7) in blast)
  then obtain r e' where w: "write_table port o' kvs (WritableFileImpl (Some a)) e = Some (OK, r, e')" "mem_inv e'" "mem_heap e' a \<noteq> None"
    "mem_contents a e' = table_image port o' kvs" "FileSize r = length (table_image port o' kvs)"
    using mem_writable.write_table_run [of e a o' kvs port] e assms(3,5,8) by (auto simp: table_small_def)
  moreover have "\<exists>fs. mem_heap e' a = Some fs \<and> fs_inv fs" using w(2,3) refs_okD(2) [of "mem_heap e'" "mem_next e'" _ "mem_open e'" a] by (auto simp: mem_inv_def)
  ultimately have "table_file c valid port (RandomAccessFileImpl (Some a)) (mem_contents a) (\<lambda>e. \<exists>fs. mem_heap e a = Some fs \<and> fs_inv fs) o' kvs e'"
    using assms by (intro table_file.intro table_file_axioms.intro mem_random.random_access_file_axioms) auto
  with w show ?thesis by auto
qed

text \<open>A table of two blocks with a filter.\<close>

definition sample_options :: Options where
  "sample_options = Options_new\<lparr>opt_block_size := 1, opt_filter_policy := Some (BloomPolicy 10)\<rparr>"

definition sample_pairs :: "(bytes \<times> bytes) list" where
  "sample_pairs = [([1], [5]), ([2], [6, 7])]"

lemma build_block_length: "length (build_block n kvs) \<le> sum_list (map (\<lambda>(k, v). length k + length v + 19) kvs) + 8"
proof -
  have "length (bb_buffer b') + 4 * length (bb_restarts b') \<le>
      length (bb_buffer b) + 4 * length (bb_restarts b) + sum_list (map (\<lambda>(k, v). length k + length v + 19) kvs)"
    if "b' = fold (\<lambda>(k, v). BlockBuilder_Add k v) kvs b" for b b'
    using that
  proof (induction kvs arbitrary: b)
    case (Cons kv kvs)
    obtain k v where kv: "kv = (k, v)" by fastforce
    have vl: "length (EncodeVarint32 w) \<le> 5" for w using length_EncodeVarint32_bounds by blast
    have "length (bb_buffer (BlockBuilder_Add k v b)) + 4 * length (bb_restarts (BlockBuilder_Add k v b)) \<le>
        length (bb_buffer b) + 4 * length (bb_restarts b) + (length k + length v + 19)"
      using vl [of 0] vl [of "word_of_nat (shared_prefix (bb_last_key b) k)"] vl [of "word_of_nat (length k - shared_prefix (bb_last_key b) k)"]
        vl [of "word_of_nat (length k)"] vl [of "word_of_nat (length v)"]
      by (cases "bb_counter b < bb_interval b") (simp_all add: BlockBuilder_Add_def Let_def PutVarint32_def)
    with Cons.IH [of "BlockBuilder_Add k v b"] Cons.prems kv show ?case by simp
  qed simp
  from this [OF refl, of "BlockBuilder_new n"] show ?thesis
    by (simp add: build_block_def BlockBuilder_Finish_def Let_def PutFixed32_def fold_PutFixed32 [unfolded PutFixed32_def] BlockBuilder_new_def
        length_concat comp_def sum_list_triv)
qed

lemma sample_blocks: "cut_blocks sample_options [] sample_pairs = [[([1], [5])], [([2], [6, 7])]]"
  by (simp add: sample_pairs_def sample_options_def CurrentSizeEstimate_def)

lemma compress_without_libraries: "compress_block port_without_libraries o' raw = (raw, kNoCompression)"
  by (simp add: compress_block_def port_without_libraries_def Snappy_Compress_def Zstd_Compress_def split: CompressionType.split)

lemma sample_sizes:
  defines "bs \<equiv> [[([1], [5])], [([2], [6, 7])]]"
  shows "b \<in> set bs \<Longrightarrow> length (data_raw sample_options b) \<le> 30"
    and "length (index_raw port_without_libraries sample_options bs) \<le> 90"
    and "length (metaindex_raw port_without_libraries sample_options bs) \<le> 90"
    and "length (filter_contents port_without_libraries sample_options (BloomPolicy 10) bs) \<le> 100"
proof -
  show b: "length (data_raw sample_options b) \<le> 30" if "b \<in> set bs" for b
    using that build_block_length [of "opt_block_restart_interval sample_options" b] by (auto simp: bs_def data_raw_def)
  have h: "length (handle_image x) \<le> 20" for x using handle_image_length [of x] by (simp add: bh_kMaxEncodedLength_def)
  have "length (separator_key sample_options bs 0) \<le> 1" "length (separator_key sample_options bs 1) \<le> 1"
    by (simp_all add: bs_def separator_key_def sample_options_def Options_new_def BytewiseComparator_def bytewise_separator_def Let_def bytewise_successor_def)
  then show "length (index_raw port_without_libraries sample_options bs) \<le> 90"
    using build_block_length [of 1 "index_entries port_without_libraries sample_options bs (length bs)"]
      h [of "data_handle port_without_libraries sample_options bs 0"] h [of "data_handle port_without_libraries sample_options bs 1"]
    by (simp add: index_raw_def index_entries_def bs_def)
  have "length (str ''filter.'' @ fp_Name (BloomPolicy 10)) = 34" by (simp add: str_def BloomPolicy_def)
  then show "length (metaindex_raw port_without_libraries sample_options bs) \<le> 90"
    using build_block_length [of "opt_block_restart_interval sample_options"
        "[(str ''filter.'' @ fp_Name (BloomPolicy 10), handle_image (filter_handle port_without_libraries sample_options (BloomPolicy 10) bs))]"]
      h [of "filter_handle port_without_libraries sample_options (BloomPolicy 10) bs"]
    by (simp add: metaindex_raw_def sample_options_def)
  have le: "data_start port_without_libraries sample_options bs j \<le> 100" for j
    using data_start_mono [of port_without_libraries sample_options bs j] b [of "[([1], [5])]"] b [of "[([2], [6, 7])]"]
    by (simp add: data_image_def bs_def stored_record_def compress_without_libraries block_record_length kBlockTrailerSize_def)
  have "data_start port_without_libraries sample_options bs j div kFilterBase = 0" for j
    by (rule div_less, rule le_less_trans [OF le]) (simp add: kFilterBase_def kFilterBaseLg_def push_bit_eq_mult)
  then have "filter_builder port_without_libraries sample_options (BloomPolicy 10) bs =
      Some \<lparr>fbb_keys = [1, 2], fbb_start = [0, 1], fbb_result = [], fbb_filter_offsets = []\<rparr>"
    by (simp add: filter_builder_def filter_calls_def bs_def StartBlock_def generate_until.simps FilterBlockBuilder_new_def AddKey_def del: data_start_all)
  then show "length (filter_contents port_without_libraries sample_options (BloomPolicy 10) bs) \<le> 100"
    by (simp add: filter_contents_def FilterBlockBuilder_Finish_def Let_def GenerateFilter_def BloomPolicy_def CreateFilter_def NewBloomFilterPolicy_def PutFixed32_def)
qed

lemma sample_small: "table_small port_without_libraries sample_options sample_pairs"
proof -
  let ?bs = "[[([1], [5])], [([2], [6, 7])]]"
  note sz = sample_sizes(1) [of "[([1], [5])]"] sample_sizes(1) [of "[([2], [6, 7])]"] sample_sizes(2-4)
  have "length (blocks_image port_without_libraries sample_options ?bs) < 1000"
    using sz by (simp add: blocks_image_def filter_record_def stored_record_def compress_without_libraries block_record_length kBlockTrailerSize_def
        data_image_def sample_options_def)
  moreover from this have "length (footer_image port_without_libraries sample_options ?bs) = 48"
    using footer_image_run(2) [of port_without_libraries sample_options ?bs] by (simp add: ft_kEncodedLength_def bh_kMaxEncodedLength_def)
  ultimately show ?thesis
    using sz by (simp add: table_small_def table_image_parts sample_blocks) (simp add: sample_options_def)
qed

lemma sample_policy: "policy_ok sample_options"
  using bloom.filter_policy_axioms by (simp add: policy_ok_def sample_options_def BloomPolicy_def)

lemma sample_ascending: "ascending BytewiseComparator sample_pairs"
  by (simp add: ascending_def sample_pairs_def BytewiseComparator_def)

definition sample_env :: MemEnv where
  "sample_env = NewMemEnv\<lparr>mem_heap := [0 \<mapsto> fs_append_loop FileState_new (table_image port_without_libraries sample_options sample_pairs)]\<rparr>"

interpretation sample_table: table_file BytewiseComparator "\<lambda>_. True" port_without_libraries "RandomAccessFileImpl (Some 0)" "mem_contents 0"
  "\<lambda>e. \<exists>fs. mem_heap e 0 = Some fs \<and> fs_inv fs" sample_options sample_pairs sample_env scratch for scratch
proof (intro table_file.intro table_file_axioms.intro)
  have new: "fs_inv FileState_new" "fs_contents FileState_new = []" by (simp_all add: FileState_new_def fs_inv_empty fs_contents_def)
  show "\<exists>fs. mem_heap sample_env 0 = Some fs \<and> fs_inv fs" "mem_contents 0 sample_env = table_image port_without_libraries sample_options sample_pairs"
    using fs_append_loop [OF new(1)] new(2) by (simp_all add: sample_env_def mem_contents_def)
qed (simp_all add: bytewise.comparator_axioms no_libraries.lossless_port_axioms mem_random.random_access_file_axioms sample_policy sample_ascending sample_small,
  simp_all add: sample_options_def Options_new_def)

definition sample_index :: "(bytes \<times> bytes) list" where
  "sample_index = index_entries port_without_libraries sample_options (cut_blocks sample_options [] sample_pairs) (length (cut_blocks sample_options [] sample_pairs))"

interpretation sample_two_level: two_level BytewiseComparator "\<lambda>_. True" AnyBlockIter_class sample_index
  "\<lambda>s i. \<exists>x. s = Inr x \<and> block_pos BytewiseComparator 1 sample_index x i" AnyBlockIter_class
  "table_block_function port_without_libraries True (opened_table port_without_libraries sample_options (RandomAccessFileImpl (Some 0)) sample_pairs 0)
     ReadOptions_new sample_env" "cut_blocks sample_options [] sample_pairs"
  "\<lambda>j s i. \<exists>x. s = Inr x \<and> block_pos BytewiseComparator (opt_block_restart_interval sample_options) (cut_blocks sample_options [] sample_pairs ! j) x i"
  unfolding sample_index_def by (rule sample_table.table_two_level)

subsection \<open>Properties\<close>

text \<open>C5: A table is a round trip. For every comparator that keeps its contract, every lossless compression library and every filter policy without
  false negatives, the builder writes strictly ascending pairs to a file of the in-memory environment without an error, the file it reports opens, and
  the iterator of the table walks exactly these pairs forwards from the first one, backwards from the last one, and forwards from the first key that
  is not below a target.\<close>
theorem table_roundtrip:
  assumes "comparator c valid" and "lossless_port port" and "opt_comparator o' = c" and "1 \<le> opt_block_restart_interval o'" and "policy_ok o'"
    and "ascending c kvs" and "\<forall>kv \<in> set kvs. valid (fst kv)" and "table_small port o' kvs"
    and "mem_inv e" and "mem_heap e a \<noteq> None" and "mem_contents a e = []" and "valid target"
  shows "\<exists>r e' t. write_table port o' kvs (WritableFileImpl (Some a)) e = Some (OK, r, e') \<and>
    Table_Open port scratch (None :: (unit, Block) Cache option) o' (RandomAccessFileImpl (Some a)) (FileSize r) e' () = Some (OK, Some t, ()) \<and>
    (let it = TableIter_class port scratch t options e'; s = Table_NewIterator t; n = Suc (length kvs)
     in Option.bind (iter_SeekToFirst it s) (iter_walk_next it n) = Some (kvs, OK) \<and>
        Option.bind (iter_SeekToLast it s) (iter_walk_prev it n) = Some (rev kvs, OK) \<and>
        Option.bind (iter_Seek it target s) (iter_walk_next it n) = Some (drop (entries_below c target kvs) kvs, OK))"
proof -
  obtain r e' where w: "write_table port o' kvs (WritableFileImpl (Some a)) e = Some (OK, r, e')" "FileSize r = length (mem_contents a e')"
    and tf: "table_file c valid port (RandomAccessFileImpl (Some a)) (mem_contents a) (\<lambda>e. \<exists>fs. mem_heap e a = Some fs \<and> fs_inv fs) o' kvs e'"
    using mem_table_file [OF assms(1-11)] by blast
  obtain cid u where "Table_Open port scratch (None :: (unit, Block) Cache option) o' (RandomAccessFileImpl (Some a)) (FileSize r) e' () =
      Some (OK, Some (opened_table port o' (RandomAccessFileImpl (Some a)) kvs cid), u)"
    using table_file.Open_run [OF tf, of scratch None "()"] w(2) by auto
  moreover note sorted_iterator.walk_all [OF table_file.table_iterator_sorted [OF tf, of scratch cid options] table_file.table_iterator_new [OF tf, of cid]]
  ultimately show ?thesis using w(1) assms(12) by (auto simp: Let_def)
qed

text \<open>C6: A lookup in a table that was written by the builder returns OK, calls its client at most once and with the first pair that is not below the
  key, and finds every key of the table: neither the index nor the filter loses one.\<close>
theorem table_lookup:
  assumes "comparator c valid" and "lossless_port port" and "opt_comparator o' = c" and "1 \<le> opt_block_restart_interval o'" and "policy_ok o'"
    and "ascending c kvs" and "\<forall>kv \<in> set kvs. valid (fst kv)" and "table_small port o' kvs"
    and "mem_inv e" and "mem_heap e a \<noteq> None" and "mem_contents a e = []" and "valid k"
  shows "\<exists>r e' t found. write_table port o' kvs (WritableFileImpl (Some a)) e = Some (OK, r, e') \<and>
    Table_Open port scratch (None :: (unit, Block) Cache option) o' (RandomAccessFileImpl (Some a)) (FileSize r) e' () = Some (OK, Some t, ()) \<and>
    InternalGet port scratch (None :: (unit, Block) Cache option) t options k e' () = Some (OK, found, ()) \<and>
    (\<forall>kv. found = Some kv \<longrightarrow> entries_below c k kvs < length kvs \<and> kv = kvs ! entries_below c k kvs) \<and>
    (\<forall>v. (k, v) \<in> set kvs \<longrightarrow> found = Some (k, v))"
proof -
  obtain r e' where w: "write_table port o' kvs (WritableFileImpl (Some a)) e = Some (OK, r, e')" "FileSize r = length (mem_contents a e')"
    and tf: "table_file c valid port (RandomAccessFileImpl (Some a)) (mem_contents a) (\<lambda>e. \<exists>fs. mem_heap e a = Some fs \<and> fs_inv fs) o' kvs e'"
    using mem_table_file [OF assms(1-11)] by blast
  obtain cid u where "Table_Open port scratch (None :: (unit, Block) Cache option) o' (RandomAccessFileImpl (Some a)) (FileSize r) e' () =
      Some (OK, Some (opened_table port o' (RandomAccessFileImpl (Some a)) kvs cid), u)"
    using table_file.Open_run [OF tf, of scratch None "()"] w(2) by auto
  with table_file.table_get [OF tf assms(12), of scratch cid options "()"] w(1) show ?thesis by auto
qed

text \<open>A new file of the in-memory environment.\<close>

lemma mem_new_file:
  "\<exists>e. mem_inv e \<and> mem_heap e 0 \<noteq> None \<and> mem_contents 0 e = []"
proof -
  let ?e = "snd (snd (mem_NewWritableFile [1] NewMemEnv))"
  have "mem_inv ?e" using mem_inv_NewWritable [OF mem_inv_new, of "[1]"] by (metis prod.collapse)
  moreover have "mem_heap ?e 0 \<noteq> None" "mem_contents 0 ?e = []"
    by (simp_all add: mem_NewWritableFile_def NewMemEnv_def mem_alloc_def FileState_Ref_def mem_update_def mem_hold_def
        FileState_new_def mem_contents_def fs_contents_def)
  ultimately show ?thesis by blast
qed

lemmas sample_facts = bytewise.comparator_axioms no_libraries.lossless_port_axioms sample_policy sample_ascending sample_small

theorem table_roundtrip_witness:
  "\<exists>e r e' t. write_table port_without_libraries sample_options sample_pairs (WritableFileImpl (Some 0)) e = Some (OK, r, e') \<and>
    Option.bind (iter_SeekToLast (TableIter_class port_without_libraries True t ReadOptions_new e') (Table_NewIterator t))
      (iter_walk_prev (TableIter_class port_without_libraries True t ReadOptions_new e') 3) = Some (rev sample_pairs, OK)"
proof -
  obtain e where e: "mem_inv e" "mem_heap e 0 \<noteq> None" "mem_contents 0 e = []" using mem_new_file by blast
  have o': "opt_comparator sample_options = BytewiseComparator" "1 \<le> opt_block_restart_interval sample_options"
    by (simp_all add: sample_options_def Options_new_def)
  have "length sample_pairs = 2" by (simp add: sample_pairs_def)
  then show ?thesis
    using table_roundtrip [OF sample_facts(1,2) o' sample_facts(3,4) _ sample_facts(5) e, where target = "[]" and scratch = True and options = ReadOptions_new]
    by (simp add: Let_def numeral_3_eq_3 del: iter_walk_next.simps iter_walk_prev.simps) blast
qed

theorem table_lookup_witness:
  "\<exists>e r e' t. write_table port_without_libraries sample_options sample_pairs (WritableFileImpl (Some 0)) e = Some (OK, r, e') \<and>
    InternalGet port_without_libraries True (None :: (unit, Block) Cache option) t ReadOptions_new [2] e' () = Some (OK, Some ([2], [6, 7]), ())"
proof -
  obtain e where e: "mem_inv e" "mem_heap e 0 \<noteq> None" "mem_contents 0 e = []" using mem_new_file by blast
  have o': "opt_comparator sample_options = BytewiseComparator" "1 \<le> opt_block_restart_interval sample_options"
    by (simp_all add: sample_options_def Options_new_def)
  obtain r e' t found where "write_table port_without_libraries sample_options sample_pairs (WritableFileImpl (Some 0)) e = Some (OK, r, e')"
    "InternalGet port_without_libraries True (None :: (unit, Block) Cache option) t ReadOptions_new [2] e' () = Some (OK, found, ())"
    "\<forall>v. ([2], v) \<in> set sample_pairs \<longrightarrow> found = Some ([2], v)"
    using table_lookup [OF sample_facts(1,2) o' sample_facts(3,4) _ sample_facts(5) e, where k = "[2]" and scratch = True and options = ReadOptions_new]
    by auto
  moreover from this(3) have "found = Some ([2], [6, 7])" by (simp add: sample_pairs_def)
  ultimately show ?thesis by blast
qed

end
