(* ===== verification/VersionTables.thy ===== *)
theory VersionTables
  imports VersionGet TableSpec
begin

text \<open>
  Versions whose files are tables: a lookup in a table of internal keys finds the newest entry it sees, through the index and the filter,
  and so a version over such tables answers every lookup by the newest entry.
\<close>

subsection \<open>Lookups in a table of internal keys\<close>

text \<open>A filter policy that does not tell apart user keys the comparator does not.\<close>

definition filter_respects :: "Comparator \<Rightarrow> (bytes \<Rightarrow> bool) \<Rightarrow> Options \<Rightarrow> bool" where
  "filter_respects c valid o' \<longleftrightarrow>
     (\<forall>k k'. ikey_ok valid k \<longrightarrow> ikey_ok valid k' \<longrightarrow> Compare c (ExtractUserKey k) (ExtractUserKey k') = 0 \<longrightarrow> filter_alike o' k k')"

locale internal_table = user_comparator c valid +
  table: table_file "InternalKeyComparator c" "valid_internal valid" port rf contents good o' "map add_pair adds" e scratch
  for c valid port and rf :: "'e RandomAccessFile" and contents good o' adds e scratch +
  assumes adds_ok: "a \<in> set adds \<Longrightarrow> add_ok valid a" and adds_distinct: "distinct (map fst adds)" and respects: "filter_respects c valid o'"
begin

abbreviation "blocks \<equiv> cut_blocks o' [] (map add_pair adds)"

lemma separator_lookup:
  assumes i: "i < length blocks" and a: "a \<in> set adds" and less: "internal_compare c (separator_key o' blocks i) (add_ikey a) < 0"
    and u: "valid u" "s \<le> kMaxSequenceNumber" and k: "Compare c (ExtractUserKey (add_ikey a)) u = 0"
    and before: "\<And>b. b \<in> set adds \<Longrightarrow> internal_compare c (add_ikey b) (add_ikey a) < 0 \<Longrightarrow>
      internal_compare c (add_ikey b) (NewInternalKey u s kValueTypeForSeek) < 0"
  shows "internal_compare c (separator_key o' blocks i) (NewInternalKey u s kValueTypeForSeek) < 0"
proof -
  have in_kvs: "\<exists>b \<in> set adds. kv = add_pair b" if "j < length blocks" "kv \<in> set (blocks ! j)" for j kv
  proof -
    have "kv \<in> set (concat blocks)" using that by auto
    then show ?thesis unfolding table.bs_concat by auto
  qed
  have vk: "valid_internal valid (add_ikey b)" "valid (ExtractUserKey (add_ikey b))" if "b \<in> set adds" for b
    using ikey_ok_valid add_ok_fields(3) [OF adds_ok [OF that]] by blast+
  obtain j where j: "j < length blocks" "add_pair a \<in> set (blocks ! j)"
    using in_concat_nth [of "add_pair a" blocks] a unfolding table.bs_concat by auto
  have "i < j"
  proof (rule ccontr)
    assume "\<not> i < j"
    then have "Compare (InternalKeyComparator c) (fst (add_pair a)) (fst (last (blocks ! i))) \<le> 0"
      using table.block_last [OF i, of "add_pair a"] table.block_before [of j i "add_pair a" "last (blocks ! i)"] table.block_props(5) [OF i] j i
      by (cases "i = j") auto
    then have "internal_compare c (add_ikey a) (separator_key o' blocks i) \<le> 0"
      using internal.cmp_trans [OF _ _ table.separator_props(1) [OF i] _ table.separator_props(2) [OF i], of "add_ikey a"]
        table.block_props(3) [OF i table.block_props(5) [OF i]] vk(1) [OF a] by simp
    then show False using less internal.cmp_le_iff [OF vk(1) [OF a] table.separator_props(1) [OF i]] by simp
  qed
  then have si: "Suc i < length blocks" using j(1) by simp
  obtain l h where l: "l \<in> set adds" "last (blocks ! i) = add_pair l" and h: "h \<in> set adds" "hd (blocks ! Suc i) = add_pair h"
    using in_kvs [OF i table.block_props(5) [OF i]] in_kvs [OF si table.block_props(4) [OF si]] by blast
  have ha: "internal_compare c (add_ikey h) (add_ikey a) \<le> 0"
    using table.block_first [of j "add_pair a"] table.block_before [of "Suc i" j "hd (blocks ! Suc i)" "add_pair a"] table.block_props(4) [OF si] j si \<open>i < j\<close> h(2)
    by (cases "Suc i = j") auto
  have sep: "separator_key o' blocks i = internal_separator c (add_ikey l) (add_ikey h)"
    using si l(2) h(2) by (simp add: separator_key_def table.opt_cmp InternalKeyComparator_def)
  from internal_separator_cases [OF vk(2) [OF l(1)] vk(2) [OF h(1)]] show ?thesis
  proof
    assume "internal_separator c (add_ikey l) (add_ikey h) = add_ikey l"
    then show ?thesis using before [OF l(1)] less sep by simp
  next
    assume "\<exists>tmp. internal_separator c (add_ikey l) (add_ikey h) = PutFixed64 tmp (PackSequenceAndType kMaxSequenceNumber kValueTypeForSeek) \<and>
       valid tmp \<and> Compare c (ExtractUserKey (add_ikey l)) tmp < 0 \<and> Compare c tmp (ExtractUserKey (add_ikey h)) < 0 \<and>
       length tmp < length (ExtractUserKey (add_ikey l))"
    then obtain tmp where tmp: "separator_key o' blocks i = PutFixed64 tmp (PackSequenceAndType kMaxSequenceNumber kValueTypeForSeek)"
      "valid tmp" "Compare c tmp (ExtractUserKey (add_ikey h)) < 0" using sep by auto
    have "Compare c tmp (ExtractUserKey (add_ikey a)) < 0"
      using cmp_less_trans [OF tmp(2) vk(2) [OF h(1)] vk(2) [OF a] tmp(3) internal_le_user [OF ha]] .
    then have "Compare c tmp u < 0" using cmp_less_trans [OF tmp(2) vk(2) [OF a] u(1)] k by simp
    then show ?thesis using tmp(1) by (simp add: internal_compare_iff)
  qed
qed

lemma table_entry:
  assumes u: "valid u" "s \<le> kMaxSequenceNumber"
  shows "\<exists>found. InternalGet port scratch (None :: ('d, Block) Cache option) (opened_table port o' rf (map add_pair adds) cache_id) ro
      (NewInternalKey u s kValueTypeForSeek) e c0 = Some (OK, found, c0) \<and>
    (\<forall>kv. found = Some kv \<longrightarrow> (\<exists>a \<in> set adds. kv = add_pair a \<and> \<not> internal_compare c (add_ikey a) (NewInternalKey u s kValueTypeForSeek) < 0)) \<and>
    (\<forall>a. newest_visible c u s adds = Some a \<longrightarrow> found = Some (add_pair a))"
proof -
  let ?k = "NewInternalKey u s kValueTypeForSeek" and ?kvs = "map add_pair adds" and ?ic = "InternalKeyComparator c"
  let ?n = "entries_below ?ic ?k ?kvs"
  have vk: "valid_internal valid ?k" using u(1) by (simp add: valid_internal_def)
  have vi: "valid_internal valid (add_ikey a)" if "add_ok valid a" for a using ikey_ok_valid(1) [OF add_ok_fields(3) [OF that]] .
  have below: "internal_compare c (add_ikey (adds ! i)) ?k < 0 \<longleftrightarrow> i < ?n" if "i < length adds" for i
    using internal.entries_below_nth [OF table.kvs_ascending table.kvs_valid vk, of i] that by simp
  obtain found where run: "InternalGet port scratch (None :: ('d, Block) Cache option) (opened_table port o' rf ?kvs cache_id) ro ?k e c0 = Some (OK, found, c0)"
    and f: "\<And>kv. found = Some kv \<Longrightarrow> ?n < length ?kvs \<and> kv = ?kvs ! ?n"
    and g: "?n < length ?kvs \<and> filter_alike o' ?k (fst (?kvs ! ?n)) \<and>
      (\<forall>i < length blocks. Compare ?ic (separator_key o' blocks i) (fst (?kvs ! ?n)) < 0 \<longrightarrow> Compare ?ic (separator_key o' blocks i) ?k < 0) \<longrightarrow> found \<noteq> None"
    using table.table_get_alike [OF vk, of cache_id ro c0] by blast
  have "\<exists>a \<in> set adds. kv = add_pair a \<and> \<not> internal_compare c (add_ikey a) ?k < 0" if "found = Some kv" for kv
    using f [OF that] below [of ?n] by (intro bexI [of _ "adds ! ?n"]) auto
  moreover have "found = Some (add_pair a)" if nv: "newest_visible c u s adds = Some a" for a
  proof -
    note a = newest_visible_Some [OF nv]
    have ao: "add_ok valid a" using adds_ok a by blast
    obtain i where i: "i < length adds" "adds ! i = a" using a by (auto simp: in_set_conv_nth)
    have "\<not> internal_compare c (add_ikey a) ?k < 0" using below_lookup [OF ao u(2)] a by blast
    then have ni: "?n \<le> i" using below [OF i(1)] i(2) by simp
    then have n: "?n < length adds" using i(1) by simp
    let ?b = "adds ! ?n"
    have b: "?b \<in> set adds" "add_ok valid ?b" using n adds_ok by simp_all
    have ab: "?b = a \<or> internal_compare c (add_ikey ?b) (add_ikey a) < 0"
      using ascending_nth [OF table.kvs_ascending, of ?n i] ni i by (cases "?n = i") auto
    have v: "valid (ExtractUserKey (add_ikey a))" "valid (ExtractUserKey (add_ikey ?b))" using add_ok_fields(2) ao b(2) by blast+
    have "Compare c (ExtractUserKey (add_ikey ?b)) u \<le> 0"
      using ab a cmp_trans [OF v(2,1) u(1) internal_less_user] by (auto simp: visible_user)
    then have vis: "visible c u s ?b" using below [OF n] below_lookup [OF b(2) u(2), of u] by auto
    have "?b = a"
    proof (rule ccontr)
      assume ne: "?b \<noteq> a"
      then have "internal_compare c (add_ikey ?b) (add_ikey a) < 0" using ab by blast
      moreover have "Compare c (ExtractUserKey (add_ikey ?b)) (ExtractUserKey (add_ikey a)) = 0" using same_user_adds [OF b(2) ao u(1) vis] a by blast
      ultimately have "internal_tag (add_ikey a) < internal_tag (add_ikey ?b)" by (simp add: internal_compare_iff)
      then have "fst a \<le> fst ?b" by (rule add_tag_less [OF ao b(2)])
      then have "fst a = fst ?b" using a vis b(1) by (simp add: order_antisym)
      then show False using ne adds_distinct a b(1) by (metis eq_key_imp_eq_value prod.collapse)
    qed
    moreover have "found \<noteq> None"
    proof (rule g [THEN mp], intro conjI allI impI)
      show "?n < length ?kvs" using n by simp
      show "filter_alike o' ?k (fst (?kvs ! ?n))"
        using respects n b u vis cmp_zero_iff [OF v(2) u(1)] add_ok_fields(3) [OF b(2)] by (auto simp: filter_respects_def visible_user)
      fix m assume m: "m < length blocks" "Compare ?ic (separator_key o' blocks m) (fst (?kvs ! ?n)) < 0"
      have "internal_compare c (separator_key o' blocks m) ?k < 0"
      proof (rule separator_lookup [OF m(1) b(1) _ u])
        show "internal_compare c (separator_key o' blocks m) (add_ikey ?b) < 0" using m(2) n by simp
        show "Compare c (ExtractUserKey (add_ikey ?b)) u = 0" using vis by (simp add: visible_user)
        fix d assume d: "d \<in> set adds" "internal_compare c (add_ikey d) (add_ikey ?b) < 0"
        obtain p where p: "p < length adds" "adds ! p = d" using d(1) by (auto simp: in_set_conv_nth)
        have "p < ?n"
        proof (rule ccontr)
          assume "\<not> p < ?n"
          then have "d = ?b \<or> internal_compare c (add_ikey ?b) (add_ikey d) < 0"
            using ascending_nth [OF table.kvs_ascending, of ?n p] p by (cases "p = ?n") auto
          then show False
            using d(2) internal.cmp_refl [OF vi [OF b(2)]] internal.cmp_neg_iff [OF vi [OF b(2)] vi [OF adds_ok [OF d(1)]]] by auto
        qed
        then show "internal_compare c (add_ikey d) ?k < 0" using below [OF p(1)] p(2) by simp
      qed
      then show "Compare ?ic (separator_key o' blocks m) ?k < 0" by simp
    qed
    ultimately show ?thesis using f n by fastforce
  qed
  ultimately show ?thesis using run by blast
qed

end

subsection \<open>The tables of a version\<close>

text \<open>What \<open>TableCache::Get\<close> does for a table that is not in its cache: open the file and look the key up.\<close>

definition fresh_table_get ::
  "compression_port \<Rightarrow> bool \<Rightarrow> Options \<Rightarrow> ReadOptions \<Rightarrow> (u64 \<Rightarrow> 'e RandomAccessFile) \<Rightarrow> 'e \<Rightarrow> unit table_get" where
  "fresh_table_get port scratch options ro files e number sz k x =
     Option.bind (Table_Open port scratch (None :: (unit, Block) Cache option) options (files number) (unat sz) e x) (\<lambda>(s, table, x).
       case table of
         None \<Rightarrow> Some (s, None, x)
       | Some t \<Rightarrow> InternalGet port scratch (None :: (unit, Block) Cache option) t ro k e x)"

definition stored_file ::
  "Comparator \<Rightarrow> (bytes \<Rightarrow> bool) \<Rightarrow> compression_port \<Rightarrow> bool \<Rightarrow> Options \<Rightarrow> (u64 \<Rightarrow> 'e RandomAccessFile) \<Rightarrow> (u64 \<Rightarrow> 'e \<Rightarrow> bytes) \<Rightarrow>
   (u64 \<Rightarrow> 'e \<Rightarrow> bool) \<Rightarrow> (u64 \<Rightarrow> mem_add list) \<Rightarrow> 'e \<Rightarrow> FileMetaData \<Rightarrow> bool" where
  "stored_file c valid port scratch o' files bytes_of good contents e f \<longleftrightarrow>
     internal_table c valid port (files (fm_number f)) (bytes_of (fm_number f)) (good (fm_number f)) o' (contents (fm_number f)) e \<and>
     unat (fm_file_size f) = length (bytes_of (fm_number f) e) \<and> holds_file c valid (contents (fm_number f)) f"

lemma stored_lookups:
  assumes "user_comparator c valid"
  shows "table_lookups c valid (fresh_table_get port scratch o' ro files e) contents
    (stored_file c valid port scratch o' files bytes_of good contents e) (\<lambda>_. True)"
proof (intro table_lookups.intro table_lookups_axioms.intro assms)
  fix f u s and x :: unit
  assume f: "stored_file c valid port scratch o' files bytes_of good contents e f"
  then show "holds_file c valid (contents (fm_number f)) f" by (simp add: stored_file_def)
  have it: "internal_table c valid port (files (fm_number f)) (bytes_of (fm_number f)) (good (fm_number f)) o' (contents (fm_number f)) e"
    and sz: "unat (fm_file_size f) = length (bytes_of (fm_number f) e)" using f by (simp_all add: stored_file_def)
  then have tf: "table_file (InternalKeyComparator c) (valid_internal valid) port (files (fm_number f)) (bytes_of (fm_number f)) (good (fm_number f)) o'
      (map add_pair (contents (fm_number f))) e" by (simp add: internal_table_def)
  assume u: "valid u" "s \<le> kMaxSequenceNumber"
  obtain cid x' where "Table_Open port scratch (None :: (unit, Block) Cache option) o' (files (fm_number f)) (unat (fm_file_size f)) e x =
      Some (OK, Some (opened_table port o' (files (fm_number f)) (map add_pair (contents (fm_number f))) cid), x')"
    using table_file.Open_run [OF tf, of scratch None x] sz by auto
  with internal_table.table_entry [OF it u, of scratch cid ro x']
  show "\<exists>found x'. fresh_table_get port scratch o' ro files e (fm_number f) (fm_file_size f) (NewInternalKey u s kValueTypeForSeek) x = Some (OK, found, x') \<and>
      True \<and> (\<forall>kv. found = Some kv \<longrightarrow> (\<exists>a \<in> set (contents (fm_number f)). kv = add_pair a \<and>
         \<not> internal_compare c (add_ikey a) (NewInternalKey u s kValueTypeForSeek) < 0)) \<and>
      (\<forall>a. newest_visible c u s (contents (fm_number f)) = Some a \<longrightarrow> found = Some (add_pair a))"
    by (simp add: fresh_table_get_def)
qed

text \<open>The tables of the in-memory environment with bytewise user keys, each in the file of its number.\<close>

definition mem_table_files :: "u64 \<Rightarrow> MemEnv RandomAccessFile" where
  "mem_table_files number = RandomAccessFileImpl (Some (unat number))"

abbreviation (input) mem_stored :: "Options \<Rightarrow> bool \<Rightarrow> (u64 \<Rightarrow> mem_add list) \<Rightarrow> MemEnv \<Rightarrow> FileMetaData \<Rightarrow> bool" where
  "mem_stored o' scratch contents e \<equiv> stored_file BytewiseComparator (\<lambda>_. True) port_without_libraries scratch o' mem_table_files
     (\<lambda>n. mem_contents (unat n)) (\<lambda>n e. \<exists>fs. mem_heap e (unat n) = Some fs \<and> fs_inv fs) contents e"

interpretation mem_tables: table_lookups BytewiseComparator "\<lambda>_. True" "fresh_table_get port_without_libraries scratch o' ro mem_table_files e" contents
  "mem_stored o' scratch contents e" "\<lambda>_. True" for scratch o' ro e contents
  by (rule stored_lookups [OF bytewise_user.user_comparator_axioms])

text \<open>A table with one entry.\<close>

definition one_options :: Options where
  "one_options = Options_new\<lparr>opt_comparator := InternalKeyComparator BytewiseComparator\<rparr>"

definition one_add :: mem_add where
  "one_add = (5, kTypeValue, [1], [7])"

lemma one_blocks: "cut_blocks one_options [] (map add_pair [one_add]) = [[add_pair one_add]]"
  by (simp add: add_pair_def one_add_def)

lemma one_small: "table_small port_without_libraries one_options (map add_pair [one_add])"
proof -
  let ?bs = "[[add_pair one_add]]"
  have d: "length (data_raw one_options [add_pair one_add]) \<le> 60"
    using build_block_length [of "opt_block_restart_interval one_options" "[add_pair one_add]"] by (simp add: data_raw_def add_pair_def one_add_def)
  have h: "length (handle_image x) \<le> 20" for x using handle_image_length [of x] by (simp add: bh_kMaxEncodedLength_def)
  have s: "length (separator_key one_options ?bs 0) \<le> 10"
    by (simp add: separator_key_def one_options_def InternalKeyComparator_def internal_successor_def Let_def BytewiseComparator_def
        bytewise_successor_def add_pair_def one_add_def)
  then have x: "length (index_raw port_without_libraries one_options ?bs) \<le> 90"
    using build_block_length [of 1 "index_entries port_without_libraries one_options ?bs (length ?bs)"] h [of "data_handle port_without_libraries one_options ?bs 0"]
    by (simp add: index_raw_def index_entries_def)
  have nf: "opt_filter_policy one_options = None" by (simp add: one_options_def Options_new_def)
  then have m: "length (metaindex_raw port_without_libraries one_options ?bs) \<le> 90"
    using build_block_length [of "opt_block_restart_interval one_options" "[]"] by (simp add: metaindex_raw_def)
  have "length (blocks_image port_without_libraries one_options ?bs) < 1000"
    using d x m nf by (simp add: blocks_image_def filter_record_def stored_record_def compress_without_libraries block_record_length kBlockTrailerSize_def data_image_def)
  moreover from this have "length (footer_image port_without_libraries one_options ?bs) = 48"
    using footer_image_run(2) [of port_without_libraries one_options ?bs] by (simp add: ft_kEncodedLength_def bh_kMaxEncodedLength_def)
  ultimately show ?thesis using d x m nf by (simp add: table_small_def table_image_parts one_blocks Let_def)
qed

definition one_env :: MemEnv where
  "one_env = NewMemEnv\<lparr>mem_heap := [9 \<mapsto> fs_append_loop FileState_new (table_image port_without_libraries one_options (map add_pair [one_add]))]\<rparr>"

interpretation one_table: internal_table BytewiseComparator "\<lambda>_. True" port_without_libraries "RandomAccessFileImpl (Some 9)" "mem_contents 9"
  "\<lambda>e. \<exists>fs. mem_heap e 9 = Some fs \<and> fs_inv fs" one_options "[one_add]" one_env scratch for scratch
proof (intro internal_table.intro internal_table_axioms.intro table_file.intro table_file_axioms.intro bytewise_user.user_comparator_axioms)
  show "comparator (InternalKeyComparator BytewiseComparator) (valid_internal (\<lambda>_. True))" by (rule bytewise_user.internal.comparator_axioms)
  have new: "fs_inv FileState_new" "fs_contents FileState_new = []" by (simp_all add: FileState_new_def fs_inv_empty fs_contents_def)
  show "\<exists>fs. mem_heap one_env 9 = Some fs \<and> fs_inv fs"
    "mem_contents 9 one_env = table_image port_without_libraries one_options (map add_pair [one_add])"
    using fs_append_loop [OF new(1)] new(2) by (simp_all add: one_env_def mem_contents_def)
qed (use no_libraries.lossless_port_axioms mem_random.random_access_file_axioms one_small in
  \<open>simp_all add: one_options_def Options_new_def policy_ok_def ascending_def valid_internal_def add_ok_def one_add_def kMaxSequenceNumber_def
     filter_respects_def filter_alike_def add_ikey_def\<close>)

subsection \<open>Properties\<close>

text \<open>C3: A lookup in a version answers by the newest entry it should see. Let the user comparator be a total preorder, every file of the version
  be a table that holds its entries, and the levels be in order: files of a level above 0 are disjoint and ascending, and of two entries of
  one user key the newer one is in the file with the larger number on level 0, or on the lower level. Then \<open>Version::Get\<close> returns; it
  gives the value of the entry with the largest sequence number among all entries of all files for this user key that are not newer than the
  sequence number of the lookup, and a not-found status when that entry is a deletion or there is none. The binary search of a level finds
  the right file also when the entries of one user key continue in the next file.\<close>
theorem version_get_newest:
  assumes "user_comparator c valid" and "version_ok c contents v"
    and "list_all (stored_file c valid port scratch o' files bytes_of good contents e) (version_files v)"
    and "valid u" and "s \<le> kMaxSequenceNumber"
  shows "\<exists>st value stats. Version_Get c (fresh_table_get port scratch o' ro files e) (NewLookupKey u s) val v () = Some (st, value, stats, ()) \<and>
    (st, value) = get_result val (newest_visible c u s (version_adds contents v))"
  using table_lookups.Version_Get_run [OF stored_lookups [OF assms(1)] assms(2-5), where x = "()"] by auto

theorem version_get_newest_witness:
  "\<exists>v stats. v_files v 2 \<noteq> [] \<and>
    Version_Get BytewiseComparator (fresh_table_get port_without_libraries True one_options ReadOptions_new mem_table_files one_env)
      (NewLookupKey [1] 6) [] v () = Some (OK, [7], stats, ())"
proof -
  let ?k = "NewInternalKey [1] 5 kTypeValue"
  let ?f = "FileMetaData_new 9 (of_nat (length (mem_contents 9 one_env))) ?k ?k" and ?contents = "\<lambda>n :: u64. [one_add]"
  let ?v = "Version_new\<lparr>v_files := (\<lambda>_. [])(2 := [?f])\<rparr>"
  have files: "version_files ?v = [?f]" by (simp add: version_files_def kNumLevels_def upt_conv_Cons)
  then have adds: "version_adds ?contents ?v = [one_add]" by (simp add: version_adds_def)
  have ok: "version_ok BytewiseComparator ?contents ?v" using files adds by (auto simp: version_ok_def level_sorted_def)
  have "length (mem_contents 9 one_env) < 2 ^ 64" using one_table.table.file_contents one_small by (simp add: table_small_def)
  then have "mem_stored one_options True ?contents one_env ?f"
    using one_table.internal_table_axioms
    by (simp add: stored_file_def FileMetaData_new_def mem_table_files_def word_of_nat_unat_less holds_file_def file_ok_def one_add_def add_ok_def
        add_ikey_def internal_compare_iff kMaxSequenceNumber_def BytewiseComparator_def)
  then have st: "list_all (mem_stored one_options True ?contents one_env) (version_files ?v)" using files by simp
  have r: "get_result [] (newest_visible BytewiseComparator [1] 6 [one_add]) = (OK, [7])"
    by (simp add: get_result_def one_add_def visible_def BytewiseComparator_def)
  from version_get_newest [OF bytewise_user.user_comparator_axioms ok st, where u = "[1]" and s = 6 and ro = ReadOptions_new and val = "[]"] r adds obtain stats where
    "Version_Get BytewiseComparator (fresh_table_get port_without_libraries True one_options ReadOptions_new mem_table_files one_env)
      (NewLookupKey [1] 6) [] ?v () = Some (OK, [7], stats, ())" by (auto simp: kMaxSequenceNumber_def)
  then show ?thesis by (intro exI [of _ ?v] exI [of _ stats]) simp
qed

end
