(* ===== verification/Compaction.thy ===== *)
theory Compaction
  imports VersionGet
begin

text \<open>
  Choosing the inputs of a compaction: the second half of \<open>db/version_set.cc\<close>. Reference counts of versions are left out: a compaction
  holds its input version as a value.
\<close>

subsection \<open>The version set\<close>

record VersionSet =
  vs_options :: Options
  vs_user_comparator :: Comparator
  vs_next_file_number :: u64
  vs_manifest_file_number :: u64
  vs_last_sequence :: u64
  vs_log_number :: u64
  vs_prev_log_number :: u64
  vs_current :: Version
  vs_compact_pointer :: "nat \<Rightarrow> bytes"

definition NewFileNumber :: "VersionSet \<Rightarrow> u64 \<times> VersionSet" where
  "NewFileNumber vs = (vs_next_file_number vs, vs\<lparr>vs_next_file_number := vs_next_file_number vs + 1\<rparr>)"

definition ReuseFileNumber :: "u64 \<Rightarrow> VersionSet \<Rightarrow> VersionSet" where
  "ReuseFileNumber file_number vs =
     (if vs_next_file_number vs = file_number + 1 then vs\<lparr>vs_next_file_number := file_number\<rparr> else vs)"

definition MarkFileNumberUsed :: "u64 \<Rightarrow> VersionSet \<Rightarrow> VersionSet" where
  "MarkFileNumberUsed number vs =
     (if vs_next_file_number vs \<le> number then vs\<lparr>vs_next_file_number := number + 1\<rparr> else vs)"

definition vs_SetLastSequence :: "u64 \<Rightarrow> VersionSet \<Rightarrow> VersionSet option" where
  "vs_SetLastSequence s vs = (if s \<ge> vs_last_sequence vs then Some (vs\<lparr>vs_last_sequence := s\<rparr>) else None)"

definition NeedsCompaction :: "VersionSet \<Rightarrow> bool" where
  "NeedsCompaction vs \<longleftrightarrow> v_compaction_score (vs_current vs) \<ge> 1 \<or> v_file_to_compact (vs_current vs) \<noteq> None"

definition AddLiveFiles :: "Version list \<Rightarrow> u64 set \<Rightarrow> u64 set" where
  "AddLiveFiles versions live =
     fold (\<lambda>v live. fold (\<lambda>level live. fold (\<lambda>f. insert (fm_number f)) (v_files v level) live) [0..<kNumLevels] live) versions live"

subsection \<open>Ranges\<close>

definition GetRange :: "Comparator \<Rightarrow> FileMetaData list \<Rightarrow> (bytes \<times> bytes) option" where
  "GetRange c inputs =
     (case inputs of
        [] \<Rightarrow> None
      | f # fs \<Rightarrow>
          Some (fold (\<lambda>f (smallest, largest).
                   (if internal_compare c (fm_smallest f) smallest < 0 then fm_smallest f else smallest,
                    if internal_compare c (fm_largest f) largest > 0 then fm_largest f else largest)) fs (fm_smallest f, fm_largest f)))"

definition GetRange2 :: "Comparator \<Rightarrow> FileMetaData list \<Rightarrow> FileMetaData list \<Rightarrow> (bytes \<times> bytes) option" where
  "GetRange2 c inputs1 inputs2 = GetRange c (inputs1 @ inputs2)"

definition FindLargestKey :: "Comparator \<Rightarrow> FileMetaData list \<Rightarrow> bytes option" where
  "FindLargestKey c files =
     (case files of
        [] \<Rightarrow> None
      | f # fs \<Rightarrow>
          Some (fold (\<lambda>f largest_key. if internal_compare c (fm_largest f) largest_key > 0 then fm_largest f else largest_key) fs (fm_largest f)))"

definition FindSmallestBoundaryFile :: "Comparator \<Rightarrow> FileMetaData list \<Rightarrow> bytes \<Rightarrow> FileMetaData option" where
  "FindSmallestBoundaryFile c level_files largest_key =
     fold (\<lambda>f smallest_boundary_file.
        if internal_compare c (fm_smallest f) largest_key > 0 \<and>
           Compare c (ExtractUserKey (fm_smallest f)) (ExtractUserKey largest_key) = 0
        then (case smallest_boundary_file of
                None \<Rightarrow> Some f
              | Some g \<Rightarrow> if internal_compare c (fm_smallest f) (fm_smallest g) < 0 then Some f else Some g)
        else smallest_boundary_file) level_files None"

partial_function (option) boundary_loop ::
  "Comparator \<Rightarrow> FileMetaData list \<Rightarrow> bytes \<Rightarrow> FileMetaData list \<Rightarrow> FileMetaData list option" where
  "boundary_loop c level_files largest_key compaction_files =
     (case FindSmallestBoundaryFile c level_files largest_key of
        Some f \<Rightarrow> boundary_loop c level_files (fm_largest f) (compaction_files @ [f])
      | None \<Rightarrow> Some compaction_files)"

definition AddBoundaryInputs :: "Comparator \<Rightarrow> FileMetaData list \<Rightarrow> FileMetaData list \<Rightarrow> FileMetaData list option" where
  "AddBoundaryInputs c level_files compaction_files =
     (case FindLargestKey c compaction_files of
        None \<Rightarrow> Some compaction_files
      | Some largest_key \<Rightarrow> boundary_loop c level_files largest_key compaction_files)"

subsection \<open>Compactions\<close>

record Compaction =
  cp_level :: nat
  cp_max_output_file_size :: nat
  cp_input_version :: Version
  cp_edit :: VersionEdit
  cp_inputs0 :: "FileMetaData list"
  cp_inputs1 :: "FileMetaData list"
  cp_grandparents :: "FileMetaData list"
  cp_grandparent_index :: nat
  cp_seen_key :: bool
  cp_overlapped_bytes :: u64
  cp_level_ptrs :: "nat \<Rightarrow> nat"

definition Compaction_new :: "Options \<Rightarrow> nat \<Rightarrow> Version \<Rightarrow> Compaction" where
  "Compaction_new options level v =
     \<lparr>cp_level = level, cp_max_output_file_size = MaxFileSizeForLevel options level, cp_input_version = v, cp_edit = VersionEdit_Clear,
      cp_inputs0 = [], cp_inputs1 = [], cp_grandparents = [], cp_grandparent_index = 0, cp_seen_key = False, cp_overlapped_bytes = 0,
      cp_level_ptrs = (\<lambda>_. 0)\<rparr>"

text \<open>The attempt to take more files of the level when that needs no more files of the next one: the new inputs and their range.\<close>

definition expand_inputs ::
  "Comparator \<Rightarrow> Options \<Rightarrow> Version \<Rightarrow> nat \<Rightarrow> FileMetaData list \<Rightarrow> FileMetaData list \<Rightarrow> bytes \<Rightarrow> bytes \<Rightarrow> bytes \<Rightarrow>
   (FileMetaData list \<times> FileMetaData list \<times> bytes \<times> bytes \<times> bytes) option" where
  "expand_inputs c options v level inputs0 inputs1 all_start all_limit largest =
     (if inputs1 = [] then Some (inputs0, inputs1, all_start, all_limit, largest)
      else
        Option.bind (GetOverlappingInputs c level (Some all_start) (Some all_limit) v) (\<lambda>expanded0.
        Option.bind (AddBoundaryInputs c (v_files v level) expanded0) (\<lambda>expanded0.
          if length expanded0 > length inputs0 \<and>
             sint (of_int (TotalFileSize inputs1 + TotalFileSize expanded0) :: u64) < ExpandedCompactionByteSizeLimit options
          then
            Option.bind (GetRange c expanded0) (\<lambda>(new_start, new_limit).
            Option.bind (GetOverlappingInputs c (level + 1) (Some new_start) (Some new_limit) v) (\<lambda>expanded1.
            Option.bind (AddBoundaryInputs c (v_files v (level + 1)) expanded1) (\<lambda>expanded1.
              if length expanded1 = length inputs1 then
                map_option (\<lambda>(all_start, all_limit). (expanded0, expanded1, all_start, all_limit, new_limit)) (GetRange2 c expanded0 expanded1)
              else Some (inputs0, inputs1, all_start, all_limit, largest))))
          else Some (inputs0, inputs1, all_start, all_limit, largest))))"

definition SetupOtherInputs :: "Compaction \<Rightarrow> VersionSet \<Rightarrow> (Compaction \<times> VersionSet) option" where
  "SetupOtherInputs cp vs =
     (let level = cp_level cp; c = vs_user_comparator vs; v = vs_current vs
      in Option.bind (AddBoundaryInputs c (v_files v level) (cp_inputs0 cp)) (\<lambda>inputs0.
         Option.bind (GetRange c inputs0) (\<lambda>(smallest, largest).
         Option.bind (GetOverlappingInputs c (level + 1) (Some smallest) (Some largest) v) (\<lambda>inputs1.
         Option.bind (AddBoundaryInputs c (v_files v (level + 1)) inputs1) (\<lambda>inputs1.
         Option.bind (GetRange2 c inputs0 inputs1) (\<lambda>(all_start, all_limit).
         Option.bind (expand_inputs c (vs_options vs) v level inputs0 inputs1 all_start all_limit largest)
           (\<lambda>(inputs0, inputs1, all_start, all_limit, largest).
         Option.bind
           (if level + 2 < kNumLevels then GetOverlappingInputs c (level + 2) (Some all_start) (Some all_limit) v else Some (cp_grandparents cp))
           (\<lambda>grandparents.
           Some (cp\<lparr>cp_inputs0 := inputs0, cp_inputs1 := inputs1, cp_grandparents := grandparents,
                    cp_edit := SetCompactPointer level largest (cp_edit cp)\<rparr>,
                 vs\<lparr>vs_compact_pointer := (vs_compact_pointer vs)(level := largest)\<rparr>)))))))))"

text \<open>The file to start from, and the compaction that starts from it.\<close>

definition picked_file :: "VersionSet \<Rightarrow> (nat \<times> FileMetaData) option option" where
  "picked_file vs =
     (let v = vs_current vs
      in if v_compaction_score v \<ge> 1 then
           (if v_compaction_level v \<ge> 0 \<and> v_compaction_level v + 1 < int kNumLevels then
              (let level = nat (v_compaction_level v);
                   after = filter (\<lambda>f. vs_compact_pointer vs level = [] \<or>
                                       internal_compare (vs_user_comparator vs) (fm_largest f) (vs_compact_pointer vs level) > 0) (v_files v level)
               in case (after, v_files v level) of
                    (f # _, _) \<Rightarrow> Some (Some (level, f))
                  | ([], f # _) \<Rightarrow> Some (Some (level, f))
                  | ([], []) \<Rightarrow> None)
            else None)
         else
           (case v_file_to_compact v of
              Some f \<Rightarrow> Some (Some (nat (v_file_to_compact_level v), f))
            | None \<Rightarrow> Some None))"

definition compaction_from :: "nat \<Rightarrow> FileMetaData \<Rightarrow> VersionSet \<Rightarrow> (Compaction \<times> VersionSet) option" where
  "compaction_from level f vs =
     (let v = vs_current vs; c = vs_user_comparator vs; cp = Compaction_new (vs_options vs) level v
      in Option.bind
           (if level = 0 then
              Option.bind (GetRange c [f]) (\<lambda>(smallest, largest).
              Option.bind (GetOverlappingInputs c 0 (Some smallest) (Some largest) v) (\<lambda>inputs. if inputs \<noteq> [] then Some inputs else None))
            else Some [f])
           (\<lambda>inputs. SetupOtherInputs (cp\<lparr>cp_inputs0 := inputs\<rparr>) vs))"

definition PickCompaction :: "VersionSet \<Rightarrow> (Compaction option \<times> VersionSet) option" where
  "PickCompaction vs =
     Option.bind (picked_file vs) (\<lambda>picked.
       case picked of
         None \<Rightarrow> Some (None, vs)
       | Some (level, f) \<Rightarrow> map_option (\<lambda>(cp, vs). (Some cp, vs)) (compaction_from level f vs))"

text \<open>The first files up to a total size.\<close>

fun limit_inputs :: "u64 \<Rightarrow> u64 \<Rightarrow> FileMetaData list \<Rightarrow> FileMetaData list" where
  "limit_inputs limit tot [] = []"
| "limit_inputs limit tot (f # fs) =
     (let tot = tot + fm_file_size f in if tot \<ge> limit then [f] else f # limit_inputs limit tot fs)"

definition CompactRange :: "nat \<Rightarrow> bytes option \<Rightarrow> bytes option \<Rightarrow> VersionSet \<Rightarrow> (Compaction option \<times> VersionSet) option" where
  "CompactRange level begin' end' vs =
     Option.bind (GetOverlappingInputs (vs_user_comparator vs) level begin' end' (vs_current vs)) (\<lambda>inputs.
       if inputs = [] then Some (None, vs)
       else
         (let inputs = (if level > 0 then limit_inputs (of_nat (MaxFileSizeForLevel (vs_options vs) level)) 0 inputs else inputs);
              cp = (Compaction_new (vs_options vs) level (vs_current vs))\<lparr>cp_inputs0 := inputs\<rparr>
          in map_option (\<lambda>(cp, vs). (Some cp, vs)) (SetupOtherInputs cp vs)))"

definition IsTrivialMove :: "Options \<Rightarrow> Compaction \<Rightarrow> bool" where
  "IsTrivialMove options cp \<longleftrightarrow> length (cp_inputs0 cp) = 1 \<and> length (cp_inputs1 cp) = 0 \<and>
     TotalFileSize (cp_grandparents cp) \<le> MaxGrandParentOverlapBytes options"

definition AddInputDeletions :: "Compaction \<Rightarrow> VersionEdit \<Rightarrow> VersionEdit" where
  "AddInputDeletions cp edit =
     fold (\<lambda>f. VersionEdit_RemoveFile (cp_level cp + 1) (fm_number f)) (cp_inputs1 cp)
       (fold (\<lambda>f. VersionEdit_RemoveFile (cp_level cp) (fm_number f)) (cp_inputs0 cp) edit)"

text \<open>The scan of one level from its pointer: the pointer after it, and whether the key falls in the file it stops at.\<close>

function base_level_scan :: "Comparator \<Rightarrow> bytes \<Rightarrow> FileMetaData list \<Rightarrow> nat \<Rightarrow> nat \<times> bool" where
  "base_level_scan user_cmp user_key files i =
     (if i < length files then
        (let f = files ! i
         in if Compare user_cmp user_key (ExtractUserKey (fm_largest f)) \<le> 0
            then (i, Compare user_cmp user_key (ExtractUserKey (fm_smallest f)) \<ge> 0)
            else base_level_scan user_cmp user_key files (i + 1))
      else (i, False))"
  by pat_completeness auto

termination by (relation "measure (\<lambda>(user_cmp, user_key, files, i). length files - i)") auto

declare base_level_scan.simps [simp del]

primrec base_level_loop :: "Comparator \<Rightarrow> bytes \<Rightarrow> Version \<Rightarrow> nat list \<Rightarrow> (nat \<Rightarrow> nat) \<Rightarrow> bool \<times> (nat \<Rightarrow> nat)" where
  "base_level_loop user_cmp user_key v [] ptrs = (True, ptrs)"
| "base_level_loop user_cmp user_key v (lvl # lvls) ptrs =
     (let (i, inside) = base_level_scan user_cmp user_key (v_files v lvl) (ptrs lvl);
          ptrs = ptrs(lvl := i)
      in if inside then (False, ptrs) else base_level_loop user_cmp user_key v lvls ptrs)"

definition IsBaseLevelForKey :: "Comparator \<Rightarrow> bytes \<Rightarrow> Compaction \<Rightarrow> bool \<times> Compaction" where
  "IsBaseLevelForKey user_cmp user_key cp =
     (let (base, ptrs) = base_level_loop user_cmp user_key (cp_input_version cp) [cp_level cp + 2..<kNumLevels] (cp_level_ptrs cp)
      in (base, cp\<lparr>cp_level_ptrs := ptrs\<rparr>))"

function grandparent_scan :: "Comparator \<Rightarrow> bytes \<Rightarrow> FileMetaData list \<Rightarrow> bool \<Rightarrow> nat \<Rightarrow> u64 \<Rightarrow> nat \<times> u64" where
  "grandparent_scan c internal_key grandparents seen i overlapped =
     (if i < length grandparents \<and> internal_compare c internal_key (fm_largest (grandparents ! i)) > 0
      then grandparent_scan c internal_key grandparents seen (i + 1) (if seen then overlapped + fm_file_size (grandparents ! i) else overlapped)
      else (i, overlapped))"
  by pat_completeness auto

termination by (relation "measure (\<lambda>(c, key, gs, seen, i, o'). length gs - i)") auto

declare grandparent_scan.simps [simp del]

definition ShouldStopBefore :: "Comparator \<Rightarrow> Options \<Rightarrow> bytes \<Rightarrow> Compaction \<Rightarrow> bool \<times> Compaction" where
  "ShouldStopBefore c options internal_key cp =
     (let (i, overlapped) = grandparent_scan c internal_key (cp_grandparents cp) (cp_seen_key cp) (cp_grandparent_index cp) (cp_overlapped_bytes cp);
          cp = cp\<lparr>cp_grandparent_index := i, cp_overlapped_bytes := overlapped, cp_seen_key := True\<rparr>
      in if sint overlapped > MaxGrandParentOverlapBytes options then (True, cp\<lparr>cp_overlapped_bytes := 0\<rparr>) else (False, cp))"

end
