(* ===== verification/CompactionSpec.thy ===== *)
theory CompactionSpec
  imports Compaction
begin

text \<open>
  The inputs of a compaction are safe to move down a level: no file that stays on the level has an older entry of a user key that is
  moved, and no file that stays on the next level has an entry of such a key at all.
\<close>

subsection \<open>Relations between files\<close>

definition disjoint_users :: "Comparator \<Rightarrow> FileMetaData \<Rightarrow> FileMetaData \<Rightarrow> bool" where
  "disjoint_users c f g \<longleftrightarrow> Compare c (file_last f) (file_first g) < 0 \<or> Compare c (file_last g) (file_first f) < 0"

definition before_file :: "Comparator \<Rightarrow> FileMetaData \<Rightarrow> FileMetaData \<Rightarrow> bool" where
  "before_file c f g \<longleftrightarrow> internal_compare c (fm_largest f) (fm_smallest g) < 0"

text \<open>A set of files of a level without gaps.\<close>

definition gapless :: "Comparator \<Rightarrow> FileMetaData list \<Rightarrow> FileMetaData list \<Rightarrow> bool" where
  "gapless c files S \<longleftrightarrow> (\<forall>f \<in> set S. \<forall>h \<in> set S. \<forall>g \<in> set files. before_file c f g \<longrightarrow> before_file c g h \<longrightarrow> g \<in> set S)"

definition boundary :: "Comparator \<Rightarrow> bytes \<Rightarrow> FileMetaData \<Rightarrow> bool" where
  "boundary c k f \<longleftrightarrow> internal_compare c (fm_smallest f) k > 0 \<and> Compare c (file_first f) (ExtractUserKey k) = 0"

text \<open>\<open>k\<close> is the largest key of the files.\<close>

definition largest_key :: "Comparator \<Rightarrow> FileMetaData list \<Rightarrow> bytes \<Rightarrow> bool" where
  "largest_key c S k \<longleftrightarrow> (\<forall>f \<in> set S. internal_compare c (fm_largest f) k \<le> 0) \<and> (\<exists>f \<in> set S. fm_largest f = k)"

definition smallest_key :: "Comparator \<Rightarrow> FileMetaData list \<Rightarrow> bytes \<Rightarrow> bool" where
  "smallest_key c S k \<longleftrightarrow> (\<forall>f \<in> set S. internal_compare c k (fm_smallest f) \<le> 0) \<and> (\<exists>f \<in> set S. fm_smallest f = k)"

text \<open>Files a compaction can start from: on level 0 all that meet a closed range, on other levels some without a gap.\<close>

definition start_ok :: "Comparator \<Rightarrow> (bytes \<Rightarrow> bool) \<Rightarrow> nat \<Rightarrow> FileMetaData list \<Rightarrow> FileMetaData list \<Rightarrow> bool" where
  "start_ok c valid level files S \<longleftrightarrow> S \<noteq> [] \<and> set S \<subseteq> set files \<and>
     (if level = 0 then \<exists>r. range_valid valid r \<and> closed_range c files (fst r) (snd r) \<and> set S = {f \<in> set files. in_range c (fst r) (snd r) f}
      else gapless c files S)"

definition level_closed :: "Comparator \<Rightarrow> nat \<Rightarrow> FileMetaData list \<Rightarrow> FileMetaData list \<Rightarrow> bool" where
  "level_closed c level files S \<longleftrightarrow>
     (\<forall>f \<in> set S. \<forall>g \<in> set files - set S. disjoint_users c f g \<or> 0 < level \<and> before_file c g f)"

definition level_ok :: "Comparator \<Rightarrow> (bytes \<Rightarrow> bool) \<Rightarrow> nat \<Rightarrow> FileMetaData list \<Rightarrow> bool" where
  "level_ok c valid level files \<longleftrightarrow> list_all (file_ok c valid) files \<and> (0 < level \<longrightarrow> level_sorted c files)"

definition inputs_closed :: "Comparator \<Rightarrow> Version \<Rightarrow> nat \<Rightarrow> FileMetaData list \<Rightarrow> FileMetaData list \<Rightarrow> bool" where
  "inputs_closed c v level in0 in1 \<longleftrightarrow> in0 \<noteq> [] \<and> set in0 \<subseteq> set (v_files v level) \<and> set in1 \<subseteq> set (v_files v (level + 1)) \<and>
     level_closed c level (v_files v level) in0 \<and> level_closed c (level + 1) (v_files v (level + 1)) in1 \<and>
     (\<forall>f \<in> set in0. \<forall>g \<in> set (v_files v (level + 1)) - set in1. disjoint_users c f g)"

text \<open>A version set whose version is in order and whose triggers name a level and a file of it.\<close>

definition vs_ok :: "(bytes \<Rightarrow> bool) \<Rightarrow> VersionSet \<Rightarrow> bool" where
  "vs_ok valid vs \<longleftrightarrow> (let c = vs_user_comparator vs; v = vs_current vs in
     (\<forall>l < kNumLevels. level_ok c valid l (v_files v l)) \<and>
     (v_compaction_score v \<ge> 1 \<longrightarrow> 0 \<le> v_compaction_level v \<and> v_compaction_level v + 1 < int kNumLevels \<and> v_files v (nat (v_compaction_level v)) \<noteq> []) \<and>
     (\<forall>f. v_file_to_compact v = Some f \<longrightarrow> 0 \<le> v_file_to_compact_level v \<and> v_file_to_compact_level v + 1 < int kNumLevels \<and>
        f \<in> set (v_files v (nat (v_file_to_compact_level v)))))"

text \<open>What stays on a level is newer than the inputs from it, and what stays on the next level is about other user keys than what moves
  down.\<close>

definition safe_inputs :: "Comparator \<Rightarrow> (u64 \<Rightarrow> mem_add list) \<Rightarrow> Version \<Rightarrow> Compaction \<Rightarrow> bool" where
  "safe_inputs c contents v cp \<longleftrightarrow>
     cp_inputs0 cp \<noteq> [] \<and> set (cp_inputs0 cp) \<subseteq> set (v_files v (cp_level cp)) \<and> set (cp_inputs1 cp) \<subseteq> set (v_files v (cp_level cp + 1)) \<and>
     (\<forall>f \<in> set (cp_inputs0 cp). \<forall>g \<in> set (v_files v (cp_level cp)) - set (cp_inputs0 cp).
        newer_adds c (contents (fm_number g)) (contents (fm_number f))) \<and>
     (\<forall>f \<in> set (cp_inputs1 cp). \<forall>g \<in> set (v_files v (cp_level cp + 1)) - set (cp_inputs1 cp).
        newer_adds c (contents (fm_number g)) (contents (fm_number f))) \<and>
     (\<forall>f \<in> set (cp_inputs0 cp). \<forall>g \<in> set (v_files v (cp_level cp + 1)) - set (cp_inputs1 cp).
        \<forall>a \<in> set (contents (fm_number f)). \<forall>b \<in> set (contents (fm_number g)). Compare c (ExtractUserKey (add_ikey a)) (ExtractUserKey (add_ikey b)) \<noteq> 0)"

context user_comparator
begin

lemma user_le_internal:
  assumes "valid (ExtractUserKey a)" "valid (ExtractUserKey b)" "Compare c (ExtractUserKey a) (ExtractUserKey b) < 0"
  shows "internal_compare c a b < 0"
  using assms by (simp add: internal_compare_iff)

lemma sorted_cases:
  assumes "level_sorted c files" "f \<in> set files" "g \<in> set files"
  shows "f = g \<or> before_file c f g \<or> before_file c g f"
proof -
  obtain i j where "i < length files" "f = files ! i" "j < length files" "g = files ! j" using assms(2,3) by (auto simp: in_set_conv_nth)
  then show ?thesis using assms(1) by (cases i j rule: linorder_cases) (auto simp: level_sorted_def sorted_wrt_iff_nth_less before_file_def)
qed

lemma fold_smallest:
  assumes "list_all (file_ok c valid) (f # fs)"
  shows "smallest_key c (f # fs) (fold (\<lambda>f k. if internal_compare c (fm_smallest f) k < 0 then fm_smallest f else k) fs (fm_smallest f))"
  using assms
proof (induction fs rule: rev_induct)
  case Nil
  then show ?case using internal.cmp_refl file_okD(4) by (auto simp: smallest_key_def)
next
  case (snoc g fs)
  let ?k = "fold (\<lambda>f k. if internal_compare c (fm_smallest f) k < 0 then fm_smallest f else k) fs (fm_smallest f)"
  have IH: "smallest_key c (f # fs) ?k" using snoc by simp
  obtain h where h: "h \<in> set (f # fs)" "fm_smallest h = ?k" using IH by (auto simp: smallest_key_def)
  have fo: "file_ok c valid h" "file_ok c valid g" using h(1) snoc.prems by (auto simp: list_all_iff)
  have v: "valid_internal valid ?k" "valid_internal valid (fm_smallest g)" using file_okD(4) [OF fo(1)] file_okD(4) [OF fo(2)] h(2) by simp_all
  show ?case
  proof (cases "internal_compare c (fm_smallest g) ?k < 0")
    case True
    have "internal_compare c (fm_smallest g) (fm_smallest x) \<le> 0" if "x \<in> set (f # fs)" for x
      using internal.cmp_less_trans [OF v(2,1), of "fm_smallest x"] True IH that snoc.prems file_okD(4) [of c valid x]
      by (auto simp: smallest_key_def list_all_iff less_imp_le)
    then show ?thesis using True internal.cmp_refl [OF v(2)] by (auto simp: smallest_key_def)
  next
    case False
    then have "internal_compare c ?k (fm_smallest g) \<le> 0" using internal.cmp_le_iff [OF v] by simp
    then show ?thesis using False IH by (auto simp: smallest_key_def)
  qed
qed

lemma fold_largest:
  assumes "list_all (file_ok c valid) (f # fs)"
  shows "largest_key c (f # fs) (fold (\<lambda>f k. if internal_compare c (fm_largest f) k > 0 then fm_largest f else k) fs (fm_largest f))"
  using assms
proof (induction fs rule: rev_induct)
  case Nil
  then show ?case using internal.cmp_refl file_okD(5) by (auto simp: largest_key_def)
next
  case (snoc g fs)
  let ?k = "fold (\<lambda>f k. if internal_compare c (fm_largest f) k > 0 then fm_largest f else k) fs (fm_largest f)"
  have IH: "largest_key c (f # fs) ?k" using snoc by simp
  obtain h where h: "h \<in> set (f # fs)" "fm_largest h = ?k" using IH by (auto simp: largest_key_def)
  have fo: "file_ok c valid h" "file_ok c valid g" using h(1) snoc.prems by (auto simp: list_all_iff)
  have v: "valid_internal valid ?k" "valid_internal valid (fm_largest g)" using file_okD(5) [OF fo(1)] file_okD(5) [OF fo(2)] h(2) by simp_all
  show ?case
  proof (cases "internal_compare c (fm_largest g) ?k > 0")
    case True
    then have "internal_compare c ?k (fm_largest g) < 0" using internal.cmp_neg_iff [OF v] by simp
    then have "internal_compare c (fm_largest x) (fm_largest g) \<le> 0" if "x \<in> set (f # fs)" for x
      using internal.cmp_le_less_trans [OF _ v, of "fm_largest x"] IH that snoc.prems file_okD(5) [of c valid x]
      by (auto simp: largest_key_def list_all_iff less_imp_le)
    then show ?thesis using True internal.cmp_refl [OF v(2)] by (auto simp: largest_key_def)
  next
    case False
    then show ?thesis using IH by (auto simp: largest_key_def)
  qed
qed

lemma GetRange_run:
  assumes "list_all (file_ok c valid) S" and "S \<noteq> []"
  shows "\<exists>lo hi. GetRange c S = Some (lo, hi) \<and> smallest_key c S lo \<and> largest_key c S hi"
proof -
  obtain f fs where S: "S = f # fs" using assms(2) by (cases S) auto
  have "fold (\<lambda>f (a, b). (if internal_compare c (fm_smallest f) a < 0 then fm_smallest f else a,
        if internal_compare c (fm_largest f) b > 0 then fm_largest f else b)) fs (a, b) =
      (fold (\<lambda>f k. if internal_compare c (fm_smallest f) k < 0 then fm_smallest f else k) fs a,
       fold (\<lambda>f k. if internal_compare c (fm_largest f) k > 0 then fm_largest f else k) fs b)" for a b
    by (induction fs arbitrary: a b) auto
  then show ?thesis using fold_smallest [of f fs] fold_largest [of f fs] assms(1) S by (simp add: GetRange_def)
qed

lemma FindLargestKey_run:
  assumes "list_all (file_ok c valid) S" and "S \<noteq> []"
  shows "\<exists>k. FindLargestKey c S = Some k \<and> largest_key c S k"
  using fold_largest [of "hd S" "tl S"] assms by (cases S) (simp_all add: FindLargestKey_def)

lemma FindSmallestBoundaryFile_run:
  assumes "list_all (file_ok c valid) files"
  shows "case FindSmallestBoundaryFile c files k of
      None \<Rightarrow> \<forall>f \<in> set files. \<not> boundary c k f
    | Some b \<Rightarrow> b \<in> set files \<and> boundary c k b \<and> (\<forall>f \<in> set files. boundary c k f \<longrightarrow> \<not> internal_compare c (fm_smallest f) (fm_smallest b) < 0)"
  using assms
proof (induction files rule: rev_induct)
  case Nil
  then show ?case by (simp add: FindSmallestBoundaryFile_def)
next
  case (snoc g fs)
  have IH: "case FindSmallestBoundaryFile c fs k of
      None \<Rightarrow> \<forall>f \<in> set fs. \<not> boundary c k f
    | Some b \<Rightarrow> b \<in> set fs \<and> boundary c k b \<and> (\<forall>f \<in> set fs. boundary c k f \<longrightarrow> \<not> internal_compare c (fm_smallest f) (fm_smallest b) < 0)"
    using snoc by simp
  have step: "FindSmallestBoundaryFile c (fs @ [g]) k =
      (if boundary c k g
       then (case FindSmallestBoundaryFile c fs k of None \<Rightarrow> Some g | Some b \<Rightarrow> if internal_compare c (fm_smallest g) (fm_smallest b) < 0 then Some g else Some b)
       else FindSmallestBoundaryFile c fs k)"
    by (simp add: FindSmallestBoundaryFile_def boundary_def)
  have v: "valid_internal valid (fm_smallest f)" if "f \<in> set (fs @ [g])" for f using snoc.prems that file_okD(4) by (metis list_all_iff)
  show ?case
  proof (cases "FindSmallestBoundaryFile c fs k")
    case None
    then show ?thesis using IH step internal.cmp_refl [OF v [of g]] by auto
  next
    case (Some b)
    have b: "b \<in> set fs" "boundary c k b" and least: "\<And>f. \<lbrakk>f \<in> set fs; boundary c k f\<rbrakk> \<Longrightarrow> \<not> internal_compare c (fm_smallest f) (fm_smallest b) < 0"
      using IH Some by auto
    have "\<not> internal_compare c (fm_smallest f) (fm_smallest g) < 0"
      if "f \<in> set fs" "boundary c k f" "internal_compare c (fm_smallest g) (fm_smallest b) < 0" for f
      using least [OF that(1,2)] internal.cmp_less_trans [OF v [of f] v [of g] v [of b]] that b(1) by auto
    then show ?thesis using Some step b least internal.cmp_refl [OF v [of g]] by auto
  qed
qed

text \<open>Chains of file ends.\<close>

lemma before_largest:
  assumes "before_file c f g" "file_ok c valid f" "file_ok c valid g"
  shows "internal_compare c (fm_largest f) (fm_largest g) < 0" and "internal_compare c (fm_smallest f) (fm_smallest g) < 0"
  using internal.cmp_less_trans [OF file_okD(5) [OF assms(2)] file_okD(4,5) [OF assms(3)]] file_okD(3) [OF assms(3)]
    internal.cmp_le_less_trans [OF file_okD(4,5) [OF assms(2)] file_okD(4) [OF assms(3)]] file_okD(3) [OF assms(2)] assms(1)
  by (simp_all add: before_file_def)

lemma gapless_boundary:
  assumes ok: "list_all (file_ok c valid) files" and sorted: "level_sorted c files" and S: "set S \<subseteq> set files" "gapless c files S" "largest_key c S k"
    and b: "b \<in> set files" "boundary c k b" and least: "\<forall>f \<in> set files. boundary c k f \<longrightarrow> \<not> internal_compare c (fm_smallest f) (fm_smallest b) < 0"
  shows "gapless c files (S @ [b])"
  unfolding gapless_def
proof (intro ballI impI)
  fix f h g
  assume f: "f \<in> set (S @ [b])" and h: "h \<in> set (S @ [b])" and g: "g \<in> set files" and fg: "before_file c f g" and gh: "before_file c g h"
  have fo: "file_ok c valid x" if "x \<in> set files" for x using ok that by (simp add: list_all_iff)
  have in_files: "f \<in> set files" "h \<in> set files" using f h S(1) b(1) by auto
  obtain m where m: "m \<in> set S" "fm_largest m = k" using S(3) by (auto simp: largest_key_def)
  have mf: "m \<in> set files" using m(1) S(1) by blast
  note v = file_okD(4) [OF fo] file_okD(5) [OF fo]
  have kb: "internal_compare c k (fm_smallest b) < 0" using b(2) internal.cmp_neg_iff [OF v(2) [OF mf] v(1) [OF b(1)]] m(2) by (simp add: boundary_def)
  show "g \<in> set (S @ [b])"
  proof (cases "f \<in> set S \<and> h \<in> set S")
    case True
    then have "g \<in> set S" using S(2) fg gh g unfolding gapless_def by blast
    then show ?thesis by simp
  next
    case False
    have "h = b \<and> f \<in> set S"
    proof (rule ccontr)
      assume "\<not> (h = b \<and> f \<in> set S)"
      then have fb: "f = b" and hs: "h = b \<or> h \<in> set S" using False f h by auto
      have "internal_compare c (fm_largest f) (fm_largest h) < 0"
        using before_largest(1) [OF fg fo fo] before_largest(1) [OF gh fo fo] internal.cmp_less_trans [OF v(2) v(2) v(2), of f g h] g in_files by (simp add: less_imp_le)
      moreover have "internal_compare c (fm_largest h) (fm_largest b) \<le> 0"
      proof (cases "h = b")
        case True
        then show ?thesis using internal.cmp_refl [OF v(2) [OF b(1)]] by simp
      next
        case False
        then have "internal_compare c (fm_largest h) k \<le> 0" using hs S(3) by (auto simp: largest_key_def)
        then have "internal_compare c (fm_largest h) (fm_smallest b) < 0"
          using internal.cmp_le_less_trans [OF v(2) [OF in_files(2)] _ v(1) [OF b(1)] _ , of k] kb v(2) [OF mf] m(2) by simp
        then show ?thesis using internal.cmp_less_trans [OF v(2) [OF in_files(2)] v(1) [OF b(1)] v(2) [OF b(1)]] file_okD(3) [OF fo [OF b(1)]] by (simp add: less_imp_le)
      qed
      ultimately show False using fb internal.cmp_le_iff [OF v(2) [OF in_files(2)] v(2) [OF b(1)]] by simp
    qed
    then have hb: "h = b" and fS: "f \<in> set S" by auto
    from sorted_cases [OF sorted mf g] consider "m = g" | "before_file c g m" | "before_file c m g" by blast
    then show ?thesis
    proof cases
      case 1
      then show ?thesis using m(1) by simp
    next
      case 2
      then have "g \<in> set S" using S(2) fS m(1) g fg unfolding gapless_def by blast
      then show ?thesis by simp
    next
      case 3
      have gb: "internal_compare c (fm_smallest g) (fm_smallest b) < 0" using before_largest(2) [OF gh fo fo] g b(1) hb by simp
      have kg: "internal_compare c k (fm_smallest g) < 0" using 3 m(2) by (simp add: before_file_def)
      have u: "valid (ExtractUserKey k)" "valid (file_first g)" "valid (file_first b)"
        using file_okD(7) [OF fo [OF mf]] m(2) file_okD(6) [OF fo [OF g]] file_okD(6) [OF fo [OF b(1)]] by simp_all
      have "Compare c (ExtractUserKey k) (file_first g) \<le> 0" "Compare c (file_first g) (ExtractUserKey k) \<le> 0"
        using internal_less_user [OF kg] cmp_trans [OF u(2,3,1) internal_less_user [OF gb]] b(2) by (auto simp: boundary_def)
      then have "Compare c (file_first g) (ExtractUserKey k) = 0" using cmp_le_iff [OF u(1,2)] by simp
      then have "boundary c k g" using kg internal.cmp_neg_iff [OF v(2) [OF mf] v(1) [OF g]] m(2) by (simp add: boundary_def)
      then show ?thesis using least g gb by blast
    qed
  qed
qed

lemma boundary_loop_run:
  assumes ok: "list_all (file_ok c valid) files"
  shows "\<lbrakk>set S \<subseteq> set files; largest_key c S k\<rbrakk> \<Longrightarrow> \<exists>S' k'. boundary_loop c files k S = Some S' \<and> set S \<subseteq> set S' \<and> set S' \<subseteq> set files \<and>
    largest_key c S' k' \<and> (\<forall>f \<in> set files. \<not> boundary c k' f) \<and> (level_sorted c files \<and> gapless c files S \<longrightarrow> gapless c files S') \<and>
    ((\<forall>f \<in> set files. \<not> boundary c k f) \<longrightarrow> S' = S)"
proof (induction "length (filter (\<lambda>f. internal_compare c (fm_smallest f) k > 0) files)" arbitrary: S k rule: less_induct)
  case less
  note spec = FindSmallestBoundaryFile_run [OF ok, of k]
  show ?case
  proof (cases "FindSmallestBoundaryFile c files k")
    case None
    then show ?thesis using spec less.prems by (subst boundary_loop.simps) auto
  next
    case (Some b)
    have b: "b \<in> set files" "boundary c k b" and least: "\<forall>f \<in> set files. boundary c k f \<longrightarrow> \<not> internal_compare c (fm_smallest f) (fm_smallest b) < 0"
      using spec Some by auto
    have fo: "file_ok c valid x" if "x \<in> set files" for x using ok that by (simp add: list_all_iff)
    note v = file_okD(4) [OF fo] file_okD(5) [OF fo]
    obtain m where m: "m \<in> set S" "fm_largest m = k" using less.prems(2) by (auto simp: largest_key_def)
    have vk: "valid_internal valid k" using v(2) [of m] m less.prems(1) by auto
    have kb: "internal_compare c k (fm_smallest b) < 0" using b(2) internal.cmp_neg_iff [OF vk v(1) [OF b(1)]] by (simp add: boundary_def)
    then have kl: "internal_compare c k (fm_largest b) < 0" using internal.cmp_less_trans [OF vk v(1) [OF b(1)] v(2) [OF b(1)]] file_okD(3) [OF fo [OF b(1)]] by simp
    have lk: "largest_key c (S @ [b]) (fm_largest b)"
    proof -
      have "internal_compare c (fm_largest f) (fm_largest b) \<le> 0" if "f \<in> set S" for f
        using internal.cmp_le_less_trans [OF v(2) vk v(2) [OF b(1)], of f] kl that less.prems by (auto simp: largest_key_def less_imp_le)
      then show ?thesis using internal.cmp_refl [OF v(2) [OF b(1)]] by (auto simp: largest_key_def)
    qed
    have "length (filter (\<lambda>f. internal_compare c (fm_smallest f) (fm_largest b) > 0) files) < length (filter (\<lambda>f. internal_compare c (fm_smallest f) k > 0) files)"
    proof (rule length_filter_shrink [OF _ b(1)])
      show "internal_compare c (fm_smallest x) k > 0" if "x \<in> set files" "internal_compare c (fm_smallest x) (fm_largest b) > 0" for x
        using internal.cmp_less_trans [OF vk v(2) [OF b(1)] v(1) [OF that(1)]] kl that(2) internal.cmp_neg_iff [OF v(2) [OF b(1)] v(1) [OF that(1)]]
          internal.cmp_neg_iff [OF vk v(1) [OF that(1)]] by (simp add: less_imp_le)
      show "internal_compare c (fm_smallest b) k > 0" using b(2) by (simp add: boundary_def)
      show "\<not> internal_compare c (fm_smallest b) (fm_largest b) > 0" using file_okD(3) [OF fo [OF b(1)]] by simp
    qed
    from less.hyps [OF this _ lk] obtain S' k' where S': "boundary_loop c files (fm_largest b) (S @ [b]) = Some S'" "set (S @ [b]) \<subseteq> set S'" "set S' \<subseteq> set files"
      "largest_key c S' k'" "\<forall>f \<in> set files. \<not> boundary c k' f" "level_sorted c files \<and> gapless c files (S @ [b]) \<longrightarrow> gapless c files S'"
      using less.prems(1) b(1) by auto
    moreover have "boundary_loop c files k S = Some S'" using S'(1) Some by (subst boundary_loop.simps) simp
    moreover have "gapless c files (S @ [b])" if "level_sorted c files" "gapless c files S"
      using gapless_boundary [OF ok that(1) less.prems(1) that(2) less.prems(2) b least] .
    ultimately show ?thesis using b by (intro exI [of _ S'] exI [of _ k']) auto
  qed
qed

lemma level0_no_boundary:
  assumes ok: "list_all (file_ok c valid) files" and r: "range_valid valid r" "closed_range c files (fst r) (snd r)"
    and S: "set S = {f \<in> set files. in_range c (fst r) (snd r) f}" and k: "largest_key c S k" and b: "b \<in> set files"
  shows "\<not> boundary c k b"
proof
  assume bd: "boundary c k b"
  have fo: "file_ok c valid x" if "x \<in> set files" for x using ok that by (simp add: list_all_iff)
  obtain m where m: "m \<in> set S" "fm_largest m = k" using k by (auto simp: largest_key_def)
  have mf: "m \<in> set files" "in_range c (fst r) (snd r) m" using m(1) S by auto
  have cl: "\<not> below_range c (fst r) m" "\<not> above_range c (snd r) m" using r(2) mf by (auto simp: closed_range_def)
  have v: "valid (file_last m)" "valid (file_first b)" "valid (file_last b)"
    using file_okD(7) [OF fo [OF mf(1)]] file_okD(6,7) [OF fo [OF b]] by simp_all
  have eq: "Compare c (file_first b) (file_last m) = 0" "Compare c (file_last m) (file_first b) = 0"
    using bd m(2) cmp_zero_iff [OF v(2,1)] by (simp_all add: boundary_def)
  have "in_range c (fst r) (snd r) b"
    unfolding in_range_def
  proof (intro conjI allI impI notI)
    fix lo assume lo: "fst r = Some lo" "Compare c (file_last b) lo < 0"
    have vl: "valid lo" using r(1) lo(1) by (auto simp: range_valid_def)
    have "Compare c (file_last m) (file_last b) \<le> 0" using cmp_trans [OF v] eq file_range [OF fo [OF b]] by simp
    then have "Compare c (file_last m) lo < 0" using cmp_le_less_trans [OF v(1,3) vl] lo(2) by simp
    then show False using mf(2) lo(1) by (auto simp: in_range_def)
  next
    fix hi assume hi: "snd r = Some hi" "Compare c (file_first b) hi > 0"
    have vh: "valid hi" using r(1) hi(1) by (auto simp: range_valid_def)
    have "Compare c hi (file_last m) < 0" using cmp_less_trans [OF vh v(2,1)] hi(2) eq cmp_neg_iff [OF vh v(2)] by simp
    then show False using cl(2) hi(1) cmp_neg_iff [OF vh v(1)] by (auto simp: above_range_def)
  qed
  then have "internal_compare c (fm_largest b) k \<le> 0" using S b k by (auto simp: largest_key_def)
  then have "internal_compare c (fm_smallest b) k \<le> 0"
    using internal.cmp_trans [OF file_okD(4,5) [OF fo [OF b]], of k] file_okD(3) [OF fo [OF b]] file_okD(5) [OF fo [OF mf(1)]] m(2) by simp
  then show False using bd by (simp add: boundary_def)
qed

lemma level0_closed:
  assumes ok: "list_all (file_ok c valid) files" and r: "range_valid valid r" "closed_range c files (fst r) (snd r)"
    and S: "set S = {f \<in> set files. in_range c (fst r) (snd r) f}"
  shows "level_closed c 0 files S"
  unfolding level_closed_def
proof (intro ballI disjI1)
  fix f g
  assume f: "f \<in> set S" and g: "g \<in> set files - set S"
  have fo: "file_ok c valid x" if "x \<in> set files" for x using ok that by (simp add: list_all_iff)
  have ff: "f \<in> set files" "\<not> below_range c (fst r) f" "\<not> above_range c (snd r) f" using f S r(2) by (auto simp: closed_range_def)
  have gf: "g \<in> set files" "\<not> in_range c (fst r) (snd r) g" using g S by auto
  have v: "valid (file_first f)" "valid (file_last f)" "valid (file_first g)" "valid (file_last g)"
    using file_okD(6,7) [OF fo [OF ff(1)]] file_okD(6,7) [OF fo [OF gf(1)]] by simp_all
  from gf(2) consider lo where "fst r = Some lo" "Compare c (file_last g) lo < 0" | hi where "snd r = Some hi" "Compare c (file_first g) hi > 0"
    by (auto simp: in_range_def)
  then show "disjoint_users c f g"
  proof cases
    case 1
    have vl: "valid lo" using r(1) 1(1) by (auto simp: range_valid_def)
    have "Compare c lo (file_first f) \<le> 0" using ff(2) 1(1) cmp_le_iff [OF vl v(1)] by (simp add: below_range_def)
    then show ?thesis using cmp_less_trans [OF v(4) vl v(1) 1(2)] by (simp add: disjoint_users_def)
  next
    case 2
    have vh: "valid hi" using r(1) 2(1) by (auto simp: range_valid_def)
    have "Compare c (file_last f) hi \<le> 0" using ff(3) 2(1) by (auto simp: above_range_def)
    then show ?thesis using cmp_le_less_trans [OF v(2) vh v(3)] 2(2) cmp_neg_iff [OF vh v(3)] by (simp add: disjoint_users_def)
  qed
qed

lemma gapless_closed:
  assumes ok: "list_all (file_ok c valid) files" and sorted: "level_sorted c files" and S: "set S \<subseteq> set files" "gapless c files S" "largest_key c S k"
    and nb: "\<forall>f \<in> set files. \<not> boundary c k f" and level: "0 < level"
  shows "level_closed c level files S"
  unfolding level_closed_def
proof (intro ballI)
  fix f g
  assume f: "f \<in> set S" and g: "g \<in> set files - set S"
  have fo: "file_ok c valid x" if "x \<in> set files" for x using ok that by (simp add: list_all_iff)
  obtain m where m: "m \<in> set S" "fm_largest m = k" using S(3) by (auto simp: largest_key_def)
  have ff: "f \<in> set files" "m \<in> set files" "f \<noteq> g" "m \<noteq> g" using f m(1) S(1) g by auto
  have gf: "g \<in> set files" using g by simp
  show "disjoint_users c f g \<or> 0 < level \<and> before_file c g f"
  proof (rule ccontr)
    assume not: "\<not> (disjoint_users c f g \<or> 0 < level \<and> before_file c g f)"
    then have fg: "before_file c f g" using sorted_cases [OF sorted ff(1) gf] ff(3) level by blast
    have "\<not> before_file c g m" using S(2) f m(1) g fg unfolding gapless_def by blast
    then have mg: "internal_compare c k (fm_smallest g) < 0" using sorted_cases [OF sorted ff(2) gf] ff(4) m(2) by (auto simp: before_file_def)
    have v: "valid (file_last f)" "valid (ExtractUserKey k)" "valid (file_first g)"
      using file_okD(7) [OF fo [OF ff(1)]] file_okD(7) [OF fo [OF ff(2)]] m(2) file_okD(6) [OF fo [OF gf]] by simp_all
    have "Compare c (file_first g) (file_last f) \<le> 0" using not cmp_le_iff [OF v(3,1)] by (simp add: disjoint_users_def)
    moreover have "Compare c (file_last f) (ExtractUserKey k) \<le> 0" using S(3) f by (auto simp: largest_key_def intro: internal_le_user)
    ultimately have "Compare c (file_first g) (ExtractUserKey k) \<le> 0" using cmp_trans [OF v(3,1,2)] by blast
    then have "Compare c (file_first g) (ExtractUserKey k) = 0" using internal_less_user [OF mg] cmp_le_iff [OF v(2,3)] by simp
    then have "boundary c k g"
      using mg internal.cmp_neg_iff [of k "fm_smallest g"] file_okD(5) [OF fo [OF ff(2)]] m(2) file_okD(4) [OF fo [OF gf]] by (simp add: boundary_def)
    then show False using nb gf by blast
  qed
qed

lemma AddBoundaryInputs_run:
  assumes lv: "level_ok c valid level files" and S: "start_ok c valid level files S"
  shows "\<exists>S'. AddBoundaryInputs c files S = Some S' \<and> set S \<subseteq> set S' \<and> start_ok c valid level files S' \<and> level_closed c level files S'"
proof -
  have ok: "list_all (file_ok c valid) files" and sub: "set S \<subseteq> set files" and ne: "S \<noteq> []" using lv S by (simp_all add: level_ok_def start_ok_def)
  have okS: "list_all (file_ok c valid) S" using ok sub by (auto simp: list_all_iff)
  obtain k where k: "FindLargestKey c S = Some k" "largest_key c S k" using FindLargestKey_run [OF okS ne] by blast
  obtain S' k' where run: "boundary_loop c files k S = Some S'" "set S \<subseteq> set S'" "set S' \<subseteq> set files" "largest_key c S' k'"
    "\<forall>f \<in> set files. \<not> boundary c k' f" "level_sorted c files \<and> gapless c files S \<longrightarrow> gapless c files S'" "(\<forall>f \<in> set files. \<not> boundary c k f) \<longrightarrow> S' = S"
    using boundary_loop_run [OF ok sub k(2)] by blast
  have ne': "S' \<noteq> []" using ne run(2) by auto
  show ?thesis
  proof (cases "level = 0")
    case True
    then obtain r where r: "range_valid valid r" "closed_range c files (fst r) (snd r)" "set S = {f \<in> set files. in_range c (fst r) (snd r) f}"
      using S by (auto simp: start_ok_def)
    have "S' = S" using run(7) level0_no_boundary [OF ok r k(2)] by blast
    then show ?thesis using True S run(1) k(1) level0_closed [OF ok r] by (simp add: AddBoundaryInputs_def)
  next
    case False
    then have so: "level_sorted c files" "gapless c files S" using lv S by (auto simp: level_ok_def start_ok_def)
    then show ?thesis
      using False run k(1) ne' gapless_closed [OF ok so(1) run(3) _ run(4,5)] by (auto simp: AddBoundaryInputs_def start_ok_def)
  qed
qed

lemma gapless_range:
  assumes ok: "list_all (file_ok c valid) files" and r: "range_valid valid r"
  shows "gapless c files (filter (in_range c (fst r) (snd r)) files)"
  unfolding gapless_def
proof (intro ballI impI)
  fix f h g
  assume f: "f \<in> set (filter (in_range c (fst r) (snd r)) files)" and h: "h \<in> set (filter (in_range c (fst r) (snd r)) files)" and g: "g \<in> set files"
    and fg: "before_file c f g" and gh: "before_file c g h"
  have fo: "file_ok c valid f" "file_ok c valid h" "file_ok c valid g" using ok f h g by (auto simp: list_all_iff)
  note v = file_okD(6,7) [OF fo(1)] file_okD(6,7) [OF fo(2)] file_okD(6,7) [OF fo(3)]
  have le: "Compare c (file_last f) (file_last g) \<le> 0"
    using cmp_trans [OF v(2,5,6) internal_less_user file_range [OF fo(3)]] fg by (simp add: before_file_def)
  have le': "Compare c (file_first g) (file_first h) \<le> 0"
    using cmp_trans [OF v(5,6,3) file_range [OF fo(3)] internal_less_user] gh by (simp add: before_file_def)
  have "in_range c (fst r) (snd r) g"
    unfolding in_range_def
  proof (intro conjI allI impI notI)
    fix lo assume lo: "fst r = Some lo" "Compare c (file_last g) lo < 0"
    then have "Compare c (file_last f) lo < 0" using cmp_le_less_trans [OF v(2,6) _ le] r by (auto simp: range_valid_def)
    then show False using f lo(1) by (auto simp: in_range_def)
  next
    fix hi assume hi: "snd r = Some hi" "Compare c (file_first g) hi > 0"
    have vh: "valid hi" using r hi(1) by (auto simp: range_valid_def)
    have "Compare c hi (file_first h) < 0" using cmp_less_trans [OF vh v(5,3)] hi(2) cmp_neg_iff [OF vh v(5)] le' by simp
    then show False using h hi(1) cmp_neg_iff [OF vh v(3)] by (auto simp: in_range_def)
  qed
  then show "g \<in> set (filter (in_range c (fst r) (snd r)) files)" using g by simp
qed

lemma overlap_start:
  assumes lv: "level_ok c valid level (v_files v level)" "level < kNumLevels"
    and r: "range_valid valid (map_option ExtractUserKey b, map_option ExtractUserKey e)"
  shows "\<exists>S. GetOverlappingInputs c level b e v = Some S \<and> set S \<subseteq> set (v_files v level) \<and>
    (S \<noteq> [] \<longrightarrow> start_ok c valid level (v_files v level) S) \<and>
    (\<forall>f \<in> set (v_files v level). in_range c (map_option ExtractUserKey b) (map_option ExtractUserKey e) f \<longrightarrow> f \<in> set S)"
proof (cases "level = 0")
  case True
  have ok: "list_all (file_ok c valid) (v_files v 0)" using lv(1) True by (simp add: level_ok_def)
  obtain r' where r': "overlap_loop c 0 (v_files v 0) 0 (map_option ExtractUserKey b) (map_option ExtractUserKey e) [] =
      Some (filter (in_range c (fst r') (snd r')) (v_files v 0))" "range_valid valid r'"
      "widens c (map_option ExtractUserKey b, map_option ExtractUserKey e) r'" "closed_range c (v_files v 0) (fst r') (snd r')"
    using overlap_loop_closed [OF ok r] by auto
  have "in_range c (fst r') (snd r') f"
    if "f \<in> set (v_files v 0)" "in_range c (map_option ExtractUserKey b) (map_option ExtractUserKey e) f" for f
    using in_range_widens [OF _ r'(3) _ r r'(2)] that ok by (simp add: list_all_iff)
  moreover have "start_ok c valid 0 (v_files v 0) (filter (in_range c (fst r') (snd r')) (v_files v 0))"
    if "filter (in_range c (fst r') (snd r')) (v_files v 0) \<noteq> []"
  proof -
    have "\<exists>r. range_valid valid r \<and> closed_range c (v_files v 0) (fst r) (snd r) \<and>
        set (filter (in_range c (fst r') (snd r')) (v_files v 0)) = {f \<in> set (v_files v 0). in_range c (fst r) (snd r) f}"
      using r'(2,4) by (intro exI [of _ r']) simp
    then show ?thesis using that unfolding start_ok_def by simp
  qed
  ultimately show ?thesis using r'(1) True lv(2) by (auto simp: GetOverlappingInputs_def)
next
  case False
  then show ?thesis
    using GetOverlappingInputs_level [OF _ lv(2), of b e v] gapless_range [OF _ r] lv(1) by (auto simp: start_ok_def level_ok_def)
qed

lemma range_users:
  assumes "list_all (file_ok c valid) S" and "smallest_key c S lo" and "largest_key c S hi"
  shows "range_valid valid (map_option ExtractUserKey (Some lo), map_option ExtractUserKey (Some hi))" "valid (ExtractUserKey lo)" "valid (ExtractUserKey hi)"
  using assms file_okD(6,7) [of c valid] by (auto simp: range_valid_def smallest_key_def largest_key_def list_all_iff)

lemma out_of_range_disjoint:
  assumes S: "list_all (file_ok c valid) S" "smallest_key c S lo" "largest_key c S hi" and f: "f \<in> set S" and g: "file_ok c valid g"
    and out: "\<not> in_range c (Some (ExtractUserKey lo)) (Some (ExtractUserKey hi)) g"
  shows "disjoint_users c f g"
proof -
  have fo: "file_ok c valid f" using S(1) f by (simp add: list_all_iff)
  note v = file_okD(6,7) [OF fo] file_okD(6,7) [OF g] range_users(2,3) [OF S]
  have le: "Compare c (ExtractUserKey lo) (file_first f) \<le> 0" "Compare c (file_last f) (ExtractUserKey hi) \<le> 0"
    using S(2,3) f by (auto simp: smallest_key_def largest_key_def intro: internal_le_user)
  from out consider "Compare c (file_last g) (ExtractUserKey lo) < 0" | "Compare c (file_first g) (ExtractUserKey hi) > 0" by (auto simp: in_range_def)
  then show ?thesis
  proof cases
    case 1
    then show ?thesis using cmp_less_trans [OF v(4,5,1) _ le(1)] by (simp add: disjoint_users_def)
  next
    case 2
    then show ?thesis using cmp_le_less_trans [OF v(2,6,3) le(2)] cmp_neg_iff [OF v(6,3)] by (simp add: disjoint_users_def)
  qed
qed

lemma next_inputs_run:
  assumes S: "list_all (file_ok c valid) S" "smallest_key c S lo" "largest_key c S hi"
    and lv: "level_ok c valid (level + 1) (v_files v (level + 1))" "level + 1 < kNumLevels"
  shows "\<exists>S1 S2. GetOverlappingInputs c (level + 1) (Some lo) (Some hi) v = Some S1 \<and> AddBoundaryInputs c (v_files v (level + 1)) S1 = Some S2 \<and>
    set S2 \<subseteq> set (v_files v (level + 1)) \<and> level_closed c (level + 1) (v_files v (level + 1)) S2 \<and>
    (\<forall>f \<in> set S. \<forall>g \<in> set (v_files v (level + 1)) - set S2. disjoint_users c f g)"
proof -
  obtain S1 where S1: "GetOverlappingInputs c (level + 1) (Some lo) (Some hi) v = Some S1" "set S1 \<subseteq> set (v_files v (level + 1))"
    "S1 \<noteq> [] \<longrightarrow> start_ok c valid (level + 1) (v_files v (level + 1)) S1"
    "\<forall>f \<in> set (v_files v (level + 1)). in_range c (Some (ExtractUserKey lo)) (Some (ExtractUserKey hi)) f \<longrightarrow> f \<in> set S1"
    using overlap_start [OF lv range_users(1) [OF S]] by auto
  obtain S2 where S2: "AddBoundaryInputs c (v_files v (level + 1)) S1 = Some S2" "set S1 \<subseteq> set S2" "set S2 \<subseteq> set (v_files v (level + 1))"
    "level_closed c (level + 1) (v_files v (level + 1)) S2"
  proof (cases "S1 = []")
    case True
    then show ?thesis using that [of "[]"] by (simp add: AddBoundaryInputs_def FindLargestKey_def level_closed_def)
  next
    case False
    then show ?thesis using AddBoundaryInputs_run [OF lv(1)] S1(3) that by (auto simp: start_ok_def)
  qed
  have "disjoint_users c f g" if f: "f \<in> set S" and g: "g \<in> set (v_files v (level + 1)) - set S2" for f g
  proof (rule out_of_range_disjoint [OF S f])
    show "file_ok c valid g" using lv(1) g by (auto simp: level_ok_def list_all_iff)
    show "\<not> in_range c (Some (ExtractUserKey lo)) (Some (ExtractUserKey hi)) g" using S1(4) S2(2) g by blast
  qed
  then show ?thesis using S1(1) S2 by blast
qed

lemma start_files: "\<lbrakk>level_ok c valid level files; start_ok c valid level files S\<rbrakk> \<Longrightarrow> list_all (file_ok c valid) S \<and> S \<noteq> [] \<and> set S \<subseteq> set files"
  by (auto simp: level_ok_def start_ok_def list_all_iff)

lemma expand_inputs_run:
  assumes lv: "level_ok c valid level (v_files v level)" "level_ok c valid (level + 1) (v_files v (level + 1))" "level + 1 < kNumLevels"
    and inp: "inputs_closed c v level in0 in1"
    and all: "list_all (file_ok c valid) (in0 @ in1)" "smallest_key c (in0 @ in1) lo" "largest_key c (in0 @ in1) hi"
  shows "\<exists>in0' in1' lo' hi' l. expand_inputs c options v level in0 in1 lo hi large = Some (in0', in1', lo', hi', l) \<and> inputs_closed c v level in0' in1' \<and>
    range_valid valid (map_option ExtractUserKey (Some lo'), map_option ExtractUserKey (Some hi'))"
proof (cases "in1 = []")
  case True
  then show ?thesis using inp range_users(1) [OF all] by (simp add: expand_inputs_def)
next
  case False
  obtain E where E: "GetOverlappingInputs c level (Some lo) (Some hi) v = Some E" "E \<noteq> [] \<longrightarrow> start_ok c valid level (v_files v level) E"
    using overlap_start [OF lv(1) _ range_users(1) [OF all]] lv(3) by auto
  obtain E0 where E0: "AddBoundaryInputs c (v_files v level) E = Some E0"
    "E0 \<noteq> [] \<longrightarrow> start_ok c valid level (v_files v level) E0 \<and> level_closed c level (v_files v level) E0"
  proof (cases "E = []")
    case True
    then show ?thesis using that [of "[]"] by (simp add: AddBoundaryInputs_def FindLargestKey_def)
  next
    case False
    then show ?thesis using AddBoundaryInputs_run [OF lv(1)] E(2) that by blast
  qed
  let ?grow = "length E0 > length in0 \<and> sint (of_int (TotalFileSize in1 + TotalFileSize E0) :: u64) < ExpandedCompactionByteSizeLimit options"
  show ?thesis
  proof (cases ?grow)
    case no: False
    then show ?thesis using False E(1) E0(1) inp range_users(1) [OF all] by (auto simp: expand_inputs_def)
  next
    case grow: True
    then have "E0 \<noteq> []" by auto
    then have st: "start_ok c valid level (v_files v level) E0" "level_closed c level (v_files v level) E0" using E0(2) by blast+
    note ok0 = start_files [OF lv(1) st(1)]
    obtain s l where sl: "GetRange c E0 = Some (s, l)" "smallest_key c E0 s" "largest_key c E0 l" using GetRange_run [of E0] ok0 by blast
    obtain X1 E1 where E1: "GetOverlappingInputs c (level + 1) (Some s) (Some l) v = Some X1" "AddBoundaryInputs c (v_files v (level + 1)) X1 = Some E1"
      "set E1 \<subseteq> set (v_files v (level + 1))" "level_closed c (level + 1) (v_files v (level + 1)) E1"
      "\<forall>f \<in> set E0. \<forall>g \<in> set (v_files v (level + 1)) - set E1. disjoint_users c f g"
      using next_inputs_run [OF _ sl(2,3) lv(2,3)] ok0 by blast
    have ok1: "list_all (file_ok c valid) (E0 @ E1)" using ok0 E1(3) lv(2) by (auto simp: level_ok_def list_all_iff)
    obtain lo' hi' where r2: "GetRange2 c E0 E1 = Some (lo', hi')" "smallest_key c (E0 @ E1) lo'" "largest_key c (E0 @ E1) hi'"
      using GetRange_run [OF ok1] ok0 by (auto simp: GetRange2_def)
    have "inputs_closed c v level E0 E1" using ok0 st(2) E1(3-5) by (simp add: inputs_closed_def)
    then show ?thesis
      using False E(1) E0(1) grow sl(1) E1(1,2) r2(1) inp range_users(1) [OF all] range_users(1) [OF ok1 r2(2,3)] by (simp add: expand_inputs_def)
  qed
qed

lemma SetupOtherInputs_run:
  assumes vs: "vs_user_comparator vs = c" "\<And>l. l < kNumLevels \<Longrightarrow> level_ok c valid l (v_files (vs_current vs) l)"
    and cp: "cp_level cp + 1 < kNumLevels" "start_ok c valid (cp_level cp) (v_files (vs_current vs) (cp_level cp)) (cp_inputs0 cp)"
  shows "\<exists>cp' vs'. SetupOtherInputs cp vs = Some (cp', vs') \<and> cp_level cp' = cp_level cp \<and> cp_input_version cp' = cp_input_version cp \<and>
    inputs_closed c (vs_current vs) (cp_level cp) (cp_inputs0 cp') (cp_inputs1 cp')"
proof -
  let ?l = "cp_level cp" and ?v = "vs_current vs"
  have lv: "level_ok c valid ?l (v_files ?v ?l)" "level_ok c valid (?l + 1) (v_files ?v (?l + 1))" using vs(2) cp(1) by simp_all
  obtain in0 where in0: "AddBoundaryInputs c (v_files ?v ?l) (cp_inputs0 cp) = Some in0" "start_ok c valid ?l (v_files ?v ?l) in0" "level_closed c ?l (v_files ?v ?l) in0"
    using AddBoundaryInputs_run [OF lv(1) cp(2)] by blast
  note ok0 = start_files [OF lv(1) in0(2)]
  obtain s l where sl: "GetRange c in0 = Some (s, l)" "smallest_key c in0 s" "largest_key c in0 l" using GetRange_run [of in0] ok0 by blast
  obtain x1 in1 where in1: "GetOverlappingInputs c (?l + 1) (Some s) (Some l) ?v = Some x1" "AddBoundaryInputs c (v_files ?v (?l + 1)) x1 = Some in1"
    "set in1 \<subseteq> set (v_files ?v (?l + 1))" "level_closed c (?l + 1) (v_files ?v (?l + 1)) in1"
    "\<forall>f \<in> set in0. \<forall>g \<in> set (v_files ?v (?l + 1)) - set in1. disjoint_users c f g"
    using next_inputs_run [OF _ sl(2,3) lv(2) cp(1)] ok0 by blast
  have ok1: "list_all (file_ok c valid) (in0 @ in1)" using ok0 in1(3) lv(2) by (auto simp: level_ok_def list_all_iff)
  obtain lo hi where r2: "GetRange2 c in0 in1 = Some (lo, hi)" "smallest_key c (in0 @ in1) lo" "largest_key c (in0 @ in1) hi"
    using GetRange_run [OF ok1] ok0 by (auto simp: GetRange2_def)
  have cl: "inputs_closed c ?v ?l in0 in1" using ok0 in0(3) in1(3-5) by (simp add: inputs_closed_def)
  obtain in0' in1' lo' hi' l' where ex: "expand_inputs c (vs_options vs) ?v ?l in0 in1 lo hi l = Some (in0', in1', lo', hi', l')"
    "inputs_closed c ?v ?l in0' in1'" "range_valid valid (map_option ExtractUserKey (Some lo'), map_option ExtractUserKey (Some hi'))"
    using expand_inputs_run [OF lv cp(1) cl ok1 r2(2,3)] by blast
  obtain gs where "(if ?l + 2 < kNumLevels then GetOverlappingInputs c (?l + 2) (Some lo') (Some hi') ?v else Some (cp_grandparents cp)) = Some gs"
    using overlap_start [of "?l + 2" ?v "Some lo'" "Some hi'"] vs(2) [of "?l + 2"] ex(3) by (cases "?l + 2 < kNumLevels") auto
  then show ?thesis using in0(1) sl(1) in1(1,2) r2(1) ex(1,2) vs(1) by (simp add: SetupOtherInputs_def Let_def)
qed

lemma single_start:
  assumes "level_ok c valid level files" and "f \<in> set files" and "0 < level"
  shows "start_ok c valid level files [f]"
proof -
  have "\<not> (before_file c f g \<and> before_file c g f)" if "g \<in> set files" for g
  proof
    assume a: "before_file c f g \<and> before_file c g f"
    have fo: "file_ok c valid f" "file_ok c valid g" using assms(1,2) that by (auto simp: level_ok_def list_all_iff)
    have "internal_compare c (fm_largest f) (fm_largest g) < 0" "internal_compare c (fm_largest g) (fm_largest f) < 0"
      using before_largest(1) a fo by blast+
    then show False using internal.cmp_neg_iff [OF file_okD(5) [OF fo(1)] file_okD(5) [OF fo(2)]] by simp
  qed
  then show ?thesis using assms by (auto simp: start_ok_def gapless_def)
qed

lemma limit_inputs_take: "\<exists>n. limit_inputs limit t fs = take n fs \<and> (fs \<noteq> [] \<longrightarrow> 0 < n)"
proof (induction fs arbitrary: t)
  case (Cons f fs)
  obtain n where "limit_inputs limit (t + fm_file_size f) fs = take n fs" using Cons by blast
  then show ?case by (cases "limit \<le> t + fm_file_size f") (auto simp: Let_def intro: exI [of _ 1] exI [of _ "Suc n"])
qed simp

lemma gapless_take:
  assumes lv: "level_ok c valid level S" "0 < level" and ok: "list_all (file_ok c valid) files" and S: "gapless c files S"
  shows "gapless c files (take n S)"
  unfolding gapless_def
proof (intro ballI impI)
  fix f h g
  assume f: "f \<in> set (take n S)" and h: "h \<in> set (take n S)" and g: "g \<in> set files" and fg: "before_file c f g" and gh: "before_file c g h"
  have "g \<in> set S" using S f h g fg gh set_take_subset [of n S] unfolding gapless_def by blast
  then obtain i where i: "i < length S" "S ! i = g" by (auto simp: in_set_conv_nth)
  obtain j where j: "j < length S" "j < n" "S ! j = h" using h by (auto simp: in_set_conv_nth)
  have fo: "file_ok c valid g" "file_ok c valid h" using lv(1) i j by (auto simp: level_ok_def list_all_length)
  have "\<not> j < i"
  proof
    assume "j < i"
    then have "before_file c h g" using lv i j by (auto simp: level_ok_def level_sorted_def sorted_wrt_iff_nth_less before_file_def)
    then have "internal_compare c (fm_largest h) (fm_largest g) < 0" "internal_compare c (fm_largest g) (fm_largest h) < 0"
      using before_largest(1) gh fo by blast+
    then show False using internal.cmp_neg_iff [OF file_okD(5) [OF fo(1)] file_okD(5) [OF fo(2)]] by simp
  qed
  then show "g \<in> set (take n S)" using i j by (auto simp: in_set_conv_nth intro!: exI [of _ i])
qed

lemma compaction_from_run:
  assumes vs: "vs_user_comparator vs = c" "\<And>l. l < kNumLevels \<Longrightarrow> level_ok c valid l (v_files (vs_current vs) l)"
    and l: "level + 1 < kNumLevels" and f: "f \<in> set (v_files (vs_current vs) level)"
  shows "\<exists>cp vs'. compaction_from level f vs = Some (cp, vs') \<and> cp_level cp = level \<and>
    inputs_closed c (vs_current vs) level (cp_inputs0 cp) (cp_inputs1 cp)"
proof -
  let ?v = "vs_current vs"
  have "\<exists>S. (if level = 0 then
         Option.bind (GetRange c [f]) (\<lambda>(smallest, largest).
         Option.bind (GetOverlappingInputs c 0 (Some smallest) (Some largest) ?v) (\<lambda>inputs. if inputs \<noteq> [] then Some inputs else None))
       else Some [f]) = Some S \<and> start_ok c valid level (v_files ?v level) S"
  proof (cases "level = 0")
    case True
    have fo: "list_all (file_ok c valid) [f]" using vs(2) [of 0] f l True by (simp add: level_ok_def list_all_iff)
    obtain lo hi where r: "GetRange c [f] = Some (lo, hi)" "smallest_key c [f] lo" "largest_key c [f] hi" using GetRange_run [OF fo] by auto
    obtain S where S: "GetOverlappingInputs c 0 (Some lo) (Some hi) ?v = Some S" "S \<noteq> [] \<longrightarrow> start_ok c valid 0 (v_files ?v 0) S"
      "\<forall>g \<in> set (v_files ?v 0). in_range c (Some (ExtractUserKey lo)) (Some (ExtractUserKey hi)) g \<longrightarrow> g \<in> set S"
      using overlap_start [OF vs(2) _ range_users(1) [OF fo r(2,3)], of 0] l by auto
    have "lo = fm_smallest f" "hi = fm_largest f" using r(2,3) by (auto simp: smallest_key_def largest_key_def)
    then have "in_range c (Some (ExtractUserKey lo)) (Some (ExtractUserKey hi)) f"
      using file_range [of f] fo cmp_le_iff [of "file_first f" "file_last f"] file_okD(6,7) [of c valid f] by (simp add: in_range_def)
    then have "f \<in> set S" using S(3) f True by blast
    then show ?thesis using True r(1) S(1,2) by auto
  next
    case False
    then show ?thesis using single_start [OF vs(2) f] l by auto
  qed
  then obtain S where S: "start_ok c valid level (v_files ?v level) S" and run: "compaction_from level f vs =
      SetupOtherInputs ((Compaction_new (vs_options vs) level ?v)\<lparr>cp_inputs0 := S\<rparr>) vs"
    using vs(1) by (force simp: compaction_from_def Let_def)
  have "cp_level ((Compaction_new (vs_options vs) level ?v)\<lparr>cp_inputs0 := S\<rparr>) = level" by (simp add: Compaction_new_def)
  then show ?thesis using SetupOtherInputs_run [OF vs, of "(Compaction_new (vs_options vs) level ?v)\<lparr>cp_inputs0 := S\<rparr>"] S l run by auto
qed

lemma picked_file_run:
  assumes "vs_ok valid vs"
  shows "picked_file vs = Some None \<or> (\<exists>level f. picked_file vs = Some (Some (level, f)) \<and> level + 1 < kNumLevels \<and> f \<in> set (v_files (vs_current vs) level))"
proof (cases "v_compaction_score (vs_current vs) \<ge> 1")
  case True
  let ?v = "vs_current vs"
  let ?l = "nat (v_compaction_level ?v)"
  let ?after = "filter (\<lambda>f. vs_compact_pointer vs ?l = [] \<or> internal_compare (vs_user_comparator vs) (fm_largest f) (vs_compact_pointer vs ?l) > 0) (v_files ?v ?l)"
  have l: "0 \<le> v_compaction_level ?v" "v_compaction_level ?v + 1 < int kNumLevels" "?l + 1 < kNumLevels" "v_files ?v ?l \<noteq> []"
    using assms True by (auto simp: vs_ok_def Let_def)
  define f where "f = (if ?after = [] then hd (v_files ?v ?l) else hd ?after)"
  have "f \<in> set (v_files ?v ?l)" using l(4) hd_in_set [of ?after] by (auto simp: f_def)
  moreover have "(case (?after, v_files ?v ?l) of (f # _, _) \<Rightarrow> Some (Some (?l, f)) | ([], f # _) \<Rightarrow> Some (Some (?l, f)) | ([], []) \<Rightarrow> None) = Some (Some (?l, f))"
    using l(4) by (cases ?after; cases "v_files ?v ?l") (auto simp: f_def)
  ultimately show ?thesis using True l by (intro disjI2 exI [of _ ?l] exI [of _ f]) (simp add: picked_file_def Let_def)
next
  case False
  then show ?thesis using assms by (cases "v_file_to_compact (vs_current vs)") (auto simp: picked_file_def vs_ok_def Let_def)
qed

lemma PickCompaction_run:
  assumes "vs_ok valid vs" and "vs_user_comparator vs = c"
  shows "PickCompaction vs = Some (None, vs) \<or> (\<exists>cp vs'. PickCompaction vs = Some (Some cp, vs') \<and> cp_level cp + 1 < kNumLevels \<and>
    inputs_closed c (vs_current vs) (cp_level cp) (cp_inputs0 cp) (cp_inputs1 cp))"
  using picked_file_run [OF assms(1)]
proof
  assume "picked_file vs = Some None"
  then show ?thesis by (simp add: PickCompaction_def)
next
  assume "\<exists>level f. picked_file vs = Some (Some (level, f)) \<and> level + 1 < kNumLevels \<and> f \<in> set (v_files (vs_current vs) level)"
  then obtain level f where f: "picked_file vs = Some (Some (level, f))" "level + 1 < kNumLevels" "f \<in> set (v_files (vs_current vs) level)" by blast
  have lv: "\<And>l. l < kNumLevels \<Longrightarrow> level_ok c valid l (v_files (vs_current vs) l)" using assms by (simp add: vs_ok_def Let_def)
  then show ?thesis using compaction_from_run [OF assms(2) lv f(2,3)] f by (auto simp: PickCompaction_def)
qed

lemma CompactRange_run:
  assumes vs: "vs_ok valid vs" "vs_user_comparator vs = c" and l: "level + 1 < kNumLevels"
    and r: "range_valid valid (map_option ExtractUserKey b, map_option ExtractUserKey e)"
  shows "CompactRange level b e vs = Some (None, vs) \<or> (\<exists>cp vs'. CompactRange level b e vs = Some (Some cp, vs') \<and> cp_level cp = level \<and>
    inputs_closed c (vs_current vs) level (cp_inputs0 cp) (cp_inputs1 cp))"
proof -
  let ?v = "vs_current vs"
  have lv: "\<And>l. l < kNumLevels \<Longrightarrow> level_ok c valid l (v_files ?v l)" using vs by (simp add: vs_ok_def Let_def)
  obtain S where S: "GetOverlappingInputs c level b e ?v = Some S" "S \<noteq> [] \<longrightarrow> start_ok c valid level (v_files ?v level) S"
    using overlap_start [OF lv _ r, of level] l by auto
  show ?thesis
  proof (cases "S = []")
    case True
    then show ?thesis using S(1) vs(2) by (simp add: CompactRange_def)
  next
    case ne: False
    define S' where "S' = (if level > 0 then limit_inputs (of_nat (MaxFileSizeForLevel (vs_options vs) level)) 0 S else S)"
    have st: "start_ok c valid level (v_files ?v level) S'"
    proof (cases "level = 0")
      case False
      obtain n where n: "S' = take n S" "0 < n" using limit_inputs_take [of _ 0 S] False ne by (auto simp: S'_def)
      have ok: "level_ok c valid level (v_files ?v level)" using lv l by simp
      have "S = filter (in_range c (map_option ExtractUserKey b) (map_option ExtractUserKey e)) (v_files ?v level)"
        using GetOverlappingInputs_level [of level b e ?v] False l S(1) by simp
      then have "level_ok c valid level S" using ok by (auto simp: level_ok_def level_sorted_def list_all_iff sorted_wrt_filter)
      then have "gapless c (v_files ?v level) (take n S)" using gapless_take [of level S] False S(2) ne ok by (auto simp: start_ok_def level_ok_def)
      then show ?thesis using S(2) ne n False by (auto simp: start_ok_def dest: in_set_takeD)
    qed (use S(2) ne in \<open>simp add: S'_def\<close>)
    have "cp_level ((Compaction_new (vs_options vs) level ?v)\<lparr>cp_inputs0 := S'\<rparr>) = level" by (simp add: Compaction_new_def)
    then obtain cp vs' where "SetupOtherInputs ((Compaction_new (vs_options vs) level ?v)\<lparr>cp_inputs0 := S'\<rparr>) vs = Some (cp, vs')" "cp_level cp = level"
      "inputs_closed c ?v level (cp_inputs0 cp) (cp_inputs1 cp)"
      using SetupOtherInputs_run [OF vs(2) lv, of "(Compaction_new (vs_options vs) level ?v)\<lparr>cp_inputs0 := S'\<rparr>"] st l by auto
    then show ?thesis using S(1) ne vs(2) by (simp add: CompactRange_def Let_def S'_def)
  qed
qed

lemma disjoint_users_adds:
  assumes "disjoint_users c f g" and f: "holds_file c valid xs f" "a \<in> set xs" and g: "holds_file c valid ys g" "b \<in> set ys"
  shows "Compare c (ExtractUserKey (add_ikey a)) (ExtractUserKey (add_ikey b)) \<noteq> 0"
proof -
  note hf = holds_fileD [OF f(1)] and hg = holds_fileD [OF g(1)]
  have v: "valid (ExtractUserKey (add_ikey a))" "valid (ExtractUserKey (add_ikey b))" using add_ok_fields(2) hf(2) [OF f(2)] hg(2) [OF g(2)] by blast+
  have fa: "Compare c (file_first f) (ExtractUserKey (add_ikey a)) \<le> 0" "Compare c (ExtractUserKey (add_ikey a)) (file_last f) \<le> 0"
    using internal_le_user hf(3,4) [OF f(2)] by blast+
  have gb: "Compare c (file_first g) (ExtractUserKey (add_ikey b)) \<le> 0" "Compare c (ExtractUserKey (add_ikey b)) (file_last g) \<le> 0"
    using internal_le_user hg(3,4) [OF g(2)] by blast+
  note vf = file_okD(6,7) [OF hf(1)] and vg = file_okD(6,7) [OF hg(1)]
  from assms(1) consider "Compare c (file_last f) (file_first g) < 0" | "Compare c (file_last g) (file_first f) < 0" by (auto simp: disjoint_users_def)
  then show ?thesis
  proof cases
    case 1
    then show ?thesis using cmp_less_trans [OF v(1) vg(1) v(2) cmp_le_less_trans [OF v(1) vf(2) vg(1) fa(2)] gb(1)] by simp
  next
    case 2
    then have "Compare c (ExtractUserKey (add_ikey b)) (ExtractUserKey (add_ikey a)) < 0"
      using cmp_less_trans [OF v(2) vf(1) v(1) cmp_le_less_trans [OF v(2) vg(2) vf(1) gb(2)] fa(1)] by simp
    then show ?thesis using cmp_neg_iff [OF v(2,1)] by simp
  qed
qed

lemma before_adds:
  assumes "before_file c g f" and f: "holds_file c valid xs f" "a \<in> set xs" and g: "holds_file c valid ys g" "b \<in> set ys"
  shows "internal_compare c (add_ikey b) (add_ikey a) < 0"
proof -
  note hf = holds_fileD [OF f(1)] and hg = holds_fileD [OF g(1)]
  have v: "valid_internal valid (add_ikey a)" "valid_internal valid (add_ikey b)"
    using ikey_ok_valid(1) [OF add_ok_fields(3) [OF hf(2) [OF f(2)]]] ikey_ok_valid(1) [OF add_ok_fields(3) [OF hg(2) [OF g(2)]]] by blast+
  have "internal_compare c (add_ikey b) (fm_smallest f) < 0"
    using internal.cmp_le_less_trans [OF v(2) file_okD(5) [OF hg(1)] file_okD(4) [OF hf(1)]] hg(4) [OF g(2)] assms(1) by (simp add: before_file_def)
  then show ?thesis using internal.cmp_less_trans [OF v(2) file_okD(4) [OF hf(1)] v(1)] hf(3) [OF f(2)] by simp
qed

lemma closed_newer:
  assumes cl: "level_closed c m (v_files v m) S" and sub: "set S \<subseteq> set (v_files v m)" and m: "m < kNumLevels"
    and v: "version_ok c contents v" and holds: "\<forall>f \<in> set (version_files v). holds_file c valid (contents (fm_number f)) f"
    and f: "f \<in> set S" and g: "g \<in> set (v_files v m) - set S"
  shows "newer_adds c (contents (fm_number g)) (contents (fm_number f))"
  unfolding newer_adds_def
proof (intro ballI impI)
  fix b a
  assume b: "b \<in> set (contents (fm_number g))" and a: "a \<in> set (contents (fm_number f))"
    and same: "Compare c (ExtractUserKey (add_ikey b)) (ExtractUserKey (add_ikey a)) = 0"
  have fv: "f \<in> set (version_files v)" "g \<in> set (version_files v)" using f g sub m by (auto simp: version_files_def)
  have hf: "holds_file c valid (contents (fm_number f)) f" "holds_file c valid (contents (fm_number g)) g" using holds fv by blast+
  have ok: "add_ok valid a" "add_ok valid b" using holds_fileD(2) [OF hf(1) a] holds_fileD(2) [OF hf(2) b] by blast+
  have "Compare c (ExtractUserKey (add_ikey a)) (ExtractUserKey (add_ikey b)) = 0" using same cmp_zero_iff add_ok_fields(2) ok by blast
  then have "\<not> disjoint_users c f g" using disjoint_users_adds [OF _ hf(1) a hf(2) b] by blast
  then have "before_file c g f" using cl f g by (auto simp: level_closed_def)
  then have lt: "internal_compare c (add_ikey b) (add_ikey a) < 0" using before_adds [OF _ hf(1) a hf(2) b] by blast
  then have "internal_tag (add_ikey a) < internal_tag (add_ikey b)" using same by (simp add: internal_compare_iff)
  then have "fst a \<le> fst b" by (rule add_tag_less [OF ok])
  moreover have "fst a \<noteq> fst b"
  proof
    assume eq: "fst a = fst b"
    have "a \<in> set (version_adds contents v)" "b \<in> set (version_adds contents v)" using a b fv by (auto simp: version_adds_def)
    moreover have "distinct (map fst (version_adds contents v))" using v by (simp add: version_ok_def)
    ultimately have "a = b" using eq by (metis eq_key_imp_eq_value prod.collapse)
    then show False using lt internal.cmp_refl [OF ikey_ok_valid(1) [OF add_ok_fields(3) [OF ok(1)]]] by simp
  qed
  ultimately show "fst a < fst b" by simp
qed

lemma inputs_closed_safe:
  assumes cl: "inputs_closed c v (cp_level cp) (cp_inputs0 cp) (cp_inputs1 cp)" and l: "cp_level cp + 1 < kNumLevels"
    and v: "version_ok c contents v" and holds: "\<forall>f \<in> set (version_files v). holds_file c valid (contents (fm_number f)) f"
  shows "safe_inputs c contents v cp"
proof -
  let ?l = "cp_level cp" and ?in0 = "cp_inputs0 cp" and ?in1 = "cp_inputs1 cp"
  have vf: "f \<in> set (version_files v)" if "f \<in> set (v_files v m)" "m < kNumLevels" for f m using that by (auto simp: version_files_def)
  have sub: "?in0 \<noteq> []" "set ?in0 \<subseteq> set (v_files v ?l)" "set ?in1 \<subseteq> set (v_files v (?l + 1))"
    and lc: "level_closed c ?l (v_files v ?l) ?in0" "level_closed c (?l + 1) (v_files v (?l + 1)) ?in1" using cl by (simp_all add: inputs_closed_def)
  have l0: "?l < kNumLevels" using l by simp
  note newer = closed_newer [OF lc(1) sub(2) l0 v holds] closed_newer [OF lc(2) sub(3) l v holds]
  have "Compare c (ExtractUserKey (add_ikey a)) (ExtractUserKey (add_ikey b)) \<noteq> 0"
    if f: "f \<in> set ?in0" and g: "g \<in> set (v_files v (?l + 1)) - set ?in1" and a: "a \<in> set (contents (fm_number f))" and b: "b \<in> set (contents (fm_number g))" for f g a b
  proof -
    have "disjoint_users c f g" using cl f g by (auto simp: inputs_closed_def)
    moreover have "f \<in> set (version_files v)" "g \<in> set (version_files v)" using vf [of f ?l] vf [of g "?l + 1"] f g sub(2) l by auto
    ultimately show ?thesis using disjoint_users_adds [of f g _ a _ b] holds a b by blast
  qed
  then show ?thesis using sub newer unfolding safe_inputs_def by blast
qed

end

subsection \<open>Properties\<close>

text \<open>C4: The inputs of every compaction are safe to move down. For a version set whose version is in order, \<open>PickCompaction\<close> (for a level that is
  too large or a file with too many seeks) and \<open>CompactRange\<close> (for any range of keys) return, without a failed assertion and without running
  forever in the search for boundary files. When they choose a compaction, no entry that stays on the level is older than an entry of the same
  user key that moves down, no entry that stays on the next level is older than one of an input from that level, and no file that stays on
  the next level has an entry of a user key that moves down. So the compaction cannot
  uncover an older version of a key.\<close>
theorem compaction_inputs_safe:
  assumes "user_comparator c valid" and "vs_user_comparator vs = c" and "vs_ok valid vs" and "version_ok c contents (vs_current vs)"
    and "\<forall>f \<in> set (version_files (vs_current vs)). holds_file c valid (contents (fm_number f)) f"
    and "level + 1 < kNumLevels" and "range_valid valid (map_option ExtractUserKey b, map_option ExtractUserKey e)"
  shows "(PickCompaction vs = Some (None, vs) \<or>
      (\<exists>cp vs'. PickCompaction vs = Some (Some cp, vs') \<and> safe_inputs c contents (vs_current vs) cp)) \<and>
    (CompactRange level b e vs = Some (None, vs) \<or>
      (\<exists>cp vs'. CompactRange level b e vs = Some (Some cp, vs') \<and> safe_inputs c contents (vs_current vs) cp))"
  using user_comparator.PickCompaction_run [OF assms(1,3,2)] user_comparator.CompactRange_run [OF assms(1,3,2,6,7)]
    user_comparator.inputs_closed_safe [OF assms(1) _ _ assms(4,5)] assms(6) by metis

text \<open>The entries of one user key continue from the first file of level 1 in the second.\<close>

definition sample_contents :: "u64 \<Rightarrow> mem_add list" where
  "sample_contents n = (if n = 7 then [(9, kTypeValue, [1], [10])] else if n = 8 then [(4, kTypeValue, [1], [11])] else [])"

definition sample_vs :: VersionSet where
  "sample_vs =
     \<lparr>vs_options = Options_new, vs_user_comparator = BytewiseComparator, vs_next_file_number = 9, vs_manifest_file_number = 1, vs_last_sequence = 9,
      vs_log_number = 2, vs_prev_log_number = 0,
      vs_current = Version_new\<lparr>v_files := (\<lambda>_. [])(1 := [FileMetaData_new 7 100 (NewInternalKey [1] 9 kTypeValue) (NewInternalKey [1] 9 kTypeValue),
        FileMetaData_new 8 100 (NewInternalKey [1] 4 kTypeValue) (NewInternalKey [1] 4 kTypeValue)]),
        v_compaction_score := 1, v_compaction_level := 1\<rparr>,
      vs_compact_pointer = (\<lambda>_. [])\<rparr>"

theorem compaction_inputs_safe_witness:
  "\<exists>cp vs'. PickCompaction sample_vs = Some (Some cp, vs') \<and> safe_inputs BytewiseComparator sample_contents (vs_current sample_vs) cp"
proof -
  let ?v = "vs_current sample_vs"
  have cmp: "internal_compare BytewiseComparator (NewInternalKey [1] 9 kTypeValue) (NewInternalKey [1] 4 kTypeValue) < 0"
    "internal_compare BytewiseComparator (NewInternalKey [1] s kTypeValue) (NewInternalKey [1] s kTypeValue) = 0" for s
    by (simp_all add: internal_compare_iff BytewiseComparator_def PackSequenceAndType_def)
  have files: "version_files ?v = v_files ?v 1" "v_files ?v 1 = [FileMetaData_new 7 100 (NewInternalKey [1] 9 kTypeValue) (NewInternalKey [1] 9 kTypeValue),
        FileMetaData_new 8 100 (NewInternalKey [1] 4 kTypeValue) (NewInternalKey [1] 4 kTypeValue)]"
    by (simp_all add: version_files_def kNumLevels_def upt_conv_Cons sample_vs_def)
  have fok: "list_all (file_ok BytewiseComparator (\<lambda>_. True)) (v_files ?v l)" for l
    by (simp add: sample_vs_def file_ok_def FileMetaData_new_def kMaxSequenceNumber_def cmp Version_new_def)
  have srt: "level_sorted BytewiseComparator (v_files ?v l)" for l
    using cmp(1) by (simp add: sample_vs_def level_sorted_def FileMetaData_new_def Version_new_def)
  have 1: "vs_ok (\<lambda>_. True) sample_vs"
    using fok srt by (simp add: vs_ok_def Let_def level_ok_def) (simp add: sample_vs_def kNumLevels_def Version_new_def)
  have 2: "version_ok BytewiseComparator sample_contents ?v"
    unfolding version_ok_def using srt
    by (simp add: version_adds_def files) (simp add: sample_contents_def FileMetaData_new_def sample_vs_def Version_new_def)
  have 3: "\<forall>f \<in> set (version_files ?v). holds_file BytewiseComparator (\<lambda>_. True) (sample_contents (fm_number f)) f"
    using fok [of 1] cmp unfolding files
    by (simp add: holds_file_def sample_contents_def FileMetaData_new_def add_ok_def add_ikey_def kMaxSequenceNumber_def)
  have 4: "vs_user_comparator sample_vs = BytewiseComparator" by (simp add: sample_vs_def)
  have "PickCompaction sample_vs \<noteq> Some (None, sample_vs)"
    by (auto simp: PickCompaction_def picked_file_def sample_vs_def kNumLevels_def Version_new_def bind_eq_Some_conv split: option.splits)
  with compaction_inputs_safe [OF bytewise_user.user_comparator_axioms 4 1 2 3, of 1 None None] show ?thesis by (auto simp: kNumLevels_def range_valid_def)
qed

end
