(* ===== verification/Spec2Isabelle.thy ===== *)
theory Spec2Isabelle
  imports Crc32c Bloom Filename LogReader PmGroup WriteBatch VersionEdit Snapshot MemTableIterator VersionTables CompactionSpec
begin

text \<open>
  A verification development for the key-value store of this repository: the persistent-memory partition manager under \<open>src/src\<close> and
  \<open>src/include\<close>, and the LevelDB engine under \<open>src/lib/leveldb\<close>. Paths below are relative to the latter unless they start with \<open>src/\<close>.

  \<^bold>\<open>The program.\<close> A write is a batch of operations (\<open>db/write_batch.cc\<close>). It is appended to a log (\<open>db/log_writer.cc\<close>) and inserted into the
  memtable (\<open>db/memtable.cc\<close>), a skip list (\<open>db/skiplist.h\<close>) in an arena (\<open>util/arena.cc\<close>). A full memtable becomes a sorted table file
  (\<open>table/table_builder.cc\<close>) made of blocks (\<open>table/block_builder.cc\<close>), filters (\<open>table/filter_block.cc\<close>, \<open>util/bloom.cc\<close>), an index and a
  footer (\<open>table/format.cc\<close>). The tables are the files of seven levels; a version (\<open>db/version_set.cc\<close>) says which files there are, and the
  manifest records the changes (\<open>db/version_edit.cc\<close>). A compaction merges files of one level into the next. A lookup asks the memtable and
  then the files of the version from newest to oldest; a scan merges the iterators of all of them (\<open>table/merger.cc\<close>) and hides what a
  snapshot does not see (\<open>db/db_iter.cc\<close>). The partition manager keeps durable lists of large nodes in persistent memory.

  \<^bold>\<open>How code becomes definitions.\<close> Bytes are 8-bit words, and a \<open>std::string\<close> or \<open>Slice\<close> is a list of them; a pointer into a buffer is the
  suffix that is left. Integers that may wrap around are words of their width; sizes that the code keeps in range are natural numbers. A
  class is a record, an abstract class a record of its virtual methods over a type of states. An out-parameter is part of the result. A
  failed assertion, an access outside a buffer, and a loop that does not return give \<^term>\<open>None\<close>; statuses are values (\<open>Status\<close>). A loop
  with an evident measure is a terminating function; the others are partial functions, and that they return is proved. No definition uses
  fuel. Locking is left out, except that the skip list has a step relation for searches that run beside an insertion.

  \<^bold>\<open>Theories.\<close>

  \<^item> \<open>Prelude\<close>: bytes, words, and the facts on lists and words that the components share.

  \<^item> \<open>Coding\<close>, \<open>Logging\<close>, \<open>Status\<close>, \<open>Comparator\<close>, \<open>RandomGen\<close>, \<open>DList\<close>: \<open>util/coding\<close>, \<open>util/logging\<close>, \<open>util/status\<close>, \<open>util/comparator\<close>,
    \<open>util/random.h\<close> and doubly linked lists. Varints and length-prefixed strings round trip, numbers are read exactly, and the shortened keys
    of the bytewise comparator lie where the table format needs them (locale \<open>comparator\<close>).

  \<^item> \<open>Crc32cTables\<close>, \<open>Crc32c\<close>, \<open>Bloom\<close>: \<open>util/crc32c.cc\<close>, \<open>util/hash.cc\<close>, \<open>util/bloom.cc\<close>. The strided checksum equals the bit-serial one; a
    filter has no false negatives (locale \<open>filter_policy\<close>).

  \<^item> \<open>DbFormat\<close>: internal keys, their comparator and filter policy (\<open>db/dbformat\<close>), with the locales \<open>user_comparator\<close> and \<open>user_filter_policy\<close>
    and the sublocales that carry the contract of the user's objects to the internal ones.

  \<^item> \<open>FileIO\<close>, \<open>MemEnv\<close>, \<open>Filename\<close>: the environment interface (\<open>include/leveldb/env.h\<close>, \<open>util/env.cc\<close>) with its locales, the in-memory
    environment (\<open>helpers/memenv/memenv.cc\<close>) that implements them on a heap with reference counts, and \<open>db/filename.cc\<close>.

  \<^item> \<open>LogWriter\<close>, \<open>LogReader\<close>: what is written to a log is read back; a log cut off anywhere is read up to its last whole record; reading
    returns on every file, and delivers only records with the stored checksum.

  \<^item> \<open>Arena\<close>, \<open>SkipList\<close>, \<open>SkipListSpec\<close>, \<open>MemTable\<close>, \<open>WriteBatch\<close>: the arena hands out disjoint regions, which gives the locale
    \<open>node_allocator\<close>; the skip list implements a sorted list, also for concurrent searches; a memtable lookup finds the newest visible
    version; batches round trip and insert as consecutive additions.

  \<^item> \<open>IterBase\<close>, \<open>Block\<close>, \<open>BlockSpec\<close>, \<open>BlockIterator\<close>, \<open>Merger\<close>, \<open>TwoLevel\<close>, \<open>DBIter\<close>, \<open>DBIterSpec\<close>, \<open>MemTableIterator\<close>: the iterator
    interface, whose contract is the locale \<open>sorted_iterator\<close>. Blocks, memtables, the merging, the two-level and the database iterator each
    give the contract, over the contracts of the iterators they use.

  \<^item> \<open>FilterBlock\<close>, \<open>Format\<close>, \<open>TableBuilder\<close>, \<open>TableImage\<close>, \<open>Table\<close>, \<open>TableSpec\<close>: table files. The builder writes an image that is a function
    of the pairs; such a file opens, its iterator walks the pairs, and lookups find them through index and filter.

  \<^item> \<open>VersionEdit\<close>, \<open>Snapshot\<close>: the records of the manifest round trip; the snapshot list is bounded by its ends.

  \<^item> \<open>Version\<close>, \<open>VersionSpec\<close>, \<open>VersionGet\<close>, \<open>VersionTables\<close>: the files of a version. The binary search agrees with the linear one; the search
    for overlapping inputs returns a closed set of files; \<open>Version::Get\<close> answers by the newest visible entry of all files. The locale
    \<open>table_lookups\<close> says what a version needs of the lookups in its files, and \<open>internal_table\<close> what a table of internal keys gives.

  \<^item> \<open>Compaction\<close>, \<open>CompactionSpec\<close>: choosing the inputs of a compaction (\<open>PickCompaction\<close>, \<open>CompactRange\<close>, \<open>SetupOtherInputs\<close>) returns, and
    the inputs are safe to move down a level.

  \<^item> \<open>PmGroup\<close>: \<open>src/src/groupManager.cc\<close>, \<open>src/src/deviceManager.cc\<close>. Persistent memory is a cache in front of durable lines; the list of a
    partition is what its operations say, and a crash inside an append leaves the old or the new list.

  \<^bold>\<open>Parameters.\<close> Code outside the repository is an argument: the memory allocator, the compression libraries (locale \<open>lossless_port\<close>), the
  accelerated checksum, and \<open>libpmemobj\<close>. So are user-supplied comparators and filter policies and the table cache, which are interfaces.
  Hypotheses on them are the locales named above, and the witnesses instantiate them.

  \<^bold>\<open>Not modelled.\<close> Threads, locks and the background work of \<open>db/db_impl.cc\<close>; the version builder, recovery and the writing of the manifest in
  \<open>db/version_set.cc\<close>; the sharded cache \<open>util/cache.cc\<close> and \<open>db/table_cache.cc\<close>, for which lookups of versions use tables opened afresh;
  \<open>db/repair.cc\<close>; the POSIX and Windows environments, which are system calls; the C interface, dump tools, benchmarks and tests.
\<close>

end
